(* ===== verification/Prelude.thy ===== *)
theory Prelude
  imports Main "HOL-Library.Word" "HOL-Library.Multiset"
begin

text \<open>
  What every component shares: the machine integers of the C code, the C string functions it
  calls, the contract of a three-way comparison function (\<open>cmp_order\<close>) with the
  lexicographic chaining all comparators of the repository are written in, the insertion sort
  the code has twice (capreqidx.c, pkgset-req.c), and the contract of the sorted arrays of the
  trurlib submodule (\<open>sorted_arrays\<close>), which is not part of the repository.
\<close>

unbundle bit_operations_syntax

named_theorems cmp_intros \<open>closure rules of three-way comparison functions\<close>
named_theorems flag_simps \<open>evaluation of flag words\<close>

section \<open>Machine integers\<close>

type_synonym u8 = "8 word"
type_synonym u16 = "16 word"
type_synonym u32 = "32 word"

text \<open>
  \<open>i32_diff a b\<close> is the C expression \<open>a - b\<close> of two \<open>int32_t\<close> stored as 32-bit words,
  read back as an \<open>int\<close>: the subtraction wraps at the width of \<open>int\<close>.
\<close>

definition i32_diff :: "u32 \<Rightarrow> u32 \<Rightarrow> int" where
  "i32_diff a b = sint (a - b)"

lemma i32_diff_self [simp]: "i32_diff a a = 0"
  by (simp add: i32_diff_def)

lemma i32_diff_eq_0: "i32_diff a b = 0 \<longleftrightarrow> a = b"
  by (simp add: i32_diff_def signed_eq_0_iff)

definition nonneg32 :: "u32 \<Rightarrow> bool" where
  "nonneg32 w \<longleftrightarrow> 0 \<le> sint w"

lemma i32_diff_nonneg:
  assumes "nonneg32 a" and "nonneg32 b"
  shows "i32_diff a b = sint a - sint b"
proof -
  have "sint a < 2 ^ 31" and "sint b < 2 ^ 31"
    using sint_lt [of a] sint_lt [of b] by simp_all
  then have "- (2 ^ 31) \<le> sint a - sint b" and "sint a - sint b < 2 ^ 31"
    using assms by (simp_all add: nonneg32_def)
  then show ?thesis
    unfolding i32_diff_def
    by (simp add: signed_take_bit_int_eq_self sint_word_ariths(2))
qed

section \<open>C strings\<close>

text \<open>
  A C string is the list of its bytes before the terminating \<open>NUL\<close>. Only the sign of
  \<open>strcmp\<close>'s result is specified; the end of a string sorts before every byte.
\<close>

fun strcmp :: "string \<Rightarrow> string \<Rightarrow> int" where
  "strcmp [] [] = 0"
| "strcmp [] (d # ds) = - 1"
| "strcmp (c # cs) [] = 1"
| "strcmp (c # cs) (d # ds) =
     (if c = d then strcmp cs ds else of_char c - of_char d)"

fun strncmp :: "string \<Rightarrow> string \<Rightarrow> nat \<Rightarrow> int" where
  "strncmp s t 0 = 0"
| "strncmp [] [] (Suc n) = 0"
| "strncmp [] (d # ds) (Suc n) = - 1"
| "strncmp (c # cs) [] (Suc n) = 1"
| "strncmp (c # cs) (d # ds) (Suc n) =
     (if c = d then strncmp cs ds n else of_char c - of_char d)"

lemma strncmp_take: "strncmp s t n = strcmp (take n s) (take n t)"
  by (induction s t n rule: strncmp.induct) auto

lemma strcmp_refl [simp]: "strcmp s s = 0"
  by (induction s) auto

lemma strcmp_eq_0 [simp]: "strcmp s t = 0 \<longleftrightarrow> s = t"
  by (induction s t rule: strcmp.induct) auto

lemma strncmp_refl [simp]: "strncmp s s n = 0"
  by (simp add: strncmp_take)

lemma strcmp_antisym: "sgn (strcmp s t) = - sgn (strcmp t s)"
proof (induction s t rule: strcmp.induct)
  case (4 c cs d ds)
  then show ?case by (cases "c = d") (auto simp: sgn_if)
qed auto

lemma strcmp_trans:
  "strcmp a b \<le> 0 \<Longrightarrow> strcmp b c \<le> 0 \<Longrightarrow> strcmp a c \<le> 0"
proof (induction a b arbitrary: c rule: strcmp.induct)
  case (2 d ds)
  then show ?case by (cases c) auto
next
  case (4 x xs y ys)
  then show ?case by (cases c) (auto split: if_splits)
qed (auto elim: strcmp.elims)

text \<open>\<open>strchr s c\<close>: the suffix of \<open>s\<close> at the first \<open>c\<close>; \<open>strrchr\<close>: at the last.\<close>

definition strchr :: "string \<Rightarrow> char \<Rightarrow> string option" where
  "strchr s c = (if c \<in> set s then Some (dropWhile (\<lambda>x. x \<noteq> c) s) else None)"

definition before_chr :: "string \<Rightarrow> char \<Rightarrow> string" where
  "before_chr s c = takeWhile (\<lambda>x. x \<noteq> c) s"

definition after_chr :: "string \<Rightarrow> char \<Rightarrow> string" where
  "after_chr s c = tl (dropWhile (\<lambda>x. x \<noteq> c) s)"

definition before_rchr :: "string \<Rightarrow> char \<Rightarrow> string" where
  "before_rchr s c = rev (after_chr (rev s) c)"

definition after_rchr :: "string \<Rightarrow> char \<Rightarrow> string" where
  "after_rchr s c = rev (before_chr (rev s) c)"

lemma split_at_chr: "c \<in> set s \<Longrightarrow> s = before_chr s c @ c # after_chr s c"
  by (induction s) (auto simp: before_chr_def after_chr_def)

lemma before_chr_append [simp]:
  "c \<notin> set p \<Longrightarrow> before_chr (p @ c # q) c = p"
  by (induction p) (auto simp: before_chr_def)

lemma after_chr_append [simp]:
  "c \<notin> set p \<Longrightarrow> after_chr (p @ c # q) c = q"
  by (induction p) (auto simp: after_chr_def)

lemma before_chr_notin [simp]: "c \<notin> set s \<Longrightarrow> before_chr s c = s"
  by (induction s) (auto simp: before_chr_def)

lemma chr_notin_before [simp]: "c \<notin> set (before_chr s c)"
  by (auto simp: before_chr_def dest: set_takeWhileD)

lemma before_rchr_append [simp]:
  "c \<notin> set q \<Longrightarrow> before_rchr (p @ c # q) c = p"
  by (simp add: before_rchr_def)

lemma after_rchr_append [simp]:
  "c \<notin> set q \<Longrightarrow> after_rchr (p @ c # q) c = q"
  by (simp add: after_rchr_def)

definition is_space :: "char \<Rightarrow> bool" where
  "is_space c \<longleftrightarrow> c \<in> set [CHR '' '', CHR 0x09, CHR 0x0A, CHR 0x0B, CHR 0x0C, CHR 0x0D]"

definition is_digit :: "char \<Rightarrow> bool" where
  "is_digit c \<longleftrightarrow> 48 \<le> (of_char c :: nat) \<and> (of_char c :: nat) \<le> 57"

definition skip_space :: "string \<Rightarrow> string" where
  "skip_space = dropWhile is_space"

lemma skip_space_Cons [simp]:
  "skip_space (c # s) = (if is_space c then skip_space s else c # s)"
  by (simp add: skip_space_def)

lemma skip_space_Nil [simp]: "skip_space [] = []"
  by (simp add: skip_space_def)

lemma length_skip_space: "length (skip_space s) \<le> length s"
  by (simp add: skip_space_def length_dropWhile_le)

text \<open>The \<open>%d\<close> conversion.\<close>

fun dec_nat :: "nat \<Rightarrow> string" where
  "dec_nat n = (if n < 10 then [char_of (48 + n)]
                else dec_nat (n div 10) @ [char_of (48 + n mod 10)])"

declare dec_nat.simps [simp del]

definition dec_int :: "int \<Rightarrow> string" where
  "dec_int i = (if i < 0 then CHR ''-'' # dec_nat (nat (- i)) else dec_nat (nat i))"

section \<open>Three-way comparison functions\<close>

text \<open>
  What a comparison function handed to a sort or to a binary search must satisfy: it is the
  sign of a total preorder on the carrier \<open>S\<close>. The carrier matters: several comparators of
  the code subtract machine integers and obey the laws on a part of their type only.
\<close>

locale cmp_order =
  fixes S :: "'a set" and cmp :: "'a \<Rightarrow> 'a \<Rightarrow> int"
  assumes refl: "x \<in> S \<Longrightarrow> cmp x x = 0"
    and anti: "x \<in> S \<Longrightarrow> y \<in> S \<Longrightarrow> sgn (cmp x y) = - sgn (cmp y x)"
    and trans: "x \<in> S \<Longrightarrow> y \<in> S \<Longrightarrow> z \<in> S \<Longrightarrow> cmp x y \<le> 0 \<Longrightarrow> cmp y z \<le> 0 \<Longrightarrow> cmp x z \<le> 0"

text \<open>\<open>sorted_cmp\<close> is what the trurlib call \<open>n_array_is_sorted\<close> reports.\<close>

fun sorted_cmp :: "('a \<Rightarrow> 'a \<Rightarrow> int) \<Rightarrow> 'a list \<Rightarrow> bool" where
  "sorted_cmp cmp [] = True"
| "sorted_cmp cmp (x # xs) = ((\<forall>y \<in> set xs. cmp x y \<le> 0) \<and> sorted_cmp cmp xs)"

lemma sorted_cmp_append:
  "sorted_cmp cmp (xs @ ys) \<longleftrightarrow>
     sorted_cmp cmp xs \<and> sorted_cmp cmp ys \<and> (\<forall>x \<in> set xs. \<forall>y \<in> set ys. cmp x y \<le> 0)"
  by (induction xs) auto

text \<open>
  The insertion sort of \<open>idx_ent_sort\<close> and \<open>isort_pkgs\<close>: \<open>ins_right\<close> moves the new element
  to the left over the sorted prefix (kept reversed) while it compares smaller.
\<close>

fun ins_right :: "('a \<Rightarrow> 'a \<Rightarrow> int) \<Rightarrow> 'a \<Rightarrow> 'a list \<Rightarrow> 'a list" where
  "ins_right cmp t [] = [t]"
| "ins_right cmp t (x # xs) = (if cmp t x < 0 then x # ins_right cmp t xs else t # x # xs)"

fun isort_from :: "('a \<Rightarrow> 'a \<Rightarrow> int) \<Rightarrow> 'a list \<Rightarrow> 'a list \<Rightarrow> 'a list" where
  "isort_from cmp acc [] = rev acc"
| "isort_from cmp acc (x # xs) = isort_from cmp (ins_right cmp x acc) xs"

definition isort :: "('a \<Rightarrow> 'a \<Rightarrow> int) \<Rightarrow> 'a list \<Rightarrow> 'a list" where
  "isort cmp xs = isort_from cmp [] xs"

lemma mset_ins_right [simp]: "mset (ins_right cmp t xs) = add_mset t (mset xs)"
  by (induction xs) auto

lemma mset_isort_from: "mset (isort_from cmp acc xs) = mset acc + mset xs"
  by (induction xs arbitrary: acc) auto

lemma mset_isort [simp]: "mset (isort cmp xs) = mset xs"
  by (simp add: isort_def mset_isort_from)

lemma set_isort [simp]: "set (isort cmp xs) = set xs"
  by (metis mset_isort set_mset_mset)

lemma length_isort [simp]: "length (isort cmp xs) = length xs"
  by (metis mset_isort size_mset)

lemma set_ins_right [simp]: "set (ins_right cmp t xs) = insert t (set xs)"
  by (induction xs) auto

lemma ins_right_last:
  "(\<And>x. x \<in> set acc \<Longrightarrow> \<not> cmp t x < 0) \<Longrightarrow> ins_right cmp t acc = t # acc"
  by (cases acc) auto

text \<open>
  The sort trusts the comparison function completely; with the laws of \<open>cmp_order\<close> it
  sorts, and it leaves a sorted array as it is.
\<close>

context cmp_order
begin

lemma not_less: "x \<in> S \<Longrightarrow> y \<in> S \<Longrightarrow> \<not> cmp x y < 0 \<longleftrightarrow> cmp y x \<le> 0"
  using anti [of x y] by (auto simp: sgn_if split: if_splits)

lemma eq_sym: "x \<in> S \<Longrightarrow> y \<in> S \<Longrightarrow> cmp x y = 0 \<longleftrightarrow> cmp y x = 0"
  using anti [of x y] by (auto simp: sgn_if split: if_splits)

lemma less_flip: "x \<in> S \<Longrightarrow> y \<in> S \<Longrightarrow> cmp x y < 0 \<longleftrightarrow> 0 < cmp y x"
  using anti [of x y] by (auto simp: sgn_if split: if_splits)

lemma less_le_trans:
  assumes "x \<in> S" "y \<in> S" "z \<in> S" "cmp x y < 0" "cmp y z \<le> 0"
  shows "cmp x z < 0"
proof (rule ccontr)
  assume "\<not> cmp x z < 0"
  then have "cmp z x \<le> 0" using assms not_less by blast
  then have "cmp y x \<le> 0" using assms trans [of y z x] by blast
  then show False using assms less_flip [of x y] by linarith
qed

lemma le_less_trans:
  assumes "x \<in> S" "y \<in> S" "z \<in> S" "cmp x y \<le> 0" "cmp y z < 0"
  shows "cmp x z < 0"
proof (rule ccontr)
  assume "\<not> cmp x z < 0"
  then have "cmp z x \<le> 0" using assms not_less by blast
  then have "cmp z y \<le> 0" using assms trans [of z x y] by blast
  then show False using assms less_flip [of y z] by linarith
qed

lemma sorted_ins_right:
  assumes "t \<in> S" "set xs \<subseteq> S" "sorted_cmp cmp (rev xs)"
  shows "sorted_cmp cmp (rev (ins_right cmp t xs))"
  using assms
proof (induction xs)
  case (Cons x xs)
  from Cons.prems have xS: "x \<in> S" "set xs \<subseteq> S" and srt: "sorted_cmp cmp (rev xs)"
    and below: "\<forall>y \<in> set xs. cmp y x \<le> 0"
    by (auto simp: sorted_cmp_append)
  show ?case
  proof (cases "cmp t x < 0")
    case True
    then show ?thesis
      using Cons.IH [OF Cons.prems(1) xS(2) srt] below
      by (auto simp: sorted_cmp_append)
  next
    case False
    then have "cmp x t \<le> 0" using not_less Cons.prems(1) xS(1) by blast
    moreover have "\<forall>y \<in> set xs. cmp y t \<le> 0"
      using below \<open>cmp x t \<le> 0\<close> trans xS Cons.prems(1) by blast
    ultimately show ?thesis
      using False Cons.prems by (auto simp: sorted_cmp_append)
  qed
qed simp

lemma sorted_isort_from:
  "set acc \<subseteq> S \<Longrightarrow> set xs \<subseteq> S \<Longrightarrow> sorted_cmp cmp (rev acc) \<Longrightarrow>
     sorted_cmp cmp (isort_from cmp acc xs)"
  by (induction xs arbitrary: acc) (auto simp: sorted_ins_right)

lemma sorted_isort: "set xs \<subseteq> S \<Longrightarrow> sorted_cmp cmp (isort cmp xs)"
  by (simp add: isort_def sorted_isort_from)

lemma isort_from_sorted:
  "set acc \<subseteq> S \<Longrightarrow> set xs \<subseteq> S \<Longrightarrow> sorted_cmp cmp (rev acc @ xs) \<Longrightarrow>
     isort_from cmp acc xs = rev acc @ xs"
proof (induction xs arbitrary: acc)
  case (Cons x xs)
  have "ins_right cmp x acc = x # acc"
    using Cons.prems by (intro ins_right_last) (simp add: not_less subset_iff sorted_cmp_append)
  then show ?case
    using Cons.IH [of "x # acc"] Cons.prems by simp
qed simp

lemma isort_sorted: "set xs \<subseteq> S \<Longrightarrow> sorted_cmp cmp xs \<Longrightarrow> isort cmp xs = xs"
  using isort_from_sorted [of "[]" xs] by (simp add: isort_def)

end

lemma cmp_order_subset:
  assumes "cmp_order S cmp" and "T \<subseteq> S"
  shows "cmp_order T cmp"
proof
  fix x y z
  assume "x \<in> T" "y \<in> T" "z \<in> T" and le: "cmp x y \<le> 0" "cmp y z \<le> 0"
  then have "x \<in> S" "y \<in> S" "z \<in> S" using assms(2) by auto
  then show "cmp x z \<le> 0" using le by (rule cmp_order.trans [OF assms(1)])
next
  fix x y
  assume "x \<in> T" "y \<in> T"
  then have "x \<in> S" "y \<in> S" using assms(2) by auto
  then show "sgn (cmp x y) = - sgn (cmp y x)" by (rule cmp_order.anti [OF assms(1)])
qed (use assms in \<open>auto simp: cmp_order.refl\<close>)

lemma cmp_order_cong:
  assumes g: "cmp_order S g" and eq: "\<And>x y. x \<in> S \<Longrightarrow> y \<in> S \<Longrightarrow> f x y = g x y"
  shows "cmp_order S f"
proof
  fix x y z
  assume S: "x \<in> S" "y \<in> S" "z \<in> S" and "f x y \<le> 0" "f y z \<le> 0"
  then have "g x z \<le> 0" using cmp_order.trans [OF g S] by (simp add: eq)
  then show "f x z \<le> 0" using S by (simp add: eq)
next
  fix x y
  assume S: "x \<in> S" "y \<in> S"
  show "sgn (f x y) = - sgn (f y x)"
    unfolding eq [OF S] eq [OF S(2,1)] by (rule cmp_order.anti [OF g S])
qed (simp add: eq cmp_order.refl [OF g])

lemma cmp_order_strcmp [cmp_intros]: "cmp_order UNIV strcmp"
proof
  show "sgn (strcmp x y) = - sgn (strcmp y x)" for x y by (rule strcmp_antisym)
  show "strcmp x y \<le> 0 \<Longrightarrow> strcmp y z \<le> 0 \<Longrightarrow> strcmp x z \<le> 0" for x y z by (rule strcmp_trans)
qed simp

interpretation strcmp: cmp_order UNIV strcmp
  by (rule cmp_order_strcmp)

lemma cmp_order_on [cmp_intros]:
  assumes "cmp_order T cmp" and "\<And>x. x \<in> S \<Longrightarrow> f x \<in> T"
  shows "cmp_order S (\<lambda>x y. cmp (f x) (f y))"
proof
  fix x y z
  assume S: "x \<in> S" "y \<in> S" "z \<in> S" and "cmp (f x) (f y) \<le> 0" "cmp (f y) (f z) \<le> 0"
  then show "cmp (f x) (f z) \<le> 0"
    using cmp_order.trans [OF assms(1)] assms(2) by blast
qed (use assms in \<open>auto simp: cmp_order.refl intro: cmp_order.anti\<close>)

lemma cmp_order_rev [cmp_intros]:
  assumes "cmp_order S cmp"
  shows "cmp_order S (\<lambda>x y. - cmp x y)"
proof
  fix x y z
  assume S: "x \<in> S" "y \<in> S" "z \<in> S" and xy: "- cmp x y \<le> 0" and yz: "- cmp y z \<le> 0"
  have "cmp z y \<le> 0" using yz cmp_order.not_less [OF assms S(2,3)] by linarith
  moreover have "cmp y x \<le> 0" using xy cmp_order.not_less [OF assms S(1,2)] by linarith
  ultimately have "cmp z x \<le> 0" by (rule cmp_order.trans [OF assms S(3,2,1)])
  then show "- cmp x z \<le> 0" using cmp_order.not_less [OF assms S(1,3)] by linarith
next
  fix x y
  assume S: "x \<in> S" "y \<in> S"
  show "sgn (- cmp x y) = - sgn (- cmp y x)"
    using cmp_order.anti [OF assms S] by (simp add: sgn_minus)
qed (simp add: cmp_order.refl [OF assms])

lemma cmp_order_swap:
  assumes "cmp_order S cmp"
  shows "cmp_order S (\<lambda>x y. cmp y x)"
proof
  fix x y
  assume "x \<in> S" "y \<in> S"
  then show "sgn (cmp y x) = - sgn (cmp x y)" using cmp_order.anti [OF assms] by blast
next
  fix x y z
  assume "x \<in> S" "y \<in> S" "z \<in> S" "cmp y x \<le> 0" "cmp z y \<le> 0"
  then show "cmp z x \<le> 0" using cmp_order.trans [OF assms] by blast
qed (simp add: cmp_order.refl [OF assms])

text \<open>\<open>if ((rc = f(a, b))) return rc; return g(a, b);\<close>, the shape of every comparator.\<close>

definition cmp_then :: "int \<Rightarrow> int \<Rightarrow> int" where
  "cmp_then r s = (if r \<noteq> 0 then r else s)"

lemma cmp_then_eq_0 [simp]: "cmp_then r s = 0 \<longleftrightarrow> r = 0 \<and> s = 0"
  by (simp add: cmp_then_def)

lemma cmp_order_then [cmp_intros]:
  assumes f: "cmp_order S f" and g: "cmp_order S g"
  shows "cmp_order S (\<lambda>x y. cmp_then (f x y) (g x y))"
proof
  fix x y
  assume S: "x \<in> S" "y \<in> S"
  show "sgn (cmp_then (f x y) (g x y)) = - sgn (cmp_then (f y x) (g y x))"
    using cmp_order.anti [OF f S] cmp_order.anti [OF g S] cmp_order.eq_sym [OF f S]
    by (simp add: cmp_then_def)
next
  fix x y z
  assume S: "x \<in> S" "y \<in> S" "z \<in> S"
    and xy: "cmp_then (f x y) (g x y) \<le> 0" and yz: "cmp_then (f y z) (g y z) \<le> 0"
  have le: "f x y \<le> 0" "f y z \<le> 0"
    using xy yz by (auto simp: cmp_then_def split: if_splits)
  have "f x z \<le> 0" using cmp_order.trans [OF f S le] .
  show "cmp_then (f x z) (g x z) \<le> 0"
  proof (cases "f x z < 0")
    case False
    then have "f x y = 0" "f y z = 0"
      using le cmp_order.less_le_trans [OF f S] cmp_order.le_less_trans [OF f S] by force+
    moreover from this have "g x z \<le> 0"
      using xy yz cmp_order.trans [OF g S] by (simp add: cmp_then_def)
    ultimately show ?thesis using False \<open>f x z \<le> 0\<close> by (simp add: cmp_then_def)
  qed (simp add: cmp_then_def)
qed (simp add: cmp_then_def cmp_order.refl [OF f] cmp_order.refl [OF g])

lemma cmp_order_i32_diff [cmp_intros]: "cmp_order {w. nonneg32 w} i32_diff"
  by unfold_locales (auto simp: i32_diff_nonneg sgn_if)

interpretation i32_diff: cmp_order "{w. nonneg32 w}" i32_diff
  by (rule cmp_order_i32_diff)

lemma cmp_order_int_diff [cmp_intros]: "cmp_order UNIV (\<lambda>x y :: int. x - y)"
  by unfold_locales (auto simp: sgn_if)

section \<open>Sorted arrays\<close>

text \<open>
  The arrays of trurlib. The code sorts them with a comparison function and looks a key up by
  binary search; \<open>f x\<close> below is \<open>cmpfn(x, key)\<close>. A key function fits an array when its sign
  goes from negative over zero to positive along it.
\<close>

fun key_sorted :: "('a \<Rightarrow> int) \<Rightarrow> 'a list \<Rightarrow> bool" where
  "key_sorted f [] = True"
| "key_sorted f (x # xs) =
     ((0 \<le> f x \<longrightarrow> (\<forall>y \<in> set xs. 0 \<le> f y)) \<and> (0 < f x \<longrightarrow> (\<forall>y \<in> set xs. 0 < f y)) \<and>
      key_sorted f xs)"

text \<open>An array sorted by a key is fit for the search for a value of the key.\<close>

lemma key_sorted_strcmp:
  "sorted_cmp (\<lambda>a b. strcmp (f a) (f b)) xs \<Longrightarrow> key_sorted (\<lambda>a. strcmp (f a) t) xs"
proof (induction xs)
  case (Cons r xs)
  have le: "strcmp (f r) (f q) \<le> 0" if "q \<in> set xs" for q using Cons.prems that by simp
  have "0 \<le> strcmp (f q) t" if "q \<in> set xs" "0 \<le> strcmp (f r) t" for q
    using le [OF that(1)] that(2) strcmp.not_less strcmp.trans strcmp.less_le_trans by (smt (verit) UNIV_I)
  moreover have "0 < strcmp (f q) t" if "q \<in> set xs" "0 < strcmp (f r) t" for q
    using le [OF that(1)] that(2) strcmp.not_less strcmp.trans by (smt (verit) UNIV_I)
  ultimately show ?case using Cons by simp
qed simp

lemma sorted_key_sorted:
  assumes "cmp_order S cmp" "p \<in> S"
  shows "set xs \<subseteq> S \<Longrightarrow> sorted_cmp cmp xs \<Longrightarrow> key_sorted (\<lambda>q. cmp q p) xs"
proof (induction xs)
  case (Cons x xs)
  have "0 \<le> cmp y p" if "y \<in> set xs" "0 \<le> cmp x p" for y
  proof -
    have "y \<in> S" "x \<in> S" "cmp x y \<le> 0" using Cons.prems that(1) by auto
    moreover from this have "cmp p x \<le> 0" using that(2) cmp_order.not_less [OF assms(1), of x p] assms(2) by simp
    ultimately have "cmp p y \<le> 0" using cmp_order.trans [OF assms(1), of p x y] assms(2) by blast
    then show ?thesis using cmp_order.not_less [OF assms(1) \<open>y \<in> S\<close> assms(2)] by simp
  qed
  moreover have "0 < cmp y p" if "y \<in> set xs" "0 < cmp x p" for y
  proof -
    have "y \<in> S" "x \<in> S" "cmp x y \<le> 0" using Cons.prems that(1) by auto
    moreover from this have "cmp p x < 0" using that(2) cmp_order.less_flip [OF assms(1) assms(2), of x] by simp
    ultimately have "cmp p y < 0" using cmp_order.less_le_trans [OF assms(1), of p x y] assms(2) by blast
    then show ?thesis using cmp_order.less_flip [OF assms(1) assms(2) \<open>y \<in> S\<close>] by simp
  qed
  ultimately show ?case using Cons by simp
qed simp

text \<open>
  What the code relies on: sorting permutes and sorts, the search on a fitting array finds the
  first match and returns -1 when there is none (\<open>n_array_bsearch_idx_ex\<close>; the callers then
  walk forward from that index).
\<close>

locale sorted_arrays =
  fixes nsort :: "('a \<Rightarrow> 'a \<Rightarrow> int) \<Rightarrow> 'a list \<Rightarrow> 'a list"
    and nbsearch :: "('a \<Rightarrow> int) \<Rightarrow> 'a list \<Rightarrow> int"
  assumes sort_mset: "mset (nsort cmp xs) = mset xs"
    and sort_sorted: "cmp_order (set xs) cmp \<Longrightarrow> sorted_cmp cmp (nsort cmp xs)"
    and search_none: "key_sorted f xs \<Longrightarrow> (\<forall>x \<in> set xs. f x \<noteq> 0) \<Longrightarrow> nbsearch f xs = - 1"
    and search_first: "key_sorted f xs \<Longrightarrow> i < length xs \<Longrightarrow> f (xs ! i) = 0 \<Longrightarrow>
      (\<forall>j < i. f (xs ! j) \<noteq> 0) \<Longrightarrow> nbsearch f xs = int i"
begin

lemma set_nsort [simp]: "set (nsort cmp xs) = set xs"
  by (metis set_mset_mset sort_mset)

lemma search_cases:
  assumes "key_sorted f xs"
  obtains (none) "nbsearch f xs = - 1" "\<forall>x \<in> set xs. f x \<noteq> 0"
  | (found) i where "nbsearch f xs = int i" "i < length xs" "f (xs ! i) = 0"
      "\<forall>j < i. f (xs ! j) \<noteq> 0"
proof (cases "\<exists>i < length xs. f (xs ! i) = 0")
  case True
  then obtain i where "i < length xs" "f (xs ! i) = 0" "\<forall>j < i. \<not> (j < length xs \<and> f (xs ! j) = 0)"
    using exists_least_iff [of "\<lambda>i. i < length xs \<and> f (xs ! i) = 0"] by blast
  then have "nbsearch f xs = int i \<and> (\<forall>j < i. f (xs ! j) \<noteq> 0)"
    using search_first assms by auto
  with \<open>i < length xs\<close> \<open>f (xs ! i) = 0\<close> show thesis using found by blast
next
  case False
  then have "\<forall>x \<in> set xs. f x \<noteq> 0" by (auto simp: in_set_conv_nth)
  then show thesis using none search_none assms by blast
qed

end

text \<open>
  A reference instance: the insertion sort above and a linear scan for the first match. It
  stands in for trurlib where a theorem is applied to a concrete array.
\<close>

fun scan_from :: "int \<Rightarrow> ('a \<Rightarrow> int) \<Rightarrow> 'a list \<Rightarrow> int" where
  "scan_from i f [] = - 1"
| "scan_from i f (x # xs) = (if f x = 0 then i else scan_from (i + 1) f xs)"

lemma scan_from_none: "(\<forall>x \<in> set xs. f x \<noteq> 0) \<Longrightarrow> scan_from i f xs = - 1"
  by (induction xs arbitrary: i) auto

lemma scan_from_first:
  "k < length xs \<Longrightarrow> f (xs ! k) = 0 \<Longrightarrow> (\<forall>j < k. f (xs ! j) \<noteq> 0) \<Longrightarrow>
     scan_from i f xs = i + int k"
proof (induction xs arbitrary: i k)
  case (Cons x xs)
  show ?case
  proof (cases k)
    case (Suc m)
    with Cons.prems have "f x \<noteq> 0" by force
    moreover have "\<forall>j < m. f (xs ! j) \<noteq> 0" using Cons.prems Suc by fastforce
    ultimately show ?thesis using Cons.IH [of m "i + 1"] Cons.prems Suc by simp
  qed (use Cons.prems in simp)
qed simp

lemma sorted_arrays_ref: "sorted_arrays isort (scan_from 0)"
  by unfold_locales
    (auto simp: cmp_order.sorted_isort scan_from_none scan_from_first)

interpretation ref_arrays: sorted_arrays isort "scan_from 0"
  by (rule sorted_arrays_ref)

end
