(* ===== verification/Pkgmisc.thy ===== *)
theory Pkgmisc
  imports Prelude
begin

text \<open>
  pkgmisc.c: splitting the text \<open>[epoch:]version[-release]\<close> and
  \<open>name-[epoch:]version-release\<close>. The C functions cut the string in place and set pointers
  into it; here they return the pieces, and \<open>None\<close> where the C returns 0.
\<close>

section \<open>strtol\<close>

text \<open>
  The C library's \<open>strtol(s, NULL, 10)\<close> with a 64-bit \<open>long\<close>: the value, clamped, and
  whether \<open>errno\<close> becomes \<open>ERANGE\<close>. Digits are read up to the first other character.
\<close>

definition digits_val :: "string \<Rightarrow> int" where
  "digits_val ds = foldl (\<lambda>a c. 10 * a + (of_char c - 48)) 0 ds"

definition strtol10 :: "string \<Rightarrow> int \<times> bool" where
  "strtol10 s =
     (let t = skip_space s;
          neg = (case t of c # _ \<Rightarrow> c = CHR ''-'' | [] \<Rightarrow> False);
          u = (case t of c # r \<Rightarrow> if c = CHR ''-'' \<or> c = CHR ''+'' then r else t | [] \<Rightarrow> t);
          v = digits_val (takeWhile is_digit u) * (if neg then - 1 else 1)
      in if v > 2 ^ 63 - 1 then (2 ^ 63 - 1, True)
         else if v < - (2 ^ 63) then (- (2 ^ 63), True)
         else (v, False))"

section \<open>The parsers\<close>

definition parse_epoch :: "string \<Rightarrow> u32 option" where
  "parse_epoch s =
     (if s = [] then Some 0
      else let (v, erange) = strtol10 s; e = word_of_int v in
           if e = 0 \<and> s \<noteq> ''0'' then None
           else if erange then None
           else Some e)"

definition parse_vr :: "string \<Rightarrow> (string \<times> string option) option" where
  "parse_vr s =
     (if CHR ''-'' \<notin> set s then Some (s, None)
      else let v = before_chr s CHR ''-''; r = after_chr s CHR ''-'' in
           if v = [] \<or> r = [] then None else Some (v, Some r))"

definition poldek_util_parse_evr :: "string \<Rightarrow> (u32 \<times> string \<times> string option) option" where
  "poldek_util_parse_evr evrstr =
     (let s = skip_space evrstr in
      if s = [] then None
      else if CHR '':'' \<notin> set s
      then map_option (\<lambda>(v, r). (0, v, r)) (parse_vr s)
      else case parse_epoch (before_chr s CHR '':'') of
             None \<Rightarrow> None
           | Some e \<Rightarrow>
               let t = after_chr s CHR '':'' in
               if t = [] then None
               else map_option (\<lambda>(v, r). (e, v, r)) (parse_vr t))"

definition poldek_util_parse_nevr ::
  "string \<Rightarrow> (string \<times> u32 \<times> string \<times> string option) option" where
  "poldek_util_parse_nevr nevrstr =
     (let s = skip_space nevrstr in
      if s = [] then None
      else if CHR ''-'' \<notin> set s then None
      else let pre = before_rchr s CHR ''-''; rel = after_rchr s CHR ''-'' in
           if CHR ''-'' \<notin> set pre then None
           else let nm = before_rchr pre CHR ''-''; ver = after_rchr pre CHR ''-'' in
                map_option (\<lambda>(e, v, r). (nm, e, v, r))
                  (poldek_util_parse_evr (ver @ CHR ''-'' # rel)))"

section \<open>Printing and parsing\<close>

lemma digits_val_snoc [simp]:
  "digits_val (ds @ [c]) = 10 * digits_val ds + (of_char c - 48)"
  by (simp add: digits_val_def)

lemma of_char_digit: "n < 10 \<Longrightarrow> (of_char (char_of (48 + n :: nat)) :: nat) = 48 + n"
  by (simp add: of_char_of)

lemma of_char_digit_int: "n < 10 \<Longrightarrow> (of_char (char_of (48 + n :: nat)) :: int) = 48 + int n"
  by (metis of_char_digit of_nat_add of_nat_numeral of_nat_of_char)

lemma is_digit_char: "n < 10 \<Longrightarrow> is_digit (char_of (48 + n :: nat))"
  by (simp add: is_digit_def of_char_digit del: of_char_of)

lemma digits_val_dec_nat [simp]: "digits_val (dec_nat n) = int n"
proof (induction n rule: dec_nat.induct)
  case (1 n)
  show ?case
  proof (cases "n < 10")
    case True
    then show ?thesis
      by (subst dec_nat.simps) (simp add: digits_val_def of_char_digit_int)
  next
    case False
    then have "digits_val (dec_nat n) = 10 * int (n div 10) + int (n mod 10)"
      using "1.IH" by (subst dec_nat.simps) (simp add: of_char_digit_int)
    also have "\<dots> = int n" by presburger
    finally show ?thesis .
  qed
qed

lemma dec_nat_digits: "c \<in> set (dec_nat n) \<Longrightarrow> is_digit c"
proof (induction n rule: dec_nat.induct)
  case (1 n)
  then show ?case
    by (subst (asm) (2) dec_nat.simps) (auto simp: is_digit_char split: if_splits)
qed

lemma dec_nat_nonempty [simp]: "dec_nat n \<noteq> []"
  by (subst dec_nat.simps) simp

lemma digit_not_space [simp]: "is_digit c \<Longrightarrow> \<not> is_space c"
  by (auto simp: is_digit_def is_space_def)

lemma digit_neq [simp]:
  "is_digit c \<Longrightarrow> c \<noteq> CHR ''-''" "is_digit c \<Longrightarrow> c \<noteq> CHR ''+''" "is_digit c \<Longrightarrow> c \<noteq> CHR '':''"
  by (auto simp: is_digit_def)

lemma strtol10_dec_nat:
  assumes "int n < 2 ^ 63"
  shows "strtol10 (dec_nat n) = (int n, False)"
proof -
  obtain c cs where c: "dec_nat n = c # cs" by (cases "dec_nat n") auto
  have d: "\<forall>x \<in> set (dec_nat n). is_digit x" by (simp add: dec_nat_digits)
  then have "is_digit c" and tw: "takeWhile is_digit cs = cs"
    by (auto simp: c takeWhile_eq_all_conv)
  then show ?thesis
    using assms digits_val_dec_nat [of n] by (simp add: strtol10_def c tw Let_def)
qed

lemma parse_epoch_dec:
  assumes "e \<noteq> 0"
  shows "parse_epoch (dec_nat (unat e)) = Some e"
proof -
  have "uint e < 2 ^ LENGTH(32)" by (rule unsigned_less)
  then have "int (unat e) < 2 ^ 63" by simp
  moreover have "word_of_int (int (unat e)) = e" by simp
  ultimately show ?thesis
    using assms by (simp add: parse_epoch_def strtol10_dec_nat)
qed

text \<open>The text of \<open>pkg_evr_snprintf\<close>: an epoch of 0 is not printed.\<close>

definition evr_text :: "u32 \<Rightarrow> string \<Rightarrow> string option \<Rightarrow> string" where
  "evr_text e v r =
     (if e = 0 then [] else dec_int (sint e) @ '':'') @ v @
     (case r of None \<Rightarrow> [] | Some r \<Rightarrow> CHR ''-'' # r)"

definition plain_ver :: "string \<Rightarrow> bool" where
  "plain_ver v \<longleftrightarrow> v \<noteq> [] \<and> CHR ''-'' \<notin> set v \<and> CHR '':'' \<notin> set v \<and> \<not> is_space (hd v)"

definition plain_rel :: "string option \<Rightarrow> bool" where
  "plain_rel r \<longleftrightarrow> (case r of None \<Rightarrow> True | Some r \<Rightarrow> r \<noteq> [] \<and> CHR '':'' \<notin> set r)"

lemma parse_vr_text:
  assumes "plain_ver v" and "plain_rel r"
  shows "parse_vr (v @ (case r of None \<Rightarrow> [] | Some r \<Rightarrow> CHR ''-'' # r)) = Some (v, r)"
  using assms by (auto simp: parse_vr_def plain_ver_def plain_rel_def split: option.splits)

lemma skip_space_id: "s \<noteq> [] \<Longrightarrow> \<not> is_space (hd s) \<Longrightarrow> skip_space s = s"
  by (cases s) auto

lemma dec_int_nonneg: "nonneg32 e \<Longrightarrow> dec_int (sint e) = dec_nat (unat e)"
proof -
  assume "nonneg32 e"
  then have "0 \<le> sint e" "sint e < 2 ^ 31"
    using sint_lt [of e] by (simp_all add: nonneg32_def)
  then have "uint e = sint e"
    by (simp add: uint_sint take_bit_int_eq_self)
  then show ?thesis
    using \<open>0 \<le> sint e\<close> by (simp add: dec_int_def flip: nat_uint_eq)
qed

lemma parse_evr_text:
  assumes "nonneg32 e" and v: "plain_ver v" and r: "plain_rel r"
  shows "poldek_util_parse_evr (evr_text e v r) = Some (e, v, r)"
proof -
  let ?vr = "v @ (case r of None \<Rightarrow> [] | Some r \<Rightarrow> CHR ''-'' # r)"
  have vr: "?vr \<noteq> []" "\<not> is_space (hd ?vr)" "CHR '':'' \<notin> set ?vr"
    using v r by (auto simp: plain_ver_def plain_rel_def split: option.splits)
  note pv = parse_vr_text [OF v r]
  show ?thesis
  proof (cases "e = 0")
    case True
    then show ?thesis
      using vr pv by (simp add: poldek_util_parse_evr_def evr_text_def skip_space_id Let_def)
  next
    case False
    let ?d = "dec_nat (unat e)"
    have d: "CHR '':'' \<notin> set ?d" "\<not> is_space (hd ?d)"
      using dec_nat_digits [of _ "unat e"] digit_neq(3) digit_not_space
      by (blast, meson dec_nat_nonempty digit_not_space list.set_sel(1))
    have tx: "evr_text e v r = ?d @ CHR '':'' # ?vr"
      using False assms(1) by (simp add: evr_text_def dec_int_nonneg)
    moreover have "skip_space (?d @ CHR '':'' # ?vr) = ?d @ CHR '':'' # ?vr"
      using d by (intro skip_space_id) auto
    ultimately show ?thesis
      using d vr pv parse_epoch_dec [OF False]
      by (simp add: poldek_util_parse_evr_def Let_def del: append_assoc)
  qed
qed

text \<open>
  A release without a dash: the name-version-release text can be taken apart again. The name
  may hold dashes, which is why the C searches from the right.
\<close>

lemma parse_nevr_split:
  assumes "CHR ''-'' \<notin> set q" "CHR ''-'' \<notin> set r" "n \<noteq> []" "\<not> is_space (hd n)"
  shows "poldek_util_parse_nevr (n @ CHR ''-'' # q @ CHR ''-'' # r)
    = map_option (\<lambda>(e, v, r). (n, e, v, r)) (poldek_util_parse_evr (q @ CHR ''-'' # r))"
proof -
  let ?s = "n @ CHR ''-'' # q @ CHR ''-'' # r"
  have split: "?s = (n @ CHR ''-'' # q) @ CHR ''-'' # r" by simp
  have "skip_space ?s = ?s"
    using assms by (intro skip_space_id) auto
  moreover have "before_rchr ?s CHR ''-'' = n @ CHR ''-'' # q"
    unfolding split using assms(2) by (rule before_rchr_append)
  moreover have "after_rchr ?s CHR ''-'' = r"
    unfolding split using assms(2) by (rule after_rchr_append)
  ultimately show ?thesis
    using assms by (simp add: poldek_util_parse_nevr_def Let_def)
qed

lemma parse_nevr_text:
  assumes e: "nonneg32 e" and v: "plain_ver v" and r: "plain_rel (Some r)"
    and dash: "CHR ''-'' \<notin> set r" and n: "n \<noteq> []" "\<not> is_space (hd n)"
  shows "poldek_util_parse_nevr (n @ CHR ''-'' # evr_text e v (Some r)) = Some (n, e, v, Some r)"
proof -
  let ?q = "(if e = 0 then [] else dec_int (sint e) @ '':'') @ v"
  have q: "CHR ''-'' \<notin> set ?q"
    using v e dec_nat_digits [of "CHR ''-''" "unat e"] digit_neq(1) [of "CHR ''-''"]
    by (auto simp: plain_ver_def dec_int_nonneg)
  have "evr_text e v (Some r) = ?q @ CHR ''-'' # r"
    by (simp add: evr_text_def)
  then show ?thesis
    using parse_nevr_split [OF q dash n] parse_evr_text [OF e v r] by simp
qed

section \<open>Round trip of version texts\<close>

text \<open>what is printed for an epoch, a version and an optional release is parsed back to
  exactly these three, the epoch 0 being the one that is not printed.\<close>

theorem evr_text_parses:
  assumes "nonneg32 e" and "plain_ver v" and "plain_rel r"
  shows "poldek_util_parse_evr (evr_text e v r) = Some (e, v, r)"
  using assms by (rule parse_evr_text)

theorem evr_text_parses_witness:
  "poldek_util_parse_evr (evr_text 2 ''1.0'' (Some ''3'')) = Some (2, ''1.0'', Some ''3'')"
  by (rule evr_text_parses) (simp_all add: nonneg32_def plain_ver_def plain_rel_def is_space_def)

end
