(* ===== verification/Capreq.thy ===== *)
theory Capreq
  imports Pkgmisc
begin

text \<open>
  capreq.h and capreq.c: capabilities and requirements. A capreq is a name, a relation and a
  packed buffer with the epoch, the version and the release, found through one-byte offsets.
  The record keeps that layout, so the wrap-around of the offsets and the byte image written
  to package indexes (theory Capreq\_Store) are those of the code.
\<close>

section \<open>The flags of capreq.h\<close>

abbreviation REL_EQ :: "'a::len word" where "REL_EQ \<equiv> 1"
abbreviation REL_GT :: "'a::len word" where "REL_GT \<equiv> 2"
abbreviation REL_LT :: "'a::len word" where "REL_LT \<equiv> 4"
abbreviation REL_ALL :: "'a::len word" where "REL_ALL \<equiv> 7"
abbreviation CAPREQ_CNFL :: "'a::len word" where "CAPREQ_CNFL \<equiv> 4"
abbreviation CAPREQ_PREREQ :: "'a::len word" where "CAPREQ_PREREQ \<equiv> 8"
abbreviation CAPREQ_PREREQ_UN :: "'a::len word" where "CAPREQ_PREREQ_UN \<equiv> 16"
abbreviation CAPREQ_RPMLIB :: "'a::len word" where "CAPREQ_RPMLIB \<equiv> 32"
abbreviation CAPREQ_BASTARD :: "'a::len word" where "CAPREQ_BASTARD \<equiv> 128"
abbreviation CAPREQ_RT_FLAGS :: "'a::len word" where "CAPREQ_RT_FLAGS \<equiv> 192"
abbreviation REL_SPLITTED :: "'a::len word" where "REL_SPLITTED \<equiv> 128"
abbreviation REL_PART :: "'a::len word" where "REL_PART \<equiv> 64"
abbreviation REL_NAALLOC :: "'a::len word" where "REL_NAALLOC \<equiv> 128"

section \<open>The record and its accessors\<close>

abbreviation NUL :: char where "NUL \<equiv> CHR 0x00"

record capreq =
  cr_flags :: u8
  cr_relflags :: u8
  cr_name :: string
  namelen :: u16
  cr_ep_ofs :: u8
  cr_ver_ofs :: u8
  cr_rel_ofs :: u8
  cr_buff :: string

text \<open>The C string that starts at an offset of a buffer.\<close>

definition c_str_at :: "string \<Rightarrow> nat \<Rightarrow> string" where
  "c_str_at buf n = takeWhile (\<lambda>c. c \<noteq> NUL) (drop n buf)"

text \<open>An \<open>int32_t\<close> in memory: four bytes, the least significant one first.\<close>

definition put32 :: "u32 \<Rightarrow> string" where
  "put32 w = [char_of (unat w), char_of (unat w div 256), char_of (unat w div 65536),
              char_of (unat w div 16777216)]"

definition get32 :: "string \<Rightarrow> u32" where
  "get32 bs = word_of_nat (foldr (\<lambda>c a. of_char c + 256 * a) bs 0)"

definition capreq_epoch :: "capreq \<Rightarrow> u32" where
  "capreq_epoch cr =
     (if cr_ep_ofs cr \<noteq> 0 then get32 (take 4 (drop (unat (cr_ep_ofs cr)) (cr_buff cr))) else 0)"

definition capreq_ver :: "capreq \<Rightarrow> string" where
  "capreq_ver cr = c_str_at (cr_buff cr) (unat (cr_ver_ofs cr))"

definition capreq_rel :: "capreq \<Rightarrow> string" where
  "capreq_rel cr = c_str_at (cr_buff cr) (unat (cr_rel_ofs cr))"

definition capreq_has_epoch :: "capreq \<Rightarrow> bool" where
  "capreq_has_epoch cr \<longleftrightarrow> cr_ep_ofs cr \<noteq> 0"

definition capreq_has_ver :: "capreq \<Rightarrow> bool" where
  "capreq_has_ver cr \<longleftrightarrow> cr_ver_ofs cr \<noteq> 0"

definition capreq_has_rel :: "capreq \<Rightarrow> bool" where
  "capreq_has_rel cr \<longleftrightarrow> cr_rel_ofs cr \<noteq> 0"

definition capreq_versioned :: "capreq \<Rightarrow> bool" where
  "capreq_versioned cr \<longleftrightarrow> cr_relflags cr AND REL_ALL \<noteq> 0"

definition capreq_is_cnfl :: "capreq \<Rightarrow> bool" where
  "capreq_is_cnfl cr \<longleftrightarrow> cr_flags cr AND CAPREQ_CNFL \<noteq> 0"

definition capreq_is_prereq :: "capreq \<Rightarrow> bool" where
  "capreq_is_prereq cr \<longleftrightarrow> cr_flags cr AND CAPREQ_PREREQ \<noteq> 0"

definition capreq_is_prereq_un :: "capreq \<Rightarrow> bool" where
  "capreq_is_prereq_un cr \<longleftrightarrow> cr_flags cr AND CAPREQ_PREREQ_UN \<noteq> 0"

definition capreq_is_obsl :: "capreq \<Rightarrow> bool" where
  "capreq_is_obsl cr \<longleftrightarrow> capreq_is_prereq cr"

definition capreq_is_file :: "capreq \<Rightarrow> bool" where
  "capreq_is_file cr \<longleftrightarrow> (case cr_name cr of c # _ \<Rightarrow> c = CHR ''/'' | [] \<Rightarrow> False)"

definition capreq_is_boolean :: "capreq \<Rightarrow> bool" where
  "capreq_is_boolean cr \<longleftrightarrow> (case cr_name cr of c # _ \<Rightarrow> c = CHR ''('' | [] \<Rightarrow> False)"

definition capreq_is_bastard :: "capreq \<Rightarrow> bool" where
  "capreq_is_bastard cr \<longleftrightarrow> cr_flags cr AND CAPREQ_BASTARD \<noteq> 0"

definition capreq_is_rpmlib :: "capreq \<Rightarrow> bool" where
  "capreq_is_rpmlib cr \<longleftrightarrow> cr_flags cr AND CAPREQ_RPMLIB \<noteq> 0"

definition capreq_relflags :: "capreq \<Rightarrow> int" where
  "capreq_relflags cr = uint (cr_relflags cr AND REL_ALL)"

section \<open>Construction\<close>

text \<open>
  The name a capreq gets: \<open>rpmlib(X)\<close> is stored as \<open>X\<close> with the RPMLIB flag; when the closing
  bracket is missing the code logs an error and goes on with a name length of 0.
\<close>

definition rpmlib_name :: "string \<Rightarrow> string \<times> bool" where
  "rpmlib_name nm =
     (if strncmp nm ''rpmlib('' 7 = 0
      then let p = drop 7 nm in
           if CHR '')'' \<in> set p then (before_chr p CHR '')'', True) else ([], False)
      else (nm, False))"

text \<open>A name that is kept as it is.\<close>

definition plain_name :: "string \<Rightarrow> bool" where
  "plain_name n \<longleftrightarrow> strncmp n ''rpmlib('' 7 \<noteq> 0"

lemma rpmlib_name_plain [simp]: "plain_name n \<Longrightarrow> rpmlib_name n = (n, False)"
  by (simp add: plain_name_def rpmlib_name_def)

definition capreq_new ::
  "bool \<Rightarrow> string \<Rightarrow> u32 \<Rightarrow> string option \<Rightarrow> string option \<Rightarrow> u32 \<Rightarrow> u32 \<Rightarrow> capreq option" where
  "capreq_new na nm epoch version release relflags flags =
     (let (nm', isrpmreq) = rpmlib_name nm in
      if epoch \<noteq> 0 \<and> version = None then None
      else if version \<noteq> None \<and> relflags = 0 then None
      else if release \<noteq> None \<and> version = None then None
      else
        let ep = (if epoch \<noteq> 0 then put32 epoch else []);
            vr = (case version of None \<Rightarrow> [] | Some v \<Rightarrow> v @ [NUL]);
            rl = (case release of None \<Rightarrow> [] | Some r \<Rightarrow> r @ [NUL])
        in Some \<lparr>
          cr_flags = ucast flags OR (if isrpmreq then CAPREQ_RPMLIB else 0),
          cr_relflags = ucast relflags OR (if na then REL_NAALLOC else 0),
          cr_name = nm',
          namelen = of_nat (length nm'),
          cr_ep_ofs = (if epoch \<noteq> 0 then 1 else 0),
          cr_ver_ofs = (if version \<noteq> None then of_nat (1 + length ep) else 0),
          cr_rel_ofs = (if release \<noteq> None then of_nat (1 + length ep + length vr) else 0),
          cr_buff = NUL # ep @ vr @ rl @ (if na then [] else nm' @ [NUL]) \<rparr>)"

definition capreq_new_evr ::
  "bool \<Rightarrow> string \<Rightarrow> string option \<Rightarrow> u32 \<Rightarrow> u32 \<Rightarrow> capreq option" where
  "capreq_new_evr na nm evr relflags flags =
     (case evr of
        None \<Rightarrow> capreq_new na nm 0 None None relflags flags
      | Some s \<Rightarrow>
          (case poldek_util_parse_evr s of
             None \<Rightarrow> None
           | Some (e, v, r) \<Rightarrow> capreq_new na nm e (Some v) r relflags flags))"

text \<open>
  \<open>capreq_bufsize\<close> measures the used part of the buffer and stops the program at 255 bytes
  (\<open>Died\<close>). \<open>capreq_clone\<close> copies a heap-allocated capreq byte by byte, but keeps the number
  of bytes in a \<open>uint8_t\<close>: where the sum does not fit, the copy is too short and its name
  points behind it (\<open>Overrun\<close>). 24 is the size of the struct.
\<close>

datatype cr_fault = Died | Overrun

definition capreq_bufsize :: "capreq \<Rightarrow> nat option" where
  "capreq_bufsize cr =
     (let m = max (max (unat (cr_ep_ofs cr)) (unat (cr_ver_ofs cr))) (unat (cr_rel_ofs cr));
          n = (if m = 0 then 1 else m + length (c_str_at (cr_buff cr) m) + 1)
      in if n < 255 then Some n else None)"

definition capreq_sizeof :: "capreq \<Rightarrow> nat option" where
  "capreq_sizeof cr =
     (case capreq_bufsize cr of
        None \<Rightarrow> None
      | Some n \<Rightarrow> if 24 + n < 255 then Some (24 + n) else None)"

definition malloced :: "capreq \<Rightarrow> bool" where
  "malloced cr \<longleftrightarrow> cr_relflags cr AND REL_NAALLOC = 0"

definition capreq_clone :: "bool \<Rightarrow> capreq \<Rightarrow> cr_fault + capreq option" where
  "capreq_clone na cr =
     (if malloced cr \<and> \<not> na
      then case (capreq_sizeof cr, capreq_bufsize cr) of
             (Some sz, Some bs) \<Rightarrow>
               if sz + unat (namelen cr) + 1 \<ge> 256 then Inl Overrun
               else Inr (Some (cr\<lparr>cr_name := c_str_at (cr_buff cr) bs\<rparr>))
           | _ \<Rightarrow> Inl Died
      else Inr (capreq_new na (cr_name cr) (capreq_epoch cr)
                  (if capreq_versioned cr then Some (capreq_ver cr) else None)
                  (if capreq_versioned cr then Some (capreq_rel cr) else None)
                  (ucast (cr_relflags cr AND NOT REL_NAALLOC)) (ucast (cr_flags cr))))"

section \<open>The environment\<close>

text \<open>
  What the code takes from elsewhere: librpm's version comparison \<open>rpmvercmp\<close>, the score of
  an architecture, the two global settings, and the sort and binary search of trurlib's arrays
  at the element type capreq.
\<close>

record penv =
  vercmp :: "string \<Rightarrow> string \<Rightarrow> int"
  architecture_score :: "string \<Rightarrow> int"
  conf_MULTILIB :: bool
  conf_PROMOTE_EPOCH :: bool
  cr_sort :: "(capreq \<Rightarrow> capreq \<Rightarrow> int) \<Rightarrow> capreq list \<Rightarrow> capreq list"
  cr_bsearch :: "(capreq \<Rightarrow> int) \<Rightarrow> capreq list \<Rightarrow> int"
  cr_uniq :: "(capreq \<Rightarrow> capreq \<Rightarrow> int) \<Rightarrow> capreq list \<Rightarrow> capreq list"

text \<open>
  Its documented behaviour: version comparison is the sign of a total preorder, the arrays
  satisfy their contract, and removing duplicates drops only elements another element stands
  for.
\<close>

locale pm_env =
  fixes E :: penv
  assumes vercmp_order: "cmp_order UNIV (vercmp E)"
    and cr_arrays: "sorted_arrays (cr_sort E) (cr_bsearch E)"
    and cr_uniq_sub: "set (cr_uniq E cmp xs) \<subseteq> set xs"
    and cr_uniq_rep: "x \<in> set xs \<Longrightarrow> cmp x x = 0 \<Longrightarrow> \<exists>y \<in> set (cr_uniq E cmp xs). cmp y x = 0"
    and cr_uniq_sorted: "sorted_cmp cmp xs \<Longrightarrow> sorted_cmp cmp (cr_uniq E cmp xs)"

section \<open>Comparison\<close>

definition capreq_cmp_name :: "capreq \<Rightarrow> capreq \<Rightarrow> int" where
  "capreq_cmp_name cr1 cr2 = strcmp (cr_name cr1) (cr_name cr2)"

definition capreq_cmp2name :: "capreq \<Rightarrow> string \<Rightarrow> int" where
  "capreq_cmp2name cr1 nm = strcmp (cr_name cr1) nm"

definition capreq_cmp_evr :: "penv \<Rightarrow> capreq \<Rightarrow> capreq \<Rightarrow> int" where
  "capreq_cmp_evr E cr1 cr2 =
     (if \<not> capreq_versioned cr1 \<and> \<not> capreq_versioned cr2 then 0
      else if capreq_versioned cr1 \<and> \<not> capreq_versioned cr2 then 1
      else if \<not> capreq_versioned cr1 \<and> capreq_versioned cr2 then - 1
      else cmp_then (i32_diff (capreq_epoch cr1) (capreq_epoch cr2))
          (cmp_then (vercmp E (capreq_ver cr1) (capreq_ver cr2))
            (if capreq_rel cr1 = [] \<and> capreq_rel cr2 = [] then 0
             else cmp_then (vercmp E (capreq_rel cr1) (capreq_rel cr2))
                    (capreq_relflags cr1 - capreq_relflags cr2))))"

definition capreq_cmp_name_evr :: "penv \<Rightarrow> capreq \<Rightarrow> capreq \<Rightarrow> int" where
  "capreq_cmp_name_evr E cr1 cr2 =
     cmp_then (strcmp (cr_name cr1) (cr_name cr2)) (capreq_cmp_evr E cr1 cr2)"

definition capreq_strcmp_evr :: "capreq \<Rightarrow> capreq \<Rightarrow> int" where
  "capreq_strcmp_evr cr1 cr2 =
     cmp_then (i32_diff (capreq_epoch cr1) (capreq_epoch cr2))
       (cmp_then (strcmp (capreq_ver cr1) (capreq_ver cr2))
         (cmp_then (strcmp (capreq_rel cr1) (capreq_rel cr2))
           ((capreq_relflags cr1 + uint (cr_flags cr1)) -
            (capreq_relflags cr2 + uint (cr_flags cr2)))))"

text \<open>
  The pointer test of the C only skips a \<open>strncmp\<close> of a string with itself.
\<close>

definition capreq_strcmp_name_evr :: "capreq \<Rightarrow> capreq \<Rightarrow> int" where
  "capreq_strcmp_name_evr cr1 cr2 =
     cmp_then (strncmp (cr_name cr1) (cr_name cr2) (max (unat (namelen cr1)) (unat (namelen cr2))))
       (capreq_strcmp_evr cr1 cr2)"

definition capreq_cmp_name_evr_rev :: "penv \<Rightarrow> capreq \<Rightarrow> capreq \<Rightarrow> int" where
  "capreq_cmp_name_evr_rev E cr1 cr2 =
     cmp_then (strcmp (cr_name cr1) (cr_name cr2)) (- capreq_cmp_evr E cr1 cr2)"

definition cmp_uniq :: "capreq \<Rightarrow> capreq \<Rightarrow> int" where
  "cmp_uniq cr1 cr2 =
     cmp_then (capreq_cmp_name cr1 cr2) (uint (cr_relflags cr2 AND REL_ALL))"

section \<open>Arrays of capreqs\<close>

definition capreq_arr_sorted :: "penv \<Rightarrow> capreq list \<Rightarrow> capreq list" where
  "capreq_arr_sorted E crs =
     (if sorted_cmp (capreq_cmp_name_evr E) crs then crs
      else cr_sort E (capreq_cmp_name_evr E) crs)"

text \<open>The index of the first entry of a name, or -1, and the array, which may get sorted.\<close>

definition capreq_arr_find :: "penv \<Rightarrow> capreq list \<Rightarrow> string \<Rightarrow> int \<times> capreq list" where
  "capreq_arr_find E crs nm =
     (let crs' = capreq_arr_sorted E crs in
      (cr_bsearch E (\<lambda>c. capreq_cmp2name c nm) crs', crs'))"

definition capreq_arr_contains :: "penv \<Rightarrow> capreq list \<Rightarrow> string \<Rightarrow> bool \<times> capreq list" where
  "capreq_arr_contains E crs nm =
     (let crs' = capreq_arr_sorted E crs in
      (cr_bsearch E (\<lambda>c. capreq_cmp2name c nm) crs' > - 1, crs'))"

section \<open>Printing\<close>

definition relstr :: "capreq \<Rightarrow> string" where
  "relstr cr =
     (if cr_relflags cr AND REL_LT \<noteq> 0 then ''<''
      else if cr_relflags cr AND REL_GT \<noteq> 0 then ''>'' else []) @
     (if cr_relflags cr AND REL_EQ \<noteq> 0 then ''='' else [])"

text \<open>
  \<open>nsn k s\<close> stands for what trurlib's \<open>n_snprintf\<close> leaves of \<open>s\<close> in a buffer of \<open>k\<close> bytes.
  The pieces are written one behind the other into the rest of the buffer.
\<close>

definition sn_pieces :: "(nat \<Rightarrow> string \<Rightarrow> string) \<Rightarrow> nat \<Rightarrow> string list \<Rightarrow> string" where
  "sn_pieces nsn sz ps = foldl (\<lambda>out p. out @ nsn (sz - length out) p) [] ps"

definition capreq_snprintf :: "(nat \<Rightarrow> string \<Rightarrow> string) \<Rightarrow> nat \<Rightarrow> capreq \<Rightarrow> string" where
  "capreq_snprintf nsn sz cr =
     (let nm = (if capreq_is_rpmlib cr then ''rpmlib('' @ cr_name cr @ '')'' else cr_name cr) in
      if sz < 32 then []
      else if relstr cr = [] then sn_pieces nsn sz [nm]
      else sn_pieces nsn sz
        ([nm @ '' '' @ relstr cr @ '' ''] @
         (if capreq_has_epoch cr then [dec_int (sint (capreq_epoch cr)) @ '':''] else []) @
         (if capreq_has_ver cr then [capreq_ver cr] else []) @
         (if capreq_has_rel cr then [CHR ''-'' # capreq_rel cr] else [])))"

definition capreq_arr_join ::
  "(nat \<Rightarrow> string \<Rightarrow> string) \<Rightarrow> capreq list \<Rightarrow> string \<Rightarrow> string option \<Rightarrow> string" where
  "capreq_arr_join nsn capreqs nbuf sep =
     (let sp = (case sep of None \<Rightarrow> '', '' | Some s \<Rightarrow> s); n = length capreqs in
      nbuf @ concat (map (\<lambda>i. capreq_snprintf nsn 512 (capreqs ! i) @ (if i < n - 1 then sp else []))
        [0..<n]))"

section \<open>What a new capreq holds\<close>

named_theorems capreq_view \<open>reading the fields of a capreq\<close>

lemma length_put32 [simp]: "length (put32 w) = 4"
  by (simp add: put32_def)

lemma base256:
  assumes "n < 4294967296"
  shows "n mod 256 + 256 * (n div 256 mod 256 + 256 * (n div 65536 mod 256 +
    256 * (n div 16777216 mod 256))) = (n :: nat)"
proof -
  define b where "b = n div 256"
  define c where "c = b div 256"
  define d where "d = c div 256"
  have eqs: "n div 65536 = c" "n div 16777216 = d"
    by (simp_all add: b_def c_def d_def flip: div_mult2_eq)
  have "d mod 256 = d"
    using assms by (simp add: b_def c_def d_def div_less_iff_less_mult)
  then have "c mod 256 + 256 * (d mod 256) = c" by (simp add: d_def)
  then have "b mod 256 + 256 * (c mod 256 + 256 * (d mod 256)) = b" by (simp add: c_def)
  then show ?thesis unfolding eqs b_def [symmetric] by (simp add: b_def)
qed

lemma get32_put32 [simp]: "get32 (put32 w) = w"
proof -
  have "unat w < 2 ^ LENGTH(32)" by (rule unsigned_less)
  then have "unat w < 4294967296" by simp
  moreover have "foldr (\<lambda>c a. of_char c + 256 * a) (put32 w) 0
    = unat w mod 256 + 256 * (unat w div 256 mod 256 + 256 * (unat w div 65536 mod 256 +
      256 * (unat w div 16777216 mod 256)))"
    by (simp add: put32_def of_char_of take_bit_eq_mod)
  ultimately show ?thesis
    by (simp only: get32_def base256) simp
qed

lemma unat_of_nat_u8: "n < 256 \<Longrightarrow> unat (of_nat n :: u8) = n"
  by (simp add: unsigned_of_nat take_bit_nat_eq_self)

lemma c_str_at_append:
  "NUL \<notin> set s \<Longrightarrow> n = length p \<Longrightarrow> c_str_at (p @ s @ NUL # q) n = s"
  by (auto simp: c_str_at_def takeWhile_tail)

lemma c_str_at_0 [simp]: "c_str_at (NUL # b) 0 = []"
  by (simp add: c_str_at_def)

text \<open>Lengths and bytes for which the one-byte offsets are exact.\<close>

definition evr_fits :: "string option \<Rightarrow> string option \<Rightarrow> bool" where
  "evr_fits v r \<longleftrightarrow>
     (case v of None \<Rightarrow> True | Some v \<Rightarrow> NUL \<notin> set v \<and> length v < 250) \<and>
     (case r of None \<Rightarrow> True | Some r \<Rightarrow> NUL \<notin> set r)"

definition opt_str :: "string option \<Rightarrow> string" where
  "opt_str v = (case v of None \<Rightarrow> [] | Some v \<Rightarrow> v)"

lemma opt_str_simps [simp]: "opt_str None = []" "opt_str (Some v) = v"
  by (simp_all add: opt_str_def)

lemma capreq_new_SomeD:
  assumes "capreq_new na nm e v r rf fl = Some cr"
  shows "v = None \<Longrightarrow> e = 0" and "v = None \<Longrightarrow> r = None" and "v \<noteq> None \<Longrightarrow> rf \<noteq> 0"
  using assms by (auto simp: capreq_new_def Let_def split: if_splits prod.splits)

lemma capreq_new_fields:
  assumes "capreq_new na nm e v r rf fl = Some cr"
  shows "cr_name cr = fst (rpmlib_name nm)"
    and "namelen cr = of_nat (length (cr_name cr))"
    and "cr_relflags cr = ucast rf OR (if na then REL_NAALLOC else 0)"
    and "cr_flags cr = ucast fl OR (if snd (rpmlib_name nm) then CAPREQ_RPMLIB else 0)"
    and "capreq_has_epoch cr \<longleftrightarrow> e \<noteq> 0"
    and "capreq_has_ver cr \<longleftrightarrow> v \<noteq> None"
  using assms
  by (auto simp: capreq_new_def Let_def capreq_has_epoch_def capreq_has_ver_def
      split: if_splits prod.splits)

lemma capreq_new_buff:
  assumes "capreq_new na nm e v r rf fl = Some cr"
  shows "cr_buff cr = NUL # (if e \<noteq> 0 then put32 e else []) @
      (case v of None \<Rightarrow> [] | Some v \<Rightarrow> v @ [NUL]) @ (case r of None \<Rightarrow> [] | Some r \<Rightarrow> r @ [NUL]) @
      (if na then [] else cr_name cr @ [NUL])"
    and "cr_ep_ofs cr = (if e \<noteq> 0 then 1 else 0)"
    and "cr_ver_ofs cr = (if v \<noteq> None then of_nat (1 + (if e \<noteq> 0 then 4 else 0)) else 0)"
    and "cr_rel_ofs cr = (if r \<noteq> None then
      of_nat (1 + (if e \<noteq> 0 then 4 else 0) + length (opt_str v) + 1) else 0)"
  using assms
  by (auto simp: capreq_new_def Let_def opt_str_def split: if_splits prod.splits option.splits)

lemma capreq_new_epoch:
  assumes "capreq_new na nm e v r rf fl = Some cr"
  shows "capreq_epoch cr = e"
proof (cases "e = 0")
  case False
  then obtain q where "cr_buff cr = NUL # put32 e @ q"
    using capreq_new_buff(1) [OF assms] by simp
  then show ?thesis
    using False capreq_new_buff(2) [OF assms] by (simp add: capreq_epoch_def)
qed (use capreq_new_buff(2) [OF assms] in \<open>simp add: capreq_epoch_def\<close>)

lemma capreq_new_ver:
  assumes new: "capreq_new na nm e v r rf fl = Some cr" and fits: "evr_fits v r"
  shows "capreq_ver cr = opt_str v"
proof (cases v)
  case None
  then show ?thesis
    using capreq_new_buff(1,3) [OF new] by (simp add: capreq_ver_def)
next
  case (Some x)
  let ?p = "NUL # (if e \<noteq> 0 then put32 e else [])"
  obtain q where "cr_buff cr = ?p @ x @ NUL # q"
    using capreq_new_buff(1) [OF new] Some by auto
  moreover have "unat (cr_ver_ofs cr) = length ?p"
    using capreq_new_buff(3) [OF new] Some by (auto simp: unat_of_nat_u8)
  ultimately show ?thesis
    using fits Some c_str_at_append [of x "length ?p" ?p q]
    by (simp add: capreq_ver_def evr_fits_def)
qed

lemma capreq_new_rel:
  assumes new: "capreq_new na nm e v r rf fl = Some cr" and fits: "evr_fits v r"
  shows "capreq_rel cr = opt_str r" and "capreq_has_rel cr \<longleftrightarrow> r \<noteq> None"
proof -
  consider "r = None" | x w where "r = Some x" "v = Some w"
    using capreq_new_SomeD(2) [OF new] by (cases r; cases v) auto
  then have "capreq_rel cr = opt_str r \<and> (capreq_has_rel cr \<longleftrightarrow> r \<noteq> None)"
  proof cases
    case 1
    then show ?thesis
      using capreq_new_buff(1,4) [OF new] by (simp add: capreq_rel_def capreq_has_rel_def)
  next
    case 2
    let ?p = "NUL # (if e \<noteq> 0 then put32 e else []) @ w @ [NUL]"
    obtain q where "cr_buff cr = ?p @ x @ NUL # q"
      using capreq_new_buff(1) [OF new] 2 by auto
    moreover have "cr_rel_ofs cr = of_nat (length ?p)" and "length ?p < 256"
      using capreq_new_buff(4) [OF new] fits 2 by (simp_all add: evr_fits_def)
    then have "unat (cr_rel_ofs cr) = length ?p"
      by (simp only: unat_of_nat_u8)
    moreover from this have "cr_rel_ofs cr \<noteq> 0" by auto
    ultimately show ?thesis
      using fits 2 c_str_at_append [of x "length ?p" ?p q]
      by (simp add: capreq_rel_def capreq_has_rel_def evr_fits_def)
  qed
  then show "capreq_rel cr = opt_str r" and "capreq_has_rel cr \<longleftrightarrow> r \<noteq> None" by auto
qed

lemma rel_bits [flag_simps]:
  "((x OR 128) AND 7 :: u8) = x AND 7" "((x OR 0) AND 7 :: u8) = x AND 7"
  by (simp_all add: bit.conj_disj_distrib2)

lemma capreq_new_relbits:
  assumes "capreq_new na nm e v r rf fl = Some cr"
  shows "cr_relflags cr AND REL_ALL = ucast rf AND REL_ALL"
  using capreq_new_fields(3) [OF assms] by (simp add: flag_simps)

lemmas capreq_new_view =
  capreq_new_fields(1,2,5,6) capreq_new_epoch capreq_new_ver capreq_new_rel capreq_new_relbits

section \<open>Cloning\<close>

text \<open>A capreq as built, cloned: the copy is the original as long as the one-byte size holds it.\<close>

lemma c_str_at_last: "NUL \<notin> set s \<Longrightarrow> c_str_at (p @ s @ [NUL]) (length p) = s"
  using c_str_at_append [of s "length p" p "[]"] by simp

text \<open>
  The layout of the buffer: \<open>p\<close> is what \<open>capreq_bufsize\<close> measures, behind it stands the name of
  a heap-allocated capreq.
\<close>

definition capreq_layout :: "bool \<Rightarrow> capreq \<Rightarrow> string \<Rightarrow> bool" where
  "capreq_layout na cr p \<longleftrightarrow>
     cr_buff cr = p @ (if na then [] else cr_name cr @ [NUL]) \<and>
     capreq_bufsize cr = (if length p < 255 then Some (length p) else None) \<and>
     (if capreq_has_ver cr
      then (\<exists>evr. p = NUL # evr @ [NUL] \<and>
              (capreq_has_epoch cr \<longrightarrow> (\<exists>x. evr = put32 (capreq_epoch cr) @ x))) \<and>
           unat (cr_ver_ofs cr) < length p \<and> unat (cr_rel_ofs cr) < length p \<and> cr_ep_ofs cr \<le> 1
      else p = [NUL] \<and> cr_ep_ofs cr = 0 \<and> cr_ver_ofs cr = 0 \<and> cr_rel_ofs cr = 0)"

lemma capreq_new_layout:
  assumes new: "capreq_new na nm e v r rf fl = Some cr" and fits: "evr_fits v r"
  obtains p where "capreq_layout na cr p"
proof -
  let ?t = "if na then [] else cr_name cr @ [NUL]"
  note bf = capreq_new_buff [OF new] and f = capreq_new_fields(5,6) [OF new] capreq_new_epoch [OF new]
  consider (none) "e = 0" "v = None" "r = None" | (ver) x where "v = Some x" "r = None"
    | (rel) x y where "v = Some x" "r = Some y"
    using capreq_new_SomeD(1,2) [OF new] by (cases v; cases r) auto
  then show thesis
  proof cases
    case none
    then show ?thesis
      using bf f that [of "[NUL]"] by (auto simp: capreq_bufsize_def capreq_layout_def)
  next
    case (ver x)
    let ?p = "NUL # (if e \<noteq> 0 then put32 e else [])"
    have b: "cr_buff cr = (?p @ x @ [NUL]) @ ?t"
      "unat (cr_ver_ofs cr) = length ?p" "cr_rel_ofs cr = 0" "cr_ep_ofs cr \<le> 1" "unat (cr_ep_ofs cr) \<le> 1"
      using bf ver by (auto simp: unat_of_nat_u8)
    have "c_str_at (cr_buff cr) (length ?p) = x"
      using b(1) fits ver c_str_at_append [of x "length ?p" ?p ?t]
      by (simp add: evr_fits_def)
    then have "capreq_bufsize cr = (if length (?p @ x @ [NUL]) < 255 then Some (length (?p @ x @ [NUL])) else None)"
      using b(2,3,5) by (simp add: capreq_bufsize_def max_def)
    then show ?thesis using b f ver that [of "?p @ x @ [NUL]"]
      by (auto simp: capreq_layout_def)
  next
    case (rel x y)
    let ?p = "NUL # (if e \<noteq> 0 then put32 e else []) @ x @ [NUL]"
    have b: "cr_buff cr = (?p @ y @ [NUL]) @ ?t"
      "cr_rel_ofs cr = of_nat (length ?p)" "unat (cr_ver_ofs cr) \<le> 5" "unat (cr_ep_ofs cr) \<le> 1"
      "unat (cr_ver_ofs cr) < length ?p" "cr_ep_ofs cr \<le> 1"
      using bf rel by (auto simp: unat_of_nat_u8)
    have "length ?p < 256" using fits rel by (simp add: evr_fits_def)
    then have r: "unat (cr_rel_ofs cr) = length ?p" using b(2) by (simp only: unat_of_nat_u8)
    have "c_str_at (cr_buff cr) (length ?p) = y"
      using b(1) fits rel c_str_at_append [of y "length ?p" ?p ?t]
      by (simp add: evr_fits_def)
    moreover have "max (max (unat (cr_ep_ofs cr)) (unat (cr_ver_ofs cr))) (unat (cr_rel_ofs cr)) = length ?p"
      using b(4,5) r by simp
    ultimately have "capreq_bufsize cr = (if length (?p @ y @ [NUL]) < 255 then Some (length (?p @ y @ [NUL])) else None)"
      by (simp add: capreq_bufsize_def)
    then show ?thesis using b r f rel that [of "?p @ y @ [NUL]"]
      by (auto simp: capreq_layout_def)
  qed
qed

lemma malloced_new:
  "capreq_new False nm e v r rf fl = Some cr \<Longrightarrow> rf AND 128 = 0 \<Longrightarrow> malloced cr"
  using capreq_new_fields(3) [of False nm e v r rf fl cr] unsigned_and_eq [of rf 128, where ?'a = u8]
  by (simp add: malloced_def)

lemma capreq_clone_new:
  assumes new: "capreq_new False nm e v r rf fl = Some cr" and fits: "evr_fits v r"
    and rf: "rf AND 128 = 0" and nul: "NUL \<notin> set (cr_name cr)" and len: "length (cr_name cr) < 65536"
  shows "capreq_clone False cr =
    (if 24 + length (cr_buff cr) < 256 then Inr (Some cr)
     else if 24 + (length (cr_buff cr) - length (cr_name cr) - 1) < 255 then Inl Overrun
     else Inl Died)"
proof -
  obtain p where "capreq_layout False cr p" by (rule capreq_new_layout [OF new fits])
  then have p: "cr_buff cr = p @ cr_name cr @ [NUL]"
    "capreq_bufsize cr = (if length p < 255 then Some (length p) else None)"
    by (simp_all add: capreq_layout_def)
  have "unat (namelen cr) = length (cr_name cr)"
    using capreq_new_fields(2) [OF new] len by (simp add: unsigned_of_nat take_bit_nat_eq_self)
  then show ?thesis
    using p malloced_new [OF new rf] c_str_at_last [OF nul, of p]
    by (simp add: capreq_clone_def capreq_sizeof_def)
qed

section \<open>A concrete environment\<close>

text \<open>
  An environment that keeps the contract: byte-wise comparison of versions, insertion sort and
  linear search for trurl's arrays, the removal of neighbours that compare equal. It stands in
  for the libraries where a theorem is applied to a concrete input.
\<close>

fun uniq_from :: "('a \<Rightarrow> 'a \<Rightarrow> int) \<Rightarrow> 'a list \<Rightarrow> 'a list" where
  "uniq_from cmp (x # y # xs) =
     (if cmp x y = 0 then uniq_from cmp (x # xs) else x # uniq_from cmp (y # xs))"
| "uniq_from cmp xs = xs"

lemma uniq_from_sub: "set (uniq_from cmp xs) \<subseteq> set xs"
  by (induction cmp xs rule: uniq_from.induct) auto

lemma uniq_from_hd: "\<exists>zs. uniq_from cmp (x # xs) = x # zs"
  by (induction cmp "x # xs" arbitrary: x xs rule: uniq_from.induct) auto

lemma uniq_from_rep: "y \<in> set xs \<Longrightarrow> cmp y y = 0 \<Longrightarrow> \<exists>x \<in> set (uniq_from cmp xs). cmp x y = 0"
proof (induction cmp xs rule: uniq_from.induct)
  case (1 cmp x z xs)
  show ?case
  proof (cases "cmp x z = 0")
    case True
    show ?thesis
    proof (cases "y = z")
      case True
      obtain zs where "uniq_from cmp (x # xs) = x # zs" using uniq_from_hd by metis
      then show ?thesis using \<open>cmp x z = 0\<close> True by simp
    qed (use 1 True in auto)
  qed (use 1 in auto)
qed auto

lemma uniq_from_sorted: "sorted_cmp cmp xs \<Longrightarrow> sorted_cmp cmp (uniq_from cmp xs)"
proof (induction cmp xs rule: uniq_from.induct)
  case (1 cmp x y xs)
  then show ?case using uniq_from_sub [of cmp "y # xs"] by auto
qed auto

definition ref_env :: penv where
  "ref_env = \<lparr>vercmp = strcmp, architecture_score = (\<lambda>_. 1), conf_MULTILIB = False,
     conf_PROMOTE_EPOCH = False, cr_sort = isort, cr_bsearch = scan_from 0, cr_uniq = uniq_from\<rparr>"

lemma ref_env_simps [simp]:
  "vercmp ref_env = strcmp" "conf_MULTILIB ref_env = False" "conf_PROMOTE_EPOCH ref_env = False"
  "cr_sort ref_env = isort" "cr_bsearch ref_env = scan_from 0" "cr_uniq ref_env = uniq_from"
  by (simp_all add: ref_env_def)

interpretation ref_pm: pm_env ref_env
proof (rule pm_env.intro)
  show "cmp_order UNIV (vercmp ref_env)" by (simp add: cmp_order_strcmp)
  show "sorted_arrays (cr_sort ref_env) (cr_bsearch ref_env)" by (simp add: sorted_arrays_ref)
qed (simp_all add: uniq_from_sub uniq_from_rep uniq_from_sorted)

section \<open>Properties\<close>

text \<open>C24: a capability or requirement built by \<open>capreq_new\<close> reads back as what it was built
  from, through the offsets into its byte buffer, while the version is shorter than 250 bytes.\<close>

theorem capreq_new_reads_back:
  assumes new: "capreq_new na nm e v r rf fl = Some cr" and fits: "evr_fits v r"
  shows "cr_name cr = fst (rpmlib_name nm) \<and> capreq_epoch cr = e \<and> capreq_ver cr = opt_str v \<and>
    capreq_rel cr = opt_str r \<and> (capreq_has_epoch cr \<longleftrightarrow> e \<noteq> 0) \<and> (capreq_has_ver cr \<longleftrightarrow> v \<noteq> None) \<and>
    (capreq_has_rel cr \<longleftrightarrow> r \<noteq> None) \<and> cr_relflags cr AND REL_ALL = ucast rf AND REL_ALL"
  using capreq_new_view [OF new] capreq_new_ver [OF new fits] capreq_new_rel [OF new fits] by blast

theorem capreq_new_reads_back_witness:
  "\<exists>cr. capreq_new False ''glibc'' 6 (Some ''2.3'') (Some ''14'') 1 0 = Some cr \<and>
     capreq_epoch cr = 6 \<and> capreq_ver cr = ''2.3'' \<and> capreq_rel cr = ''14''"
proof -
  have "\<exists>cr. capreq_new False ''glibc'' 6 (Some ''2.3'') (Some ''14'') 1 0 = Some cr"
    by (simp add: capreq_new_def Let_def split: prod.split)
  then obtain cr where cr: "capreq_new False ''glibc'' 6 (Some ''2.3'') (Some ''14'') 1 0 = Some cr" ..
  show ?thesis using cr capreq_new_reads_back [OF cr] by (simp add: evr_fits_def)
qed

text \<open>the offset of the release is one byte wide. Behind a version of 255 bytes it wraps
  around, and the capability reports its version as its release.\<close>

theorem long_version_wraps:
  "map_option capreq_rel (capreq_new False ''a'' 0 (Some (replicate 255 CHR ''x'')) (Some ''1'') 1 0) =
     Some (replicate 255 CHR ''x'')"
proof -
  let ?v = "replicate 255 CHR ''x''"
  have n: "rpmlib_name ''a'' = (''a'', False)" by code_simp
  have c: "c_str_at (NUL # ?v @ NUL # ''1'' @ [NUL] @ ''a'' @ [NUL]) 1 = ?v"
    using c_str_at_append [of ?v 1 "[NUL]"] by simp
  show ?thesis using c by (simp add: capreq_new_def n capreq_rel_def)
qed

text \<open>C32: cloning a freshly built capreq gives an equal one exactly while the struct and its
  buffer fit in 255 bytes; beyond that the copy overruns its allocation or the program dies.\<close>

theorem capreq_clone_limits:
  assumes "capreq_new False nm e v r rf fl = Some cr" and "evr_fits v r"
    and "rf AND 128 = 0" and "NUL \<notin> set (cr_name cr)" and "length (cr_name cr) < 65536"
  shows "capreq_clone False cr =
    (if 24 + length (cr_buff cr) < 256 then Inr (Some cr)
     else if 24 + (length (cr_buff cr) - length (cr_name cr) - 1) < 255 then Inl Overrun
     else Inl Died)"
  using assms by (rule capreq_clone_new)

theorem capreq_clone_limits_witness:
  "\<exists>cr. capreq_new False (replicate 240 CHR ''n'') 0 (Some ''1'') None 1 0 = Some cr \<and>
     capreq_clone False cr = Inl Overrun"
proof -
  let ?n = "replicate 240 CHR ''n''"
  have n: "rpmlib_name ?n = (?n, False)" by code_simp
  let ?cr = "the (capreq_new False ?n 0 (Some ''1'') None 1 0)"
  have cr: "capreq_new False ?n 0 (Some ''1'') None 1 0 = Some ?cr"
    by (simp add: capreq_new_def n)
  have "cr_name ?cr = ?n" "length (cr_buff ?cr) = 244" by (simp_all add: capreq_new_def n)
  then show ?thesis
    using cr capreq_clone_limits [OF cr] by (auto simp: evr_fits_def)
qed

end
