(* ===== verification/Capreq_Order.thy ===== *)
theory Capreq_Order
  imports Capreq
begin

text \<open>
  The comparison functions of capreq.c obey the contract of sorting and searching on the
  capreqs whose epochs do not wrap and whose releases are distinguishable from no release, so
  looking a name up in a capreq array finds exactly the block of the entries of that name.
\<close>

section \<open>Comparators\<close>

text \<open>A comparison of two kinds of elements, all of one kind before those of the other.\<close>

lemma cmp_order_guard:
  assumes g: "cmp_order (S \<inter> {x. P x}) g"
  shows "cmp_order S (\<lambda>x y. if \<not> P x \<and> \<not> P y then 0 else if P x \<and> \<not> P y then 1
                           else if \<not> P x \<and> P y then - 1 else g x y)"
proof
  fix x y
  assume "x \<in> S" "y \<in> S"
  then show "sgn (if \<not> P x \<and> \<not> P y then 0 else if P x \<and> \<not> P y then 1
      else if \<not> P x \<and> P y then - 1 else g x y)
    = - sgn (if \<not> P y \<and> \<not> P x then 0 else if P y \<and> \<not> P x then 1
      else if \<not> P y \<and> P x then - 1 else g y x)"
    using cmp_order.anti [OF g, of x y] by (cases "P x"; cases "P y") auto
next
  fix x y z
  assume "x \<in> S" "y \<in> S" "z \<in> S"
    and "(if \<not> P x \<and> \<not> P y then 0 else if P x \<and> \<not> P y then 1
      else if \<not> P x \<and> P y then - 1 else g x y) \<le> 0"
    and "(if \<not> P y \<and> \<not> P z then 0 else if P y \<and> \<not> P z then 1
      else if \<not> P y \<and> P z then - 1 else g y z) \<le> 0"
  then show "(if \<not> P x \<and> \<not> P z then 0 else if P x \<and> \<not> P z then 1
      else if \<not> P x \<and> P z then - 1 else g x z) \<le> 0"
    using cmp_order.trans [OF g, of x y z] by (cases "P x"; cases "P y"; cases "P z") auto
qed (auto simp: cmp_order.refl [OF g])

definition cr_comparable :: "penv \<Rightarrow> capreq \<Rightarrow> bool" where
  "cr_comparable E cr \<longleftrightarrow>
     nonneg32 (capreq_epoch cr) \<and>
     (capreq_rel cr \<noteq> [] \<longrightarrow> vercmp E (capreq_rel cr) [] \<noteq> 0)"

text \<open>The releases with the relation as a tie break, where both releases are absent no tie break.\<close>

definition rel_tie :: "capreq \<Rightarrow> int" where
  "rel_tie cr = (if capreq_rel cr = [] then 0 else capreq_relflags cr)"

context pm_env
begin

interpretation ver: cmp_order UNIV "vercmp E"
  by (rule vercmp_order)

lemma vercmp_on: "cmp_order S (\<lambda>x y. vercmp E (f x) (f y))"
  by (rule cmp_order_on [OF vercmp_order]) simp

lemma rel_tie_order:
  "cmp_order {c. cr_comparable E c}
     (\<lambda>x y. if capreq_rel x = [] \<and> capreq_rel y = [] then 0
            else cmp_then (vercmp E (capreq_rel x) (capreq_rel y))
                   (capreq_relflags x - capreq_relflags y))" (is "cmp_order ?S ?c")
proof -
  let ?d = "\<lambda>x y. cmp_then (vercmp E (capreq_rel x) (capreq_rel y)) (rel_tie x - rel_tie y)"
  have d: "cmp_order ?S ?d"
    by (intro cmp_order_then vercmp_on cmp_order_on [OF cmp_order_int_diff, of _ rel_tie]) simp
  have eq: "?c x y = ?d x y" if "x \<in> ?S" "y \<in> ?S" for x y
    using that ver.refl [of "[]"] ver.eq_sym [of "[]" "capreq_rel y"]
    by (auto simp: rel_tie_def cmp_then_def cr_comparable_def)
  show ?thesis by (rule cmp_order_cong [OF d eq])
qed

lemma cmp_evr_order: "cmp_order {c. cr_comparable E c} (capreq_cmp_evr E)"
proof -
  have "cmp_order {c. cr_comparable E c}
      (\<lambda>x y. i32_diff (capreq_epoch x) (capreq_epoch y))"
    by (rule cmp_order_on [OF cmp_order_i32_diff]) (simp add: cr_comparable_def)
  then show ?thesis
    unfolding capreq_cmp_evr_def
    by (intro cmp_order_guard cmp_order_then vercmp_on
        cmp_order_subset [OF rel_tie_order] cmp_order_subset [where T = "_ \<inter> _"]) auto
qed

lemma cmp_name_evr_order: "cmp_order {c. cr_comparable E c} (capreq_cmp_name_evr E)"
  unfolding capreq_cmp_name_evr_def
  by (intro cmp_order_then cmp_evr_order cmp_order_on [OF cmp_order_strcmp]) simp

lemma cmp_name_evr_rev_order: "cmp_order {c. cr_comparable E c} (capreq_cmp_name_evr_rev E)"
  unfolding capreq_cmp_name_evr_rev_def
  by (intro cmp_order_then cmp_order_rev cmp_evr_order cmp_order_on [OF cmp_order_strcmp]) simp

end

text \<open>The byte-wise comparator used when an array is stored.\<close>

definition name_ok :: "capreq \<Rightarrow> bool" where
  "name_ok cr \<longleftrightarrow> unat (namelen cr) = length (cr_name cr)"

lemma strncmp_full: "length s \<le> n \<Longrightarrow> length t \<le> n \<Longrightarrow> strncmp s t n = strcmp s t"
  by (simp add: strncmp_take)

lemma strcmp_name_evr_order:
  "cmp_order {c. name_ok c \<and> nonneg32 (capreq_epoch c)} capreq_strcmp_name_evr" (is "cmp_order ?S _")
proof -
  let ?d = "\<lambda>x y. cmp_then (strcmp (cr_name x) (cr_name y)) (capreq_strcmp_evr x y)"
  have ep: "cmp_order ?S (\<lambda>x y. i32_diff (capreq_epoch x) (capreq_epoch y))"
    by (rule cmp_order_on [OF cmp_order_i32_diff]) simp
  have fl: "cmp_order ?S (\<lambda>x y. (capreq_relflags x + uint (cr_flags x)) -
      (capreq_relflags y + uint (cr_flags y)))"
    by (rule cmp_order_on [OF cmp_order_int_diff, of _ "\<lambda>c. capreq_relflags c + uint (cr_flags c)"])
      simp
  have d: "cmp_order ?S ?d"
    unfolding capreq_strcmp_evr_def
    by (intro cmp_order_then ep fl cmp_order_on [OF cmp_order_strcmp]) simp_all
  have eq: "capreq_strcmp_name_evr x y = ?d x y" if "x \<in> ?S" "y \<in> ?S" for x y
    using that by (simp add: capreq_strcmp_name_evr_def name_ok_def strncmp_full)
  show ?thesis by (rule cmp_order_cong [OF d eq])
qed

section \<open>Looking a name up\<close>

text \<open>What an array looks like around the entries of one name.\<close>

definition name_block :: "string \<Rightarrow> capreq list \<Rightarrow> capreq list \<Rightarrow> capreq list \<Rightarrow> bool" where
  "name_block nm pre blk post \<longleftrightarrow>
     blk \<noteq> [] \<and> (\<forall>c \<in> set blk. cr_name c = nm) \<and> (\<forall>c \<in> set (pre @ post). cr_name c \<noteq> nm)"

lemma cmp_name_evr_le_name:
  "capreq_cmp_name_evr E x y \<le> 0 \<Longrightarrow> strcmp (cr_name x) (cr_name y) \<le> 0"
  by (auto simp: capreq_cmp_name_evr_def cmp_then_def split: if_splits)

lemma key_sorted_name:
  "sorted_cmp (capreq_cmp_name_evr E) crs \<Longrightarrow> key_sorted (\<lambda>c. capreq_cmp2name c nm) crs"
proof (induction crs)
  case (Cons c crs)
  have le: "strcmp (cr_name c) (cr_name d) \<le> 0" if "d \<in> set crs" for d
    using Cons.prems that cmp_name_evr_le_name by auto
  have "0 \<le> strcmp (cr_name d) nm" if "d \<in> set crs" "0 \<le> strcmp (cr_name c) nm" for d
    using le [OF that(1)] that(2) strcmp.less_le_trans [of "cr_name c" "cr_name d" nm]
      strcmp.not_less strcmp.trans by (smt (verit) UNIV_I)
  moreover have "0 < strcmp (cr_name d) nm" if "d \<in> set crs" "0 < strcmp (cr_name c) nm" for d
    using le [OF that(1)] that(2) strcmp.not_less strcmp.trans by (smt (verit) UNIV_I)
  ultimately show ?case using Cons by (simp add: capreq_cmp2name_def)
qed simp

lemma key_sorted_split:
  assumes "key_sorted f xs" "i < length xs" "f (xs ! i) = 0" "\<forall>j < i. f (xs ! j) \<noteq> 0"
  obtains pre blk post where "xs = pre @ blk @ post" "length pre = i" "blk \<noteq> []"
    "\<forall>x \<in> set blk. f x = 0" "\<forall>x \<in> set (pre @ post). f x \<noteq> 0"
proof -
  let ?pre = "take i xs" and ?rest = "drop i xs"
  let ?blk = "takeWhile (\<lambda>x. f x = 0) ?rest" and ?post = "dropWhile (\<lambda>x. f x = 0) ?rest"
  have rest: "key_sorted f ?rest" using assms(1)
    by (induction xs arbitrary: i) (auto simp: drop_Cons' dest: in_set_dropD)
  have "?rest = xs ! i # drop (Suc i) xs" using assms(2) by (simp add: Cons_nth_drop_Suc)
  then have "?blk \<noteq> []" using assms(3) by simp
  moreover have "\<forall>x \<in> set ?post. f x \<noteq> 0"
  proof -
    have "key_sorted f ys \<Longrightarrow> \<forall>y \<in> set ys. 0 \<le> f y \<Longrightarrow> \<forall>x \<in> set (dropWhile (\<lambda>x. f x = 0) ys). 0 < f x" for ys
      by (induction ys) auto
    moreover have "\<forall>y \<in> set ?rest. 0 \<le> f y"
      using rest \<open>?rest = _\<close> assms(3) by (metis key_sorted.simps(2) order_refl set_ConsD)
    ultimately show ?thesis using rest by force
  qed
  moreover have "\<forall>x \<in> set ?pre. f x \<noteq> 0"
    using assms(4) by (auto simp: in_set_conv_nth)
  moreover have "xs = ?pre @ ?blk @ ?post" by simp
  moreover have "length ?pre = i" using assms(2) by simp
  moreover have "\<forall>x \<in> set ?blk. f x = 0" by (auto dest: set_takeWhileD)
  ultimately show thesis using that by (metis Un_iff set_append)
qed

context pm_env
begin

lemma arr_sorted_sorted:
  "\<forall>c \<in> set crs. cr_comparable E c \<Longrightarrow>
     sorted_cmp (capreq_cmp_name_evr E) (capreq_arr_sorted E crs)"
  using cmp_order_subset [OF cmp_name_evr_order, of "set crs"] sorted_arrays.sort_sorted [OF cr_arrays]
  by (auto simp: capreq_arr_sorted_def)

lemma arr_sorted_mset [simp]: "mset (capreq_arr_sorted E crs) = mset crs"
  by (simp add: capreq_arr_sorted_def sorted_arrays.sort_mset [OF cr_arrays])

lemma arr_sorted_set [simp]: "set (capreq_arr_sorted E crs) = set crs"
  by (metis arr_sorted_mset set_mset_mset)

lemma arr_find_cases:
  assumes "\<forall>c \<in> set crs. cr_comparable E c"
  obtains (none) "capreq_arr_find E crs nm = (- 1, capreq_arr_sorted E crs)"
      "\<forall>c \<in> set crs. cr_name c \<noteq> nm"
  | (found) pre blk post where "capreq_arr_find E crs nm = (int (length pre), pre @ blk @ post)"
      "capreq_arr_sorted E crs = pre @ blk @ post" "name_block nm pre blk post"
proof -
  let ?ys = "capreq_arr_sorted E crs" and ?f = "\<lambda>c. capreq_cmp2name c nm"
  have key: "key_sorted ?f ?ys"
    by (rule key_sorted_name) (rule arr_sorted_sorted [OF assms])
  have eq0: "?f c = 0 \<longleftrightarrow> cr_name c = nm" for c by (simp add: capreq_cmp2name_def)
  show thesis
  proof (cases rule: sorted_arrays.search_cases [OF cr_arrays key])
    case 1
    then show thesis
      using none arr_sorted_set [of crs] by (auto simp: capreq_arr_find_def Let_def eq0)
  next
    case (2 i)
    then obtain pre blk post where "?ys = pre @ blk @ post" "length pre = i" "blk \<noteq> []"
      "\<forall>x \<in> set blk. ?f x = 0" "\<forall>x \<in> set (pre @ post). ?f x \<noteq> 0"
      using key_sorted_split [OF key] by metis
    then show thesis
      using 2(1) found [of pre blk post] by (simp add: capreq_arr_find_def Let_def name_block_def eq0)
  qed
qed

lemma arr_contains_iff:
  assumes "\<forall>c \<in> set crs. cr_comparable E c"
  shows "fst (capreq_arr_contains E crs nm) \<longleftrightarrow> (\<exists>c \<in> set crs. cr_name c = nm)"
proof (cases rule: arr_find_cases [OF assms, of nm])
  case 1
  then show ?thesis by (auto simp: capreq_arr_find_def capreq_arr_contains_def Let_def)
next
  case (2 pre blk post)
  then have "set crs = set (pre @ blk @ post)" by (metis arr_sorted_set)
  moreover have "hd blk \<in> set blk" "cr_name (hd blk) = nm" using 2 by (auto simp: name_block_def)
  ultimately show ?thesis
    using 2 by (auto simp: capreq_arr_find_def capreq_arr_contains_def Let_def)
qed

end

section \<open>Properties\<close>

text \<open>C28: the comparator every array of capabilities is sorted with is a total preorder on
  capabilities whose epochs are in the signed range and that carry comparable version parts.\<close>

theorem capreq_cmp_is_order:
  assumes "pm_env E"
  shows "cmp_order {c. cr_comparable E c} (capreq_cmp_name_evr E)"
  by (rule pm_env.cmp_name_evr_order [OF assms])

theorem capreq_cmp_is_order_witness:
  "cmp_order {c. cr_comparable ref_env c} (capreq_cmp_name_evr ref_env)"
  by (rule capreq_cmp_is_order [OF ref_pm.pm_env_axioms])

text \<open>C27: the binary search for a name, which sorts the array first when it is not sorted,
  finds a name exactly when some entry of the array has it.\<close>

theorem arr_contains_exact:
  assumes "pm_env E" and "\<forall>c \<in> set crs. cr_comparable E c"
  shows "fst (capreq_arr_contains E crs nm) \<longleftrightarrow> (\<exists>c \<in> set crs. cr_name c = nm)"
  by (rule pm_env.arr_contains_iff [OF assms])

theorem arr_contains_exact_witness:
  "\<exists>a b. capreq_new False ''b'' 0 None None 0 0 = Some b \<and> capreq_new False ''a'' 0 None None 0 0 = Some a \<and>
     fst (capreq_arr_contains ref_env [b, a] ''a'') \<and> \<not> fst (capreq_arr_contains ref_env [b, a] ''c'')"
proof -
  have new: "\<exists>c. capreq_new False [x] 0 None None 0 0 = Some c \<and> cr_name c = [x] \<and> cr_comparable ref_env c"
    if "x \<in> set ''ab''" for x
  proof -
    have "rpmlib_name ''a'' = (''a'', False)" "rpmlib_name ''b'' = (''b'', False)" by code_simp+
    then show ?thesis using that
      by (auto simp: capreq_new_def cr_comparable_def nonneg32_def capreq_epoch_def
          capreq_has_ver_def capreq_has_rel_def capreq_has_epoch_def)
  qed
  obtain a b where ab: "capreq_new False ''a'' 0 None None 0 0 = Some a" "cr_name a = ''a''" "cr_comparable ref_env a"
    "capreq_new False ''b'' 0 None None 0 0 = Some b" "cr_name b = ''b''" "cr_comparable ref_env b"
    using new [of "CHR ''a''"] new [of "CHR ''b''"] by auto
  then show ?thesis
    using arr_contains_exact [OF ref_pm.pm_env_axioms, of "[b, a]"] by auto
qed

end
