(* ===== verification/Pkg.thy ===== *)
theory Pkg
  imports Capreq_Order
begin

text \<open>
  pkg.h and the data part of pkg.c: the package record, the registries of architecture and
  operating system names, construction of a package and the file names derived from it. A
  package is a heap object in C; \<open>addr\<close> is its address, which stands for pointer identity, \<open>has_na\<close>
  whether it was taken from an allocator.
\<close>

section \<open>The package record\<close>

text \<open>A file of a package (pkgfl.h), with the target of a symbolic link.\<close>

record flfile =
  fl_size :: u32
  fl_mode :: u16
  basename :: string
  slinkto :: "string option"

record pkg =
  addr :: nat
  has_na :: bool
  flags :: u32
  isize :: u32
  fsize :: u32
  btime :: u32
  color :: u32
  name :: string
  epoch :: u32
  ver :: string
  rel :: string
  fn :: "string option"
  srcfn :: "string option"
  nvr :: string
  arch_ix :: u16
  os_ix :: u16
  caps :: "capreq list option"
  reqs :: "capreq list option"
  cnfls :: "capreq list option"
  pkgdir :: nat
  pkgdir_pri :: int
  pri :: int
  recno :: u32
  seqno :: u32
  pfl :: "(string \<times> flfile list) list option"

abbreviation PKG_HAS_SRCFN :: u32 where "PKG_HAS_SRCFN \<equiv> 16"
abbreviation PKG_HAS_SELFCAP :: u32 where "PKG_HAS_SELFCAP \<equiv> 128"
abbreviation PKG_IGNORED_UNIQ :: u32 where "PKG_IGNORED_UNIQ \<equiv> 16384"

section \<open>The registries of names\<close>

text \<open>
  \<open>architecture_a\<close> with the hash \<open>architecture_h\<close> over it and the one-entry cache
  \<open>last_arch\<close>; the index of an entry counts from 1, 0 means no architecture.
\<close>

record arch_registry =
  arch_a :: "(string \<times> int) list"
  arch_h :: "string \<Rightarrow> nat option"
  last_arch :: "(string \<times> nat) option"

definition arch_registry_init :: arch_registry where
  "arch_registry_init = \<lparr>arch_a = [], arch_h = (\<lambda>_. None), last_arch = None\<rparr>"

definition pkgmod_register_arch :: "penv \<Rightarrow> string \<Rightarrow> arch_registry \<Rightarrow> nat \<times> arch_registry" where
  "pkgmod_register_arch E arch R =
     (if (case last_arch R of Some (a, i) \<Rightarrow> a = arch | None \<Rightarrow> False)
      then (snd (the (last_arch R)), R)
      else case arch_h R arch of
             Some j \<Rightarrow> (j, R)
           | None \<Rightarrow> let s0 = architecture_score E arch;
                         s = (if s0 = 0 then 2 ^ 31 - 1 - int (length (arch_a R)) - 1 else s0);
                         ix = length (arch_a R) + 1
                     in (ix, R\<lparr>arch_a := arch_a R @ [(arch, s)],
                               arch_h := (arch_h R)(arch \<mapsto> ix),
                               last_arch := Some (arch, ix)\<rparr>))"

text \<open>The name and the score of an index: \<open>NULL\<close> and 0 for the index 0.\<close>

definition arch_of :: "arch_registry \<Rightarrow> u16 \<Rightarrow> string option" where
  "arch_of R ix = (if ix = 0 then None else Some (fst (arch_a R ! (unat ix - 1))))"

definition pkg_arch :: "arch_registry \<Rightarrow> pkg \<Rightarrow> string option" where
  "pkg_arch R p = arch_of R (arch_ix p)"

definition pkg_arch_score :: "arch_registry \<Rightarrow> pkg \<Rightarrow> int" where
  "pkg_arch_score R p = (if arch_ix p = 0 then 0 else snd (arch_a R ! (unat (arch_ix p) - 1)))"

definition pkg_set_arch :: "penv \<Rightarrow> pkg \<Rightarrow> string \<Rightarrow> arch_registry \<Rightarrow> pkg \<times> arch_registry" where
  "pkg_set_arch E p arch R =
     (let (ix, R') = pkgmod_register_arch E arch R in (p\<lparr>arch_ix := of_nat ix\<rparr>, R'))"

record os_registry =
  os_a :: "string list"
  os_h :: "string \<Rightarrow> nat option"
  last_os :: "(string \<times> nat) option"

definition pkgmod_register_os :: "string \<Rightarrow> os_registry \<Rightarrow> nat \<times> os_registry" where
  "pkgmod_register_os os R =
     (if (case last_os R of Some (a, i) \<Rightarrow> a = os | None \<Rightarrow> False)
      then (snd (the (last_os R)), R)
      else case os_h R os of
             Some j \<Rightarrow> (j, R)
           | None \<Rightarrow> let ix = length (os_a R) + 1
                     in (ix, R\<lparr>os_a := os_a R @ [os], os_h := (os_h R)(os \<mapsto> ix),
                               last_os := Some (os, ix)\<rparr>))"

definition pkg_os :: "os_registry \<Rightarrow> pkg \<Rightarrow> string option" where
  "pkg_os R p = (if os_ix p = 0 then None else Some (os_a R ! (unat (os_ix p) - 1)))"

text \<open>
  What the registry keeps true: the hash knows exactly the entries of the array under their
  1-based indices, no name is there twice, the cache is one of the entries.
\<close>

definition arch_reg_ok :: "arch_registry \<Rightarrow> bool" where
  "arch_reg_ok R \<longleftrightarrow>
     distinct (map fst (arch_a R)) \<and>
     (\<forall>a i. arch_h R a = Some i \<longleftrightarrow> 0 < i \<and> i \<le> length (arch_a R) \<and> fst (arch_a R ! (i - 1)) = a) \<and>
     (\<forall>a i. last_arch R = Some (a, i) \<longrightarrow> arch_h R a = Some i)"

lemma arch_reg_ok_init: "arch_reg_ok arch_registry_init"
  by (auto simp: arch_reg_ok_def arch_registry_init_def)

lemma arch_hD:
  "arch_reg_ok R \<Longrightarrow> arch_h R a = Some i \<Longrightarrow>
     0 < i \<and> i \<le> length (arch_a R) \<and> fst (arch_a R ! (i - 1)) = a"
  by (simp add: arch_reg_ok_def)

lemma arch_h_None:
  assumes "arch_reg_ok R" "arch_h R a = None"
  shows "a \<notin> fst ` set (arch_a R)"
proof
  assume "a \<in> fst ` set (arch_a R)"
  then obtain i where "i < length (arch_a R)" "fst (arch_a R ! i) = a"
    by (auto simp: in_set_conv_nth)
  then have "arch_h R a = Some (Suc i)" using assms(1) by (simp add: arch_reg_ok_def)
  then show False using assms(2) by simp
qed

text \<open>Registration either finds an entry or appends one; every later lemma starts here.\<close>

lemma register_arch_cases:
  assumes "arch_reg_ok R"
  obtains (old) i where "pkgmod_register_arch E a R = (i, R)" "arch_h R a = Some i"
  | (new) s R' where "pkgmod_register_arch E a R = (length (arch_a R) + 1, R')"
      "arch_h R a = None"
      "s = (if architecture_score E a = 0 then 2 ^ 31 - 1 - int (length (arch_a R)) - 1
            else architecture_score E a)"
      "R' = R\<lparr>arch_a := arch_a R @ [(a, s)], arch_h := (arch_h R)(a \<mapsto> length (arch_a R) + 1),
              last_arch := Some (a, length (arch_a R) + 1)\<rparr>"
proof (cases "arch_h R a")
  case None
  then have "last_arch R \<noteq> Some (a, i)" for i
    using assms by (auto simp: arch_reg_ok_def)
  then have "pkgmod_register_arch E a R = (length (arch_a R) + 1,
      R\<lparr>arch_a := arch_a R @ [(a, if architecture_score E a = 0 then 2 ^ 31 - 1 - int (length (arch_a R)) - 1
            else architecture_score E a)],
        arch_h := (arch_h R)(a \<mapsto> length (arch_a R) + 1),
        last_arch := Some (a, length (arch_a R) + 1)\<rparr>)"
    using None by (auto simp: pkgmod_register_arch_def Let_def split: option.split)
  then show thesis using None new by blast
next
  case (Some i)
  have "last_arch R = Some (a, j) \<Longrightarrow> j = i" for j
    using assms Some by (auto simp: arch_reg_ok_def)
  then have "pkgmod_register_arch E a R = (i, R)"
    using Some by (auto simp: pkgmod_register_arch_def split: option.splits)
  then show thesis using Some old by blast
qed

lemma register_arch_new_ok:
  assumes ok: "arch_reg_ok R" and None: "arch_h R a = None"
  shows "arch_reg_ok (R\<lparr>arch_a := arch_a R @ [(a, s)], arch_h := (arch_h R)(a \<mapsto> length (arch_a R) + 1),
    last_arch := Some (a, length (arch_a R) + 1)\<rparr>)"
proof -
  let ?n = "length (arch_a R)"
  have h: "arch_h R b = Some i \<longleftrightarrow> 0 < i \<and> i \<le> ?n \<and> fst (arch_a R ! (i - 1)) = b" for b i
    using ok by (simp add: arch_reg_ok_def)
  have a: "a \<notin> fst ` set (arch_a R)" by (rule arch_h_None [OF ok None])
  then have "fst (arch_a R ! (i - 1)) \<noteq> a" if "0 < i" "i \<le> ?n" for i
    using that nth_mem [of "i - 1" "arch_a R"] by force
  then have "((arch_h R)(a \<mapsto> ?n + 1)) b = Some i \<longleftrightarrow>
      0 < i \<and> i \<le> Suc ?n \<and> fst ((arch_a R @ [(a, s)]) ! (i - 1)) = b" for b i
    using h [of b i] by (cases "i = Suc ?n") (auto simp: nth_append)
  then show ?thesis
    using ok a by (simp add: arch_reg_ok_def)
qed

lemma register_arch_step:
  assumes ok: "arch_reg_ok R" and reg: "pkgmod_register_arch E a R = (i, R')"
  shows "arch_reg_ok R' \<and> arch_h R' a = Some i \<and> (\<exists>new. arch_a R' = arch_a R @ new) \<and>
    (\<forall>b j. arch_h R b = Some j \<longrightarrow> arch_h R' b = Some j)"
proof (cases rule: register_arch_cases [OF ok, of E a])
  case (1 j)
  then show ?thesis using ok reg by auto
next
  case (2 s R'')
  then show ?thesis
    using reg register_arch_new_ok [OF ok 2(2), of s] by auto
qed

lemmas register_arch_ok = register_arch_step [THEN conjunct1]

section \<open>Construction\<close>

definition std_fn :: "string \<Rightarrow> string \<Rightarrow> string \<Rightarrow> string \<Rightarrow> string" where
  "std_fn nm v r a = nm @ ''-'' @ v @ ''-'' @ r @ ''.'' @ a @ ''.rpm''"

definition std_srcfn :: "string \<Rightarrow> string \<Rightarrow> string \<Rightarrow> string" where
  "std_srcfn nm v r = nm @ ''-'' @ v @ ''-'' @ r @ ''.src.rpm''"

text \<open>\<open>strstr\<close>: the part of a string before the first occurrence of another.\<close>

fun before_str :: "string \<Rightarrow> string \<Rightarrow> string" where
  "before_str pat [] = []"
| "before_str pat (c # s) =
     (if strncmp (c # s) pat (length pat) = 0 then [] else c # before_str pat s)"

text \<open>
  The file name is dropped when the standard one is a prefix of it. Without an architecture the
  code never measures the given name and stores none of its bytes.
\<close>

definition new_fn :: "string \<Rightarrow> string \<Rightarrow> string \<Rightarrow> string option \<Rightarrow> string option \<Rightarrow> string option" where
  "new_fn nm v r arch f =
     (case f of
        None \<Rightarrow> None
      | Some f' \<Rightarrow>
          (case arch of
             None \<Rightarrow> Some []
           | Some a \<Rightarrow>
               if strncmp (std_fn nm v r a) f' (length (std_fn nm v r a)) = 0 then None
               else Some f'))"

definition new_srcfn :: "string \<Rightarrow> string \<Rightarrow> string \<Rightarrow> string option \<Rightarrow> string option" where
  "new_srcfn nm v r sf =
     (case sf of
        None \<Rightarrow> None
      | Some s \<Rightarrow>
          if s = ''-'' then None
          else if strncmp (std_srcfn nm v r) s (length (std_srcfn nm v r)) = 0 then None
          else Some (before_str ''.src.rpm'' s))"

definition pkg_new_ext ::
  "penv \<Rightarrow> bool \<Rightarrow> nat \<Rightarrow> string \<Rightarrow> u32 \<Rightarrow> string \<Rightarrow> string \<Rightarrow> string option \<Rightarrow> string option \<Rightarrow>
   string option \<Rightarrow> string option \<Rightarrow> u32 \<Rightarrow> u32 \<Rightarrow> u32 \<Rightarrow> arch_registry \<Rightarrow> os_registry \<Rightarrow>
   pkg \<times> arch_registry \<times> os_registry" where
  "pkg_new_ext E na a nm ep v r arch os f sf sz fsz bt R OS =
     (let (ax, R') = (case arch of None \<Rightarrow> (0, R) | Some ar \<Rightarrow> pkgmod_register_arch E ar R);
          (ox, OS') = (case os of None \<Rightarrow> (0, OS) | Some on \<Rightarrow> pkgmod_register_os on OS)
      in (\<lparr>addr = a, has_na = na,
           flags = (if sf = None then 0 else PKG_HAS_SRCFN),
           isize = sz, fsize = fsz, btime = bt, color = 0,
           name = nm, epoch = ep, ver = v, rel = r,
           fn = new_fn nm v r arch f,
           srcfn = new_srcfn nm v r sf,
           nvr = nm @ ''-'' @ v @ ''-'' @ r @
             (case arch of Some ar \<Rightarrow> if conf_MULTILIB E then CHR ''.'' # ar else [] | None \<Rightarrow> []),
           arch_ix = of_nat ax, os_ix = of_nat ox,
           caps = None, reqs = None, cnfls = None,
           pkgdir = 0, pkgdir_pri = 0, pri = 0, recno = 0, seqno = 0, pfl = None\<rparr>, R', OS'))"

section \<open>File names\<close>

text \<open>
  \<open>nsn\<close> is \<open>n_snprintf\<close> with its buffer size and its formatted text. \<open>pkg_filename\<close> hands the
  stored file name to it as the format; \<open>nfmt\<close> is that use.
\<close>

definition pkg_filename ::
  "(nat \<Rightarrow> string \<Rightarrow> string) \<Rightarrow> arch_registry \<Rightarrow> pkg \<Rightarrow> nat \<Rightarrow> string option" where
  "pkg_filename nfmt R p sz =
     (case fn p of
        Some f \<Rightarrow> Some (nfmt sz f)
      | None \<Rightarrow>
          let a = pkg_arch R p;
              alen = (case a of None \<Rightarrow> 0 | Some x \<Rightarrow> length x);
              len = length (name p) + 1 + length (ver p) + 1 + length (rel p) + 1 + alen + 1 + 3 + 1
          in if len \<ge> sz then None
             else Some (name p @ ''-'' @ ver p @ ''-'' @ rel p @ ''.'' @
                        (case a of None \<Rightarrow> [] | Some x \<Rightarrow> x @ ''.'') @ ''rpm''))"

definition pkg_srcfilename ::
  "(nat \<Rightarrow> string \<Rightarrow> string) \<Rightarrow> pkg \<Rightarrow> nat \<Rightarrow> string option" where
  "pkg_srcfilename nsn p sz =
     (case srcfn p of
        Some s \<Rightarrow> Some (nsn sz (s @ ''.src.rpm''))
      | None \<Rightarrow>
          if flags p AND PKG_HAS_SRCFN = 0 then None
          else let len = length (name p) + 1 + length (ver p) + 1 + length (rel p) + 1 + 3 + 1 + 3 + 1
               in if len \<ge> sz then None
                  else Some (name p @ ''-'' @ ver p @ ''-'' @ rel p @ ''.'' @ ''src'' @ ''.'' @ ''rpm''))"

definition pkg_evr_snprintf :: "(nat \<Rightarrow> string \<Rightarrow> string) \<Rightarrow> nat \<Rightarrow> pkg \<Rightarrow> string" where
  "pkg_evr_snprintf nsn sz p =
     (let e = (if epoch p \<noteq> 0 then dec_int (sint (epoch p)) @ '':'' else [])
      in nsn sz (name p @ ''-'' @ e @ ver p @ ''-'' @ rel p))"

definition pkg_snprintf :: "(nat \<Rightarrow> string \<Rightarrow> string) \<Rightarrow> nat \<Rightarrow> pkg \<Rightarrow> string" where
  "pkg_snprintf nsn sz p = nsn sz (name p @ ''-'' @ ver p @ ''-'' @ rel p)"

definition pkg_idevr_snprintf ::
  "penv \<Rightarrow> (nat \<Rightarrow> string \<Rightarrow> string) \<Rightarrow> arch_registry \<Rightarrow> nat \<Rightarrow> pkg \<Rightarrow> string" where
  "pkg_idevr_snprintf E nsn R sz p =
     (if \<not> conf_MULTILIB E then nsn sz (ver p @ ''-'' @ rel p)
      else nsn sz (ver p @ ''-'' @ rel p @ ''.'' @ (case pkg_arch R p of Some a \<Rightarrow> a | None \<Rightarrow> [])))"

section \<open>Properties\<close>

text \<open>A package for concrete inputs: version 1, release 1, no files.\<close>

definition ref_pkg :: "nat \<Rightarrow> string \<Rightarrow> capreq list \<Rightarrow> capreq list \<Rightarrow> pkg" where
  "ref_pkg a nm cs rs = \<lparr>addr = a, has_na = False, flags = 0, isize = 0, fsize = 0, btime = 0,
     color = 0, name = nm, epoch = 0, ver = ''1'', rel = ''1'', fn = None, srcfn = None,
     nvr = nm @ ''-1-1'', arch_ix = 0, os_ix = 0, caps = Some cs, reqs = Some rs, cnfls = None,
     pkgdir = 0, pkgdir_pri = 0, pri = 0, recno = 0, seqno = 0, pfl = None\<rparr>"

lemma ref_pkg_simps [simp]:
  "addr (ref_pkg a nm cs rs) = a" "name (ref_pkg a nm cs rs) = nm" "epoch (ref_pkg a nm cs rs) = 0"
  "ver (ref_pkg a nm cs rs) = ''1''" "rel (ref_pkg a nm cs rs) = ''1''" "flags (ref_pkg a nm cs rs) = 0"
  "nvr (ref_pkg a nm cs rs) = nm @ ''-1-1''" "caps (ref_pkg a nm cs rs) = Some cs"
  "reqs (ref_pkg a nm cs rs) = Some rs" "cnfls (ref_pkg a nm cs rs) = None" "has_na (ref_pkg a nm cs rs) = False"
  by (simp_all add: ref_pkg_def)

text \<open>C30: the text \<open>pkg_evr_snprintf\<close> prints for a package, where the buffer holds it, is taken
  apart by \<open>poldek_util_parse_nevr\<close> into the package's name, epoch, version and release.\<close>

theorem pkg_evr_text_parses:
  assumes nsn: "\<And>s. length s < sz \<Longrightarrow> nsn sz s = s"
    and len: "length (name p @ CHR ''-'' # evr_text (epoch p) (ver p) (Some (rel p))) < sz"
    and e: "nonneg32 (epoch p)" and v: "plain_ver (ver p)" and r: "plain_rel (Some (rel p))" "CHR ''-'' \<notin> set (rel p)"
    and n: "name p \<noteq> []" "\<not> is_space (hd (name p))"
  shows "poldek_util_parse_nevr (pkg_evr_snprintf nsn sz p) = Some (name p, epoch p, ver p, Some (rel p))"
proof -
  have "pkg_evr_snprintf nsn sz p = name p @ CHR ''-'' # evr_text (epoch p) (ver p) (Some (rel p))"
    using nsn [OF len] by (cases "epoch p = 0") (simp_all add: pkg_evr_snprintf_def evr_text_def)
  then show ?thesis using parse_nevr_text [OF e v r n] by simp
qed

theorem pkg_evr_text_parses_witness:
  "poldek_util_parse_nevr (pkg_evr_snprintf (\<lambda>n s. take (n - 1) s) 64 (ref_pkg 1 ''gtk-doc'' [] [])) =
     Some (''gtk-doc'', 0, ''1'', Some ''1'')"
  using pkg_evr_text_parses [of 64 "\<lambda>n s. take (n - 1) s" "ref_pkg 1 ''gtk-doc'' [] []"]
  by (simp add: evr_text_def nonneg32_def plain_ver_def plain_rel_def is_space_def)

text \<open>C31: registering an architecture keeps the registry consistent (array, hash and one-entry
  cache agree, no name twice), answers the index under which the name is found from then on, and
  leaves every index given out before valid.\<close>

theorem register_arch_invariant:
  assumes "arch_reg_ok R" and "pkgmod_register_arch E a R = (i, R')"
  shows "arch_reg_ok R' \<and> arch_h R' a = Some i \<and> (\<exists>new. arch_a R' = arch_a R @ new) \<and>
    (\<forall>b j. arch_h R b = Some j \<longrightarrow> arch_h R' b = Some j)"
  using assms by (rule register_arch_step)

theorem register_arch_invariant_witness:
  "arch_h (snd (pkgmod_register_arch ref_env ''i686'' arch_registry_init)) ''i686'' = Some 1"
  using register_arch_invariant [OF arch_reg_ok_init, of ref_env "''i686''"]
  by (cases "pkgmod_register_arch ref_env ''i686'' arch_registry_init")
    (auto simp: pkgmod_register_arch_def arch_registry_init_def Let_def)

end
