(* ===== verification/Pkgcmp.thy ===== *)
theory Pkgcmp
  imports Pkg
begin

text \<open>
  pkgcmp.c: the comparison functions of packages, the equality tests and the multilib rules.
  Differences of \<open>int32_t\<close> and \<open>uint32_t\<close> fields are taken at 32 bits (\<open>i32_diff\<close>) as in C.
\<close>

section \<open>Kinds, colours, architectures\<close>

definition pkg_is_colored_like :: "penv \<Rightarrow> pkg \<Rightarrow> pkg \<Rightarrow> int" where
  "pkg_is_colored_like E candidate p =
     (if \<not> conf_MULTILIB E then 1
      else if color p \<noteq> 0 \<and> color candidate \<noteq> 0
      then (if color p AND color candidate \<noteq> 0 then 1 else 0)
      else 1)"

definition pkg_is_kind_of :: "penv \<Rightarrow> pkg \<Rightarrow> pkg \<Rightarrow> bool" where
  "pkg_is_kind_of E candidate p =
     (let rc = strcmp (name p) (name candidate) in
      let rc' = (if rc = 0 \<and> conf_MULTILIB E then 1 - pkg_is_colored_like E candidate p else rc)
      in rc' = 0)"

definition pkg_cmp_arch :: "arch_registry \<Rightarrow> pkg \<Rightarrow> pkg \<Rightarrow> int" where
  "pkg_cmp_arch R p1 p2 =
     (let diff = int (unat (arch_ix p1)) - int (unat (arch_ix p2)) in
      if diff = 0 then 0
      else if arch_ix p1 \<noteq> 0 \<and> arch_ix p2 \<noteq> 0
      then pkg_arch_score R p2 - pkg_arch_score R p1
      else diff)"

text \<open>
  \<open>pkg_is_noarch\<close> passes the name of the architecture to \<open>strcmp\<close>; without an architecture
  that is a null pointer (\<open>None\<close>). The disjunction of \<open>pkg_is_arch_compat\<close> is evaluated from
  the left.
\<close>

definition pkg_is_noarch :: "arch_registry \<Rightarrow> pkg \<Rightarrow> bool option" where
  "pkg_is_noarch R p = map_option (\<lambda>a. a = ''noarch'') (pkg_arch R p)"

definition pkg_is_arch_compat :: "arch_registry \<Rightarrow> pkg \<Rightarrow> pkg \<Rightarrow> bool option" where
  "pkg_is_arch_compat R candidate p =
     (if pkg_cmp_arch R candidate p = 0 then Some True
      else case pkg_is_noarch R candidate of
             None \<Rightarrow> None
           | Some True \<Rightarrow> Some True
           | Some False \<Rightarrow> pkg_is_noarch R p)"

section \<open>Equality\<close>

definition pkg_eq_capreq :: "pkg \<Rightarrow> capreq \<Rightarrow> bool" where
  "pkg_eq_capreq p cr \<longleftrightarrow>
     strcmp (name p) (cr_name cr) = 0 \<and> strcmp (ver p) (capreq_ver cr) = 0 \<and>
     strcmp (rel p) (capreq_rel cr) = 0 \<and> epoch p = capreq_epoch cr \<and>
     cr_relflags cr AND REL_EQ \<noteq> 0"

definition pkg_eq_name_prefix :: "pkg \<Rightarrow> pkg \<Rightarrow> bool" where
  "pkg_eq_name_prefix p1 p2 =
     (let n1 = length (before_chr (name p1) CHR ''-'');
          n2 = length (before_chr (name p2) CHR ''-'')
      in if int n1 - int n2 \<noteq> 0 then False
         else strncmp (name p1) (name p2) n1 = 0)"

section \<open>Comparison\<close>

definition pkg_cmp_name :: "pkg \<Rightarrow> pkg \<Rightarrow> int" where
  "pkg_cmp_name p1 p2 = strcmp (name p1) (name p2)"

definition pkg_ncmp_name :: "pkg \<Rightarrow> pkg \<Rightarrow> int" where
  "pkg_ncmp_name p1 p2 = strncmp (name p1) (name p2) (length (name p2))"

definition pkg_cmp_id :: "pkg \<Rightarrow> pkg \<Rightarrow> int" where
  "pkg_cmp_id p1 p2 = strcmp (nvr p1) (nvr p2)"

definition pkg_cmp_ver :: "penv \<Rightarrow> pkg \<Rightarrow> pkg \<Rightarrow> int" where
  "pkg_cmp_ver E p1 p2 =
     cmp_then (i32_diff (epoch p1) (epoch p2)) (vercmp E (ver p1) (ver p2))"

definition pkg_cmp_evr :: "penv \<Rightarrow> pkg \<Rightarrow> pkg \<Rightarrow> int" where
  "pkg_cmp_evr E p1 p2 =
     cmp_then (i32_diff (epoch p1) (epoch p2))
       (let rc = vercmp E (ver p1) (ver p2) in if rc = 0 then vercmp E (rel p1) (rel p2) else rc)"

definition pkg_cmp_name_evr :: "penv \<Rightarrow> pkg \<Rightarrow> pkg \<Rightarrow> int" where
  "pkg_cmp_name_evr E p1 p2 = cmp_then (pkg_cmp_name p1 p2) (pkg_cmp_evr E p1 p2)"

definition pkg_cmp_name_evr_rev :: "penv \<Rightarrow> arch_registry \<Rightarrow> pkg \<Rightarrow> pkg \<Rightarrow> int" where
  "pkg_cmp_name_evr_rev E R p1 p2 =
     cmp_then (pkg_cmp_name p1 p2)
       (cmp_then (- pkg_cmp_evr E p1 p2)
         (if conf_MULTILIB E then - pkg_cmp_arch R p1 p2 else 0))"

definition pkg_cmp_name_evr_arch_rev_srcpri :: "penv \<Rightarrow> arch_registry \<Rightarrow> pkg \<Rightarrow> pkg \<Rightarrow> int" where
  "pkg_cmp_name_evr_arch_rev_srcpri E R p1 p2 =
     (let rc = pkg_cmp_name_evr_rev E R p1 p2;
          rc' = (if rc = 0 then - pkg_cmp_arch R p1 p2 else rc)
      in if rc' = 0 \<and> pkgdir p1 \<noteq> pkgdir p2 then pkgdir_pri p1 - pkgdir_pri p2 else rc')"

text \<open>The architecture names are compared without a test for null pointers (\<open>None\<close>).\<close>

definition pkg_strcmp_name_evr_rev :: "arch_registry \<Rightarrow> pkg \<Rightarrow> pkg \<Rightarrow> int option" where
  "pkg_strcmp_name_evr_rev R p1 p2 =
     (if pkg_cmp_name p1 p2 \<noteq> 0 then Some (pkg_cmp_name p1 p2)
      else if i32_diff (epoch p2) (epoch p1) \<noteq> 0 then Some (i32_diff (epoch p2) (epoch p1))
      else let rc = strcmp (ver p2) (ver p1);
               rc' = (if rc = 0 then strcmp (rel p2) (rel p1) else rc)
           in if rc' = 0 \<and> arch_ix p1 \<noteq> arch_ix p2
              then case (pkg_arch R p1, pkg_arch R p2) of
                     (Some a1, Some a2) \<Rightarrow> Some (strcmp a1 a2)
                   | _ \<Rightarrow> None
              else Some rc')"

definition pkg_deepcmp :: "arch_registry \<Rightarrow> os_registry \<Rightarrow> pkg \<Rightarrow> pkg \<Rightarrow> int" where
  "pkg_deepcmp R OS p1 p2 =
     cmp_then (pkg_cmp_arch R p1 p2)
     (cmp_then (i32_diff (color p1) (color p2))
     (cmp_then (i32_diff (btime p1) (btime p2))
     (cmp_then (i32_diff (isize p1) (isize p2))
     (cmp_then (i32_diff (fsize p1) (fsize p2))
       (if os_ix p1 \<noteq> 0 \<and> os_ix p2 = 0 then 11
        else if os_ix p1 = 0 \<and> os_ix p2 \<noteq> 0 then - 11
        else cmp_then (strcmp (case pkg_os OS p1 of Some s \<Rightarrow> s | None \<Rightarrow> [])
                              (case pkg_os OS p2 of Some s \<Rightarrow> s | None \<Rightarrow> []))
          (if fn p1 \<noteq> None \<and> fn p2 = None then 12
           else if fn p1 = None \<and> fn p2 \<noteq> None then - 12
           else strcmp (case fn p1 of Some s \<Rightarrow> s | None \<Rightarrow> [])
                  (case fn p2 of Some s \<Rightarrow> s | None \<Rightarrow> [])))))))"

definition pkg_deepstrcmp_name_evr :: "arch_registry \<Rightarrow> os_registry \<Rightarrow> pkg \<Rightarrow> pkg \<Rightarrow> int option" where
  "pkg_deepstrcmp_name_evr R OS p1 p2 =
     (let rc = pkg_strcmp_name_evr_rev R p1 p2 in
      if rc = Some 0 then Some (pkg_deepcmp R OS p1 p2) else rc)"

definition pkg_deepcmp_name_evr_rev ::
  "penv \<Rightarrow> arch_registry \<Rightarrow> os_registry \<Rightarrow> pkg \<Rightarrow> pkg \<Rightarrow> int" where
  "pkg_deepcmp_name_evr_rev E R OS p1 p2 =
     cmp_then (pkg_cmp_name_evr_rev E R p1 p2) (- pkg_deepcmp R OS p1 p2)"

definition pkg_cmp_uniq_name :: "pkg \<Rightarrow> pkg \<Rightarrow> int" where
  "pkg_cmp_uniq_name p1 p2 = pkg_cmp_name p1 p2"

definition pkg_cmp_uniq_name_evr :: "penv \<Rightarrow> arch_registry \<Rightarrow> pkg \<Rightarrow> pkg \<Rightarrow> int" where
  "pkg_cmp_uniq_name_evr E R p1 p2 =
     (let rc = pkg_cmp_name_evr_rev E R p1 p2 in
      if rc = 0 \<and> conf_MULTILIB E then int (unat (arch_ix p1)) - int (unat (arch_ix p2)) else rc)"

definition pkg_cmp_uniq_name_evr_arch :: "penv \<Rightarrow> arch_registry \<Rightarrow> pkg \<Rightarrow> pkg \<Rightarrow> int" where
  "pkg_cmp_uniq_name_evr_arch E R p1 p2 =
     cmp_then (pkg_cmp_name_evr_rev E R p1 p2)
       (strcmp (case pkg_arch R p1 of Some a \<Rightarrow> a | None \<Rightarrow> [])
               (case pkg_arch R p2 of Some a \<Rightarrow> a | None \<Rightarrow> []))"

text \<open>The first line of \<open>pkg_eq_name_evr\<close> answers 1 to the same pointer; the rest answers 0 to equal packages.\<close>

definition pkg_eq_name_evr :: "penv \<Rightarrow> pkg \<Rightarrow> pkg \<Rightarrow> int" where
  "pkg_eq_name_evr E p1 p2 = (if addr p1 = addr p2 then 1 else pkg_cmp_name_evr E p1 p2)"

definition pkg_cmp_pri_name_evr_rev :: "penv \<Rightarrow> arch_registry \<Rightarrow> pkg \<Rightarrow> pkg \<Rightarrow> int" where
  "pkg_cmp_pri_name_evr_rev E R p1 p2 =
     cmp_then (pri p1 - pri p2) (pkg_cmp_name_evr_rev E R p1 p2)"

definition pkg_cmp_recno :: "pkg \<Rightarrow> pkg \<Rightarrow> int" where
  "pkg_cmp_recno p1 p2 = i32_diff (recno p1) (recno p2)"

definition pkg_cmp_seqno :: "pkg \<Rightarrow> pkg \<Rightarrow> int" where
  "pkg_cmp_seqno p1 p2 = i32_diff (seqno p1) (seqno p2)"

definition pkg_nvr_strcmp :: "pkg \<Rightarrow> pkg \<Rightarrow> int" where
  "pkg_nvr_strcmp p1 p2 = strcmp (nvr p1) (nvr p2)"

section \<open>Which of them are orders\<close>

lemma cmp_name_order [cmp_intros]: "cmp_order S pkg_cmp_name"
  unfolding pkg_cmp_name_def by (rule cmp_order_on [OF cmp_order_strcmp]) simp

lemma cmp_order_const_0 [cmp_intros]: "cmp_order S (\<lambda>x y. 0)"
  by unfold_locales auto

text \<open>
  Packages with a score per architecture compare by score, the others by index; the two kinds
  are kept apart by the sign of the index difference.
\<close>

lemma cmp_arch_order [cmp_intros]: "cmp_order S (pkg_cmp_arch R)"
proof -
  have eq: "pkg_cmp_arch R p q = (if arch_ix p \<noteq> 0 \<and> arch_ix q \<noteq> 0 then
      pkg_arch_score R q - pkg_arch_score R p else int (unat (arch_ix p)) - int (unat (arch_ix q)))" for p q
  proof (cases "arch_ix p = arch_ix q")
    case False
    then have "int (unat (arch_ix p)) - int (unat (arch_ix q)) \<noteq> 0"
      by (simp only: word_unat_eq_iff)
    then show ?thesis by (simp only: pkg_cmp_arch_def Let_def if_False)
  qed (simp add: pkg_cmp_arch_def pkg_arch_score_def)
  have z: "uint (arch_ix p) = 0 \<longleftrightarrow> arch_ix p = 0" "0 < uint (arch_ix p) \<longleftrightarrow> arch_ix p \<noteq> 0" for p
    by (simp_all add: unsigned_eq_0_iff order_less_le)
  show ?thesis
    by unfold_locales (auto simp: eq sgn_if z unsigned_eq_0_iff split: if_splits)
qed

context pm_env
begin

lemma pkg_cmp_evr_then:
  "pkg_cmp_evr E = (\<lambda>x y. cmp_then (i32_diff (epoch x) (epoch y))
     (cmp_then (vercmp E (ver x) (ver y)) (vercmp E (rel x) (rel y))))"
  by (auto simp: fun_eq_iff pkg_cmp_evr_def cmp_then_def Let_def)

lemma pkg_evr_order: "cmp_order {p. nonneg32 (epoch p)} (pkg_cmp_evr E)"
proof -
  have "cmp_order {p. nonneg32 (epoch p)} (\<lambda>x y. i32_diff (epoch x) (epoch y))"
    by (rule cmp_order_on [OF cmp_order_i32_diff]) simp
  then show ?thesis
    unfolding pkg_cmp_evr_then by (intro cmp_order_then vercmp_on)
qed

lemma pkg_name_evr_order: "cmp_order {p. nonneg32 (epoch p)} (pkg_cmp_name_evr E)"
  unfolding pkg_cmp_name_evr_def by (intro cmp_order_then cmp_name_order pkg_evr_order)

lemma pkg_name_evr_rev_order: "cmp_order {p. nonneg32 (epoch p)} (pkg_cmp_name_evr_rev E R)"
  unfolding pkg_cmp_name_evr_rev_def
  by (cases "conf_MULTILIB E")
    (simp_all add: cmp_order_then cmp_name_order pkg_evr_order cmp_order_rev cmp_arch_order
      cmp_order_const_0)

lemma pkg_pri_name_evr_rev_order:
  "cmp_order {p. nonneg32 (epoch p)} (pkg_cmp_pri_name_evr_rev E R)"
  unfolding pkg_cmp_pri_name_evr_rev_def
  by (intro cmp_order_then pkg_name_evr_rev_order cmp_order_on [OF cmp_order_int_diff]) simp

end

section \<open>Properties\<close>

text \<open>C29: the comparator packages are ordered for installation with (by priority, name, falling
  version and architecture) is a total preorder on packages whose epochs are in the signed range.\<close>

theorem pkg_pri_cmp_is_order:
  assumes "pm_env E"
  shows "cmp_order {p. nonneg32 (epoch p)} (pkg_cmp_pri_name_evr_rev E R)"
  by (rule pm_env.pkg_pri_name_evr_rev_order [OF assms])

theorem pkg_pri_cmp_is_order_witness:
  "cmp_order {p. nonneg32 (epoch p)} (pkg_cmp_pri_name_evr_rev ref_env arch_registry_init)"
  by (rule pkg_pri_cmp_is_order [OF ref_pm.pm_env_axioms])

text \<open>\<open>pkg_deepcmp_\<close> is no order: it subtracts 32-bit sizes, so that of two packages 2 GB
  apart each one is smaller than the other.\<close>

theorem pkg_deepcmp_not_antisymmetric:
  defines "big \<equiv> (ref_pkg 2 ''a'' [] [])\<lparr>isize := 2147483648\<rparr>"
  shows "pkg_deepcmp R OS (ref_pkg 1 ''a'' [] []) big < 0 \<and> pkg_deepcmp R OS big (ref_pkg 1 ''a'' [] []) < 0"
proof -
  have "i32_diff 0 2147483648 < 0" "i32_diff 2147483648 0 < 0" by code_simp+
  then show ?thesis
    by (simp add: big_def ref_pkg_def pkg_deepcmp_def pkg_cmp_arch_def cmp_then_def)
qed

end
