(* ===== verification/Match.thy ===== *)
theory Match
  imports Pkgcmp
begin

text \<open>
  The matching half of pkg.c: whether a capability satisfies a requirement, whether a package
  does (through its own name and version or through its capabilities), which requirement of a
  package a capability meets, and what a package obsoletes.
\<close>

abbreviation MA_PROMOTE_VERSION :: u32 where "MA_PROMOTE_VERSION \<equiv> 1"
abbreviation MA_PROMOTE_REQEPOCH :: u32 where "MA_PROMOTE_REQEPOCH \<equiv> 4"
abbreviation MA_PROMOTE_CAPEPOCH :: u32 where "MA_PROMOTE_CAPEPOCH \<equiv> 8"
abbreviation MA_PROMOTE_EPOCH :: u32 where "MA_PROMOTE_EPOCH \<equiv> 12"

section \<open>Capabilities against requirements\<close>

definition rel_match :: "int \<Rightarrow> capreq \<Rightarrow> bool" where
  "rel_match cmprc req \<longleftrightarrow>
     (if cmprc = 0 then cr_relflags req AND REL_EQ \<noteq> 0
      else if cmprc > 0 then cr_relflags req AND REL_GT \<noteq> 0
      else cr_relflags req AND REL_LT \<noteq> 0)"

text \<open>The second half of \<open>cap_xmatch_req\<close>: version and release; \<open>evr\<close> is its local variable.\<close>

definition xmatch_vr :: "penv \<Rightarrow> capreq \<Rightarrow> capreq \<Rightarrow> u32 \<Rightarrow> bool \<Rightarrow> bool" where
  "xmatch_vr E cap req ma_flags evr \<longleftrightarrow>
     (if capreq_has_ver req \<and> \<not> capreq_has_ver cap
      then ma_flags AND MA_PROMOTE_VERSION \<noteq> 0
      else if capreq_has_ver req \<and> vercmp E (capreq_ver cap) (capreq_ver req) \<noteq> 0
      then rel_match (vercmp E (capreq_ver cap) (capreq_ver req)) req
      else if capreq_has_rel req \<and> \<not> capreq_has_rel cap
      then ma_flags AND MA_PROMOTE_VERSION \<noteq> 0
      else if capreq_has_rel req \<and> vercmp E (capreq_rel cap) (capreq_rel req) \<noteq> 0
      then rel_match (vercmp E (capreq_rel cap) (capreq_rel req)) req
      else if evr \<or> capreq_has_ver req \<or> capreq_has_rel req then rel_match 0 req
      else True)"

definition cap_xmatch_req :: "penv \<Rightarrow> capreq \<Rightarrow> capreq \<Rightarrow> u32 \<Rightarrow> bool" where
  "cap_xmatch_req E cap req ma_flags \<longleftrightarrow>
     (if strcmp (cr_name cap) (cr_name req) \<noteq> 0 then False
      else if \<not> capreq_versioned req then True
      else if capreq_has_epoch cap \<or> capreq_has_epoch req
      then let fl = (if conf_PROMOTE_EPOCH E then ma_flags OR MA_PROMOTE_EPOCH else ma_flags);
               do_promote = (fl AND MA_PROMOTE_EPOCH \<noteq> 0 \<and>
                 (\<not> capreq_has_epoch req \<and> fl AND MA_PROMOTE_REQEPOCH \<noteq> 0 \<or>
                  \<not> capreq_has_epoch cap \<and> fl AND MA_PROMOTE_CAPEPOCH \<noteq> 0));
               cmprc = (if do_promote then 0 else i32_diff (capreq_epoch cap) (capreq_epoch req))
           in if cmprc \<noteq> 0 then rel_match cmprc req
              else xmatch_vr E cap req fl True
      else xmatch_vr E cap req ma_flags False)"

definition cap_match_req :: "penv \<Rightarrow> capreq \<Rightarrow> capreq \<Rightarrow> bool \<Rightarrow> bool" where
  "cap_match_req E cap req strict =
     cap_xmatch_req E cap req (if strict then 0 else MA_PROMOTE_VERSION)"

section \<open>Packages against requirements\<close>

definition do_pkg_evr_match_req :: "penv \<Rightarrow> capreq \<Rightarrow> capreq \<Rightarrow> int \<Rightarrow> bool" where
  "do_pkg_evr_match_req E pkgcap req promote_epoch =
     (let pe = (if promote_epoch = - 1 then conf_PROMOTE_EPOCH E else promote_epoch \<noteq> 0)
      in cap_xmatch_req E pkgcap req (if pe then MA_PROMOTE_REQEPOCH else 0))"

text \<open>The capability \<open>name = epoch:version-release\<close> of a package.\<close>

definition pkg_evr_cap :: "bool \<Rightarrow> pkg \<Rightarrow> capreq option" where
  "pkg_evr_cap na p = capreq_new na (name p) (epoch p) (Some (ver p)) (Some (rel p)) REL_EQ 0"

definition pkg_evr_match_req :: "penv \<Rightarrow> pkg \<Rightarrow> capreq \<Rightarrow> u32 \<Rightarrow> bool" where
  "pkg_evr_match_req E p req ma_flags =
     (if \<not> capreq_versioned req then True
      else case pkg_evr_cap False p of
             None \<Rightarrow> False
           | Some cap \<Rightarrow>
               if ma_flags AND (MA_PROMOTE_VERSION OR MA_PROMOTE_EPOCH) \<noteq> 0
               then do_pkg_evr_match_req E cap req 0 \<or>
                    (epoch p \<noteq> 0 \<and> do_pkg_evr_match_req E cap req 1)
               else do_pkg_evr_match_req E cap req (- 1))"

text \<open>
  The walk over the entries from the first one of the requirement's name; it stops at the first
  entry of another name. The binary search may sort the array of the package.
\<close>

fun caps_scan :: "penv \<Rightarrow> capreq \<Rightarrow> u32 \<Rightarrow> bool \<Rightarrow> capreq list \<Rightarrow> bool" where
  "caps_scan E req ma_flags first [] = False"
| "caps_scan E req ma_flags first (c # cs) =
     (if \<not> first \<and> cr_name c \<noteq> cr_name req then False
      else if cap_xmatch_req E c req ma_flags then True
      else caps_scan E req ma_flags False cs)"

definition pkg_caps_match_req :: "penv \<Rightarrow> pkg \<Rightarrow> capreq \<Rightarrow> u32 \<Rightarrow> bool \<times> pkg" where
  "pkg_caps_match_req E p req ma_flags =
     (case caps p of
        None \<Rightarrow> (False, p)
      | Some cs \<Rightarrow>
          if cs = [] then (False, p)
          else let (n, cs') = capreq_arr_find E cs (cr_name req); p' = p\<lparr>caps := Some cs'\<rparr>
               in if n = - 1 then (False, p')
                  else (caps_scan E req ma_flags True (drop (nat n) cs'), p'))"

definition pkg_xmatch_req :: "penv \<Rightarrow> pkg \<Rightarrow> capreq \<Rightarrow> u32 \<Rightarrow> bool \<times> pkg" where
  "pkg_xmatch_req E p req ma_flags =
     (if name p = cr_name req \<and> pkg_evr_match_req E p req ma_flags then (True, p)
      else pkg_caps_match_req E p req ma_flags)"

definition pkg_match_req :: "penv \<Rightarrow> pkg \<Rightarrow> capreq \<Rightarrow> bool \<Rightarrow> bool \<times> pkg" where
  "pkg_match_req E p req strict =
     (let fl = (if strict then 0 else MA_PROMOTE_VERSION) in
      if strcmp (name p) (cr_name req) = 0 \<and> pkg_evr_match_req E p req fl then (True, p)
      else pkg_caps_match_req E p req fl)"

section \<open>The package's own capability, conflicts\<close>

definition pkg_add_selfcap :: "penv \<Rightarrow> pkg \<Rightarrow> pkg" where
  "pkg_add_selfcap E p =
     (if flags p AND PKG_HAS_SELFCAP \<noteq> 0 then p
      else
        let (i, cs) = (case caps p of
                         None \<Rightarrow> (- 1, [])
                       | Some cs \<Rightarrow> capreq_arr_find E cs (name p));
            has = (i \<noteq> - 1 \<and>
                   (\<exists>c \<in> set (takeWhile (\<lambda>c. cr_name c = name p) (drop (nat i) cs)).
                      pkg_eq_capreq p c));
            fl = flags p OR PKG_HAS_SELFCAP;
            uniq = cr_uniq E (capreq_cmp_name_evr E)
        in if has then p\<lparr>flags := fl, caps := Some (uniq cs)\<rparr>
           else case pkg_evr_cap (has_na p) p of
                  None \<Rightarrow> p
                | Some selfcap \<Rightarrow>
                    p\<lparr>flags := fl,
                      caps := Some (uniq (cr_sort E (capreq_cmp_name_evr E) (cs @ [selfcap])))\<rparr>)"

text \<open>\<open>pkg_add_pkgcnfl\<close> does not test for a missing array of conflicts (\<open>None\<close>).\<close>

definition pkg_add_pkgcnfl :: "penv \<Rightarrow> pkg \<Rightarrow> pkg \<Rightarrow> bool \<Rightarrow> (bool \<times> pkg) option" where
  "pkg_add_pkgcnfl E p cpkg isbastard =
     (case cnfls p of
        None \<Rightarrow> None
      | Some cs \<Rightarrow>
          let (found, cs') = capreq_arr_contains E cs (name cpkg)
          in if found then Some (False, p\<lparr>cnfls := Some cs'\<rparr>)
             else case capreq_new (has_na p) (name cpkg) (epoch cpkg) (Some (ver cpkg)) (Some (rel cpkg))
                         REL_EQ (if isbastard then CAPREQ_BASTARD else 0) of
                    None \<Rightarrow> Some (False, p\<lparr>cnfls := Some cs'\<rparr>)
                  | Some cnfl \<Rightarrow>
                      Some (True, p\<lparr>cnfls := Some (cr_sort E (capreq_cmp_name_evr E) (cs' @ [cnfl]))\<rparr>))"

definition pkg_has_pkgcnfl :: "penv \<Rightarrow> pkg \<Rightarrow> pkg \<Rightarrow> bool" where
  "pkg_has_pkgcnfl E p cpkg =
     (case cnfls p of None \<Rightarrow> False | Some cs \<Rightarrow> fst (capreq_arr_contains E cs (name cpkg)))"

section \<open>Which requirement a capability meets\<close>

text \<open>Among the requirements of one name, the one that the others' versions narrow down to.\<close>

fun narrow_req :: "penv \<Rightarrow> string \<Rightarrow> capreq \<Rightarrow> capreq list \<Rightarrow> capreq" where
  "narrow_req E nm rreq [] = rreq"
| "narrow_req E nm rreq (r # rs) =
     (if cr_name r \<noteq> nm then rreq
      else narrow_req E nm (if cap_match_req E r rreq True then r else rreq) rs)"

definition find_req :: "penv \<Rightarrow> pkg \<Rightarrow> capreq \<Rightarrow> capreq option" where
  "find_req E p cap =
     (case reqs p of
        None \<Rightarrow> None
      | Some rs \<Rightarrow>
          let rs' = cr_sort E (capreq_cmp_name_evr E) rs;
              nth = cr_bsearch E (\<lambda>r. capreq_cmp_name r cap) rs'
          in if nth = - 1 then None
             else Some (narrow_req E (cr_name cap) (rs' ! nat nth) (drop (nat nth + 1) rs')))"

definition pkg_requires_cap :: "penv \<Rightarrow> pkg \<Rightarrow> capreq \<Rightarrow> capreq option" where
  "pkg_requires_cap E p cap =
     (case reqs p of
        None \<Rightarrow> None
      | Some _ \<Rightarrow>
          (case find_req E p cap of
             None \<Rightarrow> None
           | Some rreq \<Rightarrow>
               if \<not> capreq_versioned cap then Some rreq
               else if \<not> capreq_versioned rreq then None
               else if cap_match_req E cap rreq True then Some rreq
               else None))"

section \<open>Obsoletes\<close>

text \<open>
  The loop of \<open>pkg_caps_obsoletes_pkg_caps\<close> counts \<open>i\<close> but reads the entry \<open>n\<close> every time;
  \<open>k\<close> is the number of rounds left.
\<close>

fun obs_loop :: "penv \<Rightarrow> pkg \<Rightarrow> pkg \<Rightarrow> capreq \<Rightarrow> nat \<Rightarrow> bool" where
  "obs_loop E p opkg cnfl 0 = False"
| "obs_loop E p opkg cnfl (Suc k) =
     (if \<not> capreq_is_obsl cnfl then obs_loop E p opkg cnfl k
      else if strcmp (cr_name cnfl) (name p) \<noteq> 0 then False
      else if fst (pkg_match_req E opkg cnfl True) then True
      else obs_loop E p opkg cnfl k)"

definition pkg_caps_obsoletes_pkg_caps :: "penv \<Rightarrow> pkg \<Rightarrow> pkg \<Rightarrow> bool" where
  "pkg_caps_obsoletes_pkg_caps E p opkg =
     (case cnfls p of
        None \<Rightarrow> False
      | Some cs \<Rightarrow>
          if cs = [] then False
          else let (n, cs') = capreq_arr_find E cs (name opkg) in
               if n = - 1 then False
               else let cnfl = cs' ! nat n in
                    if capreq_is_obsl cnfl \<and> fst (pkg_match_req E opkg cnfl True) then True
                    else obs_loop E p opkg (cs' ! (nat n + 1)) (length cs' - (nat n + 1)))"

definition pkg_obsoletes_pkg :: "penv \<Rightarrow> pkg \<Rightarrow> pkg \<Rightarrow> bool" where
  "pkg_obsoletes_pkg E p opkg =
     (if strcmp (name p) (name opkg) \<noteq> 0 then pkg_caps_obsoletes_pkg_caps E p opkg
      else pkg_cmp_evr E p opkg > 0)"

section \<open>The walk is the search\<close>

lemma cap_xmatch_req_name: "cap_xmatch_req E c req fl \<Longrightarrow> cr_name c = cr_name req"
  by (simp add: cap_xmatch_req_def split: if_splits)

lemma caps_scan_stop:
  "\<forall>c \<in> set cs. cr_name c \<noteq> cr_name req \<Longrightarrow> \<not> caps_scan E req fl False cs"
  by (cases cs) auto

lemma caps_scan_block:
  assumes "\<forall>c \<in> set blk. cr_name c = cr_name req" "\<forall>c \<in> set post. cr_name c \<noteq> cr_name req"
  shows "caps_scan E req fl b (blk @ post) \<longleftrightarrow>
    (\<exists>c \<in> set blk. cap_xmatch_req E c req fl) \<or> (blk = [] \<and> caps_scan E req fl b post)"
  using assms(1)
proof (induction blk arbitrary: b)
  case (Cons c blk)
  then show ?case
    using caps_scan_stop [OF assms(2), of E fl] by auto
qed simp

context pm_env
begin

text \<open>
  Binary search and early exit against the plain question whether some capability of the
  package satisfies the requirement.
\<close>

lemma caps_match_iff:
  assumes "\<forall>cs. caps p = Some cs \<longrightarrow> (\<forall>c \<in> set cs. cr_comparable E c)"
  shows "fst (pkg_caps_match_req E p req fl) \<longleftrightarrow>
    (\<exists>cs. caps p = Some cs \<and> (\<exists>c \<in> set cs. cap_xmatch_req E c req fl))"
proof (cases "caps p")
  case (Some cs)
  then have cmp: "\<forall>c \<in> set cs. cr_comparable E c" using assms by simp
  show ?thesis
  proof (cases rule: arr_find_cases [OF cmp, of "cr_name req"])
    case 1
    then show ?thesis using Some cap_xmatch_req_name
      by (auto simp: pkg_caps_match_req_def)
  next
    case (2 pre blk post)
    have "set cs = set (pre @ blk @ post)" by (metis 2(2) arr_sorted_set)
    moreover have "fst (pkg_caps_match_req E p req fl) = caps_scan E req fl True (blk @ post)"
      using 2 Some calculation by (auto simp: pkg_caps_match_req_def name_block_def)
    moreover have "caps_scan E req fl True (blk @ post) \<longleftrightarrow> (\<exists>c \<in> set blk. cap_xmatch_req E c req fl)"
      using 2(3) caps_scan_block [of blk req post E fl True] by (simp add: name_block_def)
    moreover have "\<not> cap_xmatch_req E c req fl" if "c \<in> set (pre @ post)" for c
    proof -
      have "cr_name c \<noteq> cr_name req" using that 2(3) unfolding name_block_def by blast
      then show ?thesis using cap_xmatch_req_name by blast
    qed
    ultimately show ?thesis using Some by auto
  qed
qed (simp add: pkg_caps_match_req_def)

lemma match_req_iff:
  assumes "\<forall>cs. caps p = Some cs \<longrightarrow> (\<forall>c \<in> set cs. cr_comparable E c)"
  defines "fl \<equiv> \<lambda>strict. if strict then 0 else MA_PROMOTE_VERSION"
  shows "fst (pkg_match_req E p req strict) \<longleftrightarrow>
    name p = cr_name req \<and> pkg_evr_match_req E p req (fl strict) \<or>
    (\<exists>cs. caps p = Some cs \<and> (\<exists>c \<in> set cs. cap_xmatch_req E c req (fl strict)))"
  using caps_match_iff [OF assms(1), of req "fl strict"]
  by (auto simp: pkg_match_req_def fl_def Let_def)

end

section \<open>What matching means\<close>

text \<open>
  The abstract reading of a requirement: the relation holds of the comparison of the
  capability's version to the requirement's, where a requirement without a release does not
  look at releases.
\<close>

definition evr_vs_req :: "penv \<Rightarrow> capreq \<Rightarrow> capreq \<Rightarrow> int" where
  "evr_vs_req E cap req =
     cmp_then (i32_diff (capreq_epoch cap) (capreq_epoch req))
       (cmp_then (vercmp E (capreq_ver cap) (capreq_ver req))
         (if capreq_has_rel req then vercmp E (capreq_rel cap) (capreq_rel req) else 0))"

text \<open>A capability that carries whatever version parts the requirement asks for.\<close>

definition covers :: "capreq \<Rightarrow> capreq \<Rightarrow> bool" where
  "covers cap req \<longleftrightarrow> capreq_has_ver req \<and> capreq_has_ver cap \<and>
     (capreq_has_rel req \<longrightarrow> capreq_has_rel cap)"

lemma epoch_absent: "\<not> capreq_has_epoch cr \<Longrightarrow> capreq_epoch cr = 0"
  by (simp add: capreq_epoch_def capreq_has_epoch_def)

lemma no_promote_bits [flag_simps]:
  "(0 :: u32) AND MA_PROMOTE_EPOCH = 0" "(1 :: u32) AND MA_PROMOTE_EPOCH = 0"
  by simp_all

lemma cap_match_req_covers:
  assumes "covers cap req" and "\<not> conf_PROMOTE_EPOCH E" and "capreq_versioned req"
  shows "cap_match_req E cap req strict \<longleftrightarrow>
    cr_name cap = cr_name req \<and> rel_match (evr_vs_req E cap req) req"
proof -
  have vr: "xmatch_vr E cap req fl evr \<longleftrightarrow>
      rel_match (cmp_then (vercmp E (capreq_ver cap) (capreq_ver req))
         (if capreq_has_rel req then vercmp E (capreq_rel cap) (capreq_rel req) else 0)) req" for fl evr
    using assms(1) by (auto simp: xmatch_vr_def covers_def cmp_then_def)
  show ?thesis
    using assms(2,3) epoch_absent [of cap] epoch_absent [of req]
    by (auto simp: cap_match_req_def cap_xmatch_req_def vr evr_vs_req_def cmp_then_def flag_simps)
qed

context pm_env
begin

lemma evr_vs_req_mono:
  assumes ep: "nonneg32 (capreq_epoch a)" "nonneg32 (capreq_epoch b)" "nonneg32 (capreq_epoch req)"
    and ab: "evr_vs_req E a b \<le> 0" and brel: "capreq_has_rel b"
  shows "0 < evr_vs_req E a req \<Longrightarrow> 0 < evr_vs_req E b req"
    and "evr_vs_req E a req = 0 \<Longrightarrow> 0 \<le> evr_vs_req E b req"
proof -
  let ?S = "{c. nonneg32 (capreq_epoch c)}"
  let ?g = "\<lambda>x y. cmp_then (i32_diff (capreq_epoch x) (capreq_epoch y))
      (cmp_then (vercmp E (capreq_ver x) (capreq_ver y))
        (if capreq_has_rel req then vercmp E (capreq_rel x) (capreq_rel y) else 0))"
  have epo: "cmp_order ?S (\<lambda>x y. i32_diff (capreq_epoch x) (capreq_epoch y))"
    by (rule cmp_order_on [OF cmp_order_i32_diff]) simp
  have "cmp_order ?S (\<lambda>x y. if capreq_has_rel req then vercmp E (capreq_rel x) (capreq_rel y) else 0)"
    by (cases "capreq_has_rel req") (simp_all add: vercmp_on cmp_order_const_0)
  then have G: "cmp_order ?S ?g" by (intro cmp_order_then epo vercmp_on)
  note less_flip = cmp_order.less_flip [OF G] and eq_sym = cmp_order.eq_sym [OF G]
    and less_le_trans = cmp_order.less_le_trans [OF G] and trans = cmp_order.trans [OF G]
    and not_less = cmp_order.not_less [OF G]
  have S: "a \<in> ?S" "b \<in> ?S" "req \<in> ?S" using ep by auto
  have "?g a b \<le> 0"
    using ab brel by (auto simp: evr_vs_req_def cmp_then_def split: if_splits)
  then have "?g b a \<ge> 0" using less_flip [OF S(2,1)] by linarith
  show "0 < evr_vs_req E b req" if "0 < evr_vs_req E a req"
  proof -
    have "?g req a < 0" using that less_flip [OF S(3,1)] by (simp add: evr_vs_req_def)
    then have "?g req b < 0" using less_le_trans [OF S(3,1,2)] \<open>?g a b \<le> 0\<close> by blast
    then show ?thesis using less_flip [OF S(3,2)] by (simp add: evr_vs_req_def)
  qed
  show "0 \<le> evr_vs_req E b req" if "evr_vs_req E a req = 0"
  proof -
    have "?g a req = 0" using that by (simp add: evr_vs_req_def)
    then have "?g req a \<le> 0" using eq_sym [OF S(3,1)] by linarith
    then have "?g req b \<le> 0" using trans [OF S(3,1,2)] \<open>?g a b \<le> 0\<close> by blast
    then have "\<not> ?g b req < 0" using not_less [OF S(2,3)] by blast
    then show ?thesis by (simp add: evr_vs_req_def)
  qed
qed

end

text \<open>What \<open>pkg_evr_match_req\<close> compares is the package's own capability.\<close>

lemma pkg_evr_cap_view:
  assumes "evr_fits (Some (ver p)) (Some (rel p))" "plain_name (name p)"
  obtains c where "pkg_evr_cap na p = Some c" "cr_name c = name p" "capreq_epoch c = epoch p"
    "capreq_ver c = ver p" "capreq_rel c = rel p" "capreq_has_ver c" "capreq_has_rel c"
    "capreq_has_epoch c \<longleftrightarrow> epoch p \<noteq> 0" "cr_relflags c AND REL_ALL = REL_EQ"
proof -
  have "\<exists>c. pkg_evr_cap na p = Some c"
    using assms(2) by (simp add: pkg_evr_cap_def capreq_new_def Let_def)
  then obtain c where c: "pkg_evr_cap na p = Some c" by blast
  note new = c [unfolded pkg_evr_cap_def]
  show thesis
    using that [OF c] capreq_new_view [OF new] capreq_new_ver [OF new assms(1)]
      capreq_new_rel [OF new assms(1)] assms(2)
    by simp
qed

section \<open>Properties\<close>

text \<open>C14: \<open>pkg_match_req\<close>, with its binary search and its early exit at the first capability of
  another name, answers the plain question: the package's own name and version or some
  capability of it satisfies the requirement.\<close>

theorem pkg_match_req_exact:
  assumes "pm_env E" and "caps p = Some cs" and "\<forall>c \<in> set cs. cr_comparable E c"
  shows "fst (pkg_match_req E p req strict) \<longleftrightarrow>
    name p = cr_name req \<and> pkg_evr_match_req E p req (if strict then 0 else MA_PROMOTE_VERSION) \<or>
    (\<exists>c \<in> set cs. cap_xmatch_req E c req (if strict then 0 else MA_PROMOTE_VERSION))"
  using pm_env.match_req_iff [OF assms(1), of p req strict] assms(2,3) by simp

theorem pkg_match_req_exact_witness:
  "\<exists>c. capreq_new False ''mta'' 0 None None 0 0 = Some c \<and>
     fst (pkg_match_req ref_env (ref_pkg 1 ''exim'' [c] []) c True)"
proof -
  have "rpmlib_name ''mta'' = (''mta'', False)" by code_simp
  then obtain c where c: "capreq_new False ''mta'' 0 None None 0 0 = Some c"
    by (simp add: capreq_new_def)
  have "cr_comparable ref_env c" "\<not> capreq_versioned c"
    using capreq_new_fields [OF c] capreq_new_epoch [OF c] capreq_new_rel [OF c]
    by (simp_all add: cr_comparable_def nonneg32_def evr_fits_def capreq_versioned_def)
  then show ?thesis
    using c pkg_match_req_exact [OF ref_pm.pm_env_axioms, of "ref_pkg 1 ''exim'' [c] []" "[c]" c True]
    by (simp add: cap_xmatch_req_def)
qed

text \<open>C15: for a capability that has every version part the requirement names, and without epoch
  promotion, matching is the requirement's relation on the comparison of epoch, version and
  release, whatever the strictness.\<close>

theorem cap_match_req_means:
  assumes "covers cap req" and "\<not> conf_PROMOTE_EPOCH E" and "capreq_versioned req"
  shows "cap_match_req E cap req strict \<longleftrightarrow>
    cr_name cap = cr_name req \<and> rel_match (evr_vs_req E cap req) req"
  using assms by (rule cap_match_req_covers)

theorem cap_match_req_means_witness:
  "\<exists>c r. capreq_new False ''a'' 0 (Some ''2'') None 1 0 = Some c \<and>
     capreq_new False ''a'' 0 (Some ''1'') None 3 0 = Some r \<and> cap_match_req ref_env c r True"
proof -
  have n: "rpmlib_name ''a'' = (''a'', False)" by code_simp
  obtain c where c: "capreq_new False ''a'' 0 (Some ''2'') None 1 0 = Some c" by (simp add: capreq_new_def n)
  obtain r where r: "capreq_new False ''a'' 0 (Some ''1'') None 3 0 = Some r" by (simp add: capreq_new_def n)
  have f: "evr_fits (Some ''2'') None" "evr_fits (Some ''1'') None" by (simp_all add: evr_fits_def)
  note vc = capreq_new_fields [OF c] capreq_new_epoch [OF c] capreq_new_ver [OF c f(1)] capreq_new_rel [OF c f(1)]
  note vr = capreq_new_fields [OF r] capreq_new_epoch [OF r] capreq_new_ver [OF r f(2)] capreq_new_rel [OF r f(2)]
  have "strcmp ''2'' ''1'' > 0" by code_simp
  then show ?thesis
    using c r cap_match_req_means [of c r ref_env True] vc vr n
    by (simp add: covers_def capreq_versioned_def evr_vs_req_def cmp_then_def rel_match_def)
qed

text \<open>C21: an upgrade does not break a lower bound: what satisfies a requirement \<open>> v\<close> or
  \<open>>= v\<close> still does after it is replaced by a capability of the same name that is not older.\<close>

theorem upgrade_keeps_lower_bound:
  assumes E: "pm_env E" "\<not> conf_PROMOTE_EPOCH E"
    and req: "capreq_versioned req" "cr_relflags req AND REL_GT \<noteq> 0"
      "cr_relflags req AND REL_LT = 0"
    and cov: "covers old req" "covers new req" and nm: "cr_name new = cr_name old"
    and ep: "nonneg32 (capreq_epoch old)" "nonneg32 (capreq_epoch new)" "nonneg32 (capreq_epoch req)"
    and older: "evr_vs_req E old new \<le> 0" "capreq_has_rel new"
    and met: "cap_match_req E old req strict"
  shows "cap_match_req E new req strict"
proof -
  have m: "cr_name old = cr_name req" "rel_match (evr_vs_req E old req) req"
    using met cap_match_req_covers [OF cov(1) E(2) req(1)] by blast+
  then have "0 < evr_vs_req E old req \<or> evr_vs_req E old req = 0 \<and> cr_relflags req AND REL_EQ \<noteq> 0"
    using req(3) by (auto simp: rel_match_def split: if_splits)
  then have "0 < evr_vs_req E new req \<or> 0 \<le> evr_vs_req E new req \<and> cr_relflags req AND REL_EQ \<noteq> 0"
    using pm_env.evr_vs_req_mono [OF E(1) ep older] by blast
  then have "rel_match (evr_vs_req E new req) req" using req(2) by (auto simp: rel_match_def)
  then show ?thesis using cap_match_req_covers [OF cov(2) E(2) req(1)] nm m(1) by simp
qed

theorem upgrade_keeps_lower_bound_witness:
  defines "cap \<equiv> \<lambda>v rf. the (capreq_new False ''a'' 0 (Some v) (Some ''1'') rf 0)"
  shows "cap_match_req ref_env (cap ''3'' 1) (cap ''1'' 3) True"
  unfolding cap_def
  by (rule upgrade_keeps_lower_bound [OF ref_pm.pm_env_axioms, of _ "the (capreq_new False ''a'' 0 (Some ''2'') (Some ''1'') 1 0)"])
    code_simp+

end
