(* ===== verification/Booldep.thy ===== *)
theory Booldep
  imports Match
begin

text \<open>
  booldep.h, booldep_parse.c and booldep_eval.c: rich dependencies such as
  \<open>(a and (b or c))\<close> and \<open>(a if b else c)\<close>. The first half models the recursive descent
  parser, the second the evaluation to the list of requirements to install.
\<close>

section \<open>Nodes\<close>

datatype optype = Ident | OpAnd | OpOr | OpIf | OpUnless | OpElse | OpWith | OpWithout

text \<open>\<open>args\<close> are filled from the left, so the list holds the entries before the first NULL.\<close>

datatype node = Node (ntype: optype) (ary: nat) (ncap: "capreq option") (nargs: "node list")
  (nname: string)

definition operators :: "(string \<times> optype \<times> nat) list" where
  "operators =
     [(''and'', OpAnd, 2), (''or'', OpOr, 2), (''if'', OpIf, 3), (''unless'', OpUnless, 3),
      (''else'', OpElse, 0), (''with'', OpWith, 2), (''without'', OpWithout, 2)]"

definition node_new :: "optype \<Rightarrow> nat \<Rightarrow> string \<Rightarrow> string option \<Rightarrow> u32 \<Rightarrow> node" where
  "node_new ty ar nm evr relflags =
     Node ty ar (if ty = Ident then capreq_new_evr False nm evr relflags CAPREQ_BASTARD else None)
       [] nm"

definition node_set_arg :: "node \<Rightarrow> node \<Rightarrow> node option" where
  "node_set_arg n a =
     (if length (nargs n) \<ge> ary n then None
      else Some (Node (ntype n) (ary n) (ncap n) (nargs n @ [a]) (nname n)))"

section \<open>Words\<close>

text \<open>
  \<open>skipnonwhite\<close>, as the word passed over and the rest; \<open>bl\<close> counts open brackets and goes
  down at every closing one.
\<close>

fun skipnonwhite :: "int \<Rightarrow> string \<Rightarrow> string \<times> string" where
  "skipnonwhite bl [] = ([], [])"
| "skipnonwhite bl (c # p) =
     (if c = CHR '' '' \<or> c = CHR '','' \<or> (c = CHR '')'' \<and> bl \<le> 0) then ([], c # p)
      else let bl' = (if c = CHR '')'' then bl - 1 else if c = CHR ''('' then bl + 1 else bl);
               (w, r) = skipnonwhite bl' p
           in (c # w, r))"

fun parse_relflags :: "u32 \<Rightarrow> string \<Rightarrow> u32 \<times> string" where
  "parse_relflags fl [] = (fl, [])"
| "parse_relflags fl (c # p) =
     (if c = CHR ''<'' then parse_relflags (fl OR REL_LT) p
      else if c = CHR ''='' then parse_relflags (fl OR REL_EQ) p
      else if c = CHR ''>'' then parse_relflags (fl OR REL_GT) p
      else (fl, c # p))"

section \<open>The parser\<close>

text \<open>
  \<open>parse_dep\<close> returns NULL where it refuses the text, and contains an assertion; the node it
  returns is either the node of the chain it was called for (\<open>Same\<close>, which it has added
  arguments to) or another one (\<open>New\<close>). The next four definitions are the straight-line parts of
  its body, between the recursive calls.
\<close>

datatype perr = Refused | Asserted

datatype parsed = Same (pnode: node) | New (pnode: node)

definition open_dep :: "optype \<Rightarrow> string \<Rightarrow> perr + string" where
  "open_dep ct p0 =
     (let p = skip_space p0 in
      if ct = Ident \<and> (p = [] \<or> hd p \<noteq> CHR ''('') then Inl Asserted
      else let p = skip_space (if ct = Ident then tl p else p) in
           if p \<noteq> [] \<and> hd p = CHR '')'' then Inl Refused else Inr p)"

definition parse_ident :: "string \<Rightarrow> perr + parsed \<times> string" where
  "parse_ident q =
     (let (nm, p) = skipnonwhite 0 q in
      if nm = [] then Inl Refused
      else let (relflags, p) = parse_relflags 0 (skip_space p) in
           if relflags \<noteq> 0
           then let (evr, p) = skipnonwhite 0 (skip_space p) in
                if evr = [] then Inl Refused
                else Inr (New (node_new Ident 0 nm (Some evr) relflags), p)
           else Inr (New (node_new Ident 0 nm None relflags), p))"

definition find_op :: "string \<Rightarrow> (string \<times> optype \<times> nat) option" where
  "find_op w = find (\<lambda>(nm, _, _). w = nm) operators"

datatype next_op = EOE string | Op bool node optype string

text \<open>\<open>ctype\<close> is the type of the chain's node, 0 without one.\<close>

definition chain_ctype :: "node option \<Rightarrow> optype" where
  "chain_ctype chain_opnode = (case chain_opnode of None \<Rightarrow> Ident | Some n \<Rightarrow> ntype n)"

definition use_parent :: "optype \<Rightarrow> node option \<Rightarrow> bool" where
  "use_parent optype chain_opnode \<longleftrightarrow>
     optype = OpElse \<and> chain_ctype chain_opnode \<in> set [OpIf, OpUnless]"

definition chain_refused :: "optype \<Rightarrow> node option \<Rightarrow> optype \<Rightarrow> node \<Rightarrow> bool" where
  "chain_refused chain_type chain_opnode optype opnode \<longleftrightarrow>
     (if chain_ctype chain_opnode \<noteq> Ident \<and> ntype opnode \<noteq> chain_ctype chain_opnode then True
      else
        let chain_type' =
              (if (chain_type = OpIf \<or> chain_type = OpUnless) \<and> optype = OpElse
               then Ident else chain_type)
        in chain_type' \<noteq> Ident \<and> optype \<noteq> chain_type')"

definition after_arg :: "optype \<Rightarrow> node option \<Rightarrow> node \<Rightarrow> string \<Rightarrow> perr + next_op" where
  "after_arg chain_type chain_opnode nd p0 =
     (let p = skip_space p0 in
      if p = [] then Inl Refused
      else if hd p = CHR '')'' then Inr (EOE (tl p))
      else
        case find_op (takeWhile (\<lambda>c. \<not> is_space c) p) of
          None \<Rightarrow> Inl Refused
        | Some (opname, optype, opary) \<Rightarrow>
            let same = use_parent optype chain_opnode;
                opnode = (if same then the chain_opnode
                          else node_new optype opary opname None 0)
            in case node_set_arg opnode nd of
                 None \<Rightarrow> Inl Refused
               | Some opnode' \<Rightarrow>
                   if chain_refused chain_type chain_opnode optype opnode' then Inl Refused
                   else Inr (Op same opnode' optype (dropWhile (\<lambda>c. \<not> is_space c) p)))"

definition join_arg :: "node \<Rightarrow> parsed \<Rightarrow> node option" where
  "join_arg opnode nd =
     (case nd of Same opnode' \<Rightarrow> Some opnode' | New nd' \<Rightarrow> node_set_arg opnode nd')"

function (domintros) parse_dep ::
  "optype \<Rightarrow> node option \<Rightarrow> string \<Rightarrow> perr + parsed \<times> string" where
  "parse_dep chain_type chain_opnode dep =
     (case open_dep chain_type dep of
        Inl e \<Rightarrow> Inl e
      | Inr p \<Rightarrow>
          (case (if p \<noteq> [] \<and> hd p = CHR ''('' then parse_dep Ident None p else parse_ident p) of
             Inl e \<Rightarrow> Inl e
           | Inr (nd, p) \<Rightarrow>
               (case after_arg chain_type chain_opnode (pnode nd) p of
                  Inl e \<Rightarrow> Inl e
                | Inr (EOE rest) \<Rightarrow> Inr (New (pnode nd), rest)
                | Inr (Op same opnode optype p) \<Rightarrow>
                    (case parse_dep optype (Some opnode) p of
                       Inl e \<Rightarrow> Inl e
                     | Inr (nd', rest) \<Rightarrow>
                         (case join_arg opnode nd' of
                            None \<Rightarrow> Inl Refused
                          | Some opnode' \<Rightarrow>
                              Inr (if same then Same opnode' else New opnode', rest))))))"
  by pat_completeness auto

section \<open>It terminates\<close>

lemma skipnonwhite_split: "skipnonwhite bl p = (w, r) \<Longrightarrow> p = w @ r"
  by (induction bl p arbitrary: w r rule: skipnonwhite.induct)
    (auto simp: Let_def split: if_splits prod.splits)

lemma parse_relflags_le: "length (snd (parse_relflags fl p)) \<le> length p"
  by (induction fl p rule: parse_relflags.induct) auto

lemma open_dep_length:
  "open_dep ct p0 = Inr p \<Longrightarrow> length p + (if ct = Ident then 1 else 0) \<le> length p0"
proof -
  assume "open_dep ct p0 = Inr p"
  then have "p = skip_space (if ct = Ident then tl (skip_space p0) else skip_space p0)"
    "ct = Ident \<longrightarrow> skip_space p0 \<noteq> []"
    by (auto simp: open_dep_def Let_def split: if_splits)
  then show ?thesis
    using length_skip_space [of p0] length_skip_space [of "skip_space p0"]
      length_skip_space [of "tl (skip_space p0)"]
    by (cases "skip_space p0") (auto split: if_splits)
qed

lemma parse_ident_length:
  assumes "parse_ident q = Inr (nd, p)"
  shows "length p < length q"
proof -
  obtain nm p1 where 1: "skipnonwhite 0 q = (nm, p1)" by fastforce
  obtain fl p2 where 2: "parse_relflags 0 (skip_space p1) = (fl, p2)" by fastforce
  obtain evr p3 where 3: "skipnonwhite 0 (skip_space p2) = (evr, p3)" by fastforce
  have "nm \<noteq> []" "p = p2 \<or> p = p3"
    using assms by (auto simp: parse_ident_def 1 2 3 Let_def split: if_splits)
  moreover have "length q = length nm + length p1" using skipnonwhite_split [OF 1] by simp
  moreover have "length p2 \<le> length p1"
    using parse_relflags_le [of 0 "skip_space p1"] 2 length_skip_space [of p1] by simp
  moreover have "length p3 \<le> length p2"
  proof -
    have "length (skip_space p2) = length evr + length p3"
      using skipnonwhite_split [OF 3] by (metis length_append)
    then show ?thesis using length_skip_space [of p2] by linarith
  qed
  moreover have "0 < length nm" using \<open>nm \<noteq> []\<close> by simp
  moreover have "length p \<le> length p2" using \<open>p = p2 \<or> p = p3\<close> \<open>length p3 \<le> length p2\<close> by auto
  ultimately show ?thesis by linarith
qed

lemma after_arg_length:
  assumes "after_arg ct ch nd p0 = Inr x"
  shows "case x of EOE p \<Rightarrow> length p < length p0 | Op _ _ _ p \<Rightarrow> length p < length p0"
proof -
  let ?p = "skip_space p0"
  have le: "length ?p \<le> length p0" by (rule length_skip_space)
  show ?thesis
  proof (cases "?p = [] \<or> hd ?p = CHR '')''")
    case True
    then show ?thesis using assms le by (cases ?p) (auto simp: after_arg_def Let_def)
  next
    case False
    have "\<not> is_space (hd ?p)"
      using False hd_dropWhile [of is_space p0] by (simp add: skip_space_def)
    then have "length (dropWhile (\<lambda>c. \<not> is_space c) ?p) < length ?p"
      using False by (cases ?p) (auto simp: le_imp_less_Suc length_dropWhile_le)
    then show ?thesis using assms le False
      by (auto simp: after_arg_def Let_def split: if_splits option.splits)
  qed
qed

lemma parse_dep_step:
  assumes "parse_dep_dom (ct, ch, p0)" "parse_dep ct ch p0 = Inr (x, rest)"
  obtains (EOE) p nd p1 where "open_dep ct p0 = Inr p"
      "(if p \<noteq> [] \<and> hd p = CHR ''('' then parse_dep Ident None p else parse_ident p) = Inr (nd, p1)"
      "after_arg ct ch (pnode nd) p1 = Inr (EOE rest)" "x = New (pnode nd)"
  | (Op) p nd p1 same opn ot p2 y n where "open_dep ct p0 = Inr p"
      "(if p \<noteq> [] \<and> hd p = CHR ''('' then parse_dep Ident None p else parse_ident p) = Inr (nd, p1)"
      "after_arg ct ch (pnode nd) p1 = Inr (Op same opn ot p2)"
      "parse_dep ot (Some opn) p2 = Inr (y, rest)" "join_arg opn y = Some n"
      "x = (if same then Same n else New n)"
proof -
  obtain p where op: "open_dep ct p0 = Inr p"
    using assms(2) by (auto simp: parse_dep.psimps [OF assms(1)] split: sum.splits)
  let ?A = "if p \<noteq> [] \<and> hd p = CHR ''('' then parse_dep Ident None p else parse_ident p"
  have res: "(case ?A of Inl e \<Rightarrow> Inl e | Inr (nd, p) \<Rightarrow>
               (case after_arg ct ch (pnode nd) p of
                  Inl e \<Rightarrow> Inl e
                | Inr (EOE rest) \<Rightarrow> Inr (New (pnode nd), rest)
                | Inr (Op same opnode optype p) \<Rightarrow>
                    (case parse_dep optype (Some opnode) p of
                       Inl e \<Rightarrow> Inl e
                     | Inr (nd', rest) \<Rightarrow>
                         (case join_arg opnode nd' of
                            None \<Rightarrow> Inl Refused
                          | Some opnode' \<Rightarrow>
                              Inr (if same then Same opnode' else New opnode', rest))))) = Inr (x, rest)"
    using assms(2) by (simp add: parse_dep.psimps [OF assms(1)] op cong: if_cong)
  obtain nd p1 where A: "?A = Inr (nd, p1)"
    by (rule sumE [of ?A]) (use res in auto)
  obtain a where a: "after_arg ct ch (pnode nd) p1 = Inr a"
    using res unfolding A by (auto split: sum.splits)
  show thesis
  proof (cases a)
    case (EOE r)
    then show ?thesis using that(1) [OF op A] res a unfolding A by simp
  next
    case (Op same opn ot p2)
    then show ?thesis using that(2) [OF op A] a res [unfolded A]
      by (auto split: sum.splits option.splits)
  qed
qed

lemma parse_dep_length:
  "parse_dep_dom (ct, ch, p0) \<Longrightarrow> parse_dep ct ch p0 = Inr (x, rest) \<Longrightarrow> length rest < length p0"
proof (induction ct ch p0 arbitrary: x rest rule: parse_dep.pinduct)
  case (1 ct ch p0)
  have p1: "length p1 < length p0"
    if "open_dep ct p0 = Inr p"
      "(if p \<noteq> [] \<and> hd p = CHR ''('' then parse_dep Ident None p else parse_ident p) = Inr (nd, p1)"
    for p nd p1
    using open_dep_length [OF that(1)] parse_ident_length "1.IH"(1) [OF that(1)] that(2)
    by (fastforce split: if_splits)
  show ?case
  proof (cases rule: parse_dep_step [OF "1.hyps" "1.prems"])
    case (1 p nd p1)
    then show ?thesis using p1 [OF 1(1,2)] after_arg_length [OF 1(3)] by simp
  next
    case (2 p nd p1 same opn ot p2 y n)
    have "length rest < length p2"
      by (rule "1.IH"(2) [OF 2(1,2) refl 2(3) refl 2(4)])
    then show ?thesis using p1 [OF 2(1,2)] after_arg_length [OF 2(3)] by simp
  qed
qed

termination parse_dep
proof (relation "measure (\<lambda>(ct, ch, p). 2 * length p + (if ct = Ident then 0 else 1))", goal_cases)
  case (2 ct ch p0 p)
  then show ?case using open_dep_length [of ct p0 p] by (auto split: if_splits)
next
  case (3 ct ch p0 p q nd p1 x same opn ot p2)
  have "length p1 < length p0"
    using 3 open_dep_length [of ct p0 p] parse_ident_length parse_dep_length
    by (fastforce split: if_splits)
  moreover have "length p2 < length p1" using 3 after_arg_length by fastforce
  ultimately show ?case by auto
qed simp

declare parse_dep.simps [simp del]

lemma parse_dep_total: "parse_dep_dom (ct, ch, p0)"
proof (induction ct ch p0 rule: parse_dep.induct)
  case (1 ct ch p0)
  show ?case by (rule parse_dep.domintros) (use 1 in blast)+
qed

lemmas parse_dep_cases = parse_dep_step [OF parse_dep_total]

text \<open>\<open>booldep_parse\<close>: the node, and the text behind the expression that is left over.\<close>

definition booldep_parse :: "string \<Rightarrow> perr + node \<times> string" where
  "booldep_parse expr =
     (if expr = [] \<or> hd expr \<noteq> CHR ''('' then Inl Refused
      else case parse_dep Ident None expr of
             Inl e \<Rightarrow> Inl e
           | Inr (nd, rest) \<Rightarrow> Inr (pnode nd, rest))"

section \<open>The nodes it builds\<close>

text \<open>
  A finished operator node has two arguments at least, so that the evaluation never meets a
  missing left or right side; \<open>node_open\<close> is what a chain in progress looks like.
\<close>

fun node_ok :: "node \<Rightarrow> bool" where
  "node_ok (Node ty ar cap args nm) \<longleftrightarrow>
     (if ty = Ident then ar = 0 \<and> args = []
      else (nm, ty, ar) \<in> set operators \<and> 2 \<le> length args \<and> length args \<le> ar) \<and>
     (\<forall>a \<in> set args. node_ok a)"

fun node_open :: "node \<Rightarrow> bool" where
  "node_open (Node ty ar cap args nm) \<longleftrightarrow>
     ty \<noteq> Ident \<and> (nm, ty, ar) \<in> set operators \<and> args \<noteq> [] \<and> length args \<le> ar \<and>
     (\<forall>a \<in> set args. node_ok a)"

lemma node_set_arg_ok:
  assumes "node_set_arg n a = Some n'" "node_open n" "node_ok a"
  shows "node_open n'" "node_ok n'"
  using assms by (cases n; auto simp: node_set_arg_def Suc_le_eq split: if_splits)+

lemma node_set_arg_new:
  assumes "node_set_arg (node_new ty ar nm None 0) a = Some n'" "node_ok a"
    "(nm, ty, ar) \<in> set operators" "ty \<noteq> Ident"
  shows "node_open n'"
  using assms by (auto simp: node_set_arg_def node_new_def split: if_splits)

lemma find_op_Some:
  "find_op w = Some (nm, ty, ar) \<Longrightarrow> (nm, ty, ar) \<in> set operators \<and> w = nm \<and> ty \<noteq> Ident"
  by (auto simp: find_op_def operators_def split: if_splits)

lemma parse_ident_ok: "parse_ident p = Inr (nd, r) \<Longrightarrow> node_ok (pnode nd)"
  by (auto simp: parse_ident_def node_new_def Let_def split: if_splits prod.splits)

lemma after_arg_Op:
  assumes "after_arg ct ch nd p0 = Inr (Op same opn ot r)"
  obtains nm ar where "find_op (takeWhile (\<lambda>c. \<not> is_space c) (skip_space p0)) = Some (nm, ot, ar)"
    "node_set_arg (if same then the ch else node_new ot ar nm None 0) nd = Some opn"
    "same = use_parent ot ch"
proof -
  have "\<exists>nm ar. find_op (takeWhile (\<lambda>c. \<not> is_space c) (skip_space p0)) = Some (nm, ot, ar) \<and>
    node_set_arg (if same then the ch else node_new ot ar nm None 0) nd = Some opn \<and>
    same = use_parent ot ch"
    using assms unfolding after_arg_def Let_def
    by (simp only: split: if_split_asm option.split_asm prod.split_asm) auto
  then show thesis using that by blast
qed

lemma use_parent_Some: "use_parent ot ch \<Longrightarrow> ch \<noteq> None"
  by (cases ch) (auto simp: use_parent_def chain_ctype_def)

lemma after_arg_ok:
  assumes "after_arg ct ch nd p = Inr (Op same opn ot r)" "node_ok nd"
    "\<And>n. ch = Some n \<Longrightarrow> node_open n"
  shows "node_open opn" "same \<Longrightarrow> node_ok opn" "ot \<noteq> Ident"
proof -
  obtain nm ar where a: "find_op (takeWhile (\<lambda>c. \<not> is_space c) (skip_space p)) = Some (nm, ot, ar)"
    "node_set_arg (if same then the ch else node_new ot ar nm None 0) nd = Some opn"
    "same = use_parent ot ch"
    using after_arg_Op [OF assms(1)] by blast
  note op = find_op_Some [OF a(1)]
  show "ot \<noteq> Ident" using op by simp
  show "same \<Longrightarrow> node_ok opn" "node_open opn"
    using a(2,3) op assms(2,3) node_set_arg_ok node_set_arg_new use_parent_Some
    by (fastforce split: if_splits)+
qed

lemma parse_dep_ok:
  "parse_dep ct ch p0 = Inr (x, rest) \<Longrightarrow> (\<And>n. ch = Some n \<Longrightarrow> node_open n) \<Longrightarrow> node_ok (pnode x)"
proof (induction ct ch p0 arbitrary: x rest rule: parse_dep.induct)
  case (1 ct ch p0)
  have A: "node_ok (pnode nd)"
    if "open_dep ct p0 = Inr p"
      "(if p \<noteq> [] \<and> hd p = CHR ''('' then parse_dep Ident None p else parse_ident p) = Inr (nd, p1)"
    for p nd p1
    using "1.IH"(1) [OF that(1)] that(2) parse_ident_ok by (auto split: if_splits)
  show ?case
  proof (cases rule: parse_dep_cases [OF "1.prems"(1)])
    case (1 p nd p1)
    then show ?thesis using A by simp
  next
    case (2 p nd p1 same opn ot p2 y n)
    note opn = after_arg_ok [OF 2(3) A [OF 2(1,2)] "1.prems"(2)]
    have "node_ok (pnode y)"
      using "1.IH"(2) [OF 2(1,2) refl 2(3) refl 2(4)] opn(1) by simp
    then have "node_ok n"
      using 2(5) opn(1) by (cases y) (auto simp: join_arg_def dest: node_set_arg_ok)
    then show ?thesis using 2(6) by simp
  qed
qed

text \<open>The assertion of \<open>parse_dep\<close> needs a caller that has not seen an opening bracket.\<close>

lemma skip_space_idem [simp]: "skip_space (skip_space s) = skip_space s"
  by (induction s) auto

lemma open_dep_hd: "open_dep ct p0 = Inr p \<Longrightarrow> skip_space p = p"
  by (auto simp: open_dep_def Let_def split: if_splits)

lemma parse_dep_InlE:
  assumes "parse_dep ct ch p0 = Inl e"
  obtains (Open) "open_dep ct p0 = Inl e"
  | (Arg) p where "open_dep ct p0 = Inr p"
      "(if p \<noteq> [] \<and> hd p = CHR ''('' then parse_dep Ident None p else parse_ident p) = Inl e"
  | (After) nd p1 where "after_arg ct ch nd p1 = Inl e"
  | (Chain) p nd p1 same opn ot p2 where "open_dep ct p0 = Inr p"
      "(if p \<noteq> [] \<and> hd p = CHR ''('' then parse_dep Ident None p else parse_ident p) = Inr (nd, p1)"
      "after_arg ct ch (pnode nd) p1 = Inr (Op same opn ot p2)"
      "parse_dep ot (Some opn) p2 = Inl e \<or> e = Refused"
proof (cases "open_dep ct p0")
  case op: (Inr p)
  let ?A = "if p \<noteq> [] \<and> hd p = CHR ''('' then parse_dep Ident None p else parse_ident p"
  show thesis
  proof (cases ?A)
    case (Inl e')
    then show ?thesis using Arg [OF op] assms
      by (simp add: parse_dep.simps [of ct] op cong: if_cong)
  next
    case A: (Inr x)
    obtain nd p1 where x: "x = (nd, p1)" by fastforce
    note rest = assms [unfolded parse_dep.simps [of ct] op sum.case A x prod.case]
    show ?thesis
    proof (cases "after_arg ct ch (pnode nd) p1")
      case (Inr a)
      then show ?thesis using Chain [OF op A [unfolded x]] rest
        by (cases a) (auto split: sum.splits option.splits)
    qed (use rest After in auto)
  qed
qed (use assms Open in \<open>auto simp: parse_dep.simps [of ct]\<close>)

lemma parse_dep_asserted:
  "parse_dep ct ch p0 = Inl Asserted \<Longrightarrow> ct = Ident \<and> open_dep ct p0 = Inl Asserted"
proof (induction ct ch p0 rule: parse_dep.induct)
  case (1 ct ch p0)
  show ?case
  proof (cases "open_dep ct p0")
    case (Inl e)
    then show ?thesis using "1.prems"
      by (auto simp: parse_dep.simps [of ct] open_dep_def Let_def split: if_splits)
  next
    case (Inr p)
    let ?A = "if p \<noteq> [] \<and> hd p = CHR ''('' then parse_dep Ident None p else parse_ident p"
    have "?A \<noteq> Inl Asserted"
    proof
      assume a: "?A = Inl Asserted"
      moreover have "parse_ident p \<noteq> Inl Asserted"
        by (auto simp: parse_ident_def Let_def split: prod.splits)
      ultimately have p: "p \<noteq> []" "hd p = CHR ''(''" "parse_dep Ident None p = Inl Asserted"
        by (auto split: if_splits)
      then have "open_dep Ident p = Inl Asserted" using "1.IH"(1) [OF Inr] by simp
      then show False using p open_dep_hd [OF Inr] by (auto simp: open_dep_def Let_def split: if_splits)
    qed
    moreover have "after_arg ct ch nd p1 \<noteq> Inl Asserted" for nd p1
      by (auto simp: after_arg_def Let_def split: option.splits)
    moreover have "parse_dep ot (Some opn) p2 \<noteq> Inl Asserted"
      if "?A = Inr (nd, p1)" "after_arg ct ch (pnode nd) p1 = Inr (Op same opn ot p2)" for nd p1 same opn ot p2
    proof -
      have "ot \<noteq> Ident" using after_arg_Op [OF that(2)] find_op_Some by metis
      then show ?thesis using "1.IH"(2) [OF Inr that(1) refl that(2) refl] by blast
    qed
    ultimately show ?thesis
      using "1.prems" by (elim parse_dep_InlE) (auto simp: Inr)
  qed
qed

lemma booldep_parse_asserted: "booldep_parse expr \<noteq> Inl Asserted"
proof -
  have "parse_dep Ident None expr \<noteq> Inl Asserted" if "expr \<noteq> []" "hd expr = CHR ''(''"
  proof
    assume "parse_dep Ident None expr = Inl Asserted"
    then have "open_dep Ident expr = Inl Asserted" using parse_dep_asserted by blast
    then show False using that
      by (cases expr) (auto simp: open_dep_def Let_def is_space_def split: if_splits)
  qed
  then show ?thesis by (auto simp: booldep_parse_def split: sum.splits)
qed

section \<open>Printing and parsing\<close>

text \<open>The expressions of the manual, their text and the node they stand for.\<close>

datatype bexp = BCap string string string | BBin optype bexp bexp | BCond optype bexp bexp bexp

fun op_word :: "optype \<Rightarrow> string" where
  "op_word OpAnd = ''and''" | "op_word OpOr = ''or''" | "op_word OpIf = ''if''"
| "op_word OpUnless = ''unless''" | "op_word OpElse = ''else''" | "op_word OpWith = ''with''"
| "op_word OpWithout = ''without''" | "op_word Ident = []"

fun op_ary :: "optype \<Rightarrow> nat" where
  "op_ary OpIf = 3" | "op_ary OpUnless = 3" | "op_ary Ident = 0" | "op_ary OpElse = 0"
| "op_ary _ = 2"

fun paren :: "bexp \<Rightarrow> string \<Rightarrow> string" where
  "paren (BCap _ _ _) t = t"
| "paren _ t = CHR ''('' # t @ '')''"

fun bexp_text :: "bexp \<Rightarrow> string" where
  "bexp_text (BCap nm rl evr) = nm @ (if rl = [] then [] else '' '' @ rl @ '' '' @ evr)"
| "bexp_text (BBin ty a b) = paren a (bexp_text a) @ '' '' @ op_word ty @ '' '' @ paren b (bexp_text b)"
| "bexp_text (BCond ty a b c) =
     paren a (bexp_text a) @ '' '' @ op_word ty @ '' '' @ paren b (bexp_text b) @ '' else '' @
     paren c (bexp_text c)"

text \<open>The flags a relation sign of the manual means.\<close>

definition rel_sign :: "string \<Rightarrow> u32" where
  "rel_sign rl = (if rl = ''<'' then REL_LT else if rl = ''<='' then REL_LT OR REL_EQ
     else if rl = ''='' then REL_EQ else if rl = ''>='' then REL_GT OR REL_EQ
     else if rl = ''>'' then REL_GT else 0)"

fun bexp_node :: "bexp \<Rightarrow> node" where
  "bexp_node (BCap nm rl evr) =
     node_new Ident 0 nm (if rl = [] then None else Some evr) (rel_sign rl)"
| "bexp_node (BBin ty a b) = Node ty (op_ary ty) None [bexp_node a, bexp_node b] (op_word ty)"
| "bexp_node (BCond ty a b c) =
     Node ty (op_ary ty) None [bexp_node a, bexp_node b, bexp_node c] (op_word ty)"

definition word_ok :: "string \<Rightarrow> bool" where
  "word_ok w \<longleftrightarrow> w \<noteq> [] \<and> (\<forall>c \<in> set w. \<not> is_space c \<and> c \<notin> set '',()'')"

fun bexp_ok :: "bexp \<Rightarrow> bool" where
  "bexp_ok (BCap nm rl evr) \<longleftrightarrow> word_ok nm \<and> rl \<in> set [[], ''<'', ''<='', ''='', ''>='', ''>''] \<and>
     (rl \<noteq> [] \<longrightarrow> word_ok evr)"
| "bexp_ok (BBin ty a b) \<longleftrightarrow> ty \<notin> set [Ident, OpElse] \<and> bexp_ok a \<and> bexp_ok b"
| "bexp_ok (BCond ty a b c) \<longleftrightarrow> ty \<in> set [OpIf, OpUnless] \<and> bexp_ok a \<and> bexp_ok b \<and> bexp_ok c"

definition first_arg :: "string \<Rightarrow> perr + parsed \<times> string" where
  "first_arg p = (if p \<noteq> [] \<and> hd p = CHR ''('' then parse_dep Ident None p else parse_ident p)"

lemmas parse_dep_eq = parse_dep.simps [folded first_arg_def]

text \<open>What follows a word: the end of the expression, or a space and an operator.\<close>

definition ends_word :: "string \<Rightarrow> bool" where
  "ends_word s \<longleftrightarrow> s \<noteq> [] \<and> (hd s = CHR '')'' \<or>
     (hd s = CHR '' '' \<and> tl s \<noteq> [] \<and> \<not> is_space (hd (tl s)) \<and> hd (tl s) \<notin> set ''<=>''))"

lemma skipnonwhite_word:
  "word_ok w \<Longrightarrow> s = [] \<or> hd s \<in> set '' ,)'' \<Longrightarrow> skipnonwhite 0 (w @ s) = (w, s)"
proof (induction w)
  case (Cons c w)
  then have c: "c \<noteq> CHR '' ''" "c \<notin> set '',()''" by (auto simp: word_ok_def is_space_def)
  have "skipnonwhite 0 (w @ s) = (w, s)"
    using Cons by (cases w) (cases s; auto simp: word_ok_def)+
  then show ?case using c by simp
qed (simp add: word_ok_def)

lemma parse_relflags_word:
  "rl \<in> set [''<'', ''<='', ''='', ''>='', ''>''] \<Longrightarrow>
     parse_relflags 0 (rl @ CHR '' '' # s) = (rel_sign rl, CHR '' '' # s) \<and> rel_sign rl \<noteq> 0"
  by (auto simp: rel_sign_def)

lemma parse_relflags_none:
  "s = [] \<or> hd s \<notin> set ''<=>'' \<Longrightarrow> parse_relflags 0 s = (0, s)"
  by (cases s) auto

lemma skip_space_word: "word_ok w \<Longrightarrow> skip_space (w @ s) = w @ s"
  by (cases w) (auto simp: word_ok_def)

lemma ends_word_skip: "ends_word s \<Longrightarrow> skip_space s \<noteq> [] \<and> hd (skip_space s) \<notin> set ''<=>''"
  by (cases s; cases "tl s") (auto simp: ends_word_def is_space_def)

lemma parse_ident_text:
  assumes "bexp_ok (BCap nm rl evr)" "ends_word s"
  shows "\<exists>s'. parse_ident (bexp_text (BCap nm rl evr) @ s) = Inr (New (bexp_node (BCap nm rl evr)), s') \<and>
    skip_space s' = skip_space s"
proof (cases "rl = []")
  case True
  have "skipnonwhite 0 (nm @ s) = (nm, s)"
    using assms by (intro skipnonwhite_word) (auto simp: ends_word_def)
  then show ?thesis
    using True assms ends_word_skip [OF assms(2)]
    by (simp add: parse_ident_def parse_relflags_none word_ok_def rel_sign_def)
next
  case False
  let ?t = "rl @ '' '' @ evr @ s"
  have "skipnonwhite 0 (nm @ '' '' @ ?t) = (nm, '' '' @ ?t)"
    using assms by (intro skipnonwhite_word) auto
  moreover have "skip_space ('' '' @ ?t) = rl @ CHR '' '' # evr @ s"
    using assms False by (auto simp: is_space_def)
  moreover have "parse_relflags 0 (rl @ CHR '' '' # evr @ s) =
      (rel_sign rl, CHR '' '' # evr @ s)" "rel_sign rl \<noteq> 0"
    using assms(1) False parse_relflags_word [of rl "evr @ s"] by auto
  moreover have "skip_space (CHR '' '' # evr @ s) = evr @ s"
    using assms(1) False skip_space_word [of evr s] by (simp add: is_space_def)
  moreover have "skipnonwhite 0 (evr @ s) = (evr, s)"
    using assms False by (intro skipnonwhite_word) (auto simp: ends_word_def)
  ultimately show ?thesis
    using False assms(1) by (simp add: parse_ident_def word_ok_def)
qed

lemma find_op_word: "ty \<noteq> Ident \<Longrightarrow> find_op (op_word ty) = Some (op_word ty, ty, op_ary ty)"
  by (cases ty) (auto simp: find_op_def operators_def)

lemma op_word_ends: "ty \<noteq> Ident \<Longrightarrow> ends_word ('' '' @ op_word ty @ s)"
  by (cases ty) (auto simp: ends_word_def is_space_def)

text \<open>Reading the operator behind an argument.\<close>

lemma op_word_scan:
  assumes "ty \<noteq> Ident" "skip_space s' = skip_space ('' '' @ op_word ty @ '' '' @ s)"
  shows "skip_space s' = op_word ty @ CHR '' '' # s"
    "takeWhile (\<lambda>c. \<not> is_space c) (skip_space s') = op_word ty"
    "dropWhile (\<lambda>c. \<not> is_space c) (skip_space s') = CHR '' '' # s"
  using assms by (cases ty; auto simp: is_space_def)+

lemma after_arg_word:
  assumes "ty \<noteq> Ident" "skip_space s' = skip_space ('' '' @ op_word ty @ '' '' @ s)"
    "node_set_arg (if use_parent ty ch then the ch else node_new ty (op_ary ty) (op_word ty) None 0) nd = Some opn"
    "\<not> chain_refused ct ch ty opn"
  shows "after_arg ct ch nd s' = Inr (Op (use_parent ty ch) opn ty (CHR '' '' # s))"
proof -
  have "op_word ty \<noteq> []" "hd (op_word ty) \<noteq> CHR '')''" using assms(1) by (cases ty; simp)+
  then have "skip_space s' \<noteq> []" "hd (skip_space s') \<noteq> CHR '')''"
    using op_word_scan(1) [OF assms(1,2)] by auto
  then show ?thesis
    using assms(3,4) op_word_scan(2,3) [OF assms(1,2)] find_op_word [OF assms(1)]
    unfolding after_arg_def Let_def by simp
qed

lemma after_arg_eoe:
  "skip_space s' = CHR '')'' # s \<Longrightarrow> after_arg ct ch nd s' = Inr (EOE s)"
  by (simp add: after_arg_def)

text \<open>What one argument of an operator looks like to the parser.\<close>

definition reads_arg :: "string \<Rightarrow> node \<Rightarrow> bool" where
  "reads_arg t nd \<longleftrightarrow> t \<noteq> [] \<and> \<not> is_space (hd t) \<and> hd t \<noteq> CHR '')'' \<and>
     (\<forall>s. ends_word s \<longrightarrow>
        (\<exists>s'. first_arg (t @ s) = Inr (New nd, s') \<and> skip_space s' = skip_space s))"

lemma reads_argD:
  assumes "reads_arg t nd" "ends_word s"
  obtains s' where "first_arg (t @ s) = Inr (New nd, s')" "skip_space s' = skip_space s"
    "open_dep Ident (CHR ''('' # t @ s) = Inr (t @ s)"
    "ct \<noteq> Ident \<Longrightarrow> open_dep ct (CHR '' '' # t @ s) = Inr (t @ s)"
proof -
  have "open_dep Ident (CHR ''('' # t @ s) = Inr (t @ s)"
    "ct \<noteq> Ident \<Longrightarrow> open_dep ct (CHR '' '' # t @ s) = Inr (t @ s)"
    using assms(1) by (cases t; auto simp: reads_arg_def open_dep_def is_space_def)+
  then show thesis using that assms unfolding reads_arg_def by blast
qed

lemma last_arg:
  assumes "reads_arg t nd" "ct \<noteq> Ident"
  shows "parse_dep ct ch (CHR '' '' # t @ CHR '')'' # s) = Inr (New nd, s)"
proof -
  have "ends_word (CHR '')'' # s)" by (simp add: ends_word_def)
  then obtain s' where s': "first_arg (t @ CHR '')'' # s) = Inr (New nd, s')" "skip_space s' = skip_space (CHR '')'' # s)"
    "open_dep ct (CHR '' '' # t @ CHR '')'' # s) = Inr (t @ CHR '')'' # s)"
    using reads_argD [OF assms(1)] assms(2) by metis
  moreover have "after_arg ct ch nd s' = Inr (EOE s)"
    using s'(2) by (intro after_arg_eoe) (simp add: is_space_def)
  ultimately show ?thesis
    by (simp add: parse_dep_eq [of ct])
qed

lemma one_arg:
  assumes "reads_arg t nd"
  shows "parse_dep Ident ch (CHR ''('' # t @ CHR '')'' # s) = Inr (New nd, s)"
proof -
  have "ends_word (CHR '')'' # s)" by (simp add: ends_word_def)
  then obtain s' where s': "first_arg (t @ CHR '')'' # s) = Inr (New nd, s')" "skip_space s' = skip_space (CHR '')'' # s)"
    "open_dep Ident (CHR ''('' # t @ CHR '')'' # s) = Inr (t @ CHR '')'' # s)"
    using reads_argD [OF assms(1)] by metis
  moreover have "after_arg Ident ch nd s' = Inr (EOE s)"
    using s'(2) by (intro after_arg_eoe) (simp add: is_space_def)
  ultimately show ?thesis
    by (simp add: parse_dep_eq [of Ident])
qed

lemma op_arg:
  assumes "reads_arg t nd" "ty \<noteq> Ident"
    and "node_set_arg (if use_parent ty ch then the ch else node_new ty (op_ary ty) (op_word ty) None 0) nd = Some opn"
    and "\<not> chain_refused ct ch ty opn"
    and "c = (if ct = Ident then CHR ''('' else CHR '' '')"
  shows "parse_dep ct ch (c # t @ '' '' @ op_word ty @ '' '' @ s) =
    (case parse_dep ty (Some opn) (CHR '' '' # s) of
       Inl e \<Rightarrow> Inl e
     | Inr (nd', rest) \<Rightarrow>
         (case join_arg opn nd' of
            None \<Rightarrow> Inl Refused
          | Some n \<Rightarrow> Inr (if use_parent ty ch then Same n else New n, rest)))"
proof -
  let ?s = "'' '' @ op_word ty @ '' '' @ s"
  obtain s' where s': "first_arg (t @ ?s) = Inr (New nd, s')" "skip_space s' = skip_space ?s"
    "open_dep ct (c # t @ ?s) = Inr (t @ ?s)"
    using reads_argD [OF assms(1) op_word_ends [OF assms(2), of "'' '' @ s"]] assms(5)
    by (metis (full_types))
  have "after_arg ct ch nd s' = Inr (Op (use_parent ty ch) opn ty (CHR '' '' # s))"
    by (rule after_arg_word [OF assms(2) s'(2) assms(3,4)])
  then show ?thesis
    using s'(1,3) by (simp add: parse_dep_eq [of ct])
qed

lemma set_arg_simps [simp]:
  "node_set_arg (node_new ty ar nm None 0) a = (if ar = 0 then None else
     Some (Node ty ar (ncap (node_new ty ar nm None 0)) [a] nm))"
  "node_set_arg (Node ty ar cap xs nm) a = (if ar \<le> length xs then None else
     Some (Node ty ar cap (xs @ [a]) nm))"
  by (auto simp: node_set_arg_def node_new_def)

lemma op_ary_pos: "ty \<notin> set [Ident, OpElse] \<Longrightarrow> 2 \<le> op_ary ty"
  by (cases ty) auto

lemma parse_text:
  "bexp_ok e \<Longrightarrow> reads_arg (paren e (bexp_text e)) (bexp_node e) \<and>
     parse_dep Ident None (CHR ''('' # bexp_text e @ CHR '')'' # s) = Inr (New (bexp_node e), s)"
proof (induction e arbitrary: s)
  case (BCap nm rl evr)
  have hd: "bexp_text (BCap nm rl evr) \<noteq> []" "\<not> is_space (hd (bexp_text (BCap nm rl evr)))"
    "hd (bexp_text (BCap nm rl evr)) \<notin> set ''()''"
    using BCap by (cases nm; auto simp: word_ok_def)+
  have "reads_arg (bexp_text (BCap nm rl evr)) (bexp_node (BCap nm rl evr))"
    unfolding reads_arg_def
  proof (intro conjI allI impI)
    fix s assume s: "ends_word s"
    have "first_arg (bexp_text (BCap nm rl evr) @ s) = parse_ident (bexp_text (BCap nm rl evr) @ s)"
      using hd by (simp add: first_arg_def hd_append del: bexp_text.simps)
    then show "\<exists>s'. first_arg (bexp_text (BCap nm rl evr) @ s) = Inr (New (bexp_node (BCap nm rl evr)), s')
        \<and> skip_space s' = skip_space s"
      using parse_ident_text [OF BCap s] by simp
  qed (use hd in auto)
  then show ?case using one_arg by (simp del: bexp_text.simps bexp_node.simps)
next
  case (BBin ty a b)
  let ?a = "paren a (bexp_text a)" and ?b = "paren b (bexp_text b)"
  have ty: "ty \<notin> set [Ident, OpElse]" and a: "reads_arg ?a (bexp_node a)"
    and b: "reads_arg ?b (bexp_node b)" using BBin by auto
  have 1: "parse_dep Ident None (CHR ''('' # bexp_text (BBin ty a b) @ CHR '')'' # s)
      = Inr (New (bexp_node (BBin ty a b)), s)" for s
    using op_arg [OF a, of ty None "Node ty (op_ary ty) None [bexp_node a] (op_word ty)" Ident
        "CHR ''('' " "?b @ CHR '')'' # s"]
      last_arg [OF b, of ty _ s] ty op_ary_pos [OF ty]
    by (simp add: use_parent_def chain_refused_def chain_ctype_def node_new_def join_arg_def)
  then have "reads_arg (CHR ''('' # bexp_text (BBin ty a b) @ '')'') (bexp_node (BBin ty a b))"
    by (simp add: reads_arg_def is_space_def first_arg_def del: bexp_text.simps bexp_node.simps)
  then show ?case using 1 by simp
next
  case (BCond ty a b c)
  let ?a = "paren a (bexp_text a)" and ?b = "paren b (bexp_text b)" and ?c = "paren c (bexp_text c)"
  let ?n1 = "Node ty (op_ary ty) None [bexp_node a] (op_word ty)"
  let ?n2 = "Node ty (op_ary ty) None [bexp_node a, bexp_node b] (op_word ty)"
  have ty: "ty \<in> set [OpIf, OpUnless]" "op_ary ty = 3" "ty \<noteq> Ident" and a: "reads_arg ?a (bexp_node a)"
    and b: "reads_arg ?b (bexp_node b)" and c: "reads_arg ?c (bexp_node c)" using BCond by auto
  have else_arg: "parse_dep ty (Some ?n1) (CHR '' '' # ?b @ '' '' @ op_word OpElse @ '' '' @ ?c @ CHR '')'' # s)
      = Inr (Same (bexp_node (BCond ty a b c)), s)" for s
    using op_arg [OF b, of OpElse "Some ?n1" ?n2 ty "CHR '' ''" "?c @ CHR '')'' # s"]
      last_arg [OF c, of OpElse _ s] ty
    by (auto simp: use_parent_def chain_refused_def chain_ctype_def join_arg_def)
  have 1: "parse_dep Ident None (CHR ''('' # bexp_text (BCond ty a b c) @ CHR '')'' # s)
      = Inr (New (bexp_node (BCond ty a b c)), s)" for s
    using op_arg [OF a, of ty None ?n1 Ident
        "CHR ''('' " "?b @ '' else '' @ ?c @ CHR '')'' # s"]
      else_arg [of s] ty
    by (auto simp: use_parent_def chain_refused_def chain_ctype_def node_new_def join_arg_def)
  then have "reads_arg (CHR ''('' # bexp_text (BCond ty a b c) @ '')'') (bexp_node (BCond ty a b c))"
    by (simp add: reads_arg_def is_space_def first_arg_def del: bexp_text.simps bexp_node.simps)
  then show ?case using 1 by simp
qed

section \<open>Evaluation\<close>

definition ebind :: "'e + 'a \<Rightarrow> ('a \<Rightarrow> 'e + 'b) \<Rightarrow> 'e + 'b" where
  "ebind r f = (case r of Inl e \<Rightarrow> Inl e | Inr x \<Rightarrow> f x)"

lemma ebind_simps [simp]: "ebind (Inl e) f = Inl e" "ebind (Inr x) f = f x"
  by (simp_all add: ebind_def)

lemma ebind_cong [fundef_cong]:
  "r = r' \<Longrightarrow> (\<And>x. r' = Inr x \<Longrightarrow> f x = g x) \<Longrightarrow> ebind r f = ebind r' g"
  by (cases r') auto

text \<open>
  A value is a linked list of \<open>struct dvalue\<close>; the empty list stands for the NULL pointer.
  \<open>NullDeref\<close> is a dereference of that pointer. The caller's callback gives the cost of a
  requirement and the packages that provide it; the sorted provider arrays are searched and
  shrunk by trurl's functions.
\<close>

datatype efault = NullDeref | CloneFault cr_fault

record dcell =
  d_req :: "capreq option"
  d_cost :: int
  d_providers :: "pkg list option"

record bctx =
  req_cost :: "(capreq \<Rightarrow> int \<times> pkg list option) option"
  prov_bsearch :: "pkg list \<Rightarrow> pkg \<Rightarrow> bool"
  prov_remove :: "pkg list \<Rightarrow> pkg \<Rightarrow> pkg list"

definition dvalue_cost :: "dcell list \<Rightarrow> int" where
  "dvalue_cost dv =
     (if dv = [] \<or> d_req (hd dv) = None then 99
      else sum_list (map (\<lambda>d. if d_cost d < 0 then 99 else d_cost d) dv))"

definition dvalue_new :: "dcell list" where
  "dvalue_new = [\<lparr>d_req = None, d_cost = 0, d_providers = None\<rparr>]"

definition dvalue_free :: "dcell list \<Rightarrow> efault + unit" where
  "dvalue_free dv = (if dv = [] then Inl NullDeref else Inr ())"

definition eval_req :: "bctx \<Rightarrow> node \<Rightarrow> efault + dcell list" where
  "eval_req ctx nd =
     (case ncap nd of
        None \<Rightarrow> Inl NullDeref
      | Some cap \<Rightarrow>
          (case capreq_clone False cap of
             Inl f \<Rightarrow> Inl (CloneFault f)
           | Inr None \<Rightarrow> Inl NullDeref
           | Inr (Some req) \<Rightarrow>
               let (cost, provs) = (case req_cost ctx of None \<Rightarrow> (0, None) | Some f \<Rightarrow> f req)
               in Inr [\<lparr>d_req = Some req, d_cost = cost, d_providers = provs\<rparr>]))"

definition eval_and :: "dcell list \<Rightarrow> dcell list \<Rightarrow> efault + dcell list" where
  "eval_and left right = (if left = [] then Inl NullDeref else Inr (left @ right))"

definition eval_or :: "dcell list \<Rightarrow> dcell list \<Rightarrow> efault + dcell list" where
  "eval_or left right =
     (if dvalue_cost right < dvalue_cost left
      then ebind (dvalue_free left) (\<lambda>_. Inr right)
      else ebind (dvalue_free right) (\<lambda>_. Inr left))"

text \<open>The requirement \<open>name = evr\<close> for a package, and the cheapest one of several.\<close>

definition pkg_req :: "pkg \<Rightarrow> capreq option" where
  "pkg_req p = capreq_new False (name p) (epoch p) (Some (ver p)) (Some (rel p)) REL_EQ CAPREQ_BASTARD"

fun best_loop :: "(capreq \<Rightarrow> int) \<Rightarrow> int \<Rightarrow> capreq option \<Rightarrow> pkg list \<Rightarrow> efault + capreq option" where
  "best_loop cost min_cost best [] = Inr best"
| "best_loop cost min_cost best (p # ps) =
     (case pkg_req p of
        None \<Rightarrow> Inl NullDeref
      | Some req \<Rightarrow>
          if cost req \<ge> 0 \<and> cost req < min_cost then best_loop cost (cost req) (Some req) ps
          else best_loop cost min_cost best ps)"

definition take_best :: "bctx \<Rightarrow> pkg list \<Rightarrow> efault + capreq option" where
  "take_best ctx pkgs =
     (case pkgs of
        [p] \<Rightarrow> Inr (pkg_req p)
      | _ \<Rightarrow>
          (case req_cost ctx of
             None \<Rightarrow> if pkgs = [] then Inr None else Inl NullDeref
           | Some f \<Rightarrow> best_loop (\<lambda>r. fst (f r)) 99 None pkgs))"

definition has_providers :: "dcell list \<Rightarrow> bool" where
  "has_providers dv \<longleftrightarrow> dv \<noteq> [] \<and> d_providers (hd dv) \<noteq> None \<and> the (d_providers (hd dv)) \<noteq> []"

definition with_head :: "bctx \<Rightarrow> dcell list \<Rightarrow> pkg list \<Rightarrow> efault + dcell list" where
  "with_head ctx left re =
     ebind (take_best ctx re) (\<lambda>best.
       Inr ((hd left)\<lparr>d_req := best, d_providers := Some re\<rparr> # tl left))"

definition eval_with :: "bctx \<Rightarrow> dcell list \<Rightarrow> dcell list \<Rightarrow> efault + dcell list" where
  "eval_with ctx left right =
     (if \<not> has_providers right then Inr []
      else let re = filter (prov_bsearch ctx (the (d_providers (hd right))))
                      (the (d_providers (hd left)))
           in if re = [] then Inr [] else with_head ctx left re)"

fun remove_loop :: "bctx \<Rightarrow> pkg list \<Rightarrow> pkg list \<Rightarrow> pkg list" where
  "remove_loop ctx ps [] = ps"
| "remove_loop ctx ps (r # rs) =
     (let ps' = prov_remove ctx ps r in if ps' = [] then [] else remove_loop ctx ps' rs)"

definition eval_without :: "bctx \<Rightarrow> dcell list \<Rightarrow> dcell list \<Rightarrow> efault + dcell list" where
  "eval_without ctx left right =
     (if \<not> has_providers right then Inr []
      else let ps = remove_loop ctx (the (d_providers (hd left))) (the (d_providers (hd right)))
           in if ps = [] then Inr [] else with_head ctx left ps)"

definition arg :: "node \<Rightarrow> nat \<Rightarrow> node option" where
  "arg nd i = (if i < length (nargs nd) then Some (nargs nd ! i) else None)"

lemma arg_smaller [termination_simp]: "size_option size (arg nd i) \<le> size nd"
proof (cases nd)
  case (Node ty ar cap args nm)
  have "size_option size (arg nd i) \<le> Suc (size_list size args)" if "i < length args"
    using that Node size_list_estimation' [of "args ! i" args "size (args ! i)" size]
    by (simp add: arg_def)
  then show ?thesis using Node by (auto simp: arg_def)
qed

fun eval :: "bctx \<Rightarrow> node option \<Rightarrow> efault + dcell list" where
  "eval ctx None = Inr dvalue_new"
| "eval ctx (Some nd) =
     (case ntype nd of
        Ident \<Rightarrow> eval_req ctx nd
      | OpAnd \<Rightarrow>
          ebind (eval ctx (arg nd 0)) (\<lambda>left.
          ebind (eval ctx (arg nd 1)) (\<lambda>right. eval_and left right))
      | OpOr \<Rightarrow>
          ebind (eval ctx (arg nd 0)) (\<lambda>left.
          ebind (eval ctx (arg nd 1)) (\<lambda>right. eval_or left right))
      | OpIf \<Rightarrow>
          ebind (eval ctx (arg nd 1)) (\<lambda>cond.
          ebind (dvalue_free cond) (\<lambda>_.
            if dvalue_cost cond = 0 then eval ctx (arg nd 0) else eval ctx (arg nd 2)))
      | OpUnless \<Rightarrow>
          ebind (eval ctx (arg nd 1)) (\<lambda>cond.
          ebind (dvalue_free cond) (\<lambda>_.
            if dvalue_cost cond \<noteq> 0 then eval ctx (arg nd 0) else eval ctx (arg nd 2)))
      | OpWith \<Rightarrow>
          ebind (eval ctx (arg nd 0)) (\<lambda>left.
            if \<not> has_providers left then Inr []
            else ebind (eval ctx (arg nd 1)) (\<lambda>right. eval_with ctx left right))
      | OpWithout \<Rightarrow>
          ebind (eval ctx (arg nd 0)) (\<lambda>left.
            if \<not> has_providers left then Inr []
            else ebind (eval ctx (arg nd 1)) (\<lambda>right. eval_without ctx left right))
      | OpElse \<Rightarrow> Inr [])"

fun clone_reqs :: "dcell list \<Rightarrow> efault + capreq list" where
  "clone_reqs [] = Inr []"
| "clone_reqs (v # vs) =
     (case d_req v of
        None \<Rightarrow> clone_reqs vs
      | Some r \<Rightarrow>
          (case capreq_clone False r of
             Inl f \<Rightarrow> Inl (CloneFault f)
           | Inr None \<Rightarrow> Inl NullDeref
           | Inr (Some r') \<Rightarrow> ebind (clone_reqs vs) (\<lambda>rs. Inr (r' # rs))))"

definition booldep_eval :: "bctx \<Rightarrow> node \<Rightarrow> efault + capreq list option" where
  "booldep_eval ctx nd =
     ebind (eval ctx (Some nd)) (\<lambda>dv.
       if dv = [] then Inr None else ebind (clone_reqs dv) (\<lambda>rs. Inr (Some rs)))"

section \<open>What the evaluation chooses\<close>

text \<open>
  The abstract reading of an expression without \<open>with\<close>, \<open>without\<close> and one-armed conditions:
  a cost and the requirements to install. \<open>or\<close> takes the cheaper side, the left one on a tie;
  a condition holds when its cost is 0, that is when it is satisfied already.
\<close>

definition cap_cost :: "bctx \<Rightarrow> capreq \<Rightarrow> int" where
  "cap_cost ctx c =
     (let k = (case req_cost ctx of None \<Rightarrow> 0 | Some f \<Rightarrow> fst (f c)) in if k < 0 then 99 else k)"

fun bexp_total :: "bexp \<Rightarrow> bool" where
  "bexp_total (BCap _ _ _) \<longleftrightarrow> True"
| "bexp_total (BBin ty a b) \<longleftrightarrow> ty \<in> set [OpAnd, OpOr] \<and> bexp_total a \<and> bexp_total b"
| "bexp_total (BCond ty a b c) \<longleftrightarrow>
     ty \<in> set [OpIf, OpUnless] \<and> bexp_total a \<and> bexp_total b \<and> bexp_total c"

fun bexp_cap :: "bexp \<Rightarrow> capreq option" where
  "bexp_cap e = ncap (bexp_node e)"

declare bexp_cap.simps [simp del]

fun clonable :: "bexp \<Rightarrow> bool" where
  "clonable (BCap nm rl evr) \<longleftrightarrow> (case bexp_cap (BCap nm rl evr) of
      None \<Rightarrow> False | Some c \<Rightarrow> capreq_clone False c = Inr (Some c))"
| "clonable (BBin ty a b) \<longleftrightarrow> clonable a \<and> clonable b"
| "clonable (BCond ty a b c) \<longleftrightarrow> clonable a \<and> clonable b \<and> clonable c"

fun plan :: "bctx \<Rightarrow> bexp \<Rightarrow> int \<times> capreq list" where
  "plan ctx (BCap nm rl evr) =
     (let c = the (bexp_cap (BCap nm rl evr)) in (cap_cost ctx c, [c]))"
| "plan ctx (BBin ty a b) =
     (let (ka, ra) = plan ctx a; (kb, rb) = plan ctx b
      in if ty = OpAnd then (ka + kb, ra @ rb) else if kb < ka then (kb, rb) else (ka, ra))"
| "plan ctx (BCond ty a b c) =
     (if (fst (plan ctx b) = 0) = (ty = OpIf) then plan ctx a else plan ctx c)"

text \<open>Whether an expression is satisfied, where a capability is when its cost is 0.\<close>

fun sat :: "bctx \<Rightarrow> bexp \<Rightarrow> bool" where
  "sat ctx (BCap nm rl evr) \<longleftrightarrow> cap_cost ctx (the (bexp_cap (BCap nm rl evr))) = 0"
| "sat ctx (BBin ty a b) \<longleftrightarrow>
     (if ty = OpAnd then sat ctx a \<and> sat ctx b else sat ctx a \<or> sat ctx b)"
| "sat ctx (BCond ty a b c) \<longleftrightarrow> (if sat ctx b = (ty = OpIf) then sat ctx a else sat ctx c)"

text \<open>The ways to fulfil an expression of \<open>and\<close> and \<open>or\<close>.\<close>

fun choices :: "bexp \<Rightarrow> capreq list list" where
  "choices (BCap nm rl evr) = [[the (bexp_cap (BCap nm rl evr))]]"
| "choices (BBin ty a b) =
     (if ty = OpAnd then [ra @ rb. ra \<leftarrow> choices a, rb \<leftarrow> choices b] else choices a @ choices b)"
| "choices (BCond ty a b c) = choices a @ choices c"

definition reqs_cost :: "bctx \<Rightarrow> capreq list \<Rightarrow> int" where
  "reqs_cost ctx rs = sum_list (map (cap_cost ctx) rs)"

definition dv_plan :: "bctx \<Rightarrow> dcell list \<Rightarrow> int \<times> capreq list \<Rightarrow> bool" where
  "dv_plan ctx dv p \<longleftrightarrow> dv \<noteq> [] \<and> map d_req dv = map Some (snd p) \<and> dvalue_cost dv = fst p \<and>
     fst p = reqs_cost ctx (snd p) \<and> (\<forall>r \<in> set (snd p). capreq_clone False r = Inr (Some r))"

lemma cap_cost_nonneg [simp]: "0 \<le> cap_cost ctx c"
  by (simp add: cap_cost_def Let_def)

lemma reqs_cost_simps [simp]:
  "reqs_cost ctx [] = 0" "reqs_cost ctx (c # cs) = cap_cost ctx c + reqs_cost ctx cs"
  "reqs_cost ctx (cs @ ds) = reqs_cost ctx cs + reqs_cost ctx ds"
  by (simp_all add: reqs_cost_def)

lemma dv_plan_req:
  assumes "dv_plan ctx dv p"
  shows "dv \<noteq> []" "d_req (hd dv) \<noteq> None" "dvalue_cost dv = sum_list (map (\<lambda>d. if d_cost d < 0 then 99 else d_cost d) dv)"
proof -
  show "dv \<noteq> []" using assms by (simp add: dv_plan_def)
  moreover have "map d_req dv = map Some (snd p)" using assms by (simp add: dv_plan_def)
  ultimately show req: "d_req (hd dv) \<noteq> None" by (cases dv; cases "snd p") auto
  show "dvalue_cost dv = sum_list (map (\<lambda>d. if d_cost d < 0 then 99 else d_cost d) dv)"
    using \<open>dv \<noteq> []\<close> req by (auto simp: dvalue_cost_def)
qed

lemma dv_plan_append:
  assumes "dv_plan ctx dv p" "dv_plan ctx dv' p'"
  shows "dv_plan ctx (dv @ dv') (fst p + fst p', snd p @ snd p')"
  using assms dv_plan_req [OF assms(1)] dv_plan_req [OF assms(2)]
  by (auto simp: dv_plan_def dvalue_cost_def)

lemma eval_plan:
  assumes "bexp_ok e" "bexp_total e" "clonable e"
  shows "\<exists>dv. eval ctx (Some (bexp_node e)) = Inr dv \<and> dv_plan ctx dv (plan ctx e)"
  using assms
proof (induction e)
  case (BCap nm rl evr)
  let ?e = "BCap nm rl evr"
  obtain c where c: "bexp_cap ?e = Some c" "capreq_clone False c = Inr (Some c)"
    using BCap.prems(3) by (auto split: option.splits)
  let ?k = "case req_cost ctx of None \<Rightarrow> (0, None) | Some f \<Rightarrow> f c"
  have "eval ctx (Some (bexp_node ?e)) = Inr [\<lparr>d_req = Some c, d_cost = fst ?k, d_providers = snd ?k\<rparr>]"
    using c by (auto simp: eval_req_def bexp_cap.simps node_new_def split: prod.splits)
  then show ?case
    using c by (auto simp: dv_plan_def dvalue_cost_def cap_cost_def Let_def split: option.splits)
next
  case (BBin ty a b)
  then obtain da db where d: "eval ctx (Some (bexp_node a)) = Inr da" "dv_plan ctx da (plan ctx a)"
    "eval ctx (Some (bexp_node b)) = Inr db" "dv_plan ctx db (plan ctx b)" by auto
  have ty: "ty = OpAnd \<or> ty = OpOr" using BBin.prems by simp
  have cost: "dvalue_cost da = fst (plan ctx a)" "dvalue_cost db = fst (plan ctx b)" "da \<noteq> []" "db \<noteq> []"
    using d(2,4) by (simp_all add: dv_plan_def)
  show ?case
    using ty d dv_plan_append [OF d(2,4)] cost
    by (elim disjE) (auto simp: arg_def eval_and_def eval_or_def dvalue_free_def split: prod.splits)
next
  case (BCond ty a b c)
  then obtain da db dc where d: "eval ctx (Some (bexp_node a)) = Inr da" "dv_plan ctx da (plan ctx a)"
    "eval ctx (Some (bexp_node b)) = Inr db" "dv_plan ctx db (plan ctx b)"
    "eval ctx (Some (bexp_node c)) = Inr dc" "dv_plan ctx dc (plan ctx c)" by auto
  have ty: "ty = OpIf \<or> ty = OpUnless" using BCond.prems by simp
  have cost: "dvalue_cost db = fst (plan ctx b)" "db \<noteq> []"
    using d(4) by (simp_all add: dv_plan_def)
  show ?case
    using ty d cost by (elim disjE) (auto simp: arg_def dvalue_free_def)
qed

lemma clone_reqs_plan:
  "map d_req dv = map Some rs \<Longrightarrow> \<forall>r \<in> set rs. capreq_clone False r = Inr (Some r) \<Longrightarrow>
     clone_reqs dv = Inr rs"
  by (induction dv arbitrary: rs) auto

lemma booldep_eval_plan:
  assumes "bexp_ok e" "bexp_total e" "clonable e"
  shows "booldep_eval ctx (bexp_node e) = Inr (Some (snd (plan ctx e)))"
proof -
  obtain dv where dv: "eval ctx (Some (bexp_node e)) = Inr dv" "dv_plan ctx dv (plan ctx e)"
    using eval_plan [OF assms] by blast
  then show ?thesis
    using clone_reqs_plan [of dv "snd (plan ctx e)"] by (auto simp: booldep_eval_def dv_plan_def)
qed

lemma plan_nonneg: "bexp_total e \<Longrightarrow> 0 \<le> fst (plan ctx e)"
  by (induction e) (auto simp: Let_def split: prod.splits)

lemma plan_sat: "bexp_total e \<Longrightarrow> fst (plan ctx e) = 0 \<longleftrightarrow> sat ctx e"
proof (induction e)
  case (BBin ty a b)
  then show ?case
    using plan_nonneg [of a ctx] plan_nonneg [of b ctx] by (auto split: prod.splits)
qed (auto simp: Let_def)

fun and_or :: "bexp \<Rightarrow> bool" where
  "and_or (BCap _ _ _) \<longleftrightarrow> True"
| "and_or (BBin ty a b) \<longleftrightarrow> ty \<in> set [OpAnd, OpOr] \<and> and_or a \<and> and_or b"
| "and_or (BCond _ _ _ _) \<longleftrightarrow> False"

lemma and_or_total: "and_or e \<Longrightarrow> bexp_total e"
  by (induction e) auto

lemma plan_choice:
  "and_or e \<Longrightarrow> snd (plan ctx e) \<in> set (choices e) \<and> fst (plan ctx e) = reqs_cost ctx (snd (plan ctx e))"
  by (induction e) (auto simp: Let_def image_iff split: prod.splits, blast+)

lemma plan_cheapest:
  "and_or e \<Longrightarrow> rs \<in> set (choices e) \<Longrightarrow> fst (plan ctx e) \<le> reqs_cost ctx rs"
proof (induction e arbitrary: rs)
  case (BBin ty a b)
  show ?case
  proof (cases "ty = OpAnd")
    case True
    then obtain ra rb where "rs = ra @ rb" "ra \<in> set (choices a)" "rb \<in> set (choices b)"
      using BBin.prems by auto
    moreover from this have "fst (plan ctx a) \<le> reqs_cost ctx ra" "fst (plan ctx b) \<le> reqs_cost ctx rb"
      using BBin by auto
    ultimately show ?thesis using True by (auto split: prod.splits)
  next
    case False
    then have "rs \<in> set (choices a) \<or> rs \<in> set (choices b)" using BBin.prems by simp
    then have "fst (plan ctx a) \<le> reqs_cost ctx rs \<or> fst (plan ctx b) \<le> reqs_cost ctx rs"
      using BBin by auto
    then show ?thesis using False by (auto split: prod.splits)
  qed
qed (auto simp: Let_def)

section \<open>Properties\<close>

text \<open>C11: the parser inverts printing: the text of a rich dependency of any nesting, in
  parentheses, is parsed to the node of the dependency and what stands behind it is left over.\<close>

theorem booldep_parse_text:
  assumes "bexp_ok e"
  shows "booldep_parse (CHR ''('' # bexp_text e @ CHR '')'' # s) = Inr (bexp_node e, s)"
  using parse_text [OF assms, of s] by (simp add: booldep_parse_def)

theorem booldep_parse_text_witness:
  "booldep_parse ''((a >= 1 and b) if c else (d or e))'' =
     Inr (bexp_node (BCond OpIf (BBin OpAnd (BCap ''a'' ''>='' ''1'') (BCap ''b'' [] [])) (BCap ''c'' [] [])
       (BBin OpOr (BCap ''d'' [] []) (BCap ''e'' [] []))), [])"
  using booldep_parse_text [of "BCond OpIf (BBin OpAnd (BCap ''a'' ''>='' ''1'') (BCap ''b'' [] [])) (BCap ''c'' [] [])
       (BBin OpOr (BCap ''d'' [] []) (BCap ''e'' [] []))" "[]"]
  by (simp add: word_ok_def is_space_def del: bexp_node.simps)

text \<open>C22: whatever text is parsed, every operator of the resulting tree is one of the table with
  its arity and has at least its left and its right argument, and the leaves have none.\<close>

theorem booldep_parse_ok:
  assumes "booldep_parse expr = Inr (nd, rest)"
  shows "node_ok nd"
  using assms parse_dep_ok [of Ident None expr]
  by (auto simp: booldep_parse_def split: if_splits sum.splits)

theorem booldep_parse_ok_witness:
  "\<exists>nd. booldep_parse ''(a or b or c)'' = Inr (nd, []) \<and> node_ok nd"
proof -
  have "case booldep_parse ''(a or b or c)'' of Inl e \<Rightarrow> False | Inr (nd, rest) \<Rightarrow> rest = []" by code_simp
  then have "\<exists>nd. booldep_parse ''(a or b or c)'' = Inr (nd, [])"
    by (auto split: sum.splits)
  then show ?thesis using booldep_parse_ok [of "''(a or b or c)''"] by blast
qed

text \<open>C23: no input reaches the assertion on the opening bracket: the parser ends on every text
  and answers a node or a refusal.\<close>

theorem booldep_parse_no_assertion: "booldep_parse expr \<noteq> Inl Asserted"
  by (rule booldep_parse_asserted)



text \<open>C13: of all the ways to fulfil a dependency of \<open>and\<close> and \<open>or\<close>, the evaluation picks one of
  the least cost; it costs nothing exactly when the dependency is satisfied already.\<close>

theorem booldep_eval_cheapest:
  assumes "bexp_ok e" "and_or e" "clonable e"
  shows "\<exists>rs. booldep_eval ctx (bexp_node e) = Inr (Some rs) \<and> rs \<in> set (choices e) \<and>
    (\<forall>rs' \<in> set (choices e). reqs_cost ctx rs \<le> reqs_cost ctx rs') \<and>
    (reqs_cost ctx rs = 0 \<longleftrightarrow> sat ctx e)"
  using booldep_eval_plan [OF assms(1) and_or_total [OF assms(2)] assms(3), of ctx]
    plan_choice [OF assms(2), of ctx] plan_cheapest [OF assms(2), of _ ctx]
    plan_sat [OF and_or_total [OF assms(2)], of ctx] by auto

theorem booldep_eval_cheapest_witness:
  "\<exists>rs. booldep_eval \<lparr>req_cost = None, prov_bsearch = (\<lambda>ps p. False), prov_remove = (\<lambda>ps p. ps)\<rparr>
     (bexp_node (BBin OpAnd (BCap ''a'' [] []) (BCap ''b'' [] []))) = Inr (Some rs) \<and> length rs = 2"
proof -
  let ?e = "BBin OpAnd (BCap ''a'' [] []) (BCap ''b'' [] [])"
  have "bexp_ok ?e" "and_or ?e" by (simp_all add: word_ok_def is_space_def)
  moreover have "clonable ?e" by code_simp
  ultimately show ?thesis using booldep_eval_cheapest [of ?e] by fastforce
qed



end
