(* ===== verification/Capreq_Store.thy ===== *)
theory Capreq_Store
  imports Capreq_Order
begin

text \<open>
  The byte image of capreqs in package indexes (the second half of capreq.c): storing one
  capreq and an array of them, splitting a capreq over the 255-byte limit, and restoring both
  kinds. The byte order functions and the 16-bit fields are trurl's: a record of functions
  with the contract \<open>nbuf_io\<close>. A position in a buffer is the list of the bytes after it.
\<close>

record nbio =
  hton32 :: "u32 \<Rightarrow> u32"
  ntoh32 :: "u32 \<Rightarrow> u32"
  put16 :: "u16 \<Rightarrow> string"
  get16 :: "string \<Rightarrow> u16"

locale nbuf_io =
  fixes io :: nbio
  assumes ntoh32_hton32: "ntoh32 io (hton32 io w) = w"
    and length_put16: "length (put16 io v) = 2"
    and get16_put16: "get16 io (put16 io v) = v"

definition byte :: "u8 \<Rightarrow> char" where
  "byte w = char_of (unat w)"

definition ubyte :: "char \<Rightarrow> u8" where
  "ubyte c = word_of_nat (of_char c)"

lemma ubyte_byte [simp]: "ubyte (byte w) = w"
proof -
  have "unat w < 256" using unsigned_less [of w] by simp
  then show ?thesis by (simp add: ubyte_def byte_def)
qed

text \<open>\<open>memcpy\<close> into a buffer.\<close>

definition put_at :: "nat \<Rightarrow> string \<Rightarrow> string \<Rightarrow> string" where
  "put_at n bs buf = take n buf @ bs @ drop (n + length bs) buf"

section \<open>Storing\<close>

text \<open>
  \<open>split_capreq\<close> cuts the name into parts of \<open>255 - base_size\<close> bytes. Where nothing is left for
  the name it makes no progress: the loop is a partial function, \<open>None\<close> its endless run.
\<close>

partial_function (option) split_from :: "int \<Rightarrow> string \<Rightarrow> capreq list option" where
  "split_from pos nm =
     (if nm = [] then Some []
      else case capreq_new False (take (nat pos) nm) 0 None None 0 0 of
             None \<Rightarrow> None
           | Some cap \<Rightarrow>
               Option.bind (split_from pos (drop (nat pos) nm)) (\<lambda>parts. Some (cap # parts)))"

definition split_capreq :: "capreq \<Rightarrow> nat \<Rightarrow> capreq list option" where
  "split_capreq cr actual_store_size =
     (let base_size = int actual_store_size - int (unat (namelen cr))
      in split_from (255 - base_size) (take (unat (namelen cr)) (cr_name cr)))"

datatype store_fault = StDied | StLoop | StFuel

definition capreq_image ::
  "nbio \<Rightarrow> capreq \<Rightarrow> u8 \<Rightarrow> u8 \<Rightarrow> string \<Rightarrow> u16 \<Rightarrow> nat \<Rightarrow> store_fault + string" where
  "capreq_image io cr relfl fl nm nlen bufsize =
     (let size = 5 + bufsize + unat nlen + 1;
          mv = (\<lambda>o1. if o1 \<noteq> 0 then o1 + ucast nlen + 1 else 0);
          buf = (if cr_ep_ofs cr \<noteq> 0
                 then put_at (unat (cr_ep_ofs cr)) (put32 (hton32 io (capreq_epoch cr))) (cr_buff cr)
                 else cr_buff cr)
      in if size > 255 then Inl StDied
         else Inr (byte (word_of_nat size) #
                   map byte [relfl, fl, mv (cr_ep_ofs cr), mv (cr_ver_ofs cr), mv (cr_rel_ofs cr)] @
                   [NUL] @ take (unat nlen) nm @ (if bufsize \<noteq> 0 then take bufsize buf else [])))"

text \<open>
  \<open>capreq_store\<close> calls itself for the parts; the first argument bounds the depth, and 2 is
  enough (\<open>store_depth\<close>).
\<close>

fun capreq_store :: "nat \<Rightarrow> nbio \<Rightarrow> capreq \<Rightarrow> store_fault + string"
  and store_parts :: "nat \<Rightarrow> nbio \<Rightarrow> capreq list \<Rightarrow> store_fault + string" where
  "capreq_store 0 io cr = Inl StFuel"
| "capreq_store (Suc k) io cr =
     (let relfl = cr_relflags cr AND NOT REL_NAALLOC; fl = cr_flags cr AND NOT CAPREQ_RT_FLAGS in
      case capreq_bufsize cr of
        None \<Rightarrow> Inl StDied
      | Some bs \<Rightarrow>
          let bufsize = bs - 1; size = 5 + bufsize in
          if size + unat (namelen cr) + 1 > 255
          then case split_capreq cr (size + unat (namelen cr) + 1) of
                 None \<Rightarrow> Inl StLoop
               | Some [] \<Rightarrow> Inl StDied
               | Some (cap # parts) \<Rightarrow>
                   (case capreq_image io cr (relfl OR REL_SPLITTED) fl (cr_name cap) (namelen cap) bufsize of
                      Inl e \<Rightarrow> Inl e
                    | Inr img \<Rightarrow>
                        (case store_parts k io parts of Inl e \<Rightarrow> Inl e | Inr imgs \<Rightarrow> Inr (img @ imgs)))
          else capreq_image io cr relfl fl (cr_name cr) (namelen cr) bufsize)"
| "store_parts k io [] = Inr []"
| "store_parts k io (cap # caps) =
     (case capreq_store k io (cap\<lparr>cr_relflags := cr_relflags cap OR REL_PART\<rparr>) of
        Inl e \<Rightarrow> Inl e
      | Inr img \<Rightarrow>
          (case store_parts k io caps of Inl e \<Rightarrow> Inl e | Inr imgs \<Rightarrow> Inr (img @ imgs)))"

section \<open>Restoring one\<close>

text \<open>
  \<open>REnd\<close> is the NULL of a buffer that is used up, \<open>RFault\<close> a failed assertion, a NULL
  dereference or a read outside the buffer.
\<close>

datatype rfault = REnd | RFault

definition get_record :: "string \<Rightarrow> rfault + u8 list \<times> string \<times> string" where
  "get_record s =
     (if length s < 6 then Inl REnd
      else let size = ubyte (hd s) - 5; s' = drop 6 s in
           if unat size = 0 \<or> length s' < unat size then Inl RFault
           else Inr (map ubyte (take 5 (tl s)), tl (take (unat size) s'), drop (unat size) s'))"

definition unmove :: "nat \<Rightarrow> u8 \<Rightarrow> u8" where
  "unmove nlen o1 = (if o1 \<noteq> 0 then o1 - (word_of_nat nlen + 1) else 0)"

definition fix_epoch :: "nbio \<Rightarrow> capreq \<Rightarrow> capreq" where
  "fix_epoch io cr =
     (if cr_ep_ofs cr \<noteq> 0
      then cr\<lparr>cr_buff := put_at (unat (cr_ep_ofs cr)) (put32 (ntoh32 io (capreq_epoch cr))) (cr_buff cr)\<rparr>
      else cr)"

definition capreq_restore_na :: "nbio \<Rightarrow> string \<Rightarrow> rfault + capreq \<times> bool \<times> string" where
  "capreq_restore_na io s =
     (case get_record s of
        Inl e \<Rightarrow> Inl e
      | Inr (cr_buf, body, rest) \<Rightarrow>
          let nm = before_chr body NUL; evr = after_chr body NUL;
              splitted = (cr_buf ! 0 AND REL_SPLITTED \<noteq> 0)
          in Inr (fix_epoch io \<lparr>
               cr_flags = cr_buf ! 1,
               cr_relflags = (cr_buf ! 0 AND NOT REL_SPLITTED) OR REL_NAALLOC,
               cr_name = nm, namelen = of_nat (length nm),
               cr_ep_ofs = unmove (length nm) (cr_buf ! 2),
               cr_ver_ofs = unmove (length nm) (cr_buf ! 3),
               cr_rel_ofs = unmove (length nm) (cr_buf ! 4),
               cr_buff = (if NUL \<in> set body then NUL # evr @ [NUL] else [NUL]) \<rparr>, splitted, rest))"

definition capreq_restore_wo_na :: "nbio \<Rightarrow> string \<Rightarrow> rfault + capreq \<times> bool \<times> string" where
  "capreq_restore_wo_na io s =
     (case get_record s of
        Inl e \<Rightarrow> Inl e
      | Inr (cr_buf, body, rest) \<Rightarrow>
          let splitted = (cr_buf ! 0 AND REL_SPLITTED \<noteq> 0);
              relfl = cr_buf ! 0 AND NOT REL_SPLITTED;
              versioned = (relfl AND REL_ALL \<noteq> 0);
              nm = (if versioned then before_chr body NUL else body);
              evr = after_chr body NUL
          in if versioned \<and> NUL \<notin> set body then Inl RFault
             else Inr (fix_epoch io \<lparr>
               cr_flags = cr_buf ! 1, cr_relflags = relfl,
               cr_name = c_str_at nm 0, namelen = of_nat (length nm),
               cr_ep_ofs = unmove (length nm) (cr_buf ! 2),
               cr_ver_ofs = unmove (length nm) (cr_buf ! 3),
               cr_rel_ofs = unmove (length nm) (cr_buf ! 4),
               cr_buff = NUL # (if versioned then evr @ [NUL] else []) @ nm @ [NUL] \<rparr>, splitted, rest))"

definition capreq_restore :: "nbio \<Rightarrow> bool \<Rightarrow> string \<Rightarrow> rfault + capreq \<times> bool \<times> string" where
  "capreq_restore io na s = (if na then capreq_restore_na io s else capreq_restore_wo_na io s)"

lemma get_record_length: "get_record s = Inr (b, body, rest) \<Longrightarrow> length rest < length s"
  by (auto simp: get_record_def Let_def split: if_splits)

lemma capreq_restore_length: "capreq_restore io na s = Inr (cr, sp, rest) \<Longrightarrow> length rest < length s"
  by (auto simp: capreq_restore_def capreq_restore_na_def capreq_restore_wo_na_def Let_def
      split: if_splits sum.splits dest: get_record_length)

section \<open>Arrays\<close>

definition capreq_arr_store_n :: "capreq list \<Rightarrow> nat" where
  "capreq_arr_store_n arr = length (filter (\<lambda>cr. \<not> capreq_is_bastard cr) arr)"

text \<open>
  The records one after the other, up to the first one that would end behind the 64K limit;
  \<open>used\<close> counts the bytes after the size field.
\<close>

fun store_loop :: "nbio \<Rightarrow> nat \<Rightarrow> capreq list \<Rightarrow> store_fault + nat \<times> string" where
  "store_loop io used [] = Inr (0, [])"
| "store_loop io used (cr # crs) =
     (case capreq_store 2 io cr of
        Inl e \<Rightarrow> Inl e
      | Inr img \<Rightarrow>
          if used + length img > 65534 then Inr (0, [])
          else (case store_loop io (used + length img) crs of
                  Inl e \<Rightarrow> Inl e
                | Inr (n, imgs) \<Rightarrow> Inr (Suc n, img @ imgs)))"

text \<open>\<open>capreq_arr_store\<close>: the number of capreqs stored and the bytes written.\<close>

definition capreq_arr_store :: "penv \<Rightarrow> nbio \<Rightarrow> capreq list \<Rightarrow> store_fault + nat \<times> string" where
  "capreq_arr_store E io arr =
     (if length arr \<ge> 65535 \<or> (\<exists>cr \<in> set arr. capreq_is_bastard cr) then Inl StDied
      else if arr = [] then Inr (0, [])
      else case store_loop io 2 (cr_sort E capreq_strcmp_name_evr arr) of
             Inl e \<Rightarrow> Inl e
           | Inr (n, imgs) \<Rightarrow>
               let body = imgs @ [CHR 0x0A] in
               if 2 + length body > 65535 then Inl StDied
               else Inr (n, put16 io (word_of_nat (2 + length body)) @ put16 io (word_of_nat n) @ body))"

text \<open>
  \<open>restore_parts\<close> glues the names of the parts that follow; it ends at the first record that is
  not a part, which it hands back with its own split mark.
\<close>

function parts_loop :: "nbio \<Rightarrow> bool \<Rightarrow> string \<Rightarrow> nat \<Rightarrow> string \<Rightarrow>
    rfault + string \<times> nat \<times> (capreq \<times> bool) option \<times> string" where
  "parts_loop io na namebuf nparts s =
     (case capreq_restore io na s of
        Inl RFault \<Rightarrow> Inl RFault
      | Inl REnd \<Rightarrow> Inr (namebuf, nparts, None, [])
      | Inr (part, splitted, s') \<Rightarrow>
          if cr_relflags part AND REL_PART = 0 then Inr (namebuf, nparts, Some (part, splitted), s')
          else if splitted then Inl RFault
          else parts_loop io na (namebuf @ cr_name part) (Suc nparts) s')"
  by pat_completeness auto
termination
  by (relation "measure (\<lambda>(io, na, namebuf, nparts, s). length s)") (auto dest: capreq_restore_length)

declare parts_loop.simps [simp del]

definition restore_parts :: "nbio \<Rightarrow> bool \<Rightarrow> capreq \<Rightarrow> string \<Rightarrow>
    rfault + capreq \<times> (capreq \<times> bool) option \<times> string" where
  "restore_parts io na cr s =
     (case parts_loop io na (cr_name cr) 0 s of
        Inl e \<Rightarrow> Inl e
      | Inr (namebuf, nparts, part, s') \<Rightarrow>
          if nparts = 0 \<or> \<not> na then Inl RFault
          else Inr (cr\<lparr>cr_name := namebuf, namelen := of_nat (length namebuf)\<rparr>, part, s'))"

lemma parts_loop_length:
  "parts_loop io na nb n s = Inr (nb', n', part, s') \<Longrightarrow> length s' \<le> length s \<and> (n' \<noteq> n \<longrightarrow> length s' < length s)"
proof (induction io na nb n s rule: parts_loop.induct)
  case (1 io na nb n s)
  then show ?case
    by (subst (asm) (2) parts_loop.simps)
      (fastforce split: sum.splits rfault.splits prod.splits if_splits dest: capreq_restore_length)
qed

lemma restore_parts_length: "restore_parts io na cr s = Inr (cr', p, s') \<Longrightarrow> length s' < length s"
  using parts_loop_length [of io na "cr_name cr" 0 s]
  by (force simp: restore_parts_def split: sum.splits if_splits prod.splits)

text \<open>The \<open>while (splitted)\<close> loop; \<open>left\<close> is how many entries the header still announces.\<close>

function split_loop :: "nbio \<Rightarrow> bool \<Rightarrow> capreq \<Rightarrow> bool \<Rightarrow> nat \<Rightarrow> string \<Rightarrow>
    rfault + capreq list \<times> nat \<times> string" where
  "split_loop io na cr splitted left s =
     (if \<not> splitted then Inr ([cr], left, s)
      else case restore_parts io na cr s of
             Inl e \<Rightarrow> Inl e
           | Inr (cr', None, s') \<Rightarrow> Inr ([cr'], left, s')
           | Inr (cr', Some (part, splitted'), s') \<Rightarrow>
               (case split_loop io na part splitted' (left - 1) s' of
                  Inl e \<Rightarrow> Inl e
                | Inr (crs, left', s'') \<Rightarrow> Inr (cr' # crs, left', s'')))"
  by pat_completeness auto
termination
  by (relation "measure (\<lambda>(io, na, cr, sp, left, s). length s)") (auto dest: restore_parts_length)

declare split_loop.simps [simp del]

lemma split_loop_left: "split_loop io na cr sp k s = Inr (crs, k', s') \<Longrightarrow> k' \<le> k"
proof (induction io na cr sp k s arbitrary: crs k' s' rule: split_loop.induct)
  case (1 io na cr sp k s)
  show ?case
  proof (cases sp)
    case True
    then obtain cr' p s1 where r: "restore_parts io na cr s = Inr (cr', p, s1)"
      using "1.prems" by (auto simp: split_loop.simps [of io na cr] split: sum.splits)
    show ?thesis
    proof (cases p)
      case (Some q)
      obtain part sp' where q: "q = (part, sp')" by fastforce
      then obtain crs1 where "split_loop io na part sp' (k - 1) s1 = Inr (crs1, k', s')"
        using "1.prems" True r Some by (auto simp: split_loop.simps [of io na cr] split: sum.splits)
      then have "k' \<le> k - 1" using "1.IH" True r Some q by blast
      then show ?thesis by linarith
    qed (use "1.prems" True r in \<open>simp add: split_loop.simps [of io na cr]\<close>)
  qed (use "1.prems" in \<open>simp add: split_loop.simps [of io na cr]\<close>)
qed

function restore_loop :: "nbio \<Rightarrow> bool \<Rightarrow> nat \<Rightarrow> string \<Rightarrow> rfault + capreq list" where
  "restore_loop io na 0 s = Inr []"
| "restore_loop io na (Suc k) s =
     (case capreq_restore io na s of
        Inl RFault \<Rightarrow> Inl RFault
      | Inl REnd \<Rightarrow> restore_loop io na k []
      | Inr (cr, splitted, s') \<Rightarrow>
          if capreq_is_bastard cr then restore_loop io na k s'
          else case split_loop io na cr splitted k s' of
                 Inl e \<Rightarrow> Inl e
               | Inr (crs, k', s'') \<Rightarrow>
                   (case restore_loop io na k' s'' of Inl e \<Rightarrow> Inl e | Inr crs' \<Rightarrow> Inr (crs @ crs')))"
  by pat_completeness auto
termination
  by (relation "measure (\<lambda>(io, na, k, s). k)") (auto dest: split_loop_left)

text \<open>
  The entries are collected in an array of as many places as the header announces; more of
  them are written behind it.
\<close>

definition capreq_arr_restore :: "nbio \<Rightarrow> bool \<Rightarrow> string \<Rightarrow> rfault + capreq list option" where
  "capreq_arr_restore io na s =
     (let arr_size = (if length s < 2 then 0 else unat (get16 io (take 2 s))) in
      case restore_loop io na arr_size (drop 2 s) of
        Inl e \<Rightarrow> Inl e
      | Inr crs \<Rightarrow>
          if length crs > arr_size then Inl RFault
          else Inr (if crs = [] then None else Some crs))"

definition capreq_arr_remove_redundant :: "penv \<Rightarrow> capreq list \<Rightarrow> capreq list" where
  "capreq_arr_remove_redundant E arr =
     cr_uniq E cmp_uniq (cr_sort E (capreq_cmp_name_evr_rev E) arr)"

section \<open>One record there and back\<close>

text \<open>The bytes of a record that needs no splitting; \<open>p\<close> is the layout of its buffer.\<close>

definition hton_buf :: "nbio \<Rightarrow> capreq \<Rightarrow> string \<Rightarrow> string" where
  "hton_buf io cr p =
     (if cr_ep_ofs cr \<noteq> 0 then put_at 1 (put32 (hton32 io (capreq_epoch cr))) p else p)"

lemma byte_NUL [simp]: "byte 0 = NUL"
  by (simp add: byte_def char_of_def)

lemma layout_epoch:
  assumes "capreq_layout na cr p" "cr_ep_ofs cr \<noteq> 0"
  obtains x where "p = NUL # put32 (capreq_epoch cr) @ x @ [NUL]" "cr_ep_ofs cr = 1"
proof -
  have "capreq_has_ver cr" "cr_ep_ofs cr \<le> 1"
    using assms by (auto simp: capreq_layout_def split: if_splits)
  then have "unat (cr_ep_ofs cr) \<le> 1" "unat (cr_ep_ofs cr) \<noteq> 0"
    using assms(2) by (simp_all add: word_le_nat_alt unat_eq_0)
  then have "unat (cr_ep_ofs cr) = unat (1 :: u8)" by simp
  then have "cr_ep_ofs cr = 1" by (simp only: word_unat_eq_iff)
  moreover obtain x where "p = NUL # (put32 (capreq_epoch cr) @ x) @ [NUL]"
    using assms \<open>capreq_has_ver cr\<close> by (auto simp: capreq_layout_def capreq_has_epoch_def)
  ultimately show thesis using that by simp
qed

lemma hton_buf_shape:
  assumes "capreq_layout na cr p"
  shows "hton_buf io cr p = (if capreq_has_ver cr then NUL # tl (butlast (hton_buf io cr p)) @ [NUL] else [NUL])"
    and "length (hton_buf io cr p) = length p"
proof -
  have ver: "\<exists>evr. p = NUL # evr @ [NUL]" if "capreq_has_ver cr"
    using assms that by (auto simp: capreq_layout_def)
  have none: "p = [NUL]" "cr_ep_ofs cr = 0" if "\<not> capreq_has_ver cr"
    using assms that by (auto simp: capreq_layout_def)
  have hton: "hton_buf io cr p = NUL # put32 (hton32 io (capreq_epoch cr)) @ x @ [NUL] \<and> capreq_has_ver cr"
    if "p = NUL # put32 (capreq_epoch cr) @ x @ [NUL]" "cr_ep_ofs cr = 1" for x
    using that none by (auto simp: hton_buf_def put_at_def)
  show "hton_buf io cr p = (if capreq_has_ver cr then NUL # tl (butlast (hton_buf io cr p)) @ [NUL] else [NUL])"
  proof (cases "cr_ep_ofs cr = 0")
    case False
    then obtain x where "p = NUL # put32 (capreq_epoch cr) @ x @ [NUL]" "cr_ep_ofs cr = 1"
      by (rule layout_epoch [OF assms])
    then show ?thesis using hton [of x] by (simp add: butlast_append)
  qed (use ver none in \<open>auto simp: hton_buf_def butlast_append\<close>)
  show "length (hton_buf io cr p) = length p"
  proof (cases "cr_ep_ofs cr = 0")
    case False
    then obtain x where "p = NUL # put32 (capreq_epoch cr) @ x @ [NUL]" "cr_ep_ofs cr = 1"
      by (rule layout_epoch [OF assms])
    then show ?thesis using hton [of x] by simp
  qed (simp add: hton_buf_def)
qed

definition moved :: "nat \<Rightarrow> u8 \<Rightarrow> u8" where
  "moved n o1 = (if o1 \<noteq> 0 then o1 + of_nat n + 1 else 0)"

lemma unmove_moved:
  assumes "unat o1 + n + 1 < 256"
  shows "unmove n (moved n o1) = o1"
proof (cases "o1 = 0")
  case False
  have "moved n o1 = of_nat (unat o1 + n + 1)" using False by (simp add: moved_def)
  then have "unat (moved n o1) = unat o1 + n + 1" using assms by (simp only: unat_of_nat_u8)
  then have "moved n o1 \<noteq> 0" by auto
  then show ?thesis using False by (simp add: unmove_def moved_def)
qed (simp add: unmove_def moved_def)

text \<open>The image of a record that needs no splitting, \<open>nm\<close> and \<open>relfl\<close> as written.\<close>

definition image_of :: "nbio \<Rightarrow> capreq \<Rightarrow> string \<Rightarrow> u8 \<Rightarrow> string \<Rightarrow> string" where
  "image_of io cr p relfl nm =
     (byte (of_nat (length p + length nm + 5)) #
      map byte [relfl, cr_flags cr AND NOT CAPREQ_RT_FLAGS, moved (length nm) (cr_ep_ofs cr),
        moved (length nm) (cr_ver_ofs cr), moved (length nm) (cr_rel_ofs cr)]) @
     NUL # nm @ butlast (hton_buf io cr p)"

lemma layout_bufsize:
  assumes "capreq_layout na cr p" "length p < 255"
  shows "capreq_bufsize cr = Some (length p)" "0 < length p"
  using assms by (auto simp: capreq_layout_def split: if_splits)

lemma capreq_image_of:
  assumes lay: "capreq_layout na cr p" and nlen: "unat nlen = length nm"
    and fits: "length p + length nm + 5 \<le> 255"
  shows "capreq_image io cr relfl (cr_flags cr AND NOT CAPREQ_RT_FLAGS) nm nlen (length p - 1)
    = Inr (image_of io cr p relfl nm)"
proof -
  let ?buf = "if cr_ep_ofs cr \<noteq> 0
    then put_at (unat (cr_ep_ofs cr)) (put32 (hton32 io (capreq_epoch cr))) (cr_buff cr) else cr_buff cr"
  have p0: "0 < length p" using lay by (auto simp: capreq_layout_def split: if_splits)
  obtain t where t: "cr_buff cr = p @ t" using lay by (auto simp: capreq_layout_def)
  have "?buf = hton_buf io cr p @ t"
  proof (cases "cr_ep_ofs cr = 0")
    case False
    then obtain x where "p = NUL # put32 (capreq_epoch cr) @ x @ [NUL]" "cr_ep_ofs cr = 1"
      by (rule layout_epoch [OF lay])
    then show ?thesis by (simp add: t hton_buf_def put_at_def)
  qed (simp add: t hton_buf_def)
  then have buf: "take (length p - 1) ?buf = butlast (hton_buf io cr p)"
    using hton_buf_shape(2) [OF lay, of io] by (simp add: butlast_conv_take)
  have u: "(ucast nlen :: u8) = of_nat (length nm)"
    using nlen by (metis of_nat_unat)
  have size: "5 + (length p - 1) + unat nlen + 1 = length p + length nm + 5"
    using p0 nlen by simp
  show ?thesis
    unfolding capreq_image_def Let_def size
    using fits buf nlen hton_buf_shape(2) [OF lay, of io]
    by (auto simp: image_of_def u moved_def butlast_conv_take add.assoc)
qed

lemma store_one:
  assumes lay: "capreq_layout na cr p" and nm: "name_ok cr"
    and fits: "length p + length (cr_name cr) + 5 \<le> 255"
  shows "capreq_store (Suc k) io cr =
    Inr (image_of io cr p (cr_relflags cr AND NOT REL_NAALLOC) (cr_name cr))"
proof -
  obtain q where q: "length p = Suc q" using layout_bufsize(2) [OF lay] fits by (cases p) auto
  then show ?thesis
    using layout_bufsize(1) [OF lay] fits nm capreq_image_of [OF lay _ fits, of "namelen cr" io]
    by (simp add: name_ok_def Let_def)
qed

lemma get_record_image:
  assumes lay: "capreq_layout na cr p" and fits: "length p + length nm + 5 \<le> 255"
  shows "get_record (image_of io cr p relfl nm @ rest) =
    Inr ([relfl, cr_flags cr AND NOT CAPREQ_RT_FLAGS, moved (length nm) (cr_ep_ofs cr),
          moved (length nm) (cr_ver_ofs cr), moved (length nm) (cr_rel_ofs cr)],
         nm @ butlast (hton_buf io cr p), rest)"
proof -
  let ?n = "length p + length nm"
  have p0: "0 < length p" using lay by (auto simp: capreq_layout_def split: if_splits)
  have "(of_nat (?n + 5) :: u8) - 5 = of_nat ?n" by simp
  moreover have "unat (of_nat ?n :: u8) = ?n" using fits by (intro unat_of_nat_u8) simp
  moreover have len: "length (NUL # nm @ butlast (hton_buf io cr p)) = ?n"
    using p0 hton_buf_shape(2) [OF lay, of io] by simp
  moreover from len have "take ?n (NUL # nm @ butlast (hton_buf io cr p) @ rest) =
      NUL # nm @ butlast (hton_buf io cr p)"
    "drop ?n (NUL # nm @ butlast (hton_buf io cr p) @ rest) = rest"
    by (metis append.assoc append_Cons append_eq_conv_conj)+
  ultimately show ?thesis
    using p0 by (simp add: get_record_def image_of_def Let_def del: of_nat_add)
qed

lemma layout_offsets:
  assumes "capreq_layout na cr p"
  shows "unat (cr_ep_ofs cr) < length p" "unat (cr_ver_ofs cr) < length p" "unat (cr_rel_ofs cr) < length p"
proof -
  have "unat (cr_ep_ofs cr) \<le> unat (1 :: u8)" "1 < length p" if "capreq_has_ver cr"
    using assms that by (auto simp: capreq_layout_def word_le_nat_alt)
  then show "unat (cr_ep_ofs cr) < length p" "unat (cr_ver_ofs cr) < length p" "unat (cr_rel_ofs cr) < length p"
    using assms by (auto simp: capreq_layout_def split: if_splits)
qed

lemma body_split:
  assumes lay: "capreq_layout na cr p" and nul: "NUL \<notin> set nm"
  shows "before_chr (nm @ butlast (hton_buf io cr p)) NUL = nm"
    "NUL \<in> set (nm @ butlast (hton_buf io cr p)) \<longleftrightarrow> capreq_has_ver cr"
    "capreq_has_ver cr \<Longrightarrow>
      NUL # after_chr (nm @ butlast (hton_buf io cr p)) NUL @ [NUL] = hton_buf io cr p"
proof -
  obtain x where x: "hton_buf io cr p = (if capreq_has_ver cr then NUL # x @ [NUL] else [NUL])"
    using hton_buf_shape(1) [OF lay, of io] by blast
  then show "before_chr (nm @ butlast (hton_buf io cr p)) NUL = nm"
    "NUL \<in> set (nm @ butlast (hton_buf io cr p)) \<longleftrightarrow> capreq_has_ver cr"
    "capreq_has_ver cr \<Longrightarrow>
      NUL # after_chr (nm @ butlast (hton_buf io cr p)) NUL @ [NUL] = hton_buf io cr p"
    using nul by (cases "capreq_has_ver cr"; simp add: butlast_append)+
qed

lemma unmove_fields:
  assumes "capreq_layout na cr p" "length p + length nm + 5 \<le> 255"
  shows "unmove (length nm) (moved (length nm) (cr_ep_ofs cr)) = cr_ep_ofs cr"
    "unmove (length nm) (moved (length nm) (cr_ver_ofs cr)) = cr_ver_ofs cr"
    "unmove (length nm) (moved (length nm) (cr_rel_ofs cr)) = cr_rel_ofs cr"
  using layout_offsets [OF assms(1)] assms(2) by (intro unmove_moved; linarith)+

text \<open>The epoch goes back to host order.\<close>

lemma fix_epoch_hton:
  assumes "nbuf_io io" "capreq_layout na cr p" "cr_ep_ofs cr' = cr_ep_ofs cr"
    "cr_buff cr' = hton_buf io cr p @ t"
  shows "fix_epoch io cr' = cr'\<lparr>cr_buff := p @ t\<rparr>"
proof (cases "cr_ep_ofs cr = 0")
  case False
  then obtain x where x: "p = NUL # put32 (capreq_epoch cr) @ x @ [NUL]" "cr_ep_ofs cr = 1"
    by (rule layout_epoch [OF assms(2)])
  then have "cr_buff cr' = NUL # put32 (hton32 io (capreq_epoch cr)) @ x @ [NUL] @ t"
    using assms(4) by (simp add: hton_buf_def put_at_def)
  then show ?thesis
    using x assms(3) nbuf_io.ntoh32_hton32 [OF assms(1)]
    by (simp add: fix_epoch_def capreq_epoch_def put_at_def)
qed (use assms in \<open>simp add: fix_epoch_def hton_buf_def\<close>)

lemma restore_na_image:
  assumes io: "nbuf_io io" and lay: "capreq_layout na cr p" and nul: "NUL \<notin> set nm"
    and fits: "length p + length nm + 5 \<le> 255"
  shows "capreq_restore_na io (image_of io cr p relfl nm @ rest) = Inr (
    cr\<lparr>cr_flags := cr_flags cr AND NOT CAPREQ_RT_FLAGS,
       cr_relflags := relfl AND NOT REL_SPLITTED OR REL_NAALLOC, cr_name := nm,
       namelen := of_nat (length nm), cr_buff := p\<rparr>, relfl AND REL_SPLITTED \<noteq> 0, rest)"
proof -
  let ?b = "nm @ butlast (hton_buf io cr p)"
  let ?cr = "\<lparr>cr_flags = cr_flags cr AND NOT CAPREQ_RT_FLAGS,
       cr_relflags = relfl AND NOT REL_SPLITTED OR REL_NAALLOC, cr_name = nm,
       namelen = of_nat (length nm), cr_ep_ofs = cr_ep_ofs cr, cr_ver_ofs = cr_ver_ofs cr,
       cr_rel_ofs = cr_rel_ofs cr, cr_buff = hton_buf io cr p\<rparr>"
  have buf: "(if NUL \<in> set ?b then NUL # after_chr ?b NUL @ [NUL] else [NUL]) = hton_buf io cr p"
    using body_split(2,3) [OF lay nul, of io] hton_buf_shape(1) [OF lay, of io] by presburger
  have "capreq_restore_na io (image_of io cr p relfl nm @ rest) =
      Inr (fix_epoch io ?cr, relfl AND REL_SPLITTED \<noteq> 0, rest)"
    unfolding capreq_restore_na_def get_record_image [OF lay fits] sum.case prod.case Let_def
      body_split(1) [OF lay nul] buf
    by (simp add: unmove_fields [OF lay fits])
  then show ?thesis
    using fix_epoch_hton [OF io lay, of ?cr "[]"] by simp
qed

lemma restore_wo_na_image:
  assumes io: "nbuf_io io" and lay: "capreq_layout na cr p" and nul: "NUL \<notin> set nm"
    and fits: "length p + length nm + 5 \<le> 255"
    and vers: "capreq_has_ver cr \<longleftrightarrow> (relfl AND NOT REL_SPLITTED) AND REL_ALL \<noteq> 0"
  shows "capreq_restore_wo_na io (image_of io cr p relfl nm @ rest) = Inr (
    cr\<lparr>cr_flags := cr_flags cr AND NOT CAPREQ_RT_FLAGS,
       cr_relflags := relfl AND NOT REL_SPLITTED, cr_name := nm,
       namelen := of_nat (length nm), cr_buff := p @ nm @ [NUL]\<rparr>, relfl AND REL_SPLITTED \<noteq> 0, rest)"
proof -
  let ?b = "nm @ butlast (hton_buf io cr p)"
  let ?cr = "\<lparr>cr_flags = cr_flags cr AND NOT CAPREQ_RT_FLAGS,
       cr_relflags = relfl AND NOT REL_SPLITTED, cr_name = nm,
       namelen = of_nat (length nm), cr_ep_ofs = cr_ep_ofs cr, cr_ver_ofs = cr_ver_ofs cr,
       cr_rel_ofs = cr_rel_ofs cr, cr_buff = hton_buf io cr p @ nm @ [NUL]\<rparr>"
  have nm: "(if (relfl AND NOT REL_SPLITTED) AND REL_ALL \<noteq> 0 then before_chr ?b NUL else ?b) = nm"
    using body_split(1) [OF lay nul, of io] hton_buf_shape(1) [OF lay, of io] vers by auto
  have buf: "NUL # (if (relfl AND NOT REL_SPLITTED) AND REL_ALL \<noteq> 0 then after_chr ?b NUL @ [NUL] else []) @ nm @ [NUL]
      = hton_buf io cr p @ nm @ [NUL]"
    using body_split(3) [OF lay nul, of io] hton_buf_shape(1) [OF lay, of io] vers
    by (cases "capreq_has_ver cr") auto
  have c: "c_str_at nm 0 = nm" using nul by (auto simp: c_str_at_def takeWhile_eq_all_conv)
  have "capreq_restore_wo_na io (image_of io cr p relfl nm @ rest) =
      Inr (fix_epoch io ?cr, relfl AND REL_SPLITTED \<noteq> 0, rest)"
    unfolding capreq_restore_wo_na_def get_record_image [OF lay fits] sum.case prod.case Let_def
      nth_Cons_0 nm buf c body_split(2) [OF lay nul] vers
    by (simp add: unmove_fields [OF lay fits])
  then show ?thesis
    using fix_epoch_hton [OF io lay, of ?cr "nm @ [NUL]"] by simp
qed

text \<open>A capreq that fits into one record, with the flags an index keeps.\<close>

definition index_flags :: "bool \<Rightarrow> capreq \<Rightarrow> bool" where
  "index_flags na cr \<longleftrightarrow> cr_flags cr AND CAPREQ_RT_FLAGS = 0 \<and> cr_relflags cr AND REL_PART = 0 \<and>
     (if na then cr_relflags cr AND REL_NAALLOC \<noteq> 0
      else cr_relflags cr AND REL_NAALLOC = 0 \<and> (capreq_has_ver cr \<longleftrightarrow> capreq_versioned cr))"

definition storable :: "bool \<Rightarrow> capreq \<Rightarrow> bool" where
  "storable na cr \<longleftrightarrow>
     (\<exists>p. capreq_layout na cr p \<and> length p + length (cr_name cr) + 5 \<le> 255) \<and>
     name_ok cr \<and> NUL \<notin> set (cr_name cr) \<and> index_flags na cr"

lemma word_and_not: "w AND m = 0 \<Longrightarrow> w AND NOT m = (w :: 'a::len word)"
  by (rule bit_word_eqI) (auto simp: bit_simps dest: arg_cong [where f = "\<lambda>x. bit x _"])

lemma u8_set_bit7: "(w :: u8) AND 128 \<noteq> 0 \<Longrightarrow> (w AND NOT 128) OR 128 = w"
proof -
  assume "w AND 128 \<noteq> 0"
  then have "bit w 7" using and_exp_eq_0_iff_not_bit [of w 7] by simp
  moreover have "bit (128 :: u8) n \<longleftrightarrow> n = 7" if "n < 8" for n
    using that by (auto simp: bit_numeral_rec numeral_eq_Suc less_Suc_eq)
  ultimately show ?thesis
    by (intro bit_word_eqI) (auto simp: bit_simps)
qed

lemma and_not_idem: "(w AND NOT m) AND NOT m = w AND NOT (m :: 'a::len word)"
  "(w AND NOT m) AND m = 0"
  by (simp_all add: and.assoc)

text \<open>Restoring the record of \<open>cr\<close>, written with a name \<open>nm\<close> and maybe the split mark.\<close>

lemma restore_image:
  assumes io: "nbuf_io io" and lay: "capreq_layout na cr p" and nul: "NUL \<notin> set nm"
    and fits: "length p + length nm + 5 \<le> 255" and fl: "index_flags na cr"
    and mark: "mark = (if split then REL_SPLITTED else 0)"
  shows "capreq_restore io na
      (image_of io cr p ((cr_relflags cr AND NOT REL_NAALLOC) OR mark) nm @ rest) = Inr (
    cr\<lparr>cr_name := nm, namelen := of_nat (length nm), cr_buff := p @ (if na then [] else nm @ [NUL])\<rparr>,
    split, rest)"
proof -
  let ?r = "(cr_relflags cr AND NOT REL_NAALLOC) OR mark"
  have r: "?r AND NOT REL_SPLITTED = cr_relflags cr AND NOT REL_NAALLOC" "?r AND REL_SPLITTED \<noteq> 0 \<longleftrightarrow> split"
    using mark by (auto simp: bit.conj_disj_distrib2 and_not_idem and.assoc)
  have f: "cr_flags cr AND NOT CAPREQ_RT_FLAGS = cr_flags cr"
    using fl by (intro word_and_not) (simp add: index_flags_def)
  show ?thesis
  proof (cases na)
    case True
    have "cr_relflags cr AND NOT REL_NAALLOC OR REL_NAALLOC = cr_relflags cr"
      using fl True u8_set_bit7 [of "cr_relflags cr"] by (simp add: index_flags_def)
    then show ?thesis
      using restore_na_image [OF io lay nul fits, of ?r rest] True
      unfolding r f capreq_restore_def by simp
  next
    case False
    have nn: "cr_relflags cr AND NOT REL_NAALLOC = cr_relflags cr"
      using fl False by (intro word_and_not) (simp add: index_flags_def)
    have "capreq_has_ver cr \<longleftrightarrow> (?r AND NOT REL_SPLITTED) AND REL_ALL \<noteq> 0"
      unfolding r(1) unfolding nn using fl False by (simp add: index_flags_def capreq_versioned_def)
    from restore_wo_na_image [OF io lay nul fits this, of rest] False show ?thesis
      unfolding r(2) f capreq_restore_def unfolding r(1) unfolding nn by simp
  qed
qed

lemma layout_buff: "capreq_layout na cr p \<Longrightarrow> cr_buff cr = p @ (if na then [] else cr_name cr @ [NUL])"
  by (simp add: capreq_layout_def)

lemma name_ok_nlen: "name_ok cr \<Longrightarrow> of_nat (length (cr_name cr)) = namelen cr"
  by (metis name_ok_def of_nat_unat ucast_id)

lemma storable_trip:
  assumes io: "nbuf_io io" and st: "storable na cr"
  obtains img where "capreq_store (Suc k) io cr = Inr img" "length img \<le> 256"
    "\<And>rest. capreq_restore io na (img @ rest) = Inr (cr, False, rest)"
proof -
  obtain p where lay: "capreq_layout na cr p" and fits: "length p + length (cr_name cr) + 5 \<le> 255"
    using st by (auto simp: storable_def)
  let ?img = "image_of io cr p (cr_relflags cr AND NOT REL_NAALLOC) (cr_name cr)"
  have st': "name_ok cr" "NUL \<notin> set (cr_name cr)" "index_flags na cr" using st by (auto simp: storable_def)
  have "capreq_restore io na (?img @ rest) = Inr (cr, False, rest)" for rest
    using restore_image [OF io lay st'(2) fits st'(3), of 0 False rest] layout_buff [OF lay]
      name_ok_nlen [OF st'(1)] by simp
  moreover have "length ?img \<le> 256"
  proof -
    have "length p \<noteq> 0" using lay by (auto simp: capreq_layout_def split: if_splits)
    then show ?thesis
      using fits unfolding image_of_def length_append length_Cons length_map length_butlast list.size
        hton_buf_shape(2) [OF lay, of io] by linarith
  qed
  ultimately show thesis
    using that store_one [OF lay st'(1) fits] by blast
qed

section \<open>Split names\<close>

function chunks :: "nat \<Rightarrow> string \<Rightarrow> string list" where
  "chunks m s = (if m = 0 \<or> s = [] then [] else take m s # chunks m (drop m s))"
  by pat_completeness auto
termination by (relation "measure (\<lambda>(m, s). length s)") auto

declare chunks.simps [simp del]

lemma concat_chunks: "0 < m \<Longrightarrow> concat (chunks m s) = s"
  by (induction m s rule: chunks.induct) (subst chunks.simps, auto)

lemma chunks_length: "c \<in> set (chunks m s) \<Longrightarrow> length c \<le> m \<and> set c \<subseteq> set s"
proof (induction m s rule: chunks.induct)
  case (1 m s)
  then show ?case
    by (subst (asm) (2) chunks.simps) (auto split: if_splits dest: in_set_takeD in_set_dropD)
qed

definition part_of :: "string \<Rightarrow> capreq" where
  "part_of c = \<lparr>cr_flags = 0, cr_relflags = 0, cr_name = c, namelen = of_nat (length c),
     cr_ep_ofs = 0, cr_ver_ofs = 0, cr_rel_ofs = 0, cr_buff = NUL # c @ [NUL]\<rparr>"

lemma part_namelen: "length c < 65536 \<Longrightarrow> unat (namelen (part_of c)) = length c"
  by (simp add: part_of_def unsigned_of_nat take_bit_nat_eq_self)

lemma split_from_chunks:
  assumes "0 < m" "\<forall>c \<in> set (chunks m s). plain_name c"
  shows "split_from (int m) s = Some (map part_of (chunks m s))"
  using assms
proof (induction m s rule: chunks.induct)
  case (1 m s)
  show ?case
  proof (cases "s = []")
    case False
    then have ch: "chunks m s = take m s # chunks m (drop m s)"
      using "1.prems"(1) by (subst chunks.simps) simp
    then have "plain_name (take m s)" "\<forall>c \<in> set (chunks m (drop m s)). plain_name c"
      using "1.prems"(2) by auto
    then show ?thesis
      using "1.IH" "1.prems"(1) False ch
      by (subst split_from.simps) (simp add: capreq_new_def part_of_def)
  qed (subst split_from.simps, subst chunks.simps, simp)
qed

lemma split_from_stuck: "split_from m s = Some xs \<Longrightarrow> s = [] \<or> 0 < m"
proof (rule split_from.raw_induct [of "\<lambda>m s xs. s = [] \<or> 0 < m"])
  fix f m s xs
  assume IH: "\<And>m s xs. f m s = Some xs \<Longrightarrow> s = [] \<or> 0 < m"
    and "(if s = [] then Some []
      else case capreq_new False (take (nat m) s) 0 None None 0 0 of None \<Rightarrow> None
           | Some cap \<Rightarrow> Option.bind (f m (drop (nat m) s)) (\<lambda>parts. Some (cap # parts))) = Some xs"
  then show "s = [] \<or> 0 < m"
    by (fastforce split: if_splits option.splits simp: bind_eq_Some_conv)
qed

section \<open>A long name there and back\<close>

definition splittable :: "bool \<Rightarrow> capreq \<Rightarrow> bool" where
  "splittable na cr \<longleftrightarrow>
     (\<exists>p. capreq_layout na cr p \<and> length p < 250 \<and> 250 < length p + length (cr_name cr) \<and>
        (\<forall>c \<in> set (chunks (250 - length p) (cr_name cr)). plain_name c)) \<and>
     name_ok cr \<and> NUL \<notin> set (cr_name cr) \<and> index_flags na cr"

definition part_image :: "nbio \<Rightarrow> string \<Rightarrow> string" where
  "part_image io c =
     image_of io ((part_of c)\<lparr>cr_relflags := REL_PART\<rparr>) [NUL] REL_PART c"

lemma part_layout:
  assumes "length c \<le> 249" "NUL \<notin> set c"
  shows "capreq_layout False ((part_of c)\<lparr>cr_relflags := REL_PART\<rparr>) [NUL]"
    "name_ok ((part_of c)\<lparr>cr_relflags := REL_PART\<rparr>)"
  using assms
  by (auto simp: capreq_layout_def part_of_def capreq_bufsize_def capreq_has_ver_def name_ok_def
      unsigned_of_nat take_bit_nat_eq_self)

lemma store_part:
  assumes "length c \<le> 249" "NUL \<notin> set c"
  shows "capreq_store (Suc k) io ((part_of c)\<lparr>cr_relflags := REL_PART\<rparr>) = Inr (part_image io c)"
  using store_one [OF part_layout [OF assms], of k io] assms(1)
  by (simp add: part_image_def part_of_def)

lemma store_parts_image:
  "\<forall>c \<in> set cs. length c \<le> 249 \<and> NUL \<notin> set c \<Longrightarrow>
     store_parts (Suc k) io (map part_of cs) = Inr (concat (map (part_image io) cs))"
proof (induction cs)
  case (Cons c cs)
  moreover have "cr_relflags (part_of c) = 0" by (simp add: part_of_def)
  ultimately show ?case using store_part [of c k io] by simp
qed simp

lemma restore_part:
  assumes io: "nbuf_io io" and c: "length c \<le> 249" "NUL \<notin> set c"
  obtains part where "capreq_restore io True (part_image io c @ rest) = Inr (part, False, rest)"
    "cr_relflags part AND REL_PART \<noteq> 0" "cr_name part = c"
proof -
  let ?cr = "(part_of c)\<lparr>cr_relflags := REL_PART\<rparr>"
  have "capreq_restore io True (part_image io c @ rest) = Inr (
    ?cr\<lparr>cr_flags := cr_flags ?cr AND NOT CAPREQ_RT_FLAGS,
       cr_relflags := REL_PART AND NOT REL_SPLITTED OR REL_NAALLOC, cr_name := c,
       namelen := of_nat (length c), cr_buff := [NUL]\<rparr>, False, rest)"
    using restore_na_image [OF io part_layout(1) [OF c] c(2), of REL_PART rest] c(1)
    by (simp add: part_image_def capreq_restore_def)
  then show thesis using that by simp
qed

lemma parts_loop_parts:
  assumes io: "nbuf_io io"
  shows "\<forall>c \<in> set cs. length c \<le> 249 \<and> NUL \<notin> set c \<Longrightarrow>
    parts_loop io True nb n (concat (map (part_image io) cs) @ rest) =
    parts_loop io True (nb @ concat cs) (n + length cs) rest"
proof (induction cs arbitrary: nb n)
  case (Cons c cs)
  obtain part where "capreq_restore io True (part_image io c @ concat (map (part_image io) cs) @ rest) =
      Inr (part, False, concat (map (part_image io) cs) @ rest)"
    "cr_relflags part AND REL_PART \<noteq> 0" "cr_name part = c"
    using restore_part [OF io] Cons.prems by (metis list.set_intros(1))
  then show ?case using Cons
    by (subst parts_loop.simps) simp
qed simp

lemma store_split:
  assumes "capreq_bufsize cr = Some bs" "255 < 5 + (bs - 1) + unat (namelen cr) + 1"
    "split_capreq cr (5 + (bs - 1) + unat (namelen cr) + 1) = Some (cap # parts)"
    "capreq_image io cr ((cr_relflags cr AND NOT REL_NAALLOC) OR REL_SPLITTED)
       (cr_flags cr AND NOT CAPREQ_RT_FLAGS) (cr_name cap) (namelen cap) (bs - 1) = Inr img"
    "store_parts k io parts = Inr imgs"
  shows "capreq_store (Suc k) io cr = Inr (img @ imgs)"
  unfolding capreq_store.simps Let_def assms(1) option.case if_P [OF assms(2)] assms(3) list.case
    assms(4) sum.case assms(5) by (rule HOL.refl)

text \<open>The image of a capreq with a long name: the record of the first chunk and the parts.\<close>

lemma splittable_store:
  assumes "splittable na cr"
  obtains p c cs where "capreq_layout na cr p" "length p + length c + 5 \<le> 255" "c @ concat cs = cr_name cr"
    "cs \<noteq> []" "\<forall>d \<in> set (c # cs). length d \<le> 249 \<and> NUL \<notin> set d"
    "\<And>k. capreq_store (Suc (Suc k)) io cr = Inr (
       image_of io cr p ((cr_relflags cr AND NOT REL_NAALLOC) OR REL_SPLITTED) c @
       concat (map (part_image io) cs))"
proof -
  obtain p where lay: "capreq_layout na cr p" and p: "length p < 250" "250 < length p + length (cr_name cr)"
    and plain: "\<forall>c \<in> set (chunks (250 - length p) (cr_name cr)). plain_name c"
    using assms by (auto simp: splittable_def)
  have st: "name_ok cr" "NUL \<notin> set (cr_name cr)" using assms by (auto simp: splittable_def)
  let ?m = "250 - length p"
  have p0: "0 < length p" using lay by (auto simp: capreq_layout_def split: if_splits)
  have m: "0 < ?m" "?m < length (cr_name cr)" using p by auto
  let ?c = "take ?m (cr_name cr)" and ?cs = "chunks ?m (drop ?m (cr_name cr))"
  have ch: "chunks ?m (cr_name cr) = ?c # ?cs"
    using m by (subst chunks.simps) auto
  have cat: "?c @ concat ?cs = cr_name cr" using m by (simp add: concat_chunks)
  have ne: "?cs \<noteq> []" using m by (subst chunks.simps) simp
  have small: "\<forall>d \<in> set (?c # ?cs). length d \<le> 249 \<and> NUL \<notin> set d"
  proof
    fix d assume "d \<in> set (?c # ?cs)"
    then have "length d \<le> ?m \<and> set d \<subseteq> set (cr_name cr)" unfolding ch [symmetric] by (rule chunks_length)
    moreover have "?m \<le> 249" using p0 by linarith
    ultimately show "length d \<le> 249 \<and> NUL \<notin> set d" using st(2) by (meson order_trans subsetD)
  qed
  have fits: "length p + length ?c + 5 \<le> 255" using p by simp
  have "split_capreq cr (5 + (length p - 1) + unat (namelen cr) + 1) = Some (map part_of (?c # ?cs))"
  proof -
    obtain q where q: "length p = Suc q" using p0 by (cases p) auto
    have "255 - (int (5 + (length p - 1) + unat (namelen cr) + 1) - int (unat (namelen cr))) = int ?m"
      using q p by simp
    then show ?thesis
      using split_from_chunks [OF m(1) plain] st(1) unfolding split_capreq_def Let_def ch
      by (simp add: name_ok_def)
  qed
  moreover have "capreq_bufsize cr = Some (length p)" using layout_bufsize [OF lay] p by simp
  moreover have "255 < 5 + (length p - 1) + unat (namelen cr) + 1"
    using p p0 st(1) by (simp add: name_ok_def)
  moreover have "unat (namelen (part_of ?c)) = length ?c"
    by (rule part_namelen) (use fits in linarith)
  moreover have "capreq_image io cr ((cr_relflags cr AND NOT REL_NAALLOC) OR REL_SPLITTED)
       (cr_flags cr AND NOT CAPREQ_RT_FLAGS) (cr_name (part_of ?c)) (namelen (part_of ?c)) (length p - 1)
    = Inr (image_of io cr p ((cr_relflags cr AND NOT REL_NAALLOC) OR REL_SPLITTED) ?c)"
    using capreq_image_of [OF lay calculation(4) fits] by (simp add: part_of_def)
  moreover have "store_parts (Suc k) io (map part_of ?cs) = Inr (concat (map (part_image io) ?cs))" for k
    using store_parts_image small by simp
  ultimately have "capreq_store (Suc (Suc k)) io cr = Inr (
       image_of io cr p ((cr_relflags cr AND NOT REL_NAALLOC) OR REL_SPLITTED) ?c @
       concat (map (part_image io) ?cs))" for k
    by (intro store_split [of cr "length p" "part_of ?c" "map part_of ?cs"]) simp_all
  then show thesis using that [OF lay fits cat ne small] by blast
qed

section \<open>Arrays there and back\<close>

text \<open>The capreqs an index keeps unchanged; long names need the allocator to come back.\<close>

definition entry_ok :: "bool \<Rightarrow> capreq \<Rightarrow> bool" where
  "entry_ok na cr \<longleftrightarrow> storable na cr \<or> na \<and> splittable na cr"

definition img_of :: "nbio \<Rightarrow> capreq \<Rightarrow> string" where
  "img_of io cr = (case capreq_store 2 io cr of Inl e \<Rightarrow> [] | Inr img \<Rightarrow> img)"

lemma entry_flags: "entry_ok na cr \<Longrightarrow> index_flags na cr \<and> name_ok cr"
  by (auto simp: entry_ok_def storable_def splittable_def)

lemma index_not_bastard: "index_flags na cr \<Longrightarrow> \<not> capreq_is_bastard cr"
proof
  assume "index_flags na cr" "capreq_is_bastard cr"
  moreover have "(192 :: u8) AND 128 = 128" by simp
  then have "cr_flags cr AND 128 = (cr_flags cr AND 192) AND 128" by (simp only: and.assoc)
  ultimately show False by (simp add: index_flags_def capreq_is_bastard_def)
qed

lemma entry_store:
  assumes "nbuf_io io" "entry_ok na cr"
  shows "capreq_store 2 io cr = Inr (img_of io cr)"
proof -
  have "\<exists>img. capreq_store (Suc (Suc 0)) io cr = Inr img"
  proof (cases "storable na cr")
    case True
    then show ?thesis by (rule storable_trip [OF assms(1)]) blast
  next
    case False
    then have "splittable na cr" using assms(2) by (auto simp: entry_ok_def)
    then show ?thesis by (rule splittable_store [of na cr io]) blast
  qed
  then show ?thesis by (auto simp: img_of_def numeral_2_eq_2 simp del: capreq_store.simps)
qed

definition restores :: "nbio \<Rightarrow> bool \<Rightarrow> string \<Rightarrow> nat \<Rightarrow> capreq list \<Rightarrow> bool" where
  "restores io na s k crs \<longleftrightarrow>
     (\<exists>cr0 sp s' xs k' s'' ys.
        capreq_restore io na s = Inr (cr0, sp, s') \<and> index_flags na cr0 \<and>
        split_loop io na cr0 sp k s' = Inr (xs, k', s'') \<and>
        restore_loop io na k' s'' = Inr ys \<and> xs @ ys = crs)"

lemma restores_loop: "restores io na s k crs \<Longrightarrow> restore_loop io na (Suc k) s = Inr crs"
  by (auto simp: restores_def index_not_bastard)

lemma restore_newline: "capreq_restore io na [CHR 0x0A] = Inl REnd"
  by (simp add: capreq_restore_def capreq_restore_na_def capreq_restore_wo_na_def get_record_def)

lemma restores_storable:
  assumes io: "nbuf_io io" and cr: "storable na cr" and k: "restore_loop io na k s = Inr crs"
  shows "restores io na (img_of io cr @ s) k (cr # crs)"
proof -
  obtain img where "capreq_store (Suc (Suc 0)) io cr = Inr img"
    "\<And>rest. capreq_restore io na (img @ rest) = Inr (cr, False, rest)"
    using storable_trip [OF io cr] by metis
  moreover have "index_flags na cr" using cr by (simp add: storable_def)
  ultimately show ?thesis
    using k unfolding restores_def
    by (intro exI [of _ cr] exI [of _ False] exI [of _ s] exI [of _ "[cr]"] exI [of _ k] exI [of _ crs])
      (simp add: img_of_def numeral_2_eq_2 split_loop.simps [of io na cr] del: capreq_store.simps)
qed

text \<open>The parts of a long name, with what stands behind them.\<close>

lemma restores_splittable:
  assumes io: "nbuf_io io" and cr: "splittable True cr"
    and behind: "s = [CHR 0x0A] \<and> k = 0 \<and> crs = [] \<or> (\<exists>k'. k = Suc k' \<and> restores io True s k' crs)"
  shows "restores io True (img_of io cr @ s) k (cr # crs)"
proof -
  obtain p c cs where lay: "capreq_layout True cr p" and fits: "length p + length c + 5 \<le> 255"
    and cat: "c @ concat cs = cr_name cr" and cs: "cs \<noteq> []"
    and small: "\<forall>d \<in> set (c # cs). length d \<le> 249 \<and> NUL \<notin> set d"
    and st: "\<And>k. capreq_store (Suc (Suc k)) io cr = Inr (
       image_of io cr p ((cr_relflags cr AND NOT REL_NAALLOC) OR REL_SPLITTED) c @
       concat (map (part_image io) cs))"
    using splittable_store [OF cr, of io] by metis
  have fl: "index_flags True cr" "name_ok cr" using cr by (auto simp: splittable_def)
  let ?cr0 = "cr\<lparr>cr_name := c, namelen := of_nat (length c), cr_buff := p\<rparr>"
  let ?parts = "concat (map (part_image io) cs)"
  have first: "capreq_restore io True (img_of io cr @ s) = Inr (?cr0, True, ?parts @ s)"
    using restore_image [OF io lay _ fits fl(1), of REL_SPLITTED True "?parts @ s"] small
    by (simp add: img_of_def numeral_2_eq_2 st del: capreq_store.simps)
  have fl0: "index_flags True ?cr0" using fl(1) by (simp add: index_flags_def)
  have cr: "?cr0\<lparr>cr_name := c @ concat cs, namelen := of_nat (length (c @ concat cs))\<rparr> = cr"
    using name_ok_nlen [OF fl(2)] layout_buff [OF lay] by (simp add: cat)
  have loop: "parts_loop io True c 0 (?parts @ s) = parts_loop io True (c @ concat cs) (length cs) s"
    using parts_loop_parts [OF io, of cs c 0 s] small by simp
  have "\<exists>xs k' s'' ys. split_loop io True ?cr0 True k (?parts @ s) = Inr (xs, k', s'') \<and>
      restore_loop io True k' s'' = Inr ys \<and> xs @ ys = cr # crs"
    using behind
  proof (elim disjE exE conjE)
    assume "s = [CHR 0x0A]" "k = 0" "crs = []"
    then have "parts_loop io True c 0 (?parts @ s) = Inr (c @ concat cs, length cs, None, [])"
      using loop by (simp add: parts_loop.simps [of io True "c @ concat cs"] restore_newline)
    then have "restore_parts io True ?cr0 (?parts @ s) = Inr (cr, None, [])"
      using cs cr by (simp add: restore_parts_def)
    then show ?thesis using \<open>k = 0\<close> \<open>crs = []\<close>
      by (simp add: split_loop.simps [of io True ?cr0])
  next
    fix k' assume k: "k = Suc k'" and "restores io True s k' crs"
    then obtain cr1 sp s' xs k2 s'' ys where r: "capreq_restore io True s = Inr (cr1, sp, s')"
      "index_flags True cr1" "split_loop io True cr1 sp k' s' = Inr (xs, k2, s'')"
      "restore_loop io True k2 s'' = Inr ys" "xs @ ys = crs"
      by (auto simp: restores_def)
    then have "parts_loop io True c 0 (?parts @ s) = Inr (c @ concat cs, length cs, Some (cr1, sp), s')"
      using loop by (simp add: parts_loop.simps [of io True "c @ concat cs"] index_flags_def)
    then have "restore_parts io True ?cr0 (?parts @ s) = Inr (cr, Some (cr1, sp), s')"
      using cs cr by (simp add: restore_parts_def)
    then show ?thesis using k r
      by (intro exI [of _ "cr # xs"] exI [of _ k2] exI [of _ s''] exI [of _ ys])
        (simp add: split_loop.simps [of io True ?cr0])
  qed
  then show ?thesis using first fl0 unfolding restores_def by blast
qed

lemma restores_entries:
  assumes io: "nbuf_io io"
  shows "\<forall>cr \<in> set (cr1 # crs). entry_ok na cr \<Longrightarrow>
    restores io na (concat (map (img_of io) (cr1 # crs)) @ [CHR 0x0A]) (length crs) (cr1 # crs)"
proof (induction crs arbitrary: cr1)
  case Nil
  then show ?case
    using restores_storable [OF io, of na cr1 0 "[CHR 0x0A]" "[]"]
      restores_splittable [OF io, of cr1 "[CHR 0x0A]" 0 "[]"]
    by (auto simp: entry_ok_def)
next
  case (Cons cr2 crs)
  then have r: "restores io na (concat (map (img_of io) (cr2 # crs)) @ [CHR 0x0A]) (length crs) (cr2 # crs)"
    by simp
  show ?case
    using Cons.prems restores_storable [OF io, of na cr1 "Suc (length crs)", OF _ restores_loop [OF r]]
      restores_splittable [OF io, of cr1 _ "Suc (length crs)"] r
    by (auto simp: entry_ok_def)
qed

lemma restore_loop_entries:
  assumes "nbuf_io io" "\<forall>cr \<in> set crs. entry_ok na cr"
  shows "restore_loop io na (length crs) (concat (map (img_of io) crs) @ [CHR 0x0A]) = Inr crs"
  using restores_loop [OF restores_entries [OF assms(1), of "hd crs" "tl crs" na]] assms(2)
  by (cases crs) auto

lemma store_loop_entries:
  assumes io: "nbuf_io io"
  shows "\<forall>cr \<in> set crs. entry_ok na cr \<Longrightarrow> used \<le> 65534 \<Longrightarrow>
    \<exists>n \<le> length crs. store_loop io used crs = Inr (n, concat (map (img_of io) (take n crs))) \<and>
      used + length (concat (map (img_of io) (take n crs))) \<le> 65534 \<and>
      (used + length (concat (map (img_of io) crs)) \<le> 65534 \<longrightarrow> n = length crs)"
proof (induction crs arbitrary: used)
  case (Cons cr crs)
  have st: "capreq_store 2 io cr = Inr (img_of io cr)"
    by (rule entry_store [OF io, of na]) (use Cons.prems(1) in simp)
  show ?case
  proof (cases "used + length (img_of io cr) > 65534")
    case True
    then show ?thesis using st Cons.prems(2) by (intro exI [of _ 0]) auto
  next
    case False
    then obtain n where "n \<le> length crs" "store_loop io (used + length (img_of io cr)) crs =
        Inr (n, concat (map (img_of io) (take n crs)))"
      "used + length (img_of io cr) + length (concat (map (img_of io) (take n crs))) \<le> 65534"
      "used + length (img_of io cr) + length (concat (map (img_of io) crs)) \<le> 65534 \<longrightarrow> n = length crs"
      using Cons.IH [of "used + length (img_of io cr)"] Cons.prems(1) by auto
    then show ?thesis using st False by (intro exI [of _ "Suc n"]) auto
  qed
qed simp

lemma img_of_length: "nbuf_io io \<Longrightarrow> storable na cr \<Longrightarrow> length (img_of io cr) \<le> 256"
  by (rule storable_trip [of io na cr "Suc 0"])
    (auto simp: img_of_def numeral_2_eq_2 simp del: capreq_store.simps)

lemma imgs_length:
  "nbuf_io io \<Longrightarrow> \<forall>cr \<in> set crs. storable na cr \<Longrightarrow>
     length (concat (map (img_of io) crs)) \<le> 256 * length crs"
  using img_of_length by (induction crs) fastforce+

lemma arr_store_restore:
  assumes E: "pm_env E" and io: "nbuf_io io" and ok: "\<forall>cr \<in> set arr. entry_ok na cr"
    and arr: "arr \<noteq> []" "length arr < 65535"
  defines "crs \<equiv> cr_sort E capreq_strcmp_name_evr arr"
  obtains n size body where "capreq_arr_store E io arr = Inr (n, size @ body)" "length size = 2"
    "n \<le> length arr" "capreq_arr_restore io na body = Inr (if n = 0 then None else Some (take n crs))"
    "length arr \<le> 255 \<Longrightarrow> \<forall>cr \<in> set arr. storable na cr \<Longrightarrow> n = length arr"
proof -
  have mset: "mset crs = mset arr"
    unfolding crs_def by (rule sorted_arrays.sort_mset [OF pm_env.cr_arrays [OF E]])
  then have set: "set crs = set arr" and len: "length crs = length arr"
    by (auto dest: mset_eq_setD mset_eq_length)
  obtain n where n: "n \<le> length crs" "store_loop io 2 crs = Inr (n, concat (map (img_of io) (take n crs)))"
    "2 + length (concat (map (img_of io) (take n crs))) \<le> 65534"
    "2 + length (concat (map (img_of io) crs)) \<le> 65534 \<longrightarrow> n = length crs"
    using store_loop_entries [OF io, of crs na 2] ok set by auto
  let ?b = "concat (map (img_of io) (take n crs)) @ [CHR 0x0A]"
  let ?n16 = "put16 io (word_of_nat n)"
  have "\<not> (\<exists>cr \<in> set arr. capreq_is_bastard cr)"
    using ok entry_flags index_not_bastard by blast
  then have "capreq_arr_store E io arr = Inr (n, put16 io (word_of_nat (2 + length ?b)) @ ?n16 @ ?b)"
    using n(2,3) arr by (simp add: capreq_arr_store_def crs_def)
  moreover have "unat (word_of_nat n :: u16) = n"
    using n(1) len arr(2) by (simp add: unsigned_of_nat take_bit_nat_eq_self)
  moreover from this have "capreq_arr_restore io na (?n16 @ ?b) = Inr (if n = 0 then None else Some (take n crs))"
  proof -
    have "\<forall>cr \<in> set (take n crs). entry_ok na cr" using ok set by (auto dest: in_set_takeD)
    then have "restore_loop io na (length (take n crs)) ?b = Inr (take n crs)"
      by (rule restore_loop_entries [OF io])
    then have "restore_loop io na n ?b = Inr (take n crs)" using n(1) by (simp add: min_absorb2)
    then show ?thesis
      using \<open>unat (word_of_nat n :: u16) = n\<close> n(1) len arr(1)
        nbuf_io.length_put16 [OF io] nbuf_io.get16_put16 [OF io]
      by (auto simp: capreq_arr_restore_def Let_def)
  qed
  moreover have "n = length arr" if "length arr \<le> 255" "\<forall>cr \<in> set arr. storable na cr"
    using imgs_length [OF io, of crs na] that set len n(4) by simp
  ultimately show thesis
    using that [of n "put16 io (word_of_nat (2 + length ?b))" "?n16 @ ?b"] n(1) len
      nbuf_io.length_put16 [OF io] by simp
qed

text \<open>Where the packed version leaves no room for the name, storing does not come back.\<close>

lemma store_stuck:
  assumes "capreq_layout na cr p" "250 \<le> length p" "length p < 255" "name_ok cr" "cr_name cr \<noteq> []"
  shows "capreq_store (Suc k) io cr = Inl StLoop"
proof -
  obtain q where q: "length p = Suc q" using assms(2) by (cases p) auto
  have "split_from (250 - int (length p)) (cr_name cr) = None"
    using split_from_stuck [of "250 - int (length p)" "cr_name cr"] assms(2,5) by fastforce
  then show ?thesis
    using layout_bufsize(1) [OF assms(1,3)] assms(2,4,5) q
    by (cases "cr_name cr") (simp_all add: name_ok_def split_capreq_def Let_def)
qed

section \<open>A reference instance of the buffer functions\<close>

text \<open>Network byte order on a little-endian host.\<close>

definition ref_io :: nbio where
  "ref_io = \<lparr>
     hton32 = (\<lambda>w. get32 (rev (put32 w))), ntoh32 = (\<lambda>w. get32 (rev (put32 w))),
     put16 = (\<lambda>w. [char_of (unat w div 256), char_of (unat w)]),
     get16 = (\<lambda>s. word_of_nat (256 * of_char (s ! 0) + of_char (s ! 1)))\<rparr>"

lemma put32_get32: "length s = 4 \<Longrightarrow> put32 (get32 s) = s"
proof -
  assume "length s = 4"
  then obtain a b c d where s: "s = [a, b, c, d]"
    by (auto simp: length_Suc_conv numeral_eq_Suc)
  define n where "n = (\<lambda>c. of_char c :: nat)"
  have lt: "n c < 256" for c
    using of_char_mod_256 [of c, where ?'a = nat] by (metis mod_less_divisor zero_less_numeral n_def)
  have ch: "char_of (n c + 256 * m) = c" for c m
  proof -
    have "(n c + 256 * m) mod 256 = n c" using lt [of c] by simp
    then have "char_of (n c + 256 * m) = (char_of (n c) :: char)"
      by (metis char_of_mod_256)
    then show ?thesis by (simp add: n_def)
  qed
  have dv: "(n c + 256 * m) div 256 = m" for c m using lt [of c] by simp
  define x where "x = n a + 256 * (n b + 256 * (n c + 256 * n d))"
  have le: "n c + 256 * m < 256 * k" if "m < k" for c and m k :: nat
  proof -
    have "n c + 256 * m < 256 + 256 * m" using lt [of c] by simp
    also have "\<dots> = 256 * Suc m" by simp
    also have "\<dots> \<le> 256 * k" using that by (intro mult_le_mono2 Suc_leI)
    finally show ?thesis .
  qed
  have "x < 4294967296"
    using le [OF le [OF le [OF lt [of d], of c], of b], of a] by (simp add: x_def)
  moreover have "get32 s = word_of_nat x" by (simp add: s get32_def x_def n_def)
  ultimately have x: "unat (get32 s) = x" by (simp add: unsigned_of_nat take_bit_nat_eq_self)
  have "m div 65536 = m div 256 div 256" "m div 16777216 = m div 256 div 256 div 256" for m :: nat
    by (simp_all flip: div_mult2_eq)
  moreover have "x div 256 = n b + 256 * (n c + 256 * n d)" unfolding x_def by (rule dv)
  moreover have "(n b + 256 * (n c + 256 * n d)) div 256 = n c + 256 * n d" by (rule dv)
  moreover have "(n c + 256 * n d) div 256 = n d" by (rule dv)
  ultimately show ?thesis
    using ch [of a "n b + 256 * (n c + 256 * n d)"] ch [of b] ch [of c] ch [of d 0]
    unfolding put32_def x by (simp only: s x_def mult_0_right add_0_right)
qed

interpretation ref_io: nbuf_io ref_io
proof
  fix w :: u32
  have "put32 (get32 (rev (put32 w))) = rev (put32 w)" by (rule put32_get32) simp
  then show "ntoh32 ref_io (hton32 ref_io w) = w" by (simp add: ref_io_def)
next
  fix v :: u16
  have "unat v < 2 ^ LENGTH(16)" by (rule unsigned_less)
  then have v: "unat v < 65536" by simp
  show "length (put16 ref_io v) = 2" by (simp add: ref_io_def)
  have "256 * (unat v div 256 mod 256) + unat v mod 256 = unat v" using v by simp
  then show "get16 ref_io (put16 ref_io v) = v"
    by (simp add: ref_io_def del: of_nat_add of_nat_mult)
qed

section \<open>The depth of the recursion\<close>

lemma split_from_parts:
  assumes "split_from pos nm = Some parts"
  shows "\<forall>part \<in> set parts. \<exists>c. length c \<le> nat pos \<and> capreq_new False c 0 None None 0 0 = Some part"
proof (rule split_from.raw_induct [OF _ assms, where P = "\<lambda>pos nm parts. \<forall>part \<in> set parts.
    \<exists>c. length c \<le> nat pos \<and> capreq_new False c 0 None None 0 0 = Some part"])
  fix sf pos nm parts
  assume IH: "\<And>pos nm parts. sf pos nm = Some parts \<Longrightarrow> \<forall>part \<in> set parts.
      \<exists>c. length c \<le> nat pos \<and> capreq_new False c 0 None None 0 0 = Some part"
    and step: "(if nm = [] then Some [] else case capreq_new False (take (nat pos) nm) 0 None None 0 0 of
        None \<Rightarrow> None
      | Some cap \<Rightarrow> Option.bind (sf pos (drop (nat pos) nm)) (\<lambda>parts. Some (cap # parts))) = Some parts"
  show "\<forall>part \<in> set parts. \<exists>c. length c \<le> nat pos \<and> capreq_new False c 0 None None 0 0 = Some part"
  proof (cases "nm = []")
    case False
    then obtain cap ps where c: "capreq_new False (take (nat pos) nm) 0 None None 0 0 = Some cap"
      "sf pos (drop (nat pos) nm) = Some ps" "parts = cap # ps"
      using step by (auto split: option.splits bind_splits)
    have "length (take (nat pos) nm) \<le> nat pos" by simp
    with c(1) have "\<exists>c. length c \<le> nat pos \<and> capreq_new False c 0 None None 0 0 = Some cap" by blast
    then show ?thesis using IH [OF c(2)] c(3) by simp
  qed (use step in simp)
qed

lemma part_store:
  assumes "capreq_new False c 0 None None 0 0 = Some part" "length c \<le> 249"
  shows "capreq_store (Suc k) io (part\<lparr>cr_relflags := rf\<rparr>) \<noteq> Inl StFuel"
proof -
  have n: "length (fst (rpmlib_name c)) \<le> length c"
    using length_takeWhile_le [of "\<lambda>x. x \<noteq> CHR '')''" "drop 7 c"]
    by (auto simp: rpmlib_name_def before_chr_def Let_def)
  have b: "capreq_bufsize (part\<lparr>cr_relflags := rf\<rparr>) = Some 1" "unat (namelen part) = length (fst (rpmlib_name c))"
    using assms n by (auto simp: capreq_new_def Let_def capreq_bufsize_def c_str_at_def unsigned_of_nat take_bit_nat_eq_self split: prod.splits)
  then show ?thesis using n assms(2) by (simp add: capreq_image_def Let_def)
qed
lemma parts_store:
  "\<forall>part \<in> set parts. \<exists>c. length c \<le> 249 \<and> capreq_new False c 0 None None 0 0 = Some part \<Longrightarrow>
     store_parts (Suc k) io parts \<noteq> Inl StFuel"
proof (induction parts)
  case (Cons part parts)
  then have "capreq_store (Suc k) io (part\<lparr>cr_relflags := cr_relflags part OR REL_PART\<rparr>) \<noteq> Inl StFuel"
    using part_store by (metis list.set_intros(1))
  then show ?case using Cons by (auto simp del: capreq_store.simps split: sum.split)
qed simp

lemma image_no_fuel: "capreq_image io cr relfl fl nm n bs \<noteq> Inl StFuel"
  by (simp add: capreq_image_def Let_def)

lemma store_depth: "capreq_store (Suc (Suc k)) io cr \<noteq> Inl StFuel"
proof (cases "capreq_bufsize cr")
  case (Some bs)
  let ?size = "5 + (bs - 1) + unat (namelen cr) + 1"
  have "store_parts (Suc k) io parts \<noteq> Inl StFuel" if "split_capreq cr ?size = Some (cap # parts)" for cap parts
  proof (rule parts_store, rule ballI)
    fix part assume "part \<in> set parts"
    moreover have "split_from (255 - (int ?size - int (unat (namelen cr)))) (take (unat (namelen cr)) (cr_name cr))
        = Some (cap # parts)" using that by (simp add: split_capreq_def)
    ultimately obtain c where c: "length c \<le> nat (255 - (int ?size - int (unat (namelen cr))))"
      "capreq_new False c 0 None None 0 0 = Some part"
      using split_from_parts by (metis list.set_intros(2))
    have "length c \<le> 249" using c(1) by linarith
    with c(2) show "\<exists>c. length c \<le> 249 \<and> capreq_new False c 0 None None 0 0 = Some part" by blast
  qed
  then show ?thesis using Some image_no_fuel
    by (auto simp: capreq_store.simps(2) [of "Suc k"] Let_def simp del: capreq_store.simps store_parts.simps
        split: option.split list.split sum.split)
qed simp

section \<open>Properties\<close>

text \<open>C10: an array of capabilities written to a package index reads back as the same capabilities,
  sorted, or as a prefix of them where the 64K limit cuts it off; up to 255 unsplit entries are
  never cut.\<close>

theorem capreq_arr_roundtrip:
  assumes "pm_env E" and "nbuf_io io" and "\<forall>cr \<in> set arr. entry_ok na cr"
    and "arr \<noteq> []" and "length arr < 65535"
  shows "\<exists>n size body. capreq_arr_store E io arr = Inr (n, size @ body) \<and> length size = 2 \<and> n \<le> length arr \<and>
    capreq_arr_restore io na body =
      Inr (if n = 0 then None else Some (take n (cr_sort E capreq_strcmp_name_evr arr))) \<and>
    (length arr \<le> 255 \<and> (\<forall>cr \<in> set arr. storable na cr) \<longrightarrow> n = length arr)"
  by (rule arr_store_restore [OF assms]) blast

lemma plain_storable:
  assumes new: "capreq_new False nm 0 None None 0 0 = Some cr"
    and nm: "plain_name nm" "NUL \<notin> set nm" "length nm \<le> 249"
  shows "storable False cr"
proof -
  obtain p where p: "capreq_layout False cr p"
    using capreq_new_layout [OF new] by (auto simp: evr_fits_def)
  note f = capreq_new_fields [OF new] capreq_new_rel [OF new]
  have "p = [NUL]" using p f by (simp add: capreq_layout_def)
  moreover have "name_ok cr" using f nm by (simp add: name_ok_def unsigned_of_nat take_bit_nat_eq_self)
  moreover have "index_flags False cr"
    using f nm by (simp add: index_flags_def capreq_versioned_def)
  ultimately show ?thesis using p f nm by (auto simp: storable_def)
qed

theorem capreq_arr_roundtrip_witness:
  "\<exists>a b size body. capreq_new False ''a'' 0 None None 0 0 = Some a \<and> capreq_new False ''b'' 0 None None 0 0 = Some b \<and>
     capreq_arr_store ref_env ref_io [b, a] = Inr (2, size @ body) \<and>
     capreq_arr_restore ref_io False body = Inr (Some (isort capreq_strcmp_name_evr [b, a]))"
proof -
  have pl: "plain_name ''a''" "plain_name ''b''" by code_simp+
  obtain a b where ab: "capreq_new False ''a'' 0 None None 0 0 = Some a" "capreq_new False ''b'' 0 None None 0 0 = Some b"
    using pl by (simp add: capreq_new_def)
  have st: "storable False a" "storable False b"
    using plain_storable [OF ab(1)] plain_storable [OF ab(2)] pl by simp_all
  then have "\<forall>cr \<in> set [b, a]. entry_ok False cr" by (simp add: entry_ok_def)
  from capreq_arr_roundtrip [OF ref_pm.pm_env_axioms ref_io.nbuf_io_axioms this]
  obtain size body where "capreq_arr_store ref_env ref_io [b, a] = Inr (2, size @ body)"
    "capreq_arr_restore ref_io False body = Inr (Some (isort capreq_strcmp_name_evr [b, a]))"
    using st by (auto simp: numeral_2_eq_2)
  then show ?thesis using ab by blast
qed

text \<open>C33: a capability whose packed version leaves no byte for its name cannot be stored: the
  loop that splits the name advances by nothing and never ends.\<close>

theorem long_version_hangs:
  assumes "capreq_new False nm 0 (Some v) None rf fl = Some cr" and "plain_name nm"
    and "nm \<noteq> []" and "length nm < 65536"
    and "length v = 248 \<or> length v = 249" and "NUL \<notin> set v"
  shows "capreq_store 2 io cr = Inl StLoop"
proof -
  have fits: "evr_fits (Some v) None" using assms(5,6) by (auto simp: evr_fits_def)
  obtain p where p: "capreq_layout False cr p" by (rule capreq_new_layout [OF assms(1) fits])
  note f = capreq_new_fields [OF assms(1)]
  have "p = NUL # v @ [NUL]"
    using p f capreq_new_buff(1) [OF assms(1)] by (simp add: capreq_layout_def)
  moreover have "name_ok cr"
    using f assms(2,4) by (simp add: name_ok_def unsigned_of_nat take_bit_nat_eq_self)
  ultimately show ?thesis
    using store_stuck [OF p, of "Suc 0" io] assms(2,3,5) f by (auto simp: numeral_2_eq_2)
qed

theorem long_version_hangs_witness:
  "\<exists>cr. capreq_new False ''a'' 0 (Some (replicate 248 CHR ''1'')) None 1 0 = Some cr \<and>
     capreq_store 2 ref_io cr = Inl StLoop"
proof -
  have n: "plain_name ''a''" by code_simp
  then obtain cr where "capreq_new False ''a'' 0 (Some (replicate 248 CHR ''1'')) None 1 0 = Some cr"
    by (simp add: capreq_new_def)
  then show ?thesis using n long_version_hangs [of "''a''" "replicate 248 CHR ''1''" 1 0 cr ref_io] by simp
qed

end
