(* ===== verification/Capreq_Idx.thy ===== *)
theory Capreq_Idx
  imports Match
begin

text \<open>
  capreqidx.c: the index from the name of a capability or requirement to the packages that have
  it. The hash table of trurl is a map from names to entries; an entry holds one package
  directly (\<open>e_size = 1\<close>) or an allocated array of \<open>e_size\<close> slots, \<open>items\<close> of them in use.
\<close>

abbreviation CAPREQ_IDX_CAP :: u32 where "CAPREQ_IDX_CAP \<equiv> 1"
abbreviation CAPREQ_IDX_REQ :: u32 where "CAPREQ_IDX_REQ \<equiv> 2"

record idx_ent =
  items :: nat
  e_size :: nat
  slots :: "pkg option list"

record capreq_idx =
  idx_flags :: u32
  ht :: "string \<Rightarrow> idx_ent option"

definition capreq_idx_init :: "u32 \<Rightarrow> capreq_idx" where
  "capreq_idx_init ty = \<lparr>idx_flags = ty, ht = (\<lambda>_. None)\<rparr>"

section \<open>Entries\<close>

text \<open>The unused slots of an allocated array are not initialised; they read as \<open>None\<close> here.\<close>

definition ent_transform_to_array :: "idx_ent \<Rightarrow> idx_ent" where
  "ent_transform_to_array ent = ent\<lparr>slots := [slots ent ! 0, None], e_size := 2\<rparr>"

definition ent_realloc :: "nat \<Rightarrow> idx_ent \<Rightarrow> idx_ent" where
  "ent_realloc n ent = ent\<lparr>e_size := n, slots := slots ent @ replicate (n - length (slots ent)) None\<rparr>"

text \<open>
  Pointer differences. \<open>idx_ent_sort\<close> tests the sign of the difference, \<open>idx_ent_contains\<close> keeps
  it in an \<open>int\<close>.
\<close>

definition ptr_diff :: "pkg \<Rightarrow> pkg \<Rightarrow> int" where
  "ptr_diff p q = int (addr p) - int (addr q)"

definition ptr_cmp32 :: "pkg \<Rightarrow> pkg \<Rightarrow> int" where
  "ptr_cmp32 p q = sint (word_of_int (ptr_diff p q) :: u32)"

definition ent_pkgs :: "idx_ent \<Rightarrow> pkg list" where
  "ent_pkgs ent = map the (take (items ent) (slots ent))"

definition idx_ent_sort :: "idx_ent \<Rightarrow> idx_ent" where
  "idx_ent_sort ent =
     ent\<lparr>slots := map Some (isort ptr_diff (ent_pkgs ent)) @ drop (items ent) (slots ent)\<rparr>"

function bin_contains :: "pkg list \<Rightarrow> pkg \<Rightarrow> nat \<Rightarrow> nat \<Rightarrow> bool" where
  "bin_contains ps p l r =
     (if l < r
      then let i = (l + r) div 2; cmp_re = ptr_cmp32 (ps ! i) p in
           if cmp_re = 0 then True
           else if cmp_re > 0 then bin_contains ps p l i
           else bin_contains ps p (i + 1) r
      else False)"
  by pat_completeness auto
termination by (relation "measure (\<lambda>(ps, p, l, r). r - l)") auto

declare bin_contains.simps [simp del]

definition idx_ent_contains :: "idx_ent \<Rightarrow> pkg \<Rightarrow> bool" where
  "idx_ent_contains ent p = bin_contains (ent_pkgs ent) p 0 (items ent)"

section \<open>What is worth indexing\<close>

text \<open>
  Both tables are walked with a loop that counts its index up twice a round, so that only every
  second entry is looked at.
\<close>

definition skip_CAPS :: "string list" where
  "skip_CAPS = [''/etc'', ''/bin'', ''/usr/bin'', ''/usr/sbin'', ''/usr/lib'', ''/usr/share'',
     ''/usr/include'', ''elf(buildid)'', ''rtld(GNU_HASH)'']"

definition skip_PREFIXES :: "string list" where
  "skip_PREFIXES = [''/usr/share/doc'', ''/usr/share/info'', ''/usr/share/man'',
     ''/usr/share/locale'', ''/usr/share/icons'']"

fun every_second :: "'a list \<Rightarrow> 'a list" where
  "every_second [] = []"
| "every_second [x] = [x]"
| "every_second (x # y # xs) = x # every_second xs"

definition indexable_cap :: "string \<Rightarrow> bool" where
  "indexable_cap nm \<longleftrightarrow>
     (if nm \<in> set (every_second skip_CAPS) then False
      else if nm \<noteq> [] \<and> hd nm = CHR ''/''
      then (\<forall>pre \<in> set (every_second skip_PREFIXES). strncmp nm pre (length pre) \<noteq> 0)
      else True)"

definition cap_is_owned_by_pkg :: "penv \<Rightarrow> string \<Rightarrow> pkg \<Rightarrow> bool" where
  "cap_is_owned_by_pkg E capname p \<longleftrightarrow>
     (\<exists>arr \<in> {caps p, reqs p, cnfls p}. \<exists>crs. arr = Some crs \<and> fst (capreq_arr_contains E crs capname))"

section \<open>Adding\<close>

definition is_big_lib :: "string \<Rightarrow> bool" where
  "is_big_lib nm \<longleftrightarrow> nm \<noteq> [] \<and> hd nm = CHR ''l'' \<and>
     (strncmp nm ''libc'' 4 = 0 \<or> strncmp nm ''libm'' 4 = 0 \<or> strncmp nm ''libpthread'' 4 = 0)"

definition ent_add :: "u32 \<Rightarrow> string \<Rightarrow> pkg \<Rightarrow> idx_ent \<Rightarrow> idx_ent" where
  "ent_add fl capname p ent0 =
     (let ent1 = (if e_size ent0 = 1
                  then let e = ent_transform_to_array ent0
                       in if is_big_lib capname then ent_realloc 4096 e else e
                  else ent0)
      in if fl AND CAPREQ_IDX_CAP \<noteq> 0 \<and> idx_ent_contains ent1 p then ent1
         else let ent2 = (if items ent1 = e_size ent1 then ent_realloc (e_size ent1 * 2) ent1 else ent1);
                  ent3 = ent2\<lparr>slots := (slots ent2)[items ent2 := Some p], items := items ent2 + 1\<rparr>
              in if fl AND CAPREQ_IDX_CAP \<noteq> 0 then idx_ent_sort ent3 else ent3)"

definition capreq_idx_add :: "capreq_idx \<Rightarrow> string \<Rightarrow> pkg \<Rightarrow> capreq_idx" where
  "capreq_idx_add idx capname p =
     (if idx_flags idx AND CAPREQ_IDX_REQ \<noteq> 0 \<and> \<not> indexable_cap capname then idx
      else if idx_flags idx AND CAPREQ_IDX_REQ = 0 \<and> idx_flags idx AND CAPREQ_IDX_CAP \<noteq> 0 \<and>
              strcmp capname ''elf(buildid)'' = 0 then idx
      else idx\<lparr>ht := (ht idx)(capname \<mapsto>
             (case ht idx capname of
                None \<Rightarrow> \<lparr>items = 1, e_size = 1, slots = [Some p]\<rparr>
              | Some ent \<Rightarrow> ent_add (idx_flags idx) capname p ent))\<rparr>)"

section \<open>Removing and looking up\<close>

text \<open>
  The loop of \<open>capreq_idx_remove\<close>, \<open>k\<close> rounds left: it moves the tail over the removed slot and
  still counts on, past the package moved into that slot.
\<close>

fun remove_from :: "penv \<Rightarrow> pkg \<Rightarrow> nat \<Rightarrow> nat \<Rightarrow> idx_ent \<Rightarrow> idx_ent" where
  "remove_from E p i 0 ent = ent"
| "remove_from E p i (Suc k) ent =
     (if i \<ge> items ent then ent
      else if pkg_cmp_name_evr E p (the (slots ent ! i)) = 0
      then let moved = (if i = items ent - 1 then (slots ent)[i := None]
                        else take i (slots ent) @ drop (i + 1) (slots ent) @ [last (slots ent)])
           in remove_from E p (i + 1) k
                (ent\<lparr>slots := moved[e_size ent - 1 := None], items := items ent - 1\<rparr>)
      else remove_from E p (i + 1) k ent)"

text \<open>\<open>None\<close>: the package of a one-slot entry has been removed before and is dereferenced.\<close>

definition ent_remove :: "penv \<Rightarrow> pkg \<Rightarrow> idx_ent \<Rightarrow> idx_ent option" where
  "ent_remove E p ent =
     (if e_size ent = 1
      then (case slots ent ! 0 of
              None \<Rightarrow> None
            | Some q \<Rightarrow>
                Some (if pkg_cmp_name_evr E p q = 0 then ent\<lparr>items := 0, slots := [None]\<rparr> else ent))
      else Some (remove_from E p 0 (items ent) ent))"

definition capreq_idx_remove :: "penv \<Rightarrow> capreq_idx \<Rightarrow> string \<Rightarrow> pkg \<Rightarrow> capreq_idx option" where
  "capreq_idx_remove E idx capname p =
     (case ht idx capname of
        None \<Rightarrow> Some idx
      | Some ent \<Rightarrow>
          map_option (\<lambda>ent'. idx\<lparr>ht := (ht idx)(capname \<mapsto> ent')\<rparr>) (ent_remove E p ent))"

text \<open>A lookup may turn the entry into an array; the packages found are its first \<open>items\<close>.\<close>

definition capreq_idx_lookup :: "capreq_idx \<Rightarrow> string \<Rightarrow> pkg list option \<times> capreq_idx" where
  "capreq_idx_lookup idx capname =
     (case ht idx capname of
        None \<Rightarrow> (None, idx)
      | Some ent \<Rightarrow>
          if items ent = 0 then (None, idx)
          else let ent' = (if e_size ent = 1 then ent_transform_to_array ent else ent)
               in (Some (ent_pkgs ent'), idx\<lparr>ht := (ht idx)(capname \<mapsto> ent')\<rparr>))"

section \<open>Well-formed entries\<close>

definition small_addr :: "pkg \<Rightarrow> bool" where
  "small_addr p \<longleftrightarrow> addr p < 2147483648"

definition ent_ok :: "u32 \<Rightarrow> idx_ent \<Rightarrow> bool" where
  "ent_ok fl ent \<longleftrightarrow>
     length (slots ent) = e_size ent \<and> 0 < e_size ent \<and> items ent \<le> e_size ent \<and>
     (\<forall>s \<in> set (take (items ent) (slots ent)). s \<noteq> None) \<and>
     (fl AND CAPREQ_IDX_CAP \<noteq> 0 \<longrightarrow>
        sorted_wrt (\<lambda>p q. addr p < addr q) (ent_pkgs ent) \<and> (\<forall>p \<in> set (ent_pkgs ent). small_addr p))"

definition idx_ok :: "capreq_idx \<Rightarrow> bool" where
  "idx_ok idx \<longleftrightarrow> (\<forall>nm ent. ht idx nm = Some ent \<longrightarrow> ent_ok (idx_flags idx) ent)"

text \<open>What the index says: the packages filed under a name.\<close>

definition idx_pkgs :: "capreq_idx \<Rightarrow> string \<Rightarrow> pkg list" where
  "idx_pkgs idx nm = (case ht idx nm of None \<Rightarrow> [] | Some ent \<Rightarrow> ent_pkgs ent)"

lemma take_map_the:
  "\<forall>s \<in> set xs. s \<noteq> None \<Longrightarrow> map Some (map the xs) = xs"
  by (induction xs) auto

lemma slots_split:
  assumes "ent_ok fl ent"
  shows "slots ent = map Some (ent_pkgs ent) @ drop (items ent) (slots ent)"
    "length (ent_pkgs ent) = items ent"
  using assms take_map_the [of "take (items ent) (slots ent)"]
  by (auto simp: ent_ok_def ent_pkgs_def min_absorb2)

lemma ent_pkgs_append:
  "slots ent = map Some ps @ t \<Longrightarrow> items ent = length ps \<Longrightarrow> ent_pkgs ent = ps"
  by (simp add: ent_pkgs_def comp_def)

text \<open>The comparison by pointer difference, and the order it gives the arrays.\<close>

lemma ptr_diff_order: "cmp_order UNIV ptr_diff"
  unfolding ptr_diff_def by (rule cmp_order_on [OF cmp_order_int_diff]) simp

lemma ptr_cmp32_small:
  assumes "small_addr p" "small_addr q"
  shows "ptr_cmp32 p q = ptr_diff p q"
proof -
  define d where "d = ptr_diff p q"
  have "- (2 ^ 31) \<le> d" "d < 2 ^ 31"
    using assms by (simp_all add: small_addr_def ptr_diff_def d_def)
  then show ?thesis
    by (simp add: ptr_cmp32_def signed_of_int signed_take_bit_int_eq_self flip: d_def)
qed

lemma sorted_cmp_ptr: "sorted_cmp ptr_diff ps \<longleftrightarrow> sorted_wrt (\<lambda>p q. addr p \<le> addr q) ps"
  by (induction ps) (auto simp: ptr_diff_def)

text \<open>The binary search is a membership test on such an array.\<close>

lemma bin_contains_iff:
  assumes "sorted_wrt (\<lambda>p q. addr p < addr q) ps" "\<forall>q \<in> set ps. small_addr q" "small_addr p"
  shows "r \<le> length ps \<Longrightarrow>
    bin_contains ps p l r \<longleftrightarrow> (\<exists>i. l \<le> i \<and> i < r \<and> addr (ps ! i) = addr p)"
  using assms
proof (induction ps p l r rule: bin_contains.induct)
  case (1 ps p l r)
  note IH = "1.IH" and r = "1.prems"(1) and srt = "1.prems"(2) and small = "1.prems"(3,4)
  show ?case
  proof (cases "l < r")
    case True
    define i where "i = (l + r) div 2"
    have i: "l \<le> i" "i < r" using True by (auto simp: i_def)
    have cmp: "ptr_cmp32 (ps ! i) p = ptr_diff (ps ! i) p"
      using small i r by (intro ptr_cmp32_small) simp_all
    have mono: "addr (ps ! j) < addr (ps ! k)" if "j < k" "k < r" for j k
      using srt that r by (simp add: sorted_wrt_iff_nth_less)
    consider "addr (ps ! i) = addr p" | "addr p < addr (ps ! i)" | "addr (ps ! i) < addr p" by linarith
    then show ?thesis
    proof cases
      case 1
      then show ?thesis using i cmp True
        by (subst bin_contains.simps) (auto simp: Let_def ptr_diff_def simp flip: i_def)
    next
      case 2
      then have "bin_contains ps p l r = bin_contains ps p l i"
        using cmp True by (subst bin_contains.simps) (simp add: Let_def ptr_diff_def flip: i_def)
      also have "\<dots> = (\<exists>j. l \<le> j \<and> j < i \<and> addr (ps ! j) = addr p)"
        using IH(1) [OF True i_def refl] 2 cmp i r srt small by (simp add: ptr_diff_def)
      also have "\<dots> = (\<exists>j. l \<le> j \<and> j < r \<and> addr (ps ! j) = addr p)"
        using mono [of i] 2 i by (metis leD le_less_linear less_trans nat_less_le not_less_iff_gr_or_eq)
      finally show ?thesis .
    next
      case 3
      then have "bin_contains ps p l r = bin_contains ps p (i + 1) r"
        using cmp True by (subst bin_contains.simps) (simp add: Let_def ptr_diff_def flip: i_def)
      also have "\<dots> = (\<exists>j. i + 1 \<le> j \<and> j < r \<and> addr (ps ! j) = addr p)"
        using IH(2) [OF True i_def refl] 3 cmp r srt small by (simp add: ptr_diff_def)
      also have "\<dots> = (\<exists>j. l \<le> j \<and> j < r \<and> addr (ps ! j) = addr p)"
        using mono [of _ i] 3 i
        by (metis Suc_eq_plus1 Suc_le_eq le_less_trans less_imp_le_nat nat_neq_iff order_less_le_trans)
      finally show ?thesis .
    qed
  qed (subst bin_contains.simps, simp)
qed

lemma idx_ent_contains_iff:
  assumes "ent_ok fl ent" "fl AND CAPREQ_IDX_CAP \<noteq> 0" "small_addr p"
  shows "idx_ent_contains ent p \<longleftrightarrow> addr p \<in> addr ` set (ent_pkgs ent)"
proof -
  have "length (ent_pkgs ent) = items ent" by (rule slots_split [OF assms(1)])
  then have "idx_ent_contains ent p \<longleftrightarrow> (\<exists>i < length (ent_pkgs ent). addr (ent_pkgs ent ! i) = addr p)"
    using bin_contains_iff [of "ent_pkgs ent" p "items ent" 0] assms
    by (simp add: idx_ent_contains_def ent_ok_def)
  then show ?thesis by (metis image_iff in_set_conv_nth)
qed

section \<open>What adding does\<close>

lemma ent_grow:
  assumes "ent_ok fl ent" "ent' = ent_transform_to_array ent \<and> e_size ent = 1 \<or> ent' = ent_realloc n ent \<and> e_size ent \<le> n"
  shows "ent_ok fl ent'" "ent_pkgs ent' = ent_pkgs ent" "items ent' = items ent"
proof -
  have len: "length (slots ent) = e_size ent" "0 < e_size ent" "items ent \<le> e_size ent"
    using assms(1) by (simp_all add: ent_ok_def)
  obtain t where t: "slots ent' = slots ent @ t" "items ent' = items ent"
    "length (slots ent') = e_size ent'" "e_size ent \<le> e_size ent'"
    using assms(2) len
    by (cases "slots ent") (auto simp: ent_transform_to_array_def ent_realloc_def)
  then have "take (items ent') (slots ent') = take (items ent) (slots ent)"
    using len by simp
  moreover from this show p: "ent_pkgs ent' = ent_pkgs ent" by (simp add: ent_pkgs_def)
  ultimately show "ent_ok fl ent'"
    using assms(1) len t p by (auto simp: ent_ok_def)
  show "items ent' = items ent" by (rule t(2))
qed

lemma ent_push:
  fixes p :: pkg
  assumes "ent_ok fl ent" "items ent < e_size ent"
  defines "ent' \<equiv> ent\<lparr>slots := (slots ent)[items ent := Some p], items := items ent + 1\<rparr>"
  shows "ent_pkgs ent' = ent_pkgs ent @ [p]" "length (slots ent') = e_size ent'" "items ent' \<le> e_size ent'"
    "\<forall>s \<in> set (take (items ent') (slots ent')). s \<noteq> None" "items ent' = items ent + 1"
proof -
  have "items ent < length (slots ent)" using assms by (simp add: ent_ok_def)
  then have t: "take (items ent') (slots ent') = take (items ent) (slots ent) @ [Some p]"
    by (simp add: ent'_def take_Suc_conv_app_nth)
  then show "ent_pkgs ent' = ent_pkgs ent @ [p]" by (simp add: ent_pkgs_def)
  show "\<forall>s \<in> set (take (items ent') (slots ent')). s \<noteq> None"
    unfolding t using assms(1) by (auto simp: ent_ok_def)
qed (use assms in \<open>auto simp: ent_ok_def\<close>)

lemma ent_sort_pkgs:
  assumes "length (slots ent) = e_size ent" "items ent \<le> e_size ent"
  shows "ent_pkgs (idx_ent_sort ent) = isort ptr_diff (ent_pkgs ent)"
    "take (items (idx_ent_sort ent)) (slots (idx_ent_sort ent)) = map Some (isort ptr_diff (ent_pkgs ent))"
    "length (slots (idx_ent_sort ent)) = e_size (idx_ent_sort ent)"
    "items (idx_ent_sort ent) = items ent" "e_size (idx_ent_sort ent) = e_size ent"
proof -
  have "length (ent_pkgs ent) = items ent" using assms by (simp add: ent_pkgs_def)
  then have len: "length (isort ptr_diff (ent_pkgs ent)) = items ent" by simp
  have sl: "slots (idx_ent_sort ent) = map Some (isort ptr_diff (ent_pkgs ent)) @ drop (items ent) (slots ent)"
    by (simp add: idx_ent_sort_def)
  show it: "items (idx_ent_sort ent) = items ent" "e_size (idx_ent_sort ent) = e_size ent"
    by (simp_all add: idx_ent_sort_def)
  then show "ent_pkgs (idx_ent_sort ent) = isort ptr_diff (ent_pkgs ent)"
    "take (items (idx_ent_sort ent)) (slots (idx_ent_sort ent)) = map Some (isort ptr_diff (ent_pkgs ent))"
    "length (slots (idx_ent_sort ent)) = e_size (idx_ent_sort ent)"
    using sl len assms by (simp_all add: ent_pkgs_append)
qed

lemma sort_distinct:
  assumes "distinct (map addr ps)"
  shows "sorted_wrt (\<lambda>p q. addr p < addr q) (isort ptr_diff ps)"
proof -
  have "sorted_cmp ptr_diff (isort ptr_diff ps)"
    by (rule cmp_order.sorted_isort [OF ptr_diff_order]) simp
  then have "sorted_wrt (\<lambda>p q. addr p \<le> addr q) (isort ptr_diff ps)" by (simp add: sorted_cmp_ptr)
  moreover have "mset (map addr (isort ptr_diff ps)) = mset (map addr ps)" by simp
  then have "distinct (map addr (isort ptr_diff ps))"
    using assms mset_eq_imp_distinct_iff by blast
  ultimately show ?thesis
    by (fastforce simp: sorted_wrt_iff_nth_less distinct_conv_nth le_neq_trans)
qed

lemma sorted_distinct:
  "sorted_wrt (\<lambda>p q. addr p < addr q) ps \<Longrightarrow> distinct (map addr ps)"
  by (induction ps) auto

lemma ent_add_step:
  assumes ok: "ent_ok fl ent" and small: "fl AND CAPREQ_IDX_CAP \<noteq> 0 \<longrightarrow> small_addr p"
  shows "ent_ok fl (ent_add fl nm p ent)"
    and "fl AND CAPREQ_IDX_CAP = 0 \<Longrightarrow> ent_pkgs (ent_add fl nm p ent) = ent_pkgs ent @ [p]"
    and "fl AND CAPREQ_IDX_CAP \<noteq> 0 \<Longrightarrow> set (ent_pkgs (ent_add fl nm p ent)) =
      (if addr p \<in> addr ` set (ent_pkgs ent) then set (ent_pkgs ent) else insert p (set (ent_pkgs ent)))"
proof -
  define e1 where "e1 = (if e_size ent = 1
                  then let e = ent_transform_to_array ent
                       in if is_big_lib nm then ent_realloc 4096 e else e
                  else ent)"
  define e2 where "e2 = (if items e1 = e_size e1 then ent_realloc (e_size e1 * 2) e1 else e1)"
  define e3 where "e3 = e2\<lparr>slots := (slots e2)[items e2 := Some p], items := items e2 + 1\<rparr>"
  have tr: "ent_ok fl (ent_transform_to_array ent)" "ent_pkgs (ent_transform_to_array ent) = ent_pkgs ent"
    "e_size (ent_transform_to_array ent) = 2" if "e_size ent = 1"
    using ent_grow [OF ok, of "ent_transform_to_array ent" 0] that
    by (simp_all add: ent_transform_to_array_def)
  have e1: "ent_ok fl e1" "ent_pkgs e1 = ent_pkgs ent"
    using ok tr ent_grow [of fl "ent_transform_to_array ent" "ent_realloc 4096 (ent_transform_to_array ent)" 4096]
    by (auto simp: e1_def Let_def)
  have e2: "ent_ok fl e2" "ent_pkgs e2 = ent_pkgs ent" "items e2 < e_size e2"
    using e1 ent_grow [of fl e1 "ent_realloc (e_size e1 * 2) e1" "e_size e1 * 2"]
    by (auto simp: e2_def ent_ok_def ent_realloc_def)
  note e3 = ent_push [OF e2(1,3), of p, folded e3_def]
  have add: "ent_add fl nm p ent = (if fl AND CAPREQ_IDX_CAP \<noteq> 0 \<and> idx_ent_contains e1 p then e1
      else if fl AND CAPREQ_IDX_CAP \<noteq> 0 then idx_ent_sort e3 else e3)"
    by (simp add: ent_add_def Let_def e1_def e2_def e3_def)
  show "ent_pkgs (ent_add fl nm p ent) = ent_pkgs ent @ [p]" if "fl AND CAPREQ_IDX_CAP = 0"
    using add e2(2) e3(1) that by simp
  have srt: "ent_pkgs (idx_ent_sort e3) = isort ptr_diff (ent_pkgs ent @ [p])"
    using ent_sort_pkgs(1) [OF e3(2,3)] e3(1) e2(2) by simp
  have cont: "idx_ent_contains e1 p \<longleftrightarrow> addr p \<in> addr ` set (ent_pkgs ent)"
    if "fl AND CAPREQ_IDX_CAP \<noteq> 0"
    using idx_ent_contains_iff [OF e1(1) that] small that e1(2) by simp
  show "set (ent_pkgs (ent_add fl nm p ent)) =
      (if addr p \<in> addr ` set (ent_pkgs ent) then set (ent_pkgs ent) else insert p (set (ent_pkgs ent)))"
    if "fl AND CAPREQ_IDX_CAP \<noteq> 0"
    using add cont [OF that] that e1(2) srt by auto
  show "ent_ok fl (ent_add fl nm p ent)"
  proof (cases "fl AND CAPREQ_IDX_CAP = 0")
    case True
    then show ?thesis using add e3 e2 by (simp add: ent_ok_def e3_def)
  next
    case False
    then have old: "sorted_wrt (\<lambda>p q. addr p < addr q) (ent_pkgs ent)" "\<forall>q \<in> set (ent_pkgs ent). small_addr q"
      using ok by (auto simp: ent_ok_def)
    have len: "length (slots (idx_ent_sort e3)) = e_size (idx_ent_sort e3)"
      "items (idx_ent_sort e3) \<le> e_size (idx_ent_sort e3)" "0 < e_size (idx_ent_sort e3)"
      "take (items (idx_ent_sort e3)) (slots (idx_ent_sort e3)) = map Some (isort ptr_diff (ent_pkgs ent @ [p]))"
        using ent_sort_pkgs(2-) [OF e3(2,3)] e3(1,3,5) e2(2) by simp_all
    show ?thesis
    proof (cases "addr p \<in> addr ` set (ent_pkgs ent)")
      case True
      then show ?thesis using add cont [OF False] e1(1) False by simp
    next
      case new: False
      then have "sorted_wrt (\<lambda>p q. addr p < addr q) (isort ptr_diff (ent_pkgs ent @ [p]))"
        using sorted_distinct [OF old(1)] by (intro sort_distinct) auto
      then have "ent_ok fl (idx_ent_sort e3)"
        using len srt old(2) small False by (auto simp: ent_ok_def)
      then show ?thesis using add cont [OF False] new False by simp
    qed
  qed
qed

section \<open>What removing does\<close>

text \<open>The list function behind the loop: a package right behind a removed one is not tested.\<close>

fun skip_remove :: "('a \<Rightarrow> bool) \<Rightarrow> 'a list \<Rightarrow> 'a list" where
  "skip_remove P [] = []"
| "skip_remove P [x] = (if P x then [] else [x])"
| "skip_remove P (x # y # xs) = (if P x then y # skip_remove P xs else x # skip_remove P (y # xs))"

lemma ent_ok_weak: "ent_ok fl ent \<Longrightarrow> ent_ok 0 ent"
  by (simp add: ent_ok_def)

lemma remove_from_pkgs:
  assumes "ent_ok 0 ent" "1 < e_size ent" "i \<le> items ent" "items ent \<le> i + k"
  shows "ent_pkgs (remove_from E p i k ent) =
      take i (ent_pkgs ent) @ skip_remove (\<lambda>q. pkg_cmp_name_evr E p q = 0) (drop i (ent_pkgs ent)) \<and>
    length (slots (remove_from E p i k ent)) = e_size ent \<and>
    e_size (remove_from E p i k ent) = e_size ent \<and>
    items (remove_from E p i k ent) \<le> items ent \<and>
    (\<forall>s \<in> set (take (items (remove_from E p i k ent)) (slots (remove_from E p i k ent))). s \<noteq> None)"
  using assms
proof (induction k arbitrary: i ent)
  case 0
  then show ?case by (auto simp: ent_ok_def ent_pkgs_def)
next
  case (Suc k)
  let ?P = "\<lambda>q. pkg_cmp_name_evr E p q = 0"
  note ok = Suc.prems(1)
  have len: "length (slots ent) = e_size ent" "items ent \<le> e_size ent" "length (ent_pkgs ent) = items ent"
    using ok slots_split(2) [OF ok] by (auto simp: ent_ok_def)
  have some: "s \<noteq> None" if "s \<in> set (take (items ent) (slots ent))" for s
    using ok that by (auto simp: ent_ok_def)
  show ?case
  proof (cases "i < items ent")
    case False
    then have "i = items ent" using Suc.prems(3) by simp
    then show ?thesis using len some by simp
  next
    case True
    have nth: "the (slots ent ! i) = ent_pkgs ent ! i" using True len by (simp add: ent_pkgs_def)
    have drop: "drop i (ent_pkgs ent) = ent_pkgs ent ! i # drop (Suc i) (ent_pkgs ent)"
      using True len by (simp add: Cons_nth_drop_Suc)
    show ?thesis
    proof (cases "?P (ent_pkgs ent ! i)")
      case False
      have "skip_remove ?P (drop i (ent_pkgs ent)) = ent_pkgs ent ! i # skip_remove ?P (drop (Suc i) (ent_pkgs ent))"
        unfolding drop using False by (cases "drop (Suc i) (ent_pkgs ent)") auto
      moreover have "take (Suc i) (ent_pkgs ent) = take i (ent_pkgs ent) @ [ent_pkgs ent ! i]"
        using True len by (simp add: take_Suc_conv_app_nth)
      ultimately show ?thesis
        using Suc.IH [OF ok Suc.prems(2), of "Suc i"] Suc.prems True False nth by simp
    next
      case hit: True
      define sl where "sl = (if i = items ent - 1 then (slots ent)[i := None]
        else take i (slots ent) @ drop (i + 1) (slots ent) @ [last (slots ent)])[e_size ent - 1 := None]"
      define ent' where "ent' = ent\<lparr>slots := sl, items := items ent - 1\<rparr>"
      have rem: "remove_from E p i (Suc k) ent = remove_from E p (Suc i) k ent'"
        using True hit nth by (simp add: ent'_def sl_def)
      have tk: "take (items ent - 1) sl = take i (slots ent) @ take (items ent - 1 - i) (drop (Suc i) (slots ent))"
      proof (cases "i = items ent - 1")
        case True
        then show ?thesis using len \<open>i < items ent\<close> by (simp add: sl_def)
      next
        case False
        have "items ent - Suc i \<le> e_size ent - Suc i" using len by simp
        moreover have "items ent - 1 \<le> e_size ent - 1" using len by simp
        ultimately show ?thesis using False len \<open>i < items ent\<close>
          by (simp add: sl_def min_absorb1 min_absorb2)
      qed
      have pk: "ent_pkgs ent' = take i (ent_pkgs ent) @ drop (Suc i) (ent_pkgs ent)"
        using True len tk
        by (simp add: ent'_def ent_pkgs_def take_map drop_map drop_take min_def)
      have lsl: "length sl = e_size ent" using True len by (auto simp: sl_def)
      have "\<forall>s \<in> set (take (items ent - 1) sl). s \<noteq> None"
      proof -
        have "set (take (items ent - 1) sl) \<subseteq> set (take (items ent) (slots ent))"
        proof -
          have "take (items ent - 1 - i) (drop (Suc i) (slots ent)) = drop (Suc i) (take (items ent) (slots ent))"
            by (simp add: drop_take)
          moreover have "take i (slots ent) = take i (take (items ent) (slots ent))"
            using \<open>i < items ent\<close> by (simp add: min_absorb1)
          ultimately show ?thesis
            using set_take_subset [of i "take (items ent) (slots ent)"]
              set_drop_subset [of "Suc i" "take (items ent) (slots ent)"]
            unfolding tk by auto
        qed
        then show ?thesis using some by blast
      qed
      then have weak: "ent_ok 0 ent'" using lsl len Suc.prems(2) by (auto simp: ent_ok_def ent'_def)
      show ?thesis
      proof (cases "i = items ent - 1")
        case True
        then have "remove_from E p (Suc i) k ent' = ent'"
          using \<open>i < items ent\<close> by (cases k) (auto simp: ent'_def)
        then show ?thesis
          using rem pk weak lsl True len drop hit by (auto simp: ent'_def ent_ok_def)
      next
        case False
        then have i: "Suc i \<le> items ent'" "items ent' \<le> Suc i + k"
          using \<open>i < items ent\<close> Suc.prems(4) by (auto simp: ent'_def)
        obtain y ys where ys: "drop (Suc i) (ent_pkgs ent) = y # ys"
          using False True len by (cases "drop (Suc i) (ent_pkgs ent)") auto
        then have "skip_remove ?P (drop i (ent_pkgs ent)) = y # skip_remove ?P ys"
          using hit drop by simp
        moreover have "take (Suc i) (ent_pkgs ent') = take i (ent_pkgs ent) @ [y]"
          "drop (Suc i) (ent_pkgs ent') = ys"
          using True len unfolding pk ys by simp_all
        ultimately show ?thesis
          using Suc.IH [OF weak _ i] Suc.prems(2) rem by (auto simp: ent'_def)
      qed
    qed
  qed
qed

lemma skip_remove_sub: "set (skip_remove P xs) \<subseteq> set xs"
  by (induction P xs rule: skip_remove.induct) auto

lemma skip_remove_sorted: "sorted_wrt r xs \<Longrightarrow> sorted_wrt r (skip_remove P xs)"
proof (induction P xs rule: skip_remove.induct)
  case (3 P x y xs)
  then show ?case using skip_remove_sub [of P xs] skip_remove_sub [of P "y # xs"] by auto
qed auto

text \<open>It is the filter as long as no two packages to remove stand side by side.\<close>

lemma skip_remove_filter:
  "(\<forall>i. Suc i < length xs \<longrightarrow> \<not> (P (xs ! i) \<and> P (xs ! Suc i))) \<Longrightarrow>
     skip_remove P xs = filter (\<lambda>x. \<not> P x) xs"
proof (induction P xs rule: skip_remove.induct)
  case (3 P x y xs)
  have pair: "\<not> (P x \<and> P y)" using 3(3) [rule_format, of 0] by simp
  have tl: "\<forall>i. Suc i < length (y # xs) \<longrightarrow> \<not> (P ((y # xs) ! i) \<and> P ((y # xs) ! Suc i))"
    using 3(3) by (metis Suc_less_eq length_Cons nth_Cons_Suc)
  show ?case
  proof (cases "P x")
    case True
    have "\<forall>i. Suc i < length xs \<longrightarrow> \<not> (P (xs ! i) \<and> P (xs ! Suc i))"
      using tl by (metis Suc_less_eq length_Cons nth_Cons_Suc)
    then show ?thesis using True pair 3(1) by simp
  qed (use 3(2) tl in simp)
qed auto

lemma ent_remove_pkgs:
  assumes ok: "ent_ok fl ent" and one: "e_size ent = 1 \<longrightarrow> items ent = 1"
  obtains ent' where "ent_remove E p ent = Some ent'" "ent_ok fl ent'"
    "ent_pkgs ent' = skip_remove (\<lambda>q. pkg_cmp_name_evr E p q = 0) (ent_pkgs ent)"
proof (cases "e_size ent = 1")
  case True
  then obtain q where q: "slots ent = [Some q]" "items ent = 1"
    using ok one by (cases "slots ent") (auto simp: ent_ok_def)
  then show thesis
    using that [of "if pkg_cmp_name_evr E p q = 0 then ent\<lparr>items := 0, slots := [None]\<rparr> else ent"] ok True
    by (simp add: ent_remove_def ent_ok_def ent_pkgs_def)
next
  case False
  then have size: "1 < e_size ent" using ok by (auto simp: ent_ok_def)
  let ?e = "remove_from E p 0 (items ent) ent"
  have r: "ent_pkgs ?e = skip_remove (\<lambda>q. pkg_cmp_name_evr E p q = 0) (ent_pkgs ent)"
    "length (slots ?e) = e_size ?e" "e_size ?e = e_size ent" "items ?e \<le> items ent"
    "\<forall>s \<in> set (take (items ?e) (slots ?e)). s \<noteq> None"
    using remove_from_pkgs [OF ent_ok_weak [OF ok] size, of 0 "items ent" E p] by auto
  let ?ps = "skip_remove (\<lambda>q. pkg_cmp_name_evr E p q = 0) (ent_pkgs ent)"
  note pk = r(1)
  have "sorted_wrt (\<lambda>p q. addr p < addr q) ?ps \<and> (\<forall>q \<in> set ?ps. small_addr q)" if "fl AND CAPREQ_IDX_CAP \<noteq> 0"
  proof -
    have "sorted_wrt (\<lambda>p q. addr p < addr q) (ent_pkgs ent)" "\<forall>q \<in> set (ent_pkgs ent). small_addr q"
      using ok that by (simp_all add: ent_ok_def)
    then show ?thesis
      using skip_remove_sub [of "\<lambda>q. pkg_cmp_name_evr E p q = 0" "ent_pkgs ent"]
      by (intro conjI skip_remove_sorted) auto
  qed
  moreover have "items ent \<le> e_size ent" using ok by (simp add: ent_ok_def)
  moreover from this have "0 < e_size ?e" "items ?e \<le> e_size ?e" using size r(3,4) by linarith+
  ultimately have "ent_ok fl ?e" unfolding ent_ok_def pk using r(2,5) by blast
  then show thesis using that [of ?e] r False by (simp add: ent_remove_def)
qed

section \<open>The whole index\<close>

lemma idx_add_other: "nm \<noteq> capname \<Longrightarrow> idx_pkgs (capreq_idx_add idx capname p) nm = idx_pkgs idx nm"
  by (simp add: capreq_idx_add_def idx_pkgs_def)

definition skipped :: "capreq_idx \<Rightarrow> string \<Rightarrow> bool" where
  "skipped idx nm \<longleftrightarrow>
     (if idx_flags idx AND CAPREQ_IDX_REQ \<noteq> 0 then \<not> indexable_cap nm
      else idx_flags idx AND CAPREQ_IDX_CAP \<noteq> 0 \<and> nm = ''elf(buildid)'')"

lemma idx_add_skipped: "skipped idx capname \<Longrightarrow> capreq_idx_add idx capname p = idx"
  by (simp add: capreq_idx_add_def skipped_def split: if_splits)

lemma new_ent [simp]:
  "ent_pkgs \<lparr>items = Suc 0, e_size = Suc 0, slots = [Some p]\<rparr> = [p]"
  "small_addr p \<Longrightarrow> ent_ok fl \<lparr>items = Suc 0, e_size = Suc 0, slots = [Some p]\<rparr>"
  by (simp_all add: ent_ok_def ent_pkgs_def)

lemma idx_add:
  assumes ok: "idx_ok idx" and small: "small_addr p" and sk: "\<not> skipped idx nm"
  shows "idx_ok (capreq_idx_add idx nm p)"
    and "idx_flags idx AND CAPREQ_IDX_CAP = 0 \<Longrightarrow>
      idx_pkgs (capreq_idx_add idx nm p) nm = idx_pkgs idx nm @ [p]"
    and "idx_flags idx AND CAPREQ_IDX_CAP \<noteq> 0 \<Longrightarrow> set (idx_pkgs (capreq_idx_add idx nm p) nm) =
      (if addr p \<in> addr ` set (idx_pkgs idx nm) then set (idx_pkgs idx nm)
       else insert p (set (idx_pkgs idx nm)))"
proof -
  let ?e = "case ht idx nm of None \<Rightarrow> \<lparr>items = 1, e_size = 1, slots = [Some p]\<rparr>
    | Some ent \<Rightarrow> ent_add (idx_flags idx) nm p ent"
  have add: "capreq_idx_add idx nm p = idx\<lparr>ht := (ht idx)(nm \<mapsto> ?e)\<rparr>"
    using sk by (auto simp: capreq_idx_add_def skipped_def)
  have "ent_ok (idx_flags idx) ?e"
    using ok small ent_add_step(1) by (auto simp: idx_ok_def split: option.splits)
  then show "idx_ok (capreq_idx_add idx nm p)" using ok unfolding add by (simp add: idx_ok_def)
  show "idx_pkgs (capreq_idx_add idx nm p) nm = idx_pkgs idx nm @ [p]" if "idx_flags idx AND CAPREQ_IDX_CAP = 0"
    using that ok small unfolding add
    by (auto simp: idx_pkgs_def idx_ok_def ent_add_step(2) split: option.splits)
  show "set (idx_pkgs (capreq_idx_add idx nm p) nm) =
      (if addr p \<in> addr ` set (idx_pkgs idx nm) then set (idx_pkgs idx nm)
       else insert p (set (idx_pkgs idx nm)))" if "idx_flags idx AND CAPREQ_IDX_CAP \<noteq> 0"
  proof (cases "ht idx nm")
    case (Some ent)
    then have "ent_ok (idx_flags idx) ent" using ok by (simp add: idx_ok_def)
    from ent_add_step(3) [OF this _ that, of p nm] small show ?thesis
      unfolding add by (simp add: idx_pkgs_def Some)
  qed (simp add: add idx_pkgs_def)
qed

lemma idx_lookup:
  assumes "idx_ok idx"
  shows "fst (capreq_idx_lookup idx nm) = (if idx_pkgs idx nm = [] then None else Some (idx_pkgs idx nm))"
    and "idx_ok (snd (capreq_idx_lookup idx nm))"
    and "idx_pkgs (snd (capreq_idx_lookup idx nm)) = idx_pkgs idx"
proof -
  have *: "fst (capreq_idx_lookup idx nm) = (if idx_pkgs idx nm = [] then None else Some (idx_pkgs idx nm)) \<and>
    idx_ok (snd (capreq_idx_lookup idx nm)) \<and> idx_pkgs (snd (capreq_idx_lookup idx nm)) = idx_pkgs idx"
  proof (cases "ht idx nm")
    case (Some ent)
    then have ok: "ent_ok (idx_flags idx) ent" using assms by (simp add: idx_ok_def)
    have ne: "ent_pkgs ent = [] \<longleftrightarrow> items ent = 0"
      using slots_split(2) [OF ok] by auto
    have g: "e_size ent = 1 \<Longrightarrow> ent_ok (idx_flags idx) (ent_transform_to_array ent) \<and>
        ent_pkgs (ent_transform_to_array ent) = ent_pkgs ent"
      using ent_grow [OF ok, of "ent_transform_to_array ent" 0] by simp
    show ?thesis
      using Some ne g assms by (auto simp: capreq_idx_lookup_def idx_pkgs_def Let_def idx_ok_def fun_eq_iff)
  qed (use assms in \<open>simp add: capreq_idx_lookup_def idx_pkgs_def\<close>)
  show "fst (capreq_idx_lookup idx nm) = (if idx_pkgs idx nm = [] then None else Some (idx_pkgs idx nm))"
    "idx_ok (snd (capreq_idx_lookup idx nm))" "idx_pkgs (snd (capreq_idx_lookup idx nm)) = idx_pkgs idx"
    using * by blast+
qed

lemma idx_remove:
  assumes ok: "idx_ok idx" and one: "\<And>ent. ht idx nm = Some ent \<Longrightarrow> e_size ent = 1 \<Longrightarrow> items ent = 1"
  obtains idx' where "capreq_idx_remove E idx nm p = Some idx'" "idx_ok idx'"
    "idx_pkgs idx' nm = skip_remove (\<lambda>q. pkg_cmp_name_evr E p q = 0) (idx_pkgs idx nm)"
    "\<And>nm'. nm' \<noteq> nm \<Longrightarrow> idx_pkgs idx' nm' = idx_pkgs idx nm'"
proof (cases "ht idx nm")
  case None
  then show thesis using that [of idx] ok by (simp add: capreq_idx_remove_def idx_pkgs_def)
next
  case (Some ent)
  then have "ent_ok (idx_flags idx) ent" using ok by (simp add: idx_ok_def)
  then obtain ent' where "ent_remove E p ent = Some ent'" "ent_ok (idx_flags idx) ent'"
    "ent_pkgs ent' = skip_remove (\<lambda>q. pkg_cmp_name_evr E p q = 0) (ent_pkgs ent)"
    by (rule ent_remove_pkgs) (use one Some in auto)
  then show thesis
    using that [of "idx\<lparr>ht := (ht idx)(nm \<mapsto> ent')\<rparr>"] ok Some
    by (simp add: capreq_idx_remove_def idx_pkgs_def idx_ok_def)
qed

section \<open>Properties\<close>

text \<open>C25: filing a package under a capability name keeps the index well formed, and a lookup of
  the name then finds the package together with exactly the packages found before.\<close>

theorem idx_add_then_lookup:
  assumes "idx_ok idx" and "idx_flags idx = CAPREQ_IDX_CAP" and "small_addr p" and "\<not> skipped idx nm"
  shows "idx_ok (capreq_idx_add idx nm p) \<and>
    (\<exists>ps. fst (capreq_idx_lookup (capreq_idx_add idx nm p) nm) = Some ps \<and>
      addr ` set ps = insert (addr p) (addr ` set (idx_pkgs idx nm)) \<and>
      sorted_wrt (\<lambda>q r. addr q < addr r) ps)"
proof -
  let ?ix = "capreq_idx_add idx nm p"
  have ok: "idx_ok ?ix" by (rule idx_add(1) [OF assms(1,3,4)])
  have s: "addr ` set (idx_pkgs ?ix nm) = insert (addr p) (addr ` set (idx_pkgs idx nm))"
    using idx_add(3) [OF assms(1,3,4)] assms(2) by auto
  then have ne: "idx_pkgs ?ix nm \<noteq> []" by auto
  have "sorted_wrt (\<lambda>q r. addr q < addr r) (idx_pkgs ix nm)" if "idx_ok ix" "idx_flags ix = CAPREQ_IDX_CAP" for ix
    using that by (auto simp: idx_ok_def ent_ok_def idx_pkgs_def split: option.split)
  moreover have "idx_flags ?ix = CAPREQ_IDX_CAP" using assms(2) by (simp add: capreq_idx_add_def)
  ultimately have "sorted_wrt (\<lambda>q r. addr q < addr r) (idx_pkgs ?ix nm)" using ok by blast
  then show ?thesis using ok s ne idx_lookup(1) [OF ok, of nm] by auto
qed

theorem idx_add_then_lookup_witness:
  "\<exists>ps. fst (capreq_idx_lookup (capreq_idx_add (capreq_idx_init CAPREQ_IDX_CAP) ''mta'' (ref_pkg 7 ''exim'' [] [])) ''mta'') =
     Some ps \<and> addr ` set ps = {7}"
  using idx_add_then_lookup [of "capreq_idx_init CAPREQ_IDX_CAP" "ref_pkg 7 ''exim'' [] []" "''mta''"]
  by (auto simp: idx_ok_def capreq_idx_init_def small_addr_def skipped_def idx_pkgs_def)

text \<open>C26: removing a package takes every package of its name and version out of the entry, as long
  as no two neighbours of the entry have that name and version.\<close>

theorem idx_remove_filters:
  assumes ok: "idx_ok idx" and ent: "ht idx nm = Some ent" "e_size ent = 1 \<longrightarrow> items ent = 1"
    and apart: "\<forall>i. Suc i < length (ent_pkgs ent) \<longrightarrow>
      \<not> (pkg_cmp_name_evr E p (ent_pkgs ent ! i) = 0 \<and> pkg_cmp_name_evr E p (ent_pkgs ent ! Suc i) = 0)"
  shows "\<exists>idx'. capreq_idx_remove E idx nm p = Some idx' \<and> idx_ok idx' \<and>
    idx_pkgs idx' nm = filter (\<lambda>q. pkg_cmp_name_evr E p q \<noteq> 0) (idx_pkgs idx nm) \<and>
    (\<forall>nm'. nm' \<noteq> nm \<longrightarrow> idx_pkgs idx' nm' = idx_pkgs idx nm')"
proof -
  have one: "e_size ent' = 1 \<Longrightarrow> items ent' = 1" if "ht idx nm = Some ent'" for ent'
    using that ent by simp
  obtain idx' where i: "capreq_idx_remove E idx nm p = Some idx'" "idx_ok idx'"
    "idx_pkgs idx' nm = skip_remove (\<lambda>q. pkg_cmp_name_evr E p q = 0) (idx_pkgs idx nm)"
    "\<forall>nm'. nm' \<noteq> nm \<longrightarrow> idx_pkgs idx' nm' = idx_pkgs idx nm'"
    by (rule idx_remove [OF ok one, where E = E and p = p]) blast+
  have "skip_remove (\<lambda>q. pkg_cmp_name_evr E p q = 0) (idx_pkgs idx nm) =
      filter (\<lambda>q. pkg_cmp_name_evr E p q \<noteq> 0) (idx_pkgs idx nm)"
    using apart ent(1) by (intro skip_remove_filter) (simp add: idx_pkgs_def)
  then show ?thesis using i by (intro exI [of _ idx']) simp
qed

theorem idx_remove_filters_witness:
  "\<exists>idx'. capreq_idx_remove ref_env
      ((capreq_idx_init CAPREQ_IDX_CAP)\<lparr>ht := [''mta'' \<mapsto> \<lparr>items = 2, e_size = 2,
        slots = [Some (ref_pkg 3 ''exim'' [] []), Some (ref_pkg 4 ''qmail'' [] [])]\<rparr>]\<rparr>) ''mta'' (ref_pkg 9 ''exim'' [] []) =
      Some idx' \<and> idx_pkgs idx' ''mta'' = [ref_pkg 4 ''qmail'' [] []]"
proof -
  let ?a = "ref_pkg 3 ''exim'' [] []" and ?b = "ref_pkg 4 ''qmail'' [] []" and ?p = "ref_pkg 9 ''exim'' [] []"
  let ?ent = "\<lparr>items = 2, e_size = 2, slots = [Some ?a, Some ?b]\<rparr>"
  let ?ix = "(capreq_idx_init CAPREQ_IDX_CAP)\<lparr>ht := [''mta'' \<mapsto> ?ent]\<rparr>"
  have pk: "ent_pkgs ?ent = [?a, ?b]" by (simp add: ent_pkgs_def)
  have cmp: "pkg_cmp_name_evr ref_env ?p ?a = 0" "pkg_cmp_name_evr ref_env ?p ?b \<noteq> 0" by code_simp+
  have "idx_ok ?ix" by (auto simp: idx_ok_def ent_ok_def pk small_addr_def)
  from idx_remove_filters [OF this, of "''mta''" ?ent ref_env ?p] show ?thesis
    using cmp pk by (auto simp: idx_pkgs_def)
qed

text \<open>after a removal the loop steps over the package moved into the free slot. Of two
  packages that differ in architecture only, the second stays in the index when they are removed.\<close>

theorem idx_remove_leaves_neighbour:
  "map_option (\<lambda>idx. map addr (idx_pkgs idx ''a''))
     (capreq_idx_remove ref_env
       (capreq_idx_add (capreq_idx_add (capreq_idx_init CAPREQ_IDX_CAP) ''a'' (ref_pkg 1 ''a'' [] []))
          ''a'' (ref_pkg 2 ''a'' [] [])) ''a'' (ref_pkg 1 ''a'' [] [])) = Some [2]"
  by code_simp

text \<open>the tables of capabilities that are not worth indexing are read with the counter
  advanced twice, so that every second entry has no effect.\<close>

theorem skip_tables_read_by_halves:
  "\<not> indexable_cap ''/etc'' \<and> indexable_cap ''/bin'' \<and> \<not> indexable_cap ''/usr/bin'' \<and> indexable_cap ''/usr/sbin'' \<and>
   indexable_cap ''elf(buildid)'' \<and> \<not> indexable_cap ''/usr/share/doc/x'' \<and> indexable_cap ''/usr/share/info/x''"
  by code_simp

end
