(* ===== verification/Pkgset.thy ===== *)
theory Pkgset
  imports Capreq_Idx
begin

text \<open>
  The set of available packages: pkgset.c with its lazily built indexes of capabilities,
  requirements, obsoletes and conflicts, the file index of fileindex.c, and the search for the
  packages that satisfy a requirement (pkgset-req.c).
\<close>

section \<open>The environment\<close>

record file_ent =
  flfile :: flfile
  fe_pkg :: pkg

text \<open>
  A requirement of a package resolved to a package, \<open>adds\<close> the alternatives to it
  (\<open>struct reqpkg\<close>).
\<close>

record reqpkg0 =
  rp_pkg :: pkg
  rp_req :: capreq
  rp_flags :: u8

record reqpkg = reqpkg0 +
  adds :: "reqpkg0 list"

text \<open>
  What this part takes from elsewhere: trurl's arrays at three element types, the split of a
  path into directory and base name, the package manager's answer for a requirement, the
  directory indexes of the package directories, the text of a requirement, and the array of
  results.
\<close>

record psenv =
  fe_sort :: "(file_ent \<Rightarrow> file_ent \<Rightarrow> int) \<Rightarrow> file_ent list \<Rightarrow> file_ent list"
  fe_bsearch :: "(file_ent \<Rightarrow> int) \<Rightarrow> file_ent list \<Rightarrow> int"
  pk_sort :: "(pkg \<Rightarrow> pkg \<Rightarrow> int) \<Rightarrow> pkg list \<Rightarrow> pkg list"
  pk_bsearch :: "(pkg \<Rightarrow> int) \<Rightarrow> pkg list \<Rightarrow> int"
  rp_sort :: "(reqpkg \<Rightarrow> reqpkg \<Rightarrow> int) \<Rightarrow> reqpkg list \<Rightarrow> reqpkg list"
  rp_bsearch :: "(reqpkg \<Rightarrow> int) \<Rightarrow> reqpkg list \<Rightarrow> int"
  basedirnam :: "string \<Rightarrow> string option \<times> string"
  pm_satisfies :: "capreq \<Rightarrow> bool"
  dirindex_get :: "string \<Rightarrow> pkg list"
  nsnprintf :: "nat \<Rightarrow> string \<Rightarrow> string"

locale ps_env = pm_env E for E :: penv +
  fixes P :: psenv
  assumes fe_arrays: "sorted_arrays (fe_sort P) (fe_bsearch P)"
    and pk_arrays: "sorted_arrays (pk_sort P) (pk_bsearch P)"
    and rp_arrays: "sorted_arrays (rp_sort P) (rp_bsearch P)"

definition ref_psenv :: psenv where
  "ref_psenv = \<lparr>fe_sort = isort, fe_bsearch = scan_from 0, pk_sort = isort, pk_bsearch = scan_from 0,
     rp_sort = isort, rp_bsearch = scan_from 0,
     basedirnam = (\<lambda>s. if CHR ''/'' \<in> set s then (Some (before_rchr s CHR ''/''), after_rchr s CHR ''/'')
       else (None, s)),
     pm_satisfies = (\<lambda>_. False), dirindex_get = (\<lambda>_. []), nsnprintf = (\<lambda>n s. take (n - 1) s)\<rparr>"

interpretation ref_ps: ps_env ref_env ref_psenv
proof (intro ps_env.intro ps_env_axioms.intro)
  show "pm_env ref_env" by (rule ref_pm.pm_env_axioms)
qed (simp_all add: ref_psenv_def sorted_arrays_ref)

section \<open>The file index\<close>

type_synonym file_index = "string \<Rightarrow> file_ent list option"

definition file_index_new :: file_index where
  "file_index_new = (\<lambda>_. None)"

definition fent_cmp :: "file_ent \<Rightarrow> file_ent \<Rightarrow> int" where
  "fent_cmp a b = strcmp (basename (flfile a)) (basename (flfile b))"

definition fent_cmp2str :: "file_ent \<Rightarrow> string \<Rightarrow> int" where
  "fent_cmp2str a b = strcmp (basename (flfile a)) b"

definition file_index_add_dirname :: "file_index \<Rightarrow> string \<Rightarrow> file_index" where
  "file_index_add_dirname fi dirname =
     (case fi dirname of None \<Rightarrow> fi(dirname \<mapsto> []) | Some _ \<Rightarrow> fi)"

definition file_index_add_basename :: "file_index \<Rightarrow> string \<Rightarrow> flfile \<Rightarrow> pkg \<Rightarrow> file_index" where
  "file_index_add_basename fi dirname f p =
     fi(dirname \<mapsto> (case fi dirname of None \<Rightarrow> [] | Some fs \<Rightarrow> fs) @ [\<lparr>flfile = f, fe_pkg = p\<rparr>])"

text \<open>\<open>findfile\<close> sorts the directory when needed and fills the caller's array, \<open>room\<close> long.\<close>

definition findfile :: "psenv \<Rightarrow> file_index \<Rightarrow> string \<Rightarrow> string \<Rightarrow> nat \<Rightarrow> pkg list \<times> file_index" where
  "findfile P fi dirname bname room =
     (case fi dirname of
        None \<Rightarrow> ([], fi)
      | Some files \<Rightarrow>
          let files' = (if sorted_cmp fent_cmp files then files else fe_sort P fent_cmp files);
              n = fe_bsearch P (\<lambda>e. fent_cmp2str e bname) files';
              fi' = fi(dirname \<mapsto> files')
          in if n = - 1 then ([], fi')
             else (take room (map fe_pkg (files' ! nat n #
                     takeWhile (\<lambda>e. strcmp (basename (flfile e)) bname = 0) (drop (nat n + 1) files'))), fi'))"

text \<open>
  \<open>file_index_remove\<close> searches without sorting first and removes the first entry of that name
  whose package has the same name and version.
\<close>

definition file_index_remove :: "penv \<Rightarrow> psenv \<Rightarrow> file_index \<Rightarrow> string \<Rightarrow> string \<Rightarrow> pkg \<Rightarrow> bool \<times> file_index" where
  "file_index_remove E P fi dirname bname p =
     (case fi dirname of
        None \<Rightarrow> (False, fi)
      | Some files \<Rightarrow>
          let n = fe_bsearch P (\<lambda>e. fent_cmp2str e bname) files in
          if n = - 1 then (False, fi)
          else
            let blk = files ! nat n #
                  takeWhile (\<lambda>e. strcmp (basename (flfile e)) bname = 0) (drop (nat n + 1) files);
                other = takeWhile (\<lambda>e. pkg_cmp_name_evr E p (fe_pkg e) \<noteq> 0) blk;
                i = nat n + length other
            in if length other = length blk then (False, fi)
               else (True, fi(dirname \<mapsto> take i files @ drop (i + 1) files)))"

definition file_index_lookup :: "psenv \<Rightarrow> file_index \<Rightarrow> string \<Rightarrow> nat \<Rightarrow> pkg list \<times> file_index" where
  "file_index_lookup P fi apath room =
     (if apath = [] \<or> hd apath \<noteq> CHR ''/'' then ([], fi)
      else let (tmpdirname, bname) = basedirnam P (tl apath);
               dirname = (case tmpdirname of None \<Rightarrow> ''/'' | Some d \<Rightarrow> if d = [] then ''/'' else d)
           in findfile P fi dirname bname room)"

section \<open>The package set\<close>

record pkgset =
  ps_pkgs :: "pkg list"
  cap_idx :: "capreq_idx option"
  req_idx :: "capreq_idx option"
  obs_idx :: "capreq_idx option"
  cnfl_idx :: "capreq_idx option"
  file_idx :: "file_index"
  req_cache :: "(string \<Rightarrow> pkg list option option) option"
  reqpkgs_cache :: "(string \<Rightarrow> reqpkg list option) option"

definition pkgset_new :: pkgset where
  "pkgset_new = \<lparr>ps_pkgs = [], cap_idx = None, req_idx = None, obs_idx = None, cnfl_idx = None,
     file_idx = file_index_new, req_cache = None, reqpkgs_cache = None\<rparr>"

definition sort_pkg_caps :: "penv \<Rightarrow> pkg \<Rightarrow> pkg" where
  "sort_pkg_caps E p = p\<lparr>caps := map_option (cr_sort E (capreq_cmp_name_evr E)) (caps p)\<rparr>"

definition pkgfl2fidx :: "pkg \<Rightarrow> file_index \<Rightarrow> file_index" where
  "pkgfl2fidx p fidx =
     (case pfl p of
        None \<Rightarrow> fidx
      | Some fl \<Rightarrow>
          foldl (\<lambda>fi (dirname, files).
             foldl (\<lambda>fi f. file_index_add_basename fi dirname f p) (file_index_add_dirname fi dirname) files)
            fidx fl)"

definition index_package_caps :: "pkg \<Rightarrow> pkgset \<Rightarrow> pkgset" where
  "index_package_caps p ps =
     ps\<lparr>cap_idx := map_option (\<lambda>idx. foldl (\<lambda>ix c. capreq_idx_add ix (cr_name c) p) idx
                     (case caps p of None \<Rightarrow> [] | Some cs \<Rightarrow> cs)) (cap_idx ps),
        file_idx := pkgfl2fidx p (file_idx ps)\<rparr>"

definition index_package_reqs :: "pkg \<Rightarrow> pkgset \<Rightarrow> pkgset" where
  "index_package_reqs p ps =
     (let rs = (case reqs p of None \<Rightarrow> [] | Some rs \<Rightarrow> rs);
          cs = (case cnfls p of None \<Rightarrow> [] | Some cs \<Rightarrow> cs);
          add = (\<lambda>ix c. capreq_idx_add ix (cr_name c) p)
      in ps\<lparr>req_idx := map_option (\<lambda>ix. foldl add ix (filter (\<lambda>r. \<not> capreq_is_rpmlib r) rs)) (req_idx ps),
            obs_idx := map_option (\<lambda>ix. foldl add ix (filter capreq_is_obsl cs)) (obs_idx ps),
            cnfl_idx := map_option (\<lambda>ix. foldl add ix (filter (\<lambda>c. \<not> capreq_is_obsl c) cs)) (cnfl_idx ps)\<rparr>)"

definition pkgset_index_caps :: "penv \<Rightarrow> pkgset \<Rightarrow> pkgset" where
  "pkgset_index_caps E ps =
     (if cap_idx ps \<noteq> None then ps
      else let pkgs = map (\<lambda>p. sort_pkg_caps E (pkg_add_selfcap E p)) (ps_pkgs ps)
           in foldl (\<lambda>ps p. index_package_caps p ps)
                (ps\<lparr>ps_pkgs := pkgs, cap_idx := Some (capreq_idx_init CAPREQ_IDX_CAP),
                    file_idx := file_index_new\<rparr>) pkgs)"

definition pkgset_index_reqs :: "pkgset \<Rightarrow> pkgset" where
  "pkgset_index_reqs ps =
     (if req_idx ps \<noteq> None then ps
      else foldl (\<lambda>ps p. index_package_reqs p ps)
             (ps\<lparr>req_idx := Some (capreq_idx_init CAPREQ_IDX_REQ),
                 obs_idx := Some (capreq_idx_init CAPREQ_IDX_REQ),
                 cnfl_idx := Some (capreq_idx_init CAPREQ_IDX_REQ)\<rparr>) (ps_pkgs ps))"

text \<open>
  \<open>ps->pkgs\<close> is an array sorted by \<open>pkg_cmp_name_evr_rev\<close> that \<open>n_array_bsearch\<close> sorts when
  needed (trurl's TN\_ARRAY\_AUTOSORTED).
\<close>

definition ps_find :: "penv \<Rightarrow> psenv \<Rightarrow> arch_registry \<Rightarrow> pkgset \<Rightarrow> pkg \<Rightarrow> int \<times> pkg list" where
  "ps_find E P R ps p =
     (let cmp = pkg_cmp_name_evr_rev E R;
          pkgs = (if sorted_cmp cmp (ps_pkgs ps) then ps_pkgs ps else pk_sort P cmp (ps_pkgs ps))
      in (pk_bsearch P (\<lambda>q. cmp q p) pkgs, pkgs))"

definition pkgset_add_package :: "penv \<Rightarrow> psenv \<Rightarrow> arch_registry \<Rightarrow> pkgset \<Rightarrow> pkg \<Rightarrow> bool \<times> pkgset" where
  "pkgset_add_package E P R ps p =
     (let (i, pkgs) = ps_find E P R ps p in
      if i \<noteq> - 1 then (False, ps\<lparr>ps_pkgs := pkgs\<rparr>)
      else let ps1 = ps\<lparr>ps_pkgs := pkgs @ [p]\<rparr>;
               ps2 = (if cap_idx ps1 \<noteq> None then index_package_caps p ps1 else ps1)
           in (True, if req_idx ps2 \<noteq> None then index_package_reqs p ps2 else ps2))"

text \<open>Removing the names of a package from an index; \<open>None\<close> is the NULL dereference of the index.\<close>

fun idx_remove_all :: "penv \<Rightarrow> pkg \<Rightarrow> capreq list \<Rightarrow> capreq_idx \<Rightarrow> capreq_idx option" where
  "idx_remove_all E p [] ix = Some ix"
| "idx_remove_all E p (c # cs) ix =
     Option.bind (capreq_idx_remove E ix (cr_name c) p) (idx_remove_all E p cs)"

definition opt_remove_all :: "penv \<Rightarrow> pkg \<Rightarrow> capreq list \<Rightarrow> capreq_idx option \<Rightarrow> capreq_idx option option" where
  "opt_remove_all E p cs ix =
     (case ix of None \<Rightarrow> Some None | Some ix \<Rightarrow> map_option Some (idx_remove_all E p cs ix))"

definition files_remove :: "penv \<Rightarrow> psenv \<Rightarrow> pkg \<Rightarrow> file_index \<Rightarrow> file_index" where
  "files_remove E P p fidx =
     (case pfl p of
        None \<Rightarrow> fidx
      | Some fl \<Rightarrow>
          foldl (\<lambda>fi (dirname, files).
             foldl (\<lambda>fi f. snd (file_index_remove E P fi dirname (basename f) p)) fi files) fidx fl)"

definition pkgset_remove_package ::
  "penv \<Rightarrow> psenv \<Rightarrow> arch_registry \<Rightarrow> pkgset \<Rightarrow> pkg \<Rightarrow> (bool \<times> pkgset) option" where
  "pkgset_remove_package E P R ps p0 =
     (let (i, pkgs) = ps_find E P R ps p0 in
      if i = - 1 then Some (False, ps\<lparr>ps_pkgs := pkgs\<rparr>)
      else
        let p = pkgs ! nat i;
            cs = (case caps p of None \<Rightarrow> [] | Some cs \<Rightarrow> cs);
            rs = (case reqs p of None \<Rightarrow> [] | Some rs \<Rightarrow> rs);
            ns = (case cnfls p of None \<Rightarrow> [] | Some ns \<Rightarrow> ns)
        in Option.bind (opt_remove_all E p cs (cap_idx ps)) (\<lambda>ci.
           Option.bind (opt_remove_all E p rs (req_idx ps)) (\<lambda>ri.
           Option.bind (opt_remove_all E p (filter capreq_is_obsl ns) (obs_idx ps)) (\<lambda>oi.
           Option.bind (opt_remove_all E p (filter (\<lambda>c. \<not> capreq_is_obsl c) ns) (cnfl_idx ps)) (\<lambda>ni.
             Some (True, ps\<lparr>ps_pkgs := take (nat i) pkgs @ drop (nat i + 1) pkgs,
               cap_idx := ci, req_idx := ri, obs_idx := oi, cnfl_idx := ni,
               file_idx := (if cap_idx ps \<noteq> None then files_remove E P p (file_idx ps) else file_idx ps)\<rparr>))))))"

end
