(* ===== verification/Pkgset_Req.thy ===== *)
theory Pkgset_Req
  imports Pkgset
begin

text \<open>
  Searching the package set (the second half of pkgset.c) and resolving a requirement to the
  packages that satisfy it (pkgset-req.c). Every function that may build an index or sort an
  array returns the package set as it is afterwards.
\<close>

section \<open>Searching\<close>

definition ps_sorted :: "penv \<Rightarrow> psenv \<Rightarrow> arch_registry \<Rightarrow> pkgset \<Rightarrow> pkgset" where
  "ps_sorted E P R ps = ps\<lparr>ps_pkgs := pk_sort P (pkg_cmp_name_evr_rev E R) (ps_pkgs ps)\<rparr>"

definition find_package :: "penv \<Rightarrow> psenv \<Rightarrow> arch_registry \<Rightarrow> pkgset \<Rightarrow> string \<Rightarrow> pkg list \<times> pkgset" where
  "find_package E P R ps nm =
     (let ps' = ps_sorted E P R ps;
          i = pk_bsearch P (\<lambda>q. strcmp (name q) nm) (ps_pkgs ps')
      in if i < 0 then ([], ps')
         else (takeWhile (\<lambda>q. strcmp nm (name q) = 0) (drop (nat i) (ps_pkgs ps')), ps'))"

datatype search_tag = ST_RECNO | ST_NAME | ST_CAP | ST_REQ | ST_CNFL | ST_OBSL | ST_FILE | ST_PROVIDES

definition look :: "capreq_idx option \<Rightarrow> string \<Rightarrow> pkg list \<times> capreq_idx option" where
  "look ix nm =
     (case ix of
        None \<Rightarrow> ([], None)
      | Some i \<Rightarrow> (case capreq_idx_lookup i nm of
                     (None, i') \<Rightarrow> ([], Some i') | (Some ps, i') \<Rightarrow> (ps, Some i')))"

definition find_capreq :: "penv \<Rightarrow> pkgset \<Rightarrow> search_tag \<Rightarrow> string \<Rightarrow> pkg list \<times> pkgset" where
  "find_capreq E ps tag nm =
     (if tag = ST_CAP
      then let ps1 = pkgset_index_caps E ps; (r, ix) = look (cap_idx ps1) nm
           in (r, ps1\<lparr>cap_idx := ix\<rparr>)
      else let ps1 = pkgset_index_reqs ps in
           if tag = ST_REQ then let (r, ix) = look (req_idx ps1) nm in (r, ps1\<lparr>req_idx := ix\<rparr>)
           else if tag = ST_OBSL then let (r, ix) = look (obs_idx ps1) nm in (r, ps1\<lparr>obs_idx := ix\<rparr>)
           else let (r, ix) = look (cnfl_idx ps1) nm in (r, ps1\<lparr>cnfl_idx := ix\<rparr>))"

text \<open>Packages of the directory indexes that are in the set and not ignored.\<close>

definition do_search_provdir :: "penv \<Rightarrow> psenv \<Rightarrow> arch_registry \<Rightarrow> pkgset \<Rightarrow> string \<Rightarrow> pkg list" where
  "do_search_provdir E P R ps dir =
     filter (\<lambda>p. flags p AND (8192 OR PKG_IGNORED_UNIQ) = 0 \<and>
               (let (i, pkgs) = ps_find E P R ps p
                in i \<noteq> - 1 \<and> addr (pkgs ! nat i) = addr p))
       (dirindex_get P dir)"

definition pkgset_search_provdir :: "penv \<Rightarrow> psenv \<Rightarrow> arch_registry \<Rightarrow> pkgset \<Rightarrow> string \<Rightarrow> pkg list option" where
  "pkgset_search_provdir E P R ps dir =
     (let r = do_search_provdir E P R ps dir in if r = [] then None else Some r)"

definition search_file :: "penv \<Rightarrow> psenv \<Rightarrow> arch_registry \<Rightarrow> pkgset \<Rightarrow> string \<Rightarrow> pkg list \<times> pkgset" where
  "search_file E P R ps value =
     (let ps1 = pkgset_index_caps E ps in
      if value = [] \<or> hd value \<noteq> CHR ''/'' then ([], ps1)
      else let (buf, fi) = file_index_lookup P (file_idx ps1) value 1024; ps2 = ps1\<lparr>file_idx := fi\<rparr>
           in (if buf \<noteq> [] then buf else do_search_provdir E P R ps2 value, ps2))"

definition pkgset_search ::
  "penv \<Rightarrow> psenv \<Rightarrow> arch_registry \<Rightarrow> pkgset \<Rightarrow> search_tag \<Rightarrow> string option \<Rightarrow> pkg list option \<times> pkgset" where
  "pkgset_search E P R ps0 tag value =
     (let ps = ps_sorted E P R ps0;
          (r, ps') = (case (tag, value) of
             (ST_RECNO, Some _) \<Rightarrow> ([], ps)
           | (ST_RECNO, None) \<Rightarrow> (ps_pkgs ps, ps)
           | (ST_NAME, None) \<Rightarrow> (ps_pkgs ps, ps)
           | (ST_NAME, Some v) \<Rightarrow> find_package E P R ps v
           | (ST_FILE, Some v) \<Rightarrow> search_file E P R ps v
           | (ST_PROVIDES, Some v) \<Rightarrow>
               let (r1, ps1) = find_capreq E ps ST_CAP v; (r2, ps2) = search_file E P R ps1 v
               in (r1 @ r2, ps2)
           | (t, Some v) \<Rightarrow> find_capreq E ps t v
           | (_, None) \<Rightarrow> ([], ps))
      in (if r = [] then None else Some r, ps'))"

section \<open>Resolving a requirement\<close>

text \<open>
  \<open>psreq_lookup\<close>: whether something has the name of the requirement, and the suspected
  packages; none with a match means an rpmlib or package-manager capability. 1024 is the
  caller's buffer.
\<close>

definition psreq_sus :: "penv \<Rightarrow> psenv \<Rightarrow> arch_registry \<Rightarrow> pkgset \<Rightarrow> capreq \<Rightarrow> pkg list \<times> pkgset" where
  "psreq_sus E P R ps req =
     (let ps1 = pkgset_index_caps E ps; (r, ix) = look (cap_idx ps1) (cr_name req);
          ps2 = ps1\<lparr>cap_idx := ix\<rparr>
      in if r \<noteq> [] then (r, ps2)
         else if capreq_is_file req
         then let (buf, fi) = file_index_lookup P (file_idx ps2) (cr_name req) 1024;
                  ps3 = ps2\<lparr>file_idx := fi\<rparr>
              in if buf \<noteq> [] then (buf, ps3)
                 else (case pkgset_search_provdir E P R ps3 (cr_name req) of
                         None \<Rightarrow> ([], ps3) | Some pkgs \<Rightarrow> (take 1024 pkgs, ps3))
         else ([], ps2))"

definition psreq_lookup :: "penv \<Rightarrow> psenv \<Rightarrow> arch_registry \<Rightarrow> pkgset \<Rightarrow> capreq \<Rightarrow> (bool \<times> pkg list) \<times> pkgset" where
  "psreq_lookup E P R ps req =
     (let (sus, ps') = psreq_sus E P R ps req;
          (matched, sus') = (if capreq_is_rpmlib req \<and> sus \<noteq> []
             then (\<forall>p \<in> set sus. strcmp (name p) ''rpm'' = 0, [])
             else (sus \<noteq> [], sus))
      in if \<not> matched \<and> pm_satisfies P req then ((True, []), ps') else ((matched, sus'), ps'))"

text \<open>
  \<open>psreq_match_pkgs\<close>, as the number of matches and the packages kept: a match of the requiring
  package itself, or any match when there is none (\<open>pkg\<close> NULL), ends the loop with no package.
\<close>

fun psreq_loop :: "penv \<Rightarrow> pkg option \<Rightarrow> capreq \<Rightarrow> bool \<Rightarrow> pkg list \<Rightarrow> nat \<Rightarrow> pkg list \<Rightarrow> nat \<times> pkg list" where
  "psreq_loop E p req strict [] nmatch acc = (nmatch, acc)"
| "psreq_loop E p req strict (spkg # sus) nmatch acc =
     (if capreq_has_ver req \<and> \<not> fst (pkg_match_req E spkg req strict)
      then psreq_loop E p req strict sus nmatch acc
      else (case p of
              Some q \<Rightarrow>
                if addr spkg \<noteq> addr q then psreq_loop E p req strict sus (nmatch + 1) (acc @ [spkg])
                else (nmatch + 1, [])
            | None \<Rightarrow> (nmatch + 1, [])))"

definition psreq_match_pkgs ::
  "penv \<Rightarrow> arch_registry \<Rightarrow> pkg option \<Rightarrow> capreq \<Rightarrow> bool \<Rightarrow> pkg list \<Rightarrow> nat \<times> pkg list" where
  "psreq_match_pkgs E R p req strict sus =
     (let (nmatch, ms) = psreq_loop E p req strict sus 0 []
      in (nmatch, if length ms > 1 then isort (pkg_cmp_name_evr_rev E R) ms else ms))"

text \<open>The result: found or not, and the packages pushed on the caller's array.\<close>

definition pkgset_find_match_packages ::
  "penv \<Rightarrow> psenv \<Rightarrow> arch_registry \<Rightarrow> pkgset \<Rightarrow> pkg option \<Rightarrow> capreq \<Rightarrow> bool \<Rightarrow> (bool \<times> pkg list) \<times> pkgset" where
  "pkgset_find_match_packages E P R ps p req strict =
     (let ((found, sus), ps') = psreq_lookup E P R ps req in
      if \<not> found \<or> sus = [] then ((found, []), ps')
      else let (nmatch, ms) = psreq_match_pkgs E R p req strict sus
           in if nmatch > 0 then ((True, ms), ps') else ((False, []), ps'))"

section \<open>What a resolved requirement means\<close>

text \<open>A suspected package that satisfies the requirement.\<close>

definition fits_req :: "penv \<Rightarrow> capreq \<Rightarrow> bool \<Rightarrow> pkg \<Rightarrow> bool" where
  "fits_req E req strict q \<longleftrightarrow> (capreq_has_ver req \<longrightarrow> fst (pkg_match_req E q req strict))"

lemma psreq_loop_self:
  assumes "\<exists>q \<in> set sus. fits_req E req strict q \<and> addr q = addr p"
  shows "0 < fst (psreq_loop E (Some p) req strict sus n acc) \<and>
    snd (psreq_loop E (Some p) req strict sus n acc) = []"
  using assms by (induction sus arbitrary: n acc) (auto simp: fits_req_def)

lemma psreq_loop_other:
  assumes "\<forall>q \<in> set sus. fits_req E req strict q \<longrightarrow> addr q \<noteq> addr p"
  shows "psreq_loop E (Some p) req strict sus n acc =
    (n + length (filter (fits_req E req strict) sus), acc @ filter (fits_req E req strict) sus)"
  using assms by (induction sus arbitrary: n acc) (auto simp: fits_req_def)

text \<open>
  All the suspected packages that fit and nothing else, unless the requiring package is one of
  them, when the result is empty.
\<close>

lemma psreq_match:
  "fst (psreq_match_pkgs E R (Some p) req strict sus) > 0 \<longleftrightarrow> (\<exists>q \<in> set sus. fits_req E req strict q)"
  "mset (snd (psreq_match_pkgs E R (Some p) req strict sus)) =
     (if \<exists>q \<in> set sus. fits_req E req strict q \<and> addr q = addr p then {#}
      else mset (filter (fits_req E req strict) sus))"
proof -
  show "fst (psreq_match_pkgs E R (Some p) req strict sus) > 0 \<longleftrightarrow> (\<exists>q \<in> set sus. fits_req E req strict q)"
  proof (cases "\<exists>q \<in> set sus. fits_req E req strict q \<and> addr q = addr p")
    case True
    then show ?thesis
      using psreq_loop_self [OF True, of 0 "[]"]
      by (auto simp: psreq_match_pkgs_def Let_def split: prod.splits)
  next
    case False
    then have l: "psreq_loop E (Some p) req strict sus 0 [] =
        (length (filter (fits_req E req strict) sus), filter (fits_req E req strict) sus)"
      using psreq_loop_other [of sus E req strict p 0 "[]"] by auto
    then show ?thesis by (auto simp: psreq_match_pkgs_def filter_empty_conv)
  qed
  show "mset (snd (psreq_match_pkgs E R (Some p) req strict sus)) =
     (if \<exists>q \<in> set sus. fits_req E req strict q \<and> addr q = addr p then {#}
      else mset (filter (fits_req E req strict) sus))"
  proof (cases "\<exists>q \<in> set sus. fits_req E req strict q \<and> addr q = addr p")
    case True
    then show ?thesis
      using psreq_loop_self [OF True, of 0 "[]"]
      by (auto simp: psreq_match_pkgs_def Let_def split: prod.splits)
  next
    case False
    then have l: "psreq_loop E (Some p) req strict sus 0 [] =
        (length (filter (fits_req E req strict) sus), filter (fits_req E req strict) sus)"
      using psreq_loop_other [of sus E req strict p 0 "[]"] by auto
    then show ?thesis using False by (auto simp: psreq_match_pkgs_def)
  qed
qed

section \<open>The capability index of a package set\<close>

definition provides_name :: "string \<Rightarrow> pkg \<Rightarrow> bool" where
  "provides_name nm p \<longleftrightarrow> (\<exists>cs. caps p = Some cs \<and> (\<exists>c \<in> set cs. cr_name c = nm))"

lemma idx_flags_add [simp]: "idx_flags (capreq_idx_add ix nm p) = idx_flags ix"
  by (simp add: capreq_idx_add_def)

lemma idx_cap_skipped: "idx_flags ix = CAPREQ_IDX_CAP \<Longrightarrow> skipped ix nm \<longleftrightarrow> nm = ''elf(buildid)''"
  by (simp add: skipped_def)

lemma index_caps_of:
  assumes "idx_ok ix" "idx_flags ix = CAPREQ_IDX_CAP" "small_addr p"
  defines "add \<equiv> \<lambda>ix c. capreq_idx_add ix (cr_name c) p"
  shows "idx_ok (foldl add ix cs) \<and> idx_flags (foldl add ix cs) = CAPREQ_IDX_CAP \<and>
    (nm \<noteq> ''elf(buildid)'' \<longrightarrow> set (idx_pkgs (foldl add ix cs) nm) = set (idx_pkgs ix nm) \<union>
      (if (\<exists>c \<in> set cs. cr_name c = nm) \<and> addr p \<notin> addr ` set (idx_pkgs ix nm) then {p} else {}))"
  using assms(1,2)
proof (induction cs arbitrary: ix)
  case (Cons c cs)
  let ?ix = "capreq_idx_add ix (cr_name c) p"
  show ?case
  proof (cases "cr_name c = ''elf(buildid)''")
    case True
    then have "?ix = ix" using Cons.prems idx_cap_skipped by (intro idx_add_skipped) simp
    then show ?thesis using Cons.IH [OF Cons.prems] True unfolding add_def by auto
  next
    case False
    then have sk: "\<not> skipped ix (cr_name c)" using idx_cap_skipped Cons.prems(2) by simp
    have ok: "idx_ok ?ix" by (rule idx_add(1) [OF Cons.prems(1) assms(3) sk])
    have set: "set (idx_pkgs ?ix nm) = set (idx_pkgs ix nm) \<union>
        (if cr_name c = nm \<and> addr p \<notin> addr ` set (idx_pkgs ix nm) then {p} else {})"
      using idx_add(3) [OF Cons.prems(1) assms(3) sk] idx_add_other [of nm "cr_name c"] Cons.prems(2)
      by (cases "cr_name c = nm") auto
    have fold: "foldl add ix (c # cs) = foldl add ?ix cs" by (simp add: add_def)
    show ?thesis
      unfolding fold using Cons.IH [OF ok] Cons.prems(2) set by auto
  qed
qed simp

lemma index_caps_all:
  assumes "idx_ok ix" "idx_flags ix = CAPREQ_IDX_CAP" "\<forall>p \<in> set pkgs. small_addr p"
    "distinct (map addr pkgs)" "nm \<noteq> ''elf(buildid)''"
    "addr ` set (idx_pkgs ix nm) \<inter> addr ` set pkgs = {}" "cap_idx ps = Some ix"
  shows "\<exists>ix'. cap_idx (foldl (\<lambda>ps p. index_package_caps p ps) ps pkgs) = Some ix' \<and> idx_ok ix' \<and>
    idx_flags ix' = CAPREQ_IDX_CAP \<and>
    set (idx_pkgs ix' nm) = set (idx_pkgs ix nm) \<union> {p \<in> set pkgs. provides_name nm p}"
  using assms
proof (induction pkgs arbitrary: ix ps)
  case (Cons p pkgs)
  let ?cs = "case caps p of None \<Rightarrow> [] | Some cs \<Rightarrow> cs"
  let ?ix = "foldl (\<lambda>ix c. capreq_idx_add ix (cr_name c) p) ix ?cs"
  have small: "small_addr p" using Cons.prems(3) by simp
  note one = index_caps_of [OF Cons.prems(1,2) small, of ?cs nm]
  have prov: "(\<exists>c \<in> set ?cs. cr_name c = nm) \<longleftrightarrow> provides_name nm p"
    by (cases "caps p") (auto simp: provides_name_def)
  have new: "set (idx_pkgs ?ix nm) = set (idx_pkgs ix nm) \<union> (if provides_name nm p then {p} else {})"
    using one Cons.prems(5,6) unfolding prov by auto
  have "cap_idx (index_package_caps p ps) = Some ?ix"
    using Cons.prems(7) by (simp add: index_package_caps_def)
  moreover have "addr ` set (idx_pkgs ?ix nm) \<inter> addr ` set pkgs = {}"
    using new Cons.prems(4,6) by auto
  ultimately obtain ix' where "cap_idx (foldl (\<lambda>ps p. index_package_caps p ps) (index_package_caps p ps) pkgs) = Some ix'"
    "idx_ok ix'" "idx_flags ix' = CAPREQ_IDX_CAP"
    "set (idx_pkgs ix' nm) = set (idx_pkgs ?ix nm) \<union> {p \<in> set pkgs. provides_name nm p}"
    using Cons.IH [of ?ix "index_package_caps p ps"] one Cons.prems(3-5) by auto
  then show ?case using new by auto
qed simp

lemma idx_ok_init: "idx_ok (capreq_idx_init ty)" "idx_pkgs (capreq_idx_init ty) nm = []"
  by (simp_all add: idx_ok_def capreq_idx_init_def idx_pkgs_def)

text \<open>A package set as the code keeps it: distinct packages, the index of all of them.\<close>

definition indexed :: "pkgset \<Rightarrow> bool" where
  "indexed ps \<longleftrightarrow> distinct (map addr (ps_pkgs ps)) \<and> (\<forall>p \<in> set (ps_pkgs ps). small_addr p) \<and>
     (\<exists>ix. cap_idx ps = Some ix \<and> idx_ok ix \<and> idx_flags ix = CAPREQ_IDX_CAP \<and>
        (\<forall>nm. nm \<noteq> ''elf(buildid)'' \<longrightarrow>
           set (idx_pkgs ix nm) = {p \<in> set (ps_pkgs ps). provides_name nm p}))"

lemma index_caps_pkgs [simp]:
  "ps_pkgs (foldl (\<lambda>ps p. index_package_caps p ps) ps pkgs) = ps_pkgs ps"
  by (induction pkgs arbitrary: ps) (auto simp: index_package_caps_def)

lemma addr_prepared [simp]: "addr (sort_pkg_caps E (pkg_add_selfcap E p)) = addr p"
  by (simp add: sort_pkg_caps_def pkg_add_selfcap_def Let_def split: prod.splits option.splits)

lemma index_caps_indexed:
  assumes "cap_idx ps = None" "distinct (map addr (ps_pkgs ps))" "\<forall>p \<in> set (ps_pkgs ps). small_addr p"
  shows "indexed (pkgset_index_caps E ps)"
proof -
  let ?pkgs = "map (\<lambda>p. sort_pkg_caps E (pkg_add_selfcap E p)) (ps_pkgs ps)"
  let ?ps = "ps\<lparr>ps_pkgs := ?pkgs, cap_idx := Some (capreq_idx_init CAPREQ_IDX_CAP), file_idx := file_index_new\<rparr>"
  have pre: "\<forall>p \<in> set ?pkgs. small_addr p" "distinct (map addr ?pkgs)"
    using assms(2,3) by (auto simp: small_addr_def comp_def)
  have "\<exists>ix'. cap_idx (foldl (\<lambda>ps p. index_package_caps p ps) ?ps ?pkgs) = Some ix' \<and> idx_ok ix' \<and>
      idx_flags ix' = CAPREQ_IDX_CAP \<and> set (idx_pkgs ix' nm) = {p \<in> set ?pkgs. provides_name nm p}"
    if "nm \<noteq> ''elf(buildid)''" for nm
    using index_caps_all [OF idx_ok_init(1) _ pre that, of CAPREQ_IDX_CAP ?ps] idx_ok_init(2)
    by (auto simp: capreq_idx_init_def)
  moreover obtain ix' where "cap_idx (foldl (\<lambda>ps p. index_package_caps p ps) ?ps ?pkgs) = Some ix'"
    "idx_ok ix'" "idx_flags ix' = CAPREQ_IDX_CAP"
    using calculation [of "[]"] by auto
  moreover have eq: "pkgset_index_caps E ps = foldl (\<lambda>ps p. index_package_caps p ps) ?ps ?pkgs"
    using assms(1) by (simp add: pkgset_index_caps_def Let_def)
  moreover have "ps_pkgs (pkgset_index_caps E ps) = ?pkgs" unfolding eq by simp
  ultimately show ?thesis
    using pre unfolding indexed_def eq by fastforce
qed

text \<open>Looking a name up in an indexed set finds exactly its providers.\<close>

lemma look_indexed:
  assumes "indexed ps" "nm \<noteq> ''elf(buildid)''" "look (cap_idx ps) nm = (r, ix)"
  shows "set r = {p \<in> set (ps_pkgs ps). provides_name nm p}" "indexed (ps\<lparr>cap_idx := ix\<rparr>)"
proof -
  obtain i where i: "cap_idx ps = Some i" "idx_ok i" "idx_flags i = CAPREQ_IDX_CAP"
    "\<And>nm. nm \<noteq> ''elf(buildid)'' \<Longrightarrow> set (idx_pkgs i nm) = {p \<in> set (ps_pkgs ps). provides_name nm p}"
    using assms(1) unfolding indexed_def by blast
  obtain o1 i' where l: "capreq_idx_lookup i nm = (o1, i')" by fastforce
  have o1: "o1 = (if idx_pkgs i nm = [] then None else Some (idx_pkgs i nm))" "idx_ok i'"
    "idx_pkgs i' = idx_pkgs i"
    using idx_lookup [OF i(2), of nm] l by simp_all
  have fl: "idx_flags i' = CAPREQ_IDX_CAP"
    using l i(3) by (auto simp: capreq_idx_lookup_def Let_def split: option.splits if_splits)
  have "r = idx_pkgs i nm" "ix = Some i'"
    using assms(3) i(1) l o1(1) by (auto simp: look_def split: if_splits)
  then show "set r = {p \<in> set (ps_pkgs ps). provides_name nm p}" "indexed (ps\<lparr>cap_idx := ix\<rparr>)"
    using i o1 fl assms(1,2) by (auto simp: indexed_def)
qed

lemma index_caps_id: "indexed ps \<Longrightarrow> pkgset_index_caps E ps = ps"
  by (auto simp: indexed_def pkgset_index_caps_def)

text \<open>
  Resolving a requirement by name: the packages of the set that provide it and fit it, none
  when the requiring package is one of them.
\<close>

lemma find_match:
  assumes "indexed ps" "\<not> capreq_is_file req" "\<not> capreq_is_rpmlib req" "cr_name req \<noteq> ''elf(buildid)''"
    "pkgset_find_match_packages E P R ps (Some p) req strict = ((found, ms), ps')"
  defines "F \<equiv> {q \<in> set (ps_pkgs ps). provides_name (cr_name req) q \<and> fits_req E req strict q}"
  defines "N \<equiv> {q \<in> set (ps_pkgs ps). provides_name (cr_name req) q}"
  shows "found \<longleftrightarrow> F \<noteq> {} \<or> N = {} \<and> pm_satisfies P req"
    and "set ms = (if \<exists>q \<in> F. addr q = addr p then {} else F)"
    and "indexed ps'" and "ps_pkgs ps' = ps_pkgs ps"
proof -
  obtain r ix where l: "look (cap_idx ps) (cr_name req) = (r, ix)" by fastforce
  have r: "set r = N" "indexed (ps\<lparr>cap_idx := ix\<rparr>)"
    using look_indexed [OF assms(1,4) l] by (simp_all add: N_def)
  have sus: "psreq_sus E P R ps req = (r, ps\<lparr>cap_idx := ix\<rparr>)"
    using assms(2) l by (simp add: psreq_sus_def index_caps_id [OF assms(1)] Let_def)
  then have look: "psreq_lookup E P R ps req =
      (if r = [] then ((pm_satisfies P req, []), ps\<lparr>cap_idx := ix\<rparr>) else ((True, r), ps\<lparr>cap_idx := ix\<rparr>))"
    using assms(3) by (auto simp: psreq_lookup_def)
  have F: "F = {q \<in> set r. fits_req E req strict q}" using r(1) by (auto simp: F_def N_def)
  have eq: "((found, ms), ps') = (if r = [] then ((pm_satisfies P req, []), ps\<lparr>cap_idx := ix\<rparr>)
      else if F \<noteq> {} then ((True, snd (psreq_match_pkgs E R (Some p) req strict r)), ps\<lparr>cap_idx := ix\<rparr>)
      else ((False, []), ps\<lparr>cap_idx := ix\<rparr>))"
  proof (cases "r = []")
    case False
    obtain nm ms0 where m: "psreq_match_pkgs E R (Some p) req strict r = (nm, ms0)" by fastforce
    have "0 < nm \<longleftrightarrow> F \<noteq> {}" using psreq_match(1) [of E R p req strict r] m F by auto
    then show ?thesis using False assms(5) look m
      by (cases "F = {}") (simp_all add: pkgset_find_match_packages_def)
  qed (use assms(5) look in \<open>simp add: pkgset_find_match_packages_def\<close>)
  have ms: "set (snd (psreq_match_pkgs E R (Some p) req strict r)) = (if \<exists>q \<in> F. addr q = addr p then {} else F)"
  proof -
    have "set_mset (mset (snd (psreq_match_pkgs E R (Some p) req strict r))) =
        (if \<exists>q \<in> F. addr q = addr p then {} else F)"
      unfolding psreq_match(2) F by auto
    then show ?thesis by simp
  qed
  show "found \<longleftrightarrow> F \<noteq> {} \<or> N = {} \<and> pm_satisfies P req"
    using eq r(1) F by (auto split: if_splits)
  show "set ms = (if \<exists>q \<in> F. addr q = addr p then {} else F)"
    using eq ms F by (auto split: if_splits)
  show "indexed ps'" "ps_pkgs ps' = ps_pkgs ps" using eq r(2) by (auto split: if_splits)
qed

section \<open>Properties\<close>

lemma provides_name_code [code]:
  "provides_name nm p = (case caps p of None \<Rightarrow> False | Some cs \<Rightarrow> list_ex (\<lambda>c. cr_name c = nm) cs)"
  by (auto simp: provides_name_def list_ex_iff split: option.splits)

text \<open>C16: indexing the packages of a set, each with the capability of its own name added, makes
  the index complete: under every name stand exactly the packages that provide it.\<close>

theorem capability_index_complete:
  assumes "cap_idx ps = None" and "distinct (map addr (ps_pkgs ps))" and "\<forall>p \<in> set (ps_pkgs ps). small_addr p"
  shows "indexed (pkgset_index_caps E ps)"
  using assms by (rule index_caps_indexed)

theorem capability_index_complete_witness:
  "indexed (pkgset_index_caps ref_env (pkgset_new\<lparr>ps_pkgs := [ref_pkg 1 ''a'' [] [], ref_pkg 2 ''b'' [] []]\<rparr>))"
  by (rule capability_index_complete) (simp_all add: pkgset_new_def small_addr_def)

text \<open>C7: resolving a requirement on a name answers exactly the packages of the set that provide
  the name and satisfy the version, none of them when the requiring package is among them, and
  finds something exactly when there is one, or nobody has the name but the package manager.\<close>

theorem find_match_packages_exact:
  assumes "indexed ps" and "\<not> capreq_is_file req" and "\<not> capreq_is_rpmlib req" and "cr_name req \<noteq> ''elf(buildid)''"
    and "pkgset_find_match_packages E P R ps (Some p) req strict = ((found, ms), ps')"
  shows "(found \<longleftrightarrow> (\<exists>q \<in> set (ps_pkgs ps). provides_name (cr_name req) q \<and> fits_req E req strict q) \<or>
      (\<forall>q \<in> set (ps_pkgs ps). \<not> provides_name (cr_name req) q) \<and> pm_satisfies P req) \<and>
    set ms = (if \<exists>q \<in> set (ps_pkgs ps). provides_name (cr_name req) q \<and> fits_req E req strict q \<and> addr q = addr p
      then {} else {q \<in> set (ps_pkgs ps). provides_name (cr_name req) q \<and> fits_req E req strict q}) \<and>
    indexed ps' \<and> ps_pkgs ps' = ps_pkgs ps"
  using find_match [OF assms] by auto

theorem find_match_packages_exact_witness:
  defines "cap \<equiv> \<lambda>nm. the (capreq_new False nm 0 None None 0 0)"
  shows "\<exists>ms ps'. pkgset_find_match_packages ref_env ref_psenv arch_registry_init
      (pkgset_index_caps ref_env (pkgset_new\<lparr>ps_pkgs := [ref_pkg 1 ''a'' [] [], ref_pkg 2 ''b'' [cap ''v''] []]\<rparr>))
      (Some (ref_pkg 1 ''a'' [] [])) (cap ''v'') True = ((True, ms), ps') \<and> (\<exists>q \<in> set ms. addr q = 2)"
proof -
  let ?ps = "pkgset_index_caps ref_env (pkgset_new\<lparr>ps_pkgs := [ref_pkg 1 ''a'' [] [], ref_pkg 2 ''b'' [cap ''v''] []]\<rparr>)"
  let ?fit = "\<lambda>q. provides_name (cr_name (cap ''v'')) q \<and> fits_req ref_env (cap ''v'') True q"
  have ix: "indexed ?ps" by (rule index_caps_indexed) (simp_all add: pkgset_new_def small_addr_def)
  obtain found ms ps' where m: "pkgset_find_match_packages ref_env ref_psenv arch_registry_init ?ps
      (Some (ref_pkg 1 ''a'' [] [])) (cap ''v'') True = ((found, ms), ps')" by (metis prod.exhaust)
  have c: "\<not> capreq_is_file (cap ''v'')" "\<not> capreq_is_rpmlib (cap ''v'')" "cr_name (cap ''v'') \<noteq> ''elf(buildid)''"
    unfolding cap_def by code_simp+
  have "list_ex (\<lambda>q. ?fit q \<and> addr q = 2) (ps_pkgs ?ps)" "\<not> list_ex (\<lambda>q. ?fit q \<and> addr q = 1) (ps_pkgs ?ps)"
    unfolding cap_def by code_simp+
  then show ?thesis using find_match_packages_exact [OF ix c m] m
    by (auto simp: list_ex_iff)
qed

end
