(* ===== verification/Pkgset_Dep.thy ===== *)
theory Pkgset_Dep
  imports Pkgset_Req "HOL-Library.AList"
begin

text \<open>
  pkgset-dep.c: the packages a package requires, grouped into alternatives, the packages it
  conflicts with and the packages that require it. Resolved requirements are cached in the
  package set under the text of the requirement, results under the identifier of the package.
\<close>

abbreviation REQPKG_PREREQ :: u8 where "REQPKG_PREREQ \<equiv> 1"
abbreviation REQPKG_PREREQ_UN :: u8 where "REQPKG_PREREQ_UN \<equiv> 2"
abbreviation REQPKG_CONFLICT :: u8 where "REQPKG_CONFLICT \<equiv> 4"
abbreviation REQPKG_OBSOLETE :: u8 where "REQPKG_OBSOLETE \<equiv> 8"
abbreviation REQPKG_MULTI :: u8 where "REQPKG_MULTI \<equiv> 128"

section \<open>Unmet requirements\<close>

record pkg_unreq =
  mismatch :: bool
  ureq :: string

type_synonym unreqs = "(string \<times> pkg_unreq list) list"

definition pkg_unreq_new :: "psenv \<Rightarrow> capreq \<Rightarrow> bool \<Rightarrow> pkg_unreq" where
  "pkg_unreq_new P req mm = \<lparr>mismatch = mm, ureq = capreq_snprintf (nsnprintf P) 512 req\<rparr>"

definition add_unreq :: "psenv \<Rightarrow> unreqs \<Rightarrow> pkg \<Rightarrow> capreq \<Rightarrow> bool \<Rightarrow> unreqs" where
  "add_unreq P un p req mm =
     AList.update (nvr p)
       ((case map_of un (nvr p) of None \<Rightarrow> [] | Some us \<Rightarrow> us) @ [pkg_unreq_new P req mm]) un"

section \<open>Required packages\<close>

definition reqpkg_new :: "pkg \<Rightarrow> capreq \<Rightarrow> u8 \<Rightarrow> reqpkg0 list \<Rightarrow> reqpkg" where
  "reqpkg_new p req fl as = \<lparr>rp_pkg = p, rp_req = req, rp_flags = fl, adds = as\<rparr>"

definition reqpkg_cmp :: "reqpkg \<Rightarrow> reqpkg \<Rightarrow> int" where
  "reqpkg_cmp p1 p2 = pkg_cmp_id (rp_pkg p1) (rp_pkg p2)"

text \<open>\<open>n_array_bsearch\<close> on an autosorted array.\<close>

definition rp_find :: "psenv \<Rightarrow> reqpkg list \<Rightarrow> pkg \<Rightarrow> int \<times> reqpkg list" where
  "rp_find P arr p =
     (let arr' = (if sorted_cmp reqpkg_cmp arr then arr else rp_sort P reqpkg_cmp arr)
      in (rp_bsearch P (\<lambda>r. pkg_cmp_id (rp_pkg r) p) arr', arr'))"

definition prereq_flags :: "capreq \<Rightarrow> u8" where
  "prereq_flags req =
     (if capreq_is_prereq req then REQPKG_PREREQ else 0) OR
     (if capreq_is_prereq_un req then REQPKG_PREREQ_UN else 0)"

definition add_reqpkg :: "psenv \<Rightarrow> reqpkg list \<Rightarrow> capreq \<Rightarrow> pkg \<Rightarrow> reqpkg list" where
  "add_reqpkg P reqpkgs req p =
     (let (i, arr) = rp_find P reqpkgs p;
          (arr1, j) = (if i = - 1 then (arr @ [reqpkg_new p req 0 []], length arr) else (arr, nat i))
      in arr1[j := (arr1 ! j)\<lparr>rp_flags := rp_flags (arr1 ! j) OR prereq_flags req\<rparr>])"

text \<open>
  The comparison of the alternatives already there with new ones; it stops at the end of the
  old list, so a longer new one counts as equal.
\<close>

fun alts_differ :: "reqpkg0 list \<Rightarrow> pkg list \<Rightarrow> bool" where
  "alts_differ [] ms = False"
| "alts_differ (a # as) [] = True"
| "alts_differ (a # as) (m # ms) = (if addr (rp_pkg a) \<noteq> addr m then True else alts_differ as ms)"

definition process_req :: "psenv \<Rightarrow> reqpkg list \<Rightarrow> capreq \<Rightarrow> pkg list \<Rightarrow> reqpkg list" where
  "process_req P reqpkgs req matches =
     (case matches of
        [] \<Rightarrow> reqpkgs
      | [m] \<Rightarrow> add_reqpkg P reqpkgs req m
      | m # ms \<Rightarrow>
          let (i, arr) = rp_find P reqpkgs m; fl = prereq_flags req;
              isneq = (if i \<noteq> - 1 \<and> rp_flags (arr ! nat i) AND REQPKG_MULTI \<noteq> 0
                       then alts_differ (adds (arr ! nat i)) ms else True)
          in if isneq
             then arr @ [reqpkg_new m req (fl OR REQPKG_MULTI)
                    (map (\<lambda>q. \<lparr>rp_pkg = q, rp_req = req, rp_flags = fl\<rparr>) ms)]
             else arr)"

text \<open>
  One requirement through the cache: \<open>None\<close> when nothing satisfies it, else the packages, none
  when the package itself or the package manager does. The key is the text of the requirement
  alone.
\<close>

definition resolve_req ::
  "penv \<Rightarrow> psenv \<Rightarrow> arch_registry \<Rightarrow> pkg \<Rightarrow> bool \<Rightarrow> capreq \<Rightarrow> pkgset \<Rightarrow> pkg list option \<times> pkgset" where
  "resolve_req E P R p strict req ps =
     (let key = capreq_snprintf (nsnprintf P) 512 req;
          cache = (case req_cache ps of None \<Rightarrow> (\<lambda>_. None) | Some c \<Rightarrow> c)
      in case cache key of
           Some ms \<Rightarrow> (ms, ps)
         | None \<Rightarrow>
             let ((found, pushed), ps') = pkgset_find_match_packages E P R ps (Some p) req strict;
                 ms = (if found then Some pushed else None)
             in (ms, ps'\<lparr>req_cache := Some (cache(key \<mapsto> ms))\<rparr>))"

fun process_reqs ::
  "penv \<Rightarrow> psenv \<Rightarrow> arch_registry \<Rightarrow> pkg \<Rightarrow> bool \<Rightarrow> capreq list \<Rightarrow>
   reqpkg list \<Rightarrow> pkgset \<Rightarrow> unreqs option \<Rightarrow> nat \<Rightarrow> reqpkg list \<times> pkgset \<times> unreqs option \<times> nat" where
  "process_reqs E P R p strict [] arr ps un nerrors = (arr, ps, un, nerrors)"
| "process_reqs E P R p strict (req # rs) arr ps un nerrors =
     (if capreq_is_rpmlib req then process_reqs E P R p strict rs arr ps un nerrors
      else case resolve_req E P R p strict req ps of
             (None, ps') \<Rightarrow>
               process_reqs E P R p strict rs arr ps'
                 (map_option (\<lambda>u. add_unreq P u p req False) un) (nerrors + 1)
           | (Some ms, ps') \<Rightarrow>
               process_reqs E P R p strict rs (process_req P arr req ms) ps' un nerrors)"

definition pkgset_get_required_packages_x ::
  "penv \<Rightarrow> psenv \<Rightarrow> arch_registry \<Rightarrow> pkgset \<Rightarrow> pkg \<Rightarrow> unreqs option \<Rightarrow>
   reqpkg list option \<times> pkgset \<times> unreqs option" where
  "pkgset_get_required_packages_x E P R ps p un =
     (case reqs p of
        None \<Rightarrow> (None, ps, un)
      | Some rs \<Rightarrow>
          let ps1 = (case req_cache ps of None \<Rightarrow> ps\<lparr>req_cache := Some (\<lambda>_. None)\<rparr> | Some _ \<Rightarrow> ps);
              (arr, ps2, un', _) = process_reqs E P R p True rs [] (pkgset_index_caps E ps1) un 0
          in (if arr = [] then None else Some arr, ps2, un'))"

definition pkgset_get_required_packages ::
  "penv \<Rightarrow> psenv \<Rightarrow> arch_registry \<Rightarrow> pkgset \<Rightarrow> pkg \<Rightarrow> reqpkg list option \<times> pkgset" where
  "pkgset_get_required_packages E P R ps p =
     (let cache = (case reqpkgs_cache ps of None \<Rightarrow> (\<lambda>_. None) | Some c \<Rightarrow> c) in
      case cache (nvr p) of
        Some arr \<Rightarrow> (Some arr, ps)
      | None \<Rightarrow>
          let (r, ps', _) = pkgset_get_required_packages_x E P R (ps\<lparr>reqpkgs_cache := Some cache\<rparr>) p None
          in (r, case r of None \<Rightarrow> ps' | Some arr \<Rightarrow> ps'\<lparr>reqpkgs_cache := Some (cache(nvr p \<mapsto> arr))\<rparr>))"

section \<open>Conflicts\<close>

definition same_multilib :: "penv \<Rightarrow> arch_registry \<Rightarrow> pkg \<Rightarrow> pkg \<Rightarrow> bool" where
  "same_multilib E R spkg p \<longleftrightarrow> pkg_cmp_name_evr E spkg p = 0 \<and> pkg_cmp_arch R spkg p \<noteq> 0"

definition conflicts_with :: "penv \<Rightarrow> arch_registry \<Rightarrow> pkg \<Rightarrow> capreq \<Rightarrow> pkg \<Rightarrow> bool" where
  "conflicts_with E R p cnfl spkg \<longleftrightarrow>
     (if capreq_is_bastard cnfl \<and> pkg_cmp_name p spkg \<noteq> 0 then False
      else if capreq_has_ver cnfl \<and> \<not> fst (pkg_match_req E spkg cnfl True) then False
      else if addr spkg = addr p then False
      else \<not> same_multilib E R spkg p)"

definition add_cnflpkg :: "psenv \<Rightarrow> capreq \<Rightarrow> reqpkg list option \<Rightarrow> pkg \<Rightarrow> reqpkg list option" where
  "add_cnflpkg P cnfl re spkg =
     (let (i, arr) = (case re of None \<Rightarrow> (- 1, []) | Some arr \<Rightarrow> rp_find P arr spkg);
          ob = (if capreq_is_obsl cnfl then REQPKG_OBSOLETE else 0)
      in Some (if i \<noteq> - 1
               then arr[nat i := (arr ! nat i)\<lparr>rp_flags := rp_flags (arr ! nat i) OR ob\<rparr>]
               else arr @ [reqpkg_new spkg cnfl (REQPKG_CONFLICT OR ob) []]))"

definition get_conflicted ::
  "penv \<Rightarrow> psenv \<Rightarrow> arch_registry \<Rightarrow> pkgset \<Rightarrow> pkg \<Rightarrow> capreq \<Rightarrow> reqpkg list option \<Rightarrow>
   reqpkg list option \<times> pkgset" where
  "get_conflicted E P R ps p cnfl re =
     (let ps1 = pkgset_index_caps E ps; (sus, ix) = look (cap_idx ps1) (cr_name cnfl)
      in (foldl (\<lambda>re spkg. if conflicts_with E R p cnfl spkg then add_cnflpkg P cnfl re spkg else re) re sus,
          ps1\<lparr>cap_idx := ix\<rparr>))"

definition pkgset_get_conflicted_packages ::
  "penv \<Rightarrow> psenv \<Rightarrow> arch_registry \<Rightarrow> pkgset \<Rightarrow> pkg \<Rightarrow> reqpkg list option \<times> pkgset" where
  "pkgset_get_conflicted_packages E P R ps p =
     (case cnfls p of
        None \<Rightarrow> (None, ps)
      | Some cs \<Rightarrow>
          foldl (\<lambda>(re, ps) cnfl. get_conflicted E P R ps p cnfl re) (None, ps) cs)"

section \<open>Requiring packages\<close>

text \<open>The version test asks whether the package satisfies its own capability.\<close>

definition reqby_keeps :: "penv \<Rightarrow> arch_registry \<Rightarrow> pkg \<Rightarrow> capreq \<Rightarrow> pkg \<Rightarrow> bool" where
  "reqby_keeps E R p cap spkg \<longleftrightarrow>
     (if capreq_has_ver cap \<and> \<not> fst (pkg_match_req E p cap True) then False
      else if addr spkg = addr p then False
      else \<not> same_multilib E R spkg p)"

definition add_reqby :: "penv \<Rightarrow> psenv \<Rightarrow> arch_registry \<Rightarrow> pkg list option \<Rightarrow> pkg \<Rightarrow> pkg list option" where
  "add_reqby E P R re spkg =
     (let cmp = pkg_cmp_name_evr_rev E R;
          (i, arr) = (case re of
             None \<Rightarrow> (- 1, [])
           | Some arr \<Rightarrow>
               let arr' = (if sorted_cmp cmp arr then arr else pk_sort P cmp arr)
               in (pk_bsearch P (\<lambda>q. cmp q spkg) arr', arr'))
      in Some (if i = - 1 then arr @ [spkg] else arr))"

definition get_reqby ::
  "penv \<Rightarrow> psenv \<Rightarrow> arch_registry \<Rightarrow> pkgset \<Rightarrow> pkg \<Rightarrow> capreq \<Rightarrow> pkg list option \<Rightarrow>
   pkg list option \<times> pkgset" where
  "get_reqby E P R ps p cap re =
     (let ps1 = pkgset_index_reqs ps; (sus, ix) = look (req_idx ps1) (cr_name cap)
      in (foldl (\<lambda>re spkg. if reqby_keeps E R p cap spkg then add_reqby E P R re spkg else re) re sus,
          ps1\<lparr>req_idx := ix\<rparr>))"

definition pkgset_get_requiredby_packages ::
  "penv \<Rightarrow> psenv \<Rightarrow> arch_registry \<Rightarrow> pkgset \<Rightarrow> pkg \<Rightarrow> pkg list option \<times> pkgset" where
  "pkgset_get_requiredby_packages E P R ps p0 =
     (let p = pkg_add_selfcap E p0 in
      foldl (\<lambda>(re, ps) cap. get_reqby E P R ps p cap re) (None, ps)
        (case caps p of None \<Rightarrow> [] | Some cs \<Rightarrow> cs))"

section \<open>The groups of alternatives\<close>

text \<open>The packages of an entry: the first one and its alternatives.\<close>

definition rp_pkgs :: "reqpkg \<Rightarrow> pkg list" where
  "rp_pkgs rp = rp_pkg rp # map rp_pkg (adds rp)"

text \<open>The requirements of a package with what they resolve to, in order.\<close>

fun resolve_all ::
  "penv \<Rightarrow> psenv \<Rightarrow> arch_registry \<Rightarrow> pkg \<Rightarrow> bool \<Rightarrow> capreq list \<Rightarrow> pkgset \<Rightarrow>
   (capreq \<times> pkg list option) list \<times> pkgset" where
  "resolve_all E P R p strict [] ps = ([], ps)"
| "resolve_all E P R p strict (req # rs) ps =
     (if capreq_is_rpmlib req then resolve_all E P R p strict rs ps
      else let (ms, ps1) = resolve_req E P R p strict req ps;
               (rest, ps2) = resolve_all E P R p strict rs ps1
           in ((req, ms) # rest, ps2))"

lemma process_reqs_resolve:
  "process_reqs E P R p strict rs arr ps un n =
     (let (res, ps') = resolve_all E P R p strict rs ps in
      (foldl (\<lambda>arr (req, ms). case ms of None \<Rightarrow> arr | Some ms \<Rightarrow> process_req P arr req ms) arr res, ps',
       fst (snd (snd (process_reqs E P R p strict rs arr ps un n))),
       n + length (filter (\<lambda>(_, ms). ms = None) res)))"
  by (induction E P R p strict rs arr ps un n rule: process_reqs.induct)
    (auto simp: Let_def split: prod.splits option.splits)

context ps_env
begin

lemma rp_find_set:
  assumes "rp_find P arr p = (i, arr')"
  shows "mset arr' = mset arr"
  using assms sorted_arrays.sort_mset [OF rp_arrays]
  by (auto simp: rp_find_def Let_def split: if_splits)

lemma reqpkg_cmp_order: "cmp_order S reqpkg_cmp"
  unfolding reqpkg_cmp_def pkg_cmp_id_def by (rule cmp_order_on [OF cmp_order_strcmp]) simp

lemma key_sorted_id:
  "sorted_cmp reqpkg_cmp arr \<Longrightarrow> key_sorted (\<lambda>r. pkg_cmp_id (rp_pkg r) p) arr"
  using key_sorted_strcmp [of "\<lambda>r. nvr (rp_pkg r)" arr "nvr p"]
  by (simp add: reqpkg_cmp_def [abs_def] pkg_cmp_id_def)

lemma rp_find_cases:
  obtains (none) arr' where "rp_find P arr p = (- 1, arr')" "mset arr' = mset arr"
      "\<forall>r \<in> set arr. nvr (rp_pkg r) \<noteq> nvr p"
  | (found) i arr' where "rp_find P arr p = (int i, arr')" "mset arr' = mset arr" "i < length arr'"
      "nvr (rp_pkg (arr' ! i)) = nvr p"
proof -
  let ?arr = "if sorted_cmp reqpkg_cmp arr then arr else rp_sort P reqpkg_cmp arr"
  have m: "mset ?arr = mset arr" using sorted_arrays.sort_mset [OF rp_arrays] by simp
  then have s: "set ?arr = set arr" by (metis set_mset_mset)
  have "sorted_cmp reqpkg_cmp ?arr"
    using sorted_arrays.sort_sorted [OF rp_arrays reqpkg_cmp_order] by simp
  then have k: "key_sorted (\<lambda>r. pkg_cmp_id (rp_pkg r) p) ?arr" by (rule key_sorted_id)
  have f: "rp_find P arr p = (rp_bsearch P (\<lambda>r. pkg_cmp_id (rp_pkg r) p) ?arr, ?arr)"
    by (simp add: rp_find_def Let_def)
  show thesis
  proof (cases rule: sorted_arrays.search_cases [OF rp_arrays k])
    case 1
    then show thesis using none [OF _ m] f s by (simp add: pkg_cmp_id_def)
  next
    case (2 i)
    then show thesis using found [OF _ m] f by (simp add: pkg_cmp_id_def)
  qed
qed

lemma add_reqpkg_shape:
  obtains (none) arr' where "mset arr' = mset arr" "\<forall>r \<in> set arr. nvr (rp_pkg r) \<noteq> nvr p"
      "add_reqpkg P arr req p = arr' @ [reqpkg_new p req (prereq_flags req) []]"
  | (found) i arr' where "mset arr' = mset arr" "i < length arr'" "nvr (rp_pkg (arr' ! i)) = nvr p"
      "add_reqpkg P arr req p = arr'[i := (arr' ! i)\<lparr>rp_flags := rp_flags (arr' ! i) OR prereq_flags req\<rparr>]"
proof (cases rule: rp_find_cases [of arr p])
  case (none arr')
  have "add_reqpkg P arr req p = arr' @ [reqpkg_new p req (prereq_flags req) []]"
    by (simp add: add_reqpkg_def none(1) reqpkg_new_def)
  then show thesis using that(1) none by blast
next
  case (found i arr')
  have "add_reqpkg P arr req p = arr'[i := (arr' ! i)\<lparr>rp_flags := rp_flags (arr' ! i) OR prereq_flags req\<rparr>]"
    by (simp add: add_reqpkg_def found(1))
  then show thesis using that(2) found by blast
qed

end

text \<open>The entries with the packages they stand for.\<close>

definition groups :: "reqpkg list \<Rightarrow> (capreq \<times> pkg list) multiset" where
  "groups arr = mset (map (\<lambda>rp. (rp_req rp, rp_pkgs rp)) arr)"

lemma groups_mset: "mset arr = mset arr' \<Longrightarrow> groups arr = groups arr'"
  by (simp add: groups_def)

lemma groups_add:
  "groups (arr @ [reqpkg_new p req fl []]) = add_mset (req, [p]) (groups arr)"
  "groups (arr @ [reqpkg_new p req fl (map (\<lambda>q. \<lparr>rp_pkg = q, rp_req = req, rp_flags = fl'\<rparr>) ps)]) =
     add_mset (req, p # ps) (groups arr)"
  by (simp_all add: groups_def rp_pkgs_def reqpkg_new_def comp_def)

lemma groups_update:
  "i < length arr \<Longrightarrow> groups (arr[i := (arr ! i)\<lparr>rp_flags := fl\<rparr>]) = groups arr"
  unfolding groups_def
  by (intro arg_cong [of _ _ mset] nth_equalityI) (auto simp: nth_list_update rp_pkgs_def)

lemma groups_mem: "rp \<in> set arr \<Longrightarrow> (rp_req rp, rp_pkgs rp) \<in># groups arr"
  by (auto simp: groups_def)

lemma groups_first: "(req, m # ms) \<in># groups arr \<Longrightarrow> \<exists>rp \<in> set arr. rp_pkg rp = m"
  by (auto simp: groups_def rp_pkgs_def)

text \<open>Some entry has a first package of that name and version.\<close>

definition has_first :: "reqpkg list \<Rightarrow> string \<Rightarrow> bool" where
  "has_first arr a \<longleftrightarrow> (\<exists>rp \<in> set arr. nvr (rp_pkg rp) = a)"

lemma has_first_groups: "has_first arr a \<longleftrightarrow> a \<in> (\<lambda>x. nvr (hd (snd x))) ` set_mset (groups arr)"
  by (force simp: has_first_def groups_def rp_pkgs_def)

lemma has_first_add:
  "groups arr' = add_mset (req, m # ms) (groups arr) \<Longrightarrow> has_first arr' a \<longleftrightarrow> nvr m = a \<or> has_first arr a"
  by (auto simp: has_first_groups)

lemma has_first_cong: "groups arr' = groups arr \<Longrightarrow> has_first arr' a = has_first arr a"
  by (simp add: has_first_groups)

lemma process_req_nil [simp]: "process_req P arr req [] = arr"
  by (simp add: process_req_def)

context ps_env
begin

text \<open>
  A resolved requirement adds its group, or the array has an entry with the same first package
  already and its groups stay as they are.
\<close>

lemma process_req_groups:
  "groups (process_req P arr req (m # ms)) = add_mset (req, m # ms) (groups arr) \<or>
     groups (process_req P arr req (m # ms)) = groups arr \<and> has_first arr (nvr m)"
proof (cases ms)
  case Nil
  then have eq: "process_req P arr req (m # ms) = add_reqpkg P arr req m" by (simp add: process_req_def)
  show ?thesis
  proof (cases rule: add_reqpkg_shape [of arr m req])
    case (none arr')
    then show ?thesis using eq Nil groups_mset [OF none(1)] by (simp add: groups_add)
  next
    case (found i arr')
    then have "groups (add_reqpkg P arr req m) = groups arr"
      using groups_update [OF found(2)] groups_mset [OF found(1)] by simp
    moreover have "arr' ! i \<in> set arr" using found(2) mset_eq_setD [OF found(1)] nth_mem by blast
    ultimately show ?thesis using eq found(3) by (auto simp: has_first_def)
  qed
next
  case (Cons m2 ms2)
  obtain j arr' where f: "rp_find P arr m = (j, arr')" by fastforce
  have g: "groups arr' = groups arr" by (rule groups_mset [OF rp_find_set [OF f]])
  let ?new = "\<lambda>fl fl'. arr' @ [reqpkg_new m req fl (map (\<lambda>q. \<lparr>rp_pkg = q, rp_req = req, rp_flags = fl'\<rparr>) ms)]"
  have "process_req P arr req (m # ms) = ?new (prereq_flags req OR REQPKG_MULTI) (prereq_flags req) \<or>
      process_req P arr req (m # ms) = arr' \<and> j \<noteq> - 1"
    using Cons f by (simp add: process_req_def Let_def)
  moreover have "has_first arr (nvr m)" if "j \<noteq> - 1"
  proof (cases rule: rp_find_cases [of arr m])
    case (found i arr2)
    then have "arr' ! i \<in> set arr" "nvr (rp_pkg (arr' ! i)) = nvr m"
      using f nth_mem [of i arr'] mset_eq_setD [OF found(2)] by auto
    then show ?thesis by (auto simp: has_first_def)
  qed (use f that in simp)
  ultimately show ?thesis using g groups_add(2) [of arr' m req _ "prereq_flags req" ms] by metis
qed

text \<open>The fold over what the requirements resolved to.\<close>

abbreviation fold_reqs ::
  "reqpkg list \<Rightarrow> (capreq \<times> pkg list option) list \<Rightarrow> reqpkg list" where
  "fold_reqs arr res \<equiv>
     foldl (\<lambda>arr (req, ms). case ms of None \<Rightarrow> arr | Some ms \<Rightarrow> process_req P arr req ms) arr res"

lemma fold_reqs_sound:
  "x \<in># groups (fold_reqs arr res) \<Longrightarrow> x \<in># groups arr \<or> (fst x, Some (snd x)) \<in> set res"
proof (induction res arbitrary: arr)
  case (Cons r res)
  obtain req ms where r: "r = (req, ms)" by fastforce
  show ?case
  proof (cases "ms = None \<or> ms = Some []")
    case True
    then show ?thesis using Cons r by auto
  next
    case False
    then obtain m ms' where m: "ms = Some (m # ms')" by (metis neq_Nil_conv option.exhaust)
    have "x \<in># groups (process_req P arr req (m # ms')) \<or> (fst x, Some (snd x)) \<in> set res"
      using Cons.IH [of "process_req P arr req (m # ms')"] Cons.prems r m by simp
    then show ?thesis using process_req_groups [of arr req m ms'] r m by auto
  qed
qed simp

lemma fold_reqs_first:
  "has_first arr a \<or> (\<exists>req m ms. (req, Some (m # ms)) \<in> set res \<and> nvr m = a) \<Longrightarrow>
     has_first (fold_reqs arr res) a"
proof (induction res arbitrary: arr)
  case (Cons r res)
  obtain req ms where r: "r = (req, ms)" by fastforce
  show ?case
  proof (cases "ms = None \<or> ms = Some []")
    case True
    then show ?thesis using Cons r by auto
  next
    case False
    then obtain m ms' where m: "ms = Some (m # ms')" by (metis neq_Nil_conv option.exhaust)
    let ?arr = "process_req P arr req (m # ms')"
    have "has_first ?arr a" if "has_first arr a \<or> nvr m = a"
      using process_req_groups [of arr req m ms'] has_first_add has_first_cong that by metis
    then show ?thesis using Cons.IH [of ?arr] Cons.prems r m by auto
  qed
qed simp

text \<open>
  When no two requirements resolve to the same first package, every requirement has its own
  entry with all its alternatives.
\<close>

lemma fold_reqs_exact:
  assumes "distinct (map (\<lambda>(_, ms). nvr (hd (the ms))) (filter (\<lambda>(_, ms). ms \<noteq> None \<and> ms \<noteq> Some []) res))"
    "\<forall>(_, ms) \<in> set res. ms \<noteq> None \<and> ms \<noteq> Some [] \<longrightarrow> \<not> has_first arr (nvr (hd (the ms)))"
  shows "groups (fold_reqs arr res) = groups arr +
    mset (map (\<lambda>(req, ms). (req, the ms)) (filter (\<lambda>(_, ms). ms \<noteq> None \<and> ms \<noteq> Some []) res))"
  using assms
proof (induction res arbitrary: arr)
  case (Cons r res)
  obtain req ms where r: "r = (req, ms)" by fastforce
  show ?case
  proof (cases "ms = None \<or> ms = Some []")
    case True
    then show ?thesis using Cons r by auto
  next
    case False
    then obtain m ms' where m: "ms = Some (m # ms')" by (metis neq_Nil_conv option.exhaust)
    let ?arr = "process_req P arr req (m # ms')"
    have g: "groups ?arr = add_mset (req, m # ms') (groups arr)"
      using process_req_groups [of arr req m ms'] Cons.prems(2) r m by auto
    have "\<not> has_first ?arr (nvr (hd xs))" if q: "(q, Some xs) \<in> set res" "xs \<noteq> []" for q xs
    proof -
      let ?f = "\<lambda>(_, ms). nvr (hd (the ms))" and ?l = "filter (\<lambda>(_, ms). ms \<noteq> None \<and> ms \<noteq> Some []) res"
      have "(q, Some xs) \<in> set ?l" using q by simp
      then have mem: "nvr (hd xs) \<in> set (map ?f ?l)" by force
      have "nvr m \<notin> set (map ?f ?l)" using Cons.prems(1) r m by simp
      then have "nvr m \<noteq> nvr (hd xs)" using mem by (metis (no_types))
      moreover have "\<not> has_first arr (nvr (hd xs))" using Cons.prems(2) q by force
      ultimately show ?thesis using has_first_add [OF g, of "nvr (hd xs)"] by (simp only: HOL.simp_thms)
    qed
    then have "\<forall>(_, ms) \<in> set res. ms \<noteq> None \<and> ms \<noteq> Some [] \<longrightarrow> \<not> has_first ?arr (nvr (hd (the ms)))"
      by auto
    then show ?thesis using Cons.IH [of ?arr] Cons.prems(1) r m g by simp
  qed
qed simp

end

section \<open>The caches\<close>

text \<open>
  The contract of the package set with its callers: what it answered once it answers again,
  whatever other packages it is asked for.
\<close>

locale req_source =
  fixes getreq :: "'s \<Rightarrow> pkg \<Rightarrow> reqpkg list option \<times> 's"
    and known :: "'s \<Rightarrow> pkg \<Rightarrow> reqpkg list option \<Rightarrow> bool"
    and compat :: "pkg \<Rightarrow> pkg \<Rightarrow> bool"
  assumes asked: "known (snd (getreq s p)) p (fst (getreq s p))"
    and again: "known s p r \<Longrightarrow> fst (getreq s p) = r"
    and kept: "known s p r \<Longrightarrow> compat p q \<Longrightarrow> known (snd (getreq s q)) p r"

lemma index_caps_caches [simp]:
  "req_cache (pkgset_index_caps E ps) = req_cache ps"
  "reqpkgs_cache (pkgset_index_caps E ps) = reqpkgs_cache ps"
proof -
  have f: "req_cache (foldl (\<lambda>ps p. index_package_caps p ps) ps pkgs) = req_cache ps \<and>
      reqpkgs_cache (foldl (\<lambda>ps p. index_package_caps p ps) ps pkgs) = reqpkgs_cache ps" for ps pkgs
    by (induction pkgs arbitrary: ps) (simp_all add: index_package_caps_def)
  show "req_cache (pkgset_index_caps E ps) = req_cache ps"
    "reqpkgs_cache (pkgset_index_caps E ps) = reqpkgs_cache ps"
    by (simp_all add: pkgset_index_caps_def Let_def f)
qed

lemma find_match_caches [simp]:
  "req_cache (snd (pkgset_find_match_packages E P R ps p req strict)) = req_cache ps"
  "reqpkgs_cache (snd (pkgset_find_match_packages E P R ps p req strict)) = reqpkgs_cache ps"
proof -
  have s: "req_cache (snd (psreq_sus E P R ps req)) = req_cache ps"
    "reqpkgs_cache (snd (psreq_sus E P R ps req)) = reqpkgs_cache ps"
    by (simp_all add: psreq_sus_def Let_def split: prod.split option.split)
  have "snd (psreq_lookup E P R ps req) = snd (psreq_sus E P R ps req)"
    by (auto simp: psreq_lookup_def Let_def split: prod.splits if_splits)
  moreover have "snd (pkgset_find_match_packages E P R ps p req strict) = snd (psreq_lookup E P R ps req)"
    by (auto simp: pkgset_find_match_packages_def Let_def split: prod.splits if_splits)
  ultimately show "req_cache (snd (pkgset_find_match_packages E P R ps p req strict)) = req_cache ps"
    "reqpkgs_cache (snd (pkgset_find_match_packages E P R ps p req strict)) = reqpkgs_cache ps"
    using s by simp_all
qed

abbreviation req_key :: "psenv \<Rightarrow> capreq \<Rightarrow> string" where
  "req_key P req \<equiv> capreq_snprintf (nsnprintf P) 512 req"

lemma resolve_req_caches:
  assumes "req_cache ps = Some c"
  shows "\<exists>c'. req_cache (snd (resolve_req E P R p strict req ps)) = Some c' \<and> c \<subseteq>\<^sub>m c' \<and>
    c' (req_key P req) = Some (fst (resolve_req E P R p strict req ps))"
    and "reqpkgs_cache (snd (resolve_req E P R p strict req ps)) = reqpkgs_cache ps"
proof -
  obtain f q ps1 where m: "pkgset_find_match_packages E P R ps (Some p) req strict = ((f, q), ps1)"
    by (metis prod.exhaust)
  then have "reqpkgs_cache ps1 = reqpkgs_cache ps" by (metis find_match_caches(2) snd_conv)
  then show "reqpkgs_cache (snd (resolve_req E P R p strict req ps)) = reqpkgs_cache ps"
    using assms m by (simp add: resolve_req_def Let_def split: option.split)
  show "\<exists>c'. req_cache (snd (resolve_req E P R p strict req ps)) = Some c' \<and> c \<subseteq>\<^sub>m c' \<and>
      c' (req_key P req) = Some (fst (resolve_req E P R p strict req ps))"
    using assms m by (auto simp: resolve_req_def Let_def map_le_def split: option.split)
qed

text \<open>The fold over the requirements of a package with the answers of a cache alone.\<close>

fun replay ::
  "psenv \<Rightarrow> (string \<Rightarrow> pkg list option option) \<Rightarrow> capreq list \<Rightarrow> reqpkg list \<Rightarrow> reqpkg list option" where
  "replay P c [] arr = Some arr"
| "replay P c (req # rs) arr =
     (if capreq_is_rpmlib req then replay P c rs arr
      else case c (req_key P req) of
             None \<Rightarrow> None
           | Some None \<Rightarrow> replay P c rs arr
           | Some (Some ms) \<Rightarrow> replay P c rs (process_req P arr req ms))"

lemma replay_mono: "replay P c rs arr = Some r \<Longrightarrow> c \<subseteq>\<^sub>m c' \<Longrightarrow> replay P c' rs arr = Some r"
proof (induction P c rs arr rule: replay.induct)
  case (2 P c req rs arr)
  have "c (req_key P req) = Some x \<Longrightarrow> c' (req_key P req) = Some x" for x
    using 2(5) by (metis domI map_le_def)
  then show ?case using 2 by (auto split: if_splits option.splits)
qed simp

lemma process_reqs_replay:
  assumes "req_cache ps = Some c" "replay P c rs arr = Some r"
  shows "\<exists>un' n'. process_reqs E P R p strict rs arr ps un n = (r, ps, un', n')"
  using assms
proof (induction rs arbitrary: arr un n)
  case (Cons req rs)
  then show ?case
    by (auto simp: resolve_req_def Let_def split: if_splits option.splits)
qed simp

lemma process_reqs_caches:
  assumes "req_cache ps = Some c" "process_reqs E P R p strict rs arr ps un n = (r, ps', un', n')"
  shows "\<exists>c'. req_cache ps' = Some c' \<and> c \<subseteq>\<^sub>m c' \<and> replay P c' rs arr = Some r \<and>
    reqpkgs_cache ps' = reqpkgs_cache ps"
  using assms
proof (induction rs arbitrary: arr ps c un n)
  case (Cons req rs)
  show ?case
  proof (cases "capreq_is_rpmlib req")
    case False
    obtain ms ps1 where q: "resolve_req E P R p strict req ps = (ms, ps1)" by fastforce
    then obtain c1 where c1: "req_cache ps1 = Some c1" "c \<subseteq>\<^sub>m c1" "c1 (req_key P req) = Some ms"
      "reqpkgs_cache ps1 = reqpkgs_cache ps"
      using resolve_req_caches [OF Cons.prems(1), of E P R p strict req] by auto
    obtain un1 n1 where "process_reqs E P R p strict rs
        (case ms of None \<Rightarrow> arr | Some ms \<Rightarrow> process_req P arr req ms) ps1 un1 n1 = (r, ps', un', n')"
      using Cons.prems(2) q False by (cases ms) auto
    from Cons.IH [OF c1(1) this] obtain c' where c': "req_cache ps' = Some c'" "c1 \<subseteq>\<^sub>m c'"
      "replay P c' rs (case ms of None \<Rightarrow> arr | Some ms \<Rightarrow> process_req P arr req ms) = Some r"
      "reqpkgs_cache ps' = reqpkgs_cache ps1" by blast
    have "c' (req_key P req) = Some ms" using c1(3) c'(2) by (metis domI map_le_def)
    then show ?thesis using False c' c1 map_le_trans by (cases ms) auto
  qed (use Cons in auto)
qed auto

text \<open>What a package set knows about the requirements of a package.\<close>

definition rp_cache :: "pkgset \<Rightarrow> string \<Rightarrow> reqpkg list option" where
  "rp_cache ps = (case reqpkgs_cache ps of None \<Rightarrow> (\<lambda>_. None) | Some c \<Rightarrow> c)"

definition reqs_known :: "psenv \<Rightarrow> pkgset \<Rightarrow> pkg \<Rightarrow> reqpkg list option \<Rightarrow> bool" where
  "reqs_known P ps p r \<longleftrightarrow> rp_cache ps (nvr p) = r \<and>
     (r = None \<longrightarrow>
       (\<forall>rs. reqs p = Some rs \<longrightarrow> (\<exists>c. req_cache ps = Some c \<and> replay P c rs [] = Some [])))"

definition same_reqs :: "pkg \<Rightarrow> pkg \<Rightarrow> bool" where
  "same_reqs p q \<longleftrightarrow> (nvr p = nvr q \<longrightarrow> reqs p = reqs q)"

lemma get_required_hit:
  "rp_cache ps (nvr p) = Some arr \<Longrightarrow> pkgset_get_required_packages E P R ps p = (Some arr, ps)"
  by (simp add: pkgset_get_required_packages_def rp_cache_def)

lemma get_required_miss:
  assumes "rp_cache ps (nvr p) = None" "pkgset_get_required_packages E P R ps p = (r, ps')"
  shows "rp_cache ps' = (rp_cache ps)(nvr p := r)"
    and "r = None \<Longrightarrow> reqs p = Some rs \<Longrightarrow> \<exists>c'. req_cache ps' = Some c' \<and> replay P c' rs [] = Some []"
    and "req_cache ps = Some rc \<Longrightarrow> \<exists>rc'. req_cache ps' = Some rc' \<and> rc \<subseteq>\<^sub>m rc'"
    and "req_cache ps = Some rc \<Longrightarrow> (\<forall>rs. reqs p = Some rs \<longrightarrow> replay P rc rs [] = Some []) \<Longrightarrow> r = None"
proof -
  let ?ps = "ps\<lparr>reqpkgs_cache := Some (rp_cache ps)\<rparr>"
  obtain r1 ps1 un1 where x: "pkgset_get_required_packages_x E P R ?ps p None = (r1, ps1, un1)"
    by (metis prod.exhaust)
  have r: "r = r1"
    "ps' = (case r1 of None \<Rightarrow> ps1 | Some arr \<Rightarrow> ps1\<lparr>reqpkgs_cache := Some ((rp_cache ps)(nvr p \<mapsto> arr))\<rparr>)"
    using assms x unfolding pkgset_get_required_packages_def Let_def rp_cache_def [symmetric] by auto
  have none: "(rp_cache ps)(nvr p := None) = rp_cache ps" using assms(1) by auto
  have all: "rp_cache ps' = (rp_cache ps)(nvr p := r) \<and>
    (\<forall>rs. r = None \<longrightarrow> reqs p = Some rs \<longrightarrow> (\<exists>c'. req_cache ps' = Some c' \<and> replay P c' rs [] = Some [])) \<and>
    (\<forall>rc. req_cache ps = Some rc \<longrightarrow> (\<exists>rc'. req_cache ps' = Some rc' \<and> rc \<subseteq>\<^sub>m rc')) \<and>
    (\<forall>rc. req_cache ps = Some rc \<longrightarrow> (\<forall>rs. reqs p = Some rs \<longrightarrow> replay P rc rs [] = Some []) \<longrightarrow> r = None)"
  proof (cases "reqs p")
    case None
    then have "r1 = None" "ps1 = ?ps" using x by (simp_all add: pkgset_get_required_packages_x_def)
    then show ?thesis using r None none by (simp add: rp_cache_def)
  next
    case (Some rs)
    let ?ps1 = "case req_cache ?ps of None \<Rightarrow> ?ps\<lparr>req_cache := Some (\<lambda>_. None)\<rparr> | Some _ \<Rightarrow> ?ps"
    let ?rc = "case req_cache ps of None \<Rightarrow> (\<lambda>_. None) | Some rc \<Rightarrow> rc"
    obtain arr ps2 un2 n2 where pr: "process_reqs E P R p True rs [] (pkgset_index_caps E ?ps1) None 0 = (arr, ps2, un2, n2)"
      by (metis prod.exhaust)
    have c1: "req_cache (pkgset_index_caps E ?ps1) = Some ?rc" "reqpkgs_cache (pkgset_index_caps E ?ps1) = Some (rp_cache ps)"
      by (simp_all split: option.split)
    with process_reqs_caches [OF this(1) pr] obtain c' where
      c': "req_cache ps2 = Some c'" "?rc \<subseteq>\<^sub>m c'" "replay P c' rs [] = Some arr" "reqpkgs_cache ps2 = Some (rp_cache ps)"
      by auto
    have r1: "r1 = (if arr = [] then None else Some arr)" "ps1 = ps2"
      using x Some pr by (simp_all add: pkgset_get_required_packages_x_def Let_def)
    have "arr = []" if "req_cache ps = Some rc" "replay P rc rs [] = Some []" for rc
      using replay_mono [OF that(2), of c'] c'(2,3) that(1) by simp
    moreover have rp: "rp_cache ps2 = rp_cache ps" using c'(4) by (simp add: rp_cache_def)
    ultimately show ?thesis using r r1 c'(1-3) none Some
      by (cases "arr = []") (auto simp: rp_cache_def [of "ps2\<lparr>reqpkgs_cache := _\<rparr>"])
  qed
  show "rp_cache ps' = (rp_cache ps)(nvr p := r)" using all by blast
  show "r = None \<Longrightarrow> reqs p = Some rs \<Longrightarrow> \<exists>c'. req_cache ps' = Some c' \<and> replay P c' rs [] = Some []"
    using all by blast
  show "req_cache ps = Some rc \<Longrightarrow> \<exists>rc'. req_cache ps' = Some rc' \<and> rc \<subseteq>\<^sub>m rc'" using all by blast
  show "req_cache ps = Some rc \<Longrightarrow> (\<forall>rs. reqs p = Some rs \<longrightarrow> replay P rc rs [] = Some []) \<Longrightarrow> r = None"
    using all by blast
qed

lemma reqs_asked:
  "reqs_known P (snd (pkgset_get_required_packages E P R ps p)) p (fst (pkgset_get_required_packages E P R ps p))"
proof -
  obtain r ps' where g: "pkgset_get_required_packages E P R ps p = (r, ps')" by fastforce
  show ?thesis
  proof (cases "rp_cache ps (nvr p)")
    case None
    then show ?thesis using get_required_miss(1,2) [OF None g] g by (auto simp: reqs_known_def)
  qed (simp add: get_required_hit reqs_known_def)
qed

lemma reqs_again:
  assumes "reqs_known P ps p r"
  shows "fst (pkgset_get_required_packages E P R ps p) = r"
proof (cases r)
  case (Some arr)
  then show ?thesis using assms get_required_hit by (auto simp: reqs_known_def)
next
  case None
  obtain r' ps' where g: "pkgset_get_required_packages E P R ps p = (r', ps')" by fastforce
  have n: "rp_cache ps (nvr p) = None" using assms None by (simp add: reqs_known_def)
  have "r' = None"
  proof (cases "reqs p")
    case None
    then show ?thesis using g by (auto simp: pkgset_get_required_packages_def pkgset_get_required_packages_x_def
          Let_def n [unfolded rp_cache_def])
  next
    case (Some rs)
    then show ?thesis using get_required_miss(4) [OF n g] assms None by (auto simp: reqs_known_def)
  qed
  then show ?thesis using g None by simp
qed

lemma reqs_kept:
  assumes k: "reqs_known P ps p r" and same: "same_reqs p q"
  shows "reqs_known P (snd (pkgset_get_required_packages E P R ps q)) p r"
proof (cases "rp_cache ps (nvr q)")
  case None
  obtain r' ps' where g: "pkgset_get_required_packages E P R ps q = (r', ps')" by fastforce
  note miss = get_required_miss [OF None g]
  have "\<exists>c'. req_cache ps' = Some c' \<and> replay P c' rs [] = Some []" if rn: "r = None" and rq: "reqs p = Some rs" for rs
  proof -
    obtain c where c: "req_cache ps = Some c" "replay P c rs [] = Some []"
      using k rn rq by (auto simp: reqs_known_def)
    then show ?thesis using miss(3) [OF c(1)] replay_mono [OF c(2)] by blast
  qed
  moreover have "rp_cache ps' (nvr p) = r"
  proof (cases "nvr p = nvr q")
    case True
    then have "r = None" "reqs_known P ps q None"
      using k None same by (auto simp: reqs_known_def same_reqs_def)
    then show ?thesis using reqs_again [of P ps q None E R] g miss(1) True by simp
  next
    case False
    then show ?thesis using miss(1) k by (simp add: reqs_known_def)
  qed
  ultimately show ?thesis using g by (simp add: reqs_known_def)
qed (use k in \<open>simp add: get_required_hit\<close>)

interpretation pkgset_reqs: req_source "pkgset_get_required_packages E P R" "reqs_known P" same_reqs
  for E :: penv and P :: psenv and R :: arch_registry
  by unfold_locales (fact reqs_asked, fact reqs_again, fact reqs_kept)

section \<open>What a package requires\<close>

text \<open>The packages of the set that satisfy a requirement, and the requirements looked up by name.\<close>

definition satisfiers :: "penv \<Rightarrow> pkgset \<Rightarrow> capreq \<Rightarrow> pkg set" where
  "satisfiers E ps req =
     {q \<in> set (ps_pkgs ps). provides_name (cr_name req) q \<and> fits_req E req True q}"

definition plain_req :: "capreq \<Rightarrow> bool" where
  "plain_req req \<longleftrightarrow> \<not> capreq_is_file req \<and> \<not> capreq_is_rpmlib req \<and> cr_name req \<noteq> ''elf(buildid)''"

definition resolved :: "penv \<Rightarrow> pkgset \<Rightarrow> pkg \<Rightarrow> capreq \<times> pkg list option \<Rightarrow> bool" where
  "resolved E ps p r \<longleftrightarrow>
     (case snd r of
        None \<Rightarrow> satisfiers E ps (fst r) = {}
      | Some ms \<Rightarrow> set ms =
          (if \<exists>q \<in> satisfiers E ps (fst r). addr q = addr p then {} else satisfiers E ps (fst r)))"

lemma satisfiers_cong: "ps_pkgs ps' = ps_pkgs ps \<Longrightarrow> satisfiers E ps' = satisfiers E ps"
  by (simp add: satisfiers_def fun_eq_iff)

lemma resolved_cong: "ps_pkgs ps' = ps_pkgs ps \<Longrightarrow> resolved E ps' p = resolved E ps p"
proof -
  assume "ps_pkgs ps' = ps_pkgs ps"
  then have "satisfiers E ps' = satisfiers E ps" by (rule satisfiers_cong)
  then show ?thesis unfolding resolved_def by (rule ssubst) (rule refl)
qed

lemma indexed_cache [simp]: "indexed (ps\<lparr>req_cache := x\<rparr>) = indexed ps"
  by (simp add: indexed_def)

lemma resolve_req_fresh:
  assumes ps: "indexed ps" "req_cache ps = Some c" and req: "plain_req req" "c (req_key P req) = None"
    and r: "resolve_req E P R p True req ps = (ms, ps')"
  shows "resolved E ps p (req, ms) \<and> indexed ps' \<and> ps_pkgs ps' = ps_pkgs ps \<and>
    req_cache ps' = Some (c(req_key P req \<mapsto> ms))"
proof -
  obtain found pushed ps1 where m: "pkgset_find_match_packages E P R ps (Some p) req True = ((found, pushed), ps1)"
    by (metis prod.exhaust)
  note fm = find_match [OF ps(1) _ _ _ m, folded satisfiers_def]
  have f: "satisfiers E ps req \<noteq> {} \<Longrightarrow> found" "indexed ps1" "ps_pkgs ps1 = ps_pkgs ps"
    "set pushed = (if \<exists>q \<in> satisfiers E ps req. addr q = addr p then {} else satisfiers E ps req)"
    using fm req(1) by (simp_all add: plain_req_def)
  have "ms = (if found then Some pushed else None)" "ps' = ps1\<lparr>req_cache := Some (c(req_key P req \<mapsto> ms))\<rparr>"
    using r m ps(2) req(2) by (auto simp: resolve_req_def Let_def)
  then show ?thesis using f by (cases found) (auto simp: resolved_def)
qed

lemma resolve_all_fresh:
  assumes "indexed ps" "req_cache ps = Some c"
    and "\<forall>req \<in> set rs. capreq_is_rpmlib req \<or> plain_req req \<and> c (req_key P req) = None"
    and "distinct (map (req_key P) (filter (\<lambda>req. \<not> capreq_is_rpmlib req) rs))"
    and "resolve_all E P R p True rs ps = (res, ps')"
  shows "map fst res = filter (\<lambda>req. \<not> capreq_is_rpmlib req) rs \<and> (\<forall>r \<in> set res. resolved E ps p r)"
  using assms
proof (induction rs arbitrary: ps c res)
  case (Cons req rs)
  show ?case
  proof (cases "capreq_is_rpmlib req")
    case False
    then obtain ms ps1 rest where r: "resolve_req E P R p True req ps = (ms, ps1)"
      "resolve_all E P R p True rs ps1 = (rest, ps')" "res = (req, ms) # rest"
      using Cons.prems(5) by (auto split: prod.splits)
    have pl: "plain_req req" "c (req_key P req) = None" using Cons.prems(3) False by auto
    note one = resolve_req_fresh [OF Cons.prems(1,2) pl r(1)]
    have "map fst rest = filter (\<lambda>req. \<not> capreq_is_rpmlib req) rs \<and> (\<forall>r \<in> set rest. resolved E ps1 p r)"
    proof (rule Cons.IH [OF _ _ _ _ r(2)])
      show "\<forall>req' \<in> set rs. capreq_is_rpmlib req' \<or>
          plain_req req' \<and> (c(req_key P req \<mapsto> ms)) (req_key P req') = None"
      proof
        fix req' assume q: "req' \<in> set rs"
        show "capreq_is_rpmlib req' \<or> plain_req req' \<and> (c(req_key P req \<mapsto> ms)) (req_key P req') = None"
        proof (cases "capreq_is_rpmlib req'")
          case f: False
          then have "req_key P req' \<in> req_key P ` {x \<in> set rs. \<not> capreq_is_rpmlib x}" using q by blast
          then have "req_key P req' \<noteq> req_key P req" using Cons.prems(4) False by force
          then show ?thesis using Cons.prems(3) q f by auto
        qed simp
      qed
    qed (use one Cons.prems(4) False in auto)
    then show ?thesis using one resolved_cong [of ps1 ps E p] r(3) False by simp
  qed (use Cons in auto)
qed simp

context ps_env
begin

lemma required_fresh:
  assumes ps: "indexed ps" "req_cache ps = None" "rp_cache ps (nvr p) = None" and rs: "reqs p = Some rs"
    and plain: "\<forall>req \<in> set rs. capreq_is_rpmlib req \<or> plain_req req"
    and keys: "distinct (map (req_key P) (filter (\<lambda>req. \<not> capreq_is_rpmlib req) rs))"
    and get: "pkgset_get_required_packages E P R ps p = (r, ps')"
  obtains res where "map fst res = filter (\<lambda>req. \<not> capreq_is_rpmlib req) rs" "\<forall>r \<in> set res. resolved E ps p r"
    "r = (let arr = fold_reqs [] res in if arr = [] then None else Some arr)"
proof -
  let ?ps = "ps\<lparr>reqpkgs_cache := Some (rp_cache ps), req_cache := Some (\<lambda>_. None)\<rparr>"
  have ix: "indexed ?ps" using ps(1) by (simp add: indexed_def)
  obtain res ps2 where res: "resolve_all E P R p True rs ?ps = (res, ps2)" by fastforce
  obtain arr ps3 un n where pr: "process_reqs E P R p True rs [] ?ps None 0 = (arr, ps3, un, n)"
    by (metis prod.exhaust)
  have arr: "arr = fold_reqs [] res"
    using process_reqs_resolve [of E P R p True rs "[]" ?ps None 0] unfolding pr res by simp
  have "r = (if arr = [] then None else Some arr)"
    using get ps(2,3) rs pr index_caps_id [OF ix, of E]
    by (simp add: pkgset_get_required_packages_def rp_cache_def [symmetric] pkgset_get_required_packages_x_def)
  then have "r = (let arr = fold_reqs [] res in if arr = [] then None else Some arr)"
    using arr by (simp only: Let_def)
  moreover have "resolved E ?ps p = resolved E ps p" by (rule resolved_cong) simp
  ultimately show thesis
    using that [of res] resolve_all_fresh [OF ix _ _ keys res, of "\<lambda>_. None"] plain by auto
qed

lemma required_sound:
  assumes "indexed ps" "req_cache ps = None" "rp_cache ps (nvr p) = None" "reqs p = Some rs"
    "\<forall>req \<in> set rs. capreq_is_rpmlib req \<or> plain_req req"
    "distinct (map (req_key P) (filter (\<lambda>req. \<not> capreq_is_rpmlib req) rs))"
    "pkgset_get_required_packages E P R ps p = (Some arr, ps')"
    and rp: "rp \<in> set arr"
  shows "rp_req rp \<in> set rs" "set (rp_pkgs rp) = satisfiers E ps (rp_req rp)"
    "\<forall>q \<in> satisfiers E ps (rp_req rp). addr q \<noteq> addr p"
proof -
  obtain res where res: "map fst res = filter (\<lambda>req. \<not> capreq_is_rpmlib req) rs" "\<forall>r \<in> set res. resolved E ps p r"
    "Some arr = (let arr = fold_reqs [] res in if arr = [] then None else Some arr)"
    by (rule required_fresh [OF assms(1-7)])
  then have "arr = fold_reqs [] res" by (simp add: Let_def split: if_splits)
  then have m: "(rp_req rp, Some (rp_pkgs rp)) \<in> set res"
    using fold_reqs_sound [of "(rp_req rp, rp_pkgs rp)" "[]" res] groups_mem [OF rp] by (simp add: groups_def)
  then have "rp_req rp \<in> set (map fst res)" by force
  then show "rp_req rp \<in> set rs" using res(1) by simp
  have "rp_pkgs rp \<noteq> []" by (simp add: rp_pkgs_def)
  moreover have "set (rp_pkgs rp) = (if \<exists>q \<in> satisfiers E ps (rp_req rp). addr q = addr p then {}
      else satisfiers E ps (rp_req rp))"
    using bspec [OF res(2) m] by (simp add: resolved_def)
  ultimately show "set (rp_pkgs rp) = satisfiers E ps (rp_req rp)"
    "\<forall>q \<in> satisfiers E ps (rp_req rp). addr q \<noteq> addr p" by (auto split: if_splits)
qed

lemma required_complete:
  assumes "indexed ps" "req_cache ps = None" "rp_cache ps (nvr p) = None" "reqs p = Some rs"
    "\<forall>req \<in> set rs. capreq_is_rpmlib req \<or> plain_req req"
    "distinct (map (req_key P) (filter (\<lambda>req. \<not> capreq_is_rpmlib req) rs))"
    "pkgset_get_required_packages E P R ps p = (r, ps')"
    and req: "req \<in> set rs" "\<not> capreq_is_rpmlib req" "satisfiers E ps req \<noteq> {}"
      "\<forall>q \<in> satisfiers E ps req. addr q \<noteq> addr p"
  shows "\<exists>arr. r = Some arr \<and> (\<exists>rp \<in> set arr. \<exists>q \<in> satisfiers E ps req. nvr (rp_pkg rp) = nvr q)"
proof -
  obtain res where res: "map fst res = filter (\<lambda>req. \<not> capreq_is_rpmlib req) rs" "\<forall>r \<in> set res. resolved E ps p r"
    "r = (let arr = fold_reqs [] res in if arr = [] then None else Some arr)"
    by (rule required_fresh [OF assms(1-7)])
  have "req \<in> set (map fst res)" using res(1) req(1,2) by simp
  then obtain ms where m: "(req, ms) \<in> set res" by auto
  then obtain xs where xs: "ms = Some xs" "set xs = satisfiers E ps req"
    using res(2) req(3,4) by (fastforce simp: resolved_def split: option.splits)
  then obtain x xs' where x: "xs = x # xs'" using req(3) by (cases xs) auto
  then have "has_first (fold_reqs [] res) (nvr x)"
    using fold_reqs_first [of "[]" "nvr x" res] m xs(1) by blast
  then obtain rp where rp: "rp \<in> set (fold_reqs [] res)" "nvr (rp_pkg rp) = nvr x"
    by (auto simp: has_first_def)
  have "x \<in> satisfiers E ps req" using xs(2) x by auto
  then have "\<exists>q \<in> satisfiers E ps req. nvr (rp_pkg rp) = nvr q" using rp(2) by blast
  moreover have "r = Some (fold_reqs [] res)" using rp(1) res(3) by (auto simp: Let_def)
  ultimately show ?thesis using rp(1) by blast
qed

end

section \<open>Properties\<close>


text \<open>A package set for concrete inputs: indexed, nothing asked yet.\<close>

definition ref_set :: "pkg list \<Rightarrow> pkgset" where
  "ref_set pkgs = pkgset_index_caps ref_env (pkgset_new\<lparr>ps_pkgs := pkgs\<rparr>)"

definition ref_cap :: "string \<Rightarrow> capreq" where
  "ref_cap nm = the (capreq_new False nm 0 None None 0 0)"

lemma ref_set_fresh:
  assumes "distinct (map addr pkgs)" "\<forall>p \<in> set pkgs. small_addr p"
  shows "indexed (ref_set pkgs)" "req_cache (ref_set pkgs) = None" "rp_cache (ref_set pkgs) a = None"
  using assms index_caps_indexed [of "pkgset_new\<lparr>ps_pkgs := pkgs\<rparr>" ref_env]
  by (simp_all add: ref_set_def pkgset_new_def rp_cache_def)


text \<open>C20: what the set has answered for a package it answers again, whatever other packages it is
  asked for in between, as long as equal names and versions mean equal requirements.\<close>

theorem required_packages_stable:
  assumes "\<forall>q \<in> set qs. same_reqs p q"
  shows "fst (pkgset_get_required_packages E P R
      (fold (\<lambda>q ps. snd (pkgset_get_required_packages E P R ps q)) qs
        (snd (pkgset_get_required_packages E P R ps p))) p) =
    fst (pkgset_get_required_packages E P R ps p)"
proof -
  let ?g = "pkgset_get_required_packages E P R" and ?r = "fst (pkgset_get_required_packages E P R ps p)"
  have "reqs_known P (fold (\<lambda>q ps. snd (?g ps q)) qs ps1) p ?r" if "reqs_known P ps1 p ?r" for ps1
    using that assms
  proof (induction qs arbitrary: ps1)
    case (Cons q qs)
    then show ?case using pkgset_reqs.kept [of P ps1 p ?r q E R] by simp
  qed simp
  then show ?thesis using pkgset_reqs.asked pkgset_reqs.again by blast
qed

theorem required_packages_stable_witness:
  defines "get \<equiv> pkgset_get_required_packages ref_env ref_psenv arch_registry_init"
    and "a \<equiv> ref_pkg 3 ''a'' [] [ref_cap ''b'']" and "b \<equiv> ref_pkg 4 ''b'' [] []"
  shows "fst (get (snd (get (snd (get (ref_set [a, b]) a)) b)) a) = fst (get (ref_set [a, b]) a)"
  unfolding get_def a_def b_def
  using required_packages_stable [of "[ref_pkg 4 ''b'' [] []]" "ref_pkg 3 ''a'' [] [ref_cap ''b'']"]
  by (simp add: same_reqs_def)

text \<open>the cache of resolved requirements is keyed by the text of the requirement alone. A
  package that satisfies a requirement itself leaves the answer ``nothing to install'' behind, and
  the next package with the same requirement gets it although it alone would get a package.\<close>

theorem self_match_poisons_cache:
  defines "p \<equiv> ref_pkg 3 ''p'' [ref_cap ''v''] [ref_cap ''v'']" and "q \<equiv> ref_pkg 4 ''q'' [] [ref_cap ''v'']"
  defines "get \<equiv> pkgset_get_required_packages ref_env ref_psenv arch_registry_init"
  shows "map_option (map (\<lambda>rp. name (rp_pkg rp))) (fst (get (ref_set [p, q]) q)) = Some [''p''] \<and>
    fst (get (snd (get (ref_set [p, q]) p)) q) = None"
proof
  show "map_option (map (\<lambda>rp. name (rp_pkg rp))) (fst (get (ref_set [p, q]) q)) = Some [''p'']"
    unfolding p_def q_def get_def by code_simp
  have "Option.is_none (fst (get (snd (get (ref_set [p, q]) p)) q))"
    unfolding p_def q_def get_def by code_simp
  then show "fst (get (snd (get (ref_set [p, q]) p)) q) = None" by (simp add: Option.is_none_def)
qed

text \<open>a requirement that one package alone satisfies is merged into an entry of alternatives
  headed by that package: \<open>p\<close> requires \<open>v\<close>, which \<open>a\<close> and \<open>b\<close> provide, and \<open>a\<close> itself, and the only
  entry says that \<open>a\<close> or \<open>b\<close> will do.\<close>

theorem strict_requirement_lost:
  defines "a \<equiv> ref_pkg 3 ''a'' [ref_cap ''v''] []" and "b \<equiv> ref_pkg 4 ''b'' [ref_cap ''v''] []"
  defines "p \<equiv> ref_pkg 5 ''p'' [] [ref_cap ''v'', ref_cap ''a'']"
  shows "map_option (map (\<lambda>rp. map name (rp_pkgs rp)))
      (fst (pkgset_get_required_packages ref_env ref_psenv arch_registry_init (ref_set [a, b, p]) p)) =
    Some [[''a'', ''b'']]"
  unfolding a_def b_def p_def by code_simp

end
