(* ===== verification/Pkgset_State.thy ===== *)
theory Pkgset_State
  imports Pkgset_Dep
begin

text \<open>
  The package set as a state machine: the public operations of pkgset.c, pkgset-req.c and
  pkgset-dep.c are its steps, in any order. What every reachable set keeps is that its packages
  are distinct and that its capability index, once built, is exact.
\<close>

section \<open>The steps\<close>

inductive ps_step :: "penv \<Rightarrow> psenv \<Rightarrow> arch_registry \<Rightarrow> pkgset \<Rightarrow> pkgset \<Rightarrow> bool" for E P R where
  add: "small_addr p \<Longrightarrow> nonneg32 (epoch p) \<Longrightarrow> addr p \<notin> addr ` set (ps_pkgs ps) \<Longrightarrow>
    pkgset_add_package E P R ps p = (b, ps') \<Longrightarrow> ps_step E P R ps ps'"
| remove: "nonneg32 (epoch p) \<Longrightarrow> pkgset_remove_package E P R ps p = Some (b, ps') \<Longrightarrow> ps_step E P R ps ps'"
| search: "pkgset_search E P R ps tag v = (r, ps') \<Longrightarrow> ps_step E P R ps ps'"
| find_match: "pkgset_find_match_packages E P R ps q req strict = (r, ps') \<Longrightarrow> ps_step E P R ps ps'"
| required: "pkgset_get_required_packages E P R ps p = (r, ps') \<Longrightarrow> ps_step E P R ps ps'"
| conflicted: "pkgset_get_conflicted_packages E P R ps p = (r, ps') \<Longrightarrow> ps_step E P R ps ps'"
| requiredby: "pkgset_get_requiredby_packages E P R ps p = (r, ps') \<Longrightarrow> ps_step E P R ps ps'"

inductive ps_reachable :: "penv \<Rightarrow> psenv \<Rightarrow> arch_registry \<Rightarrow> pkgset \<Rightarrow> bool" for E P R where
  new: "ps_reachable E P R pkgset_new"
| step: "ps_reachable E P R ps \<Longrightarrow> ps_step E P R ps ps' \<Longrightarrow> ps_reachable E P R ps'"

inductive_cases ps_stepE: "ps_step E P R ps ps'"

section \<open>The invariant\<close>

definition pkgs_ok :: "penv \<Rightarrow> pkg list \<Rightarrow> bool" where
  "pkgs_ok E pkgs \<longleftrightarrow> distinct (map addr pkgs) \<and>
     (\<forall>p \<in> set pkgs. small_addr p \<and> nonneg32 (epoch p)) \<and>
     (\<forall>p \<in> set pkgs. \<forall>q \<in> set pkgs. pkg_cmp_name_evr E p q = 0 \<longrightarrow> p = q)"

definition idx_exact :: "pkg list \<Rightarrow> capreq_idx \<Rightarrow> bool" where
  "idx_exact pkgs ix \<longleftrightarrow> idx_ok ix \<and> idx_flags ix = CAPREQ_IDX_CAP \<and>
     (\<forall>nm. nm \<noteq> ''elf(buildid)'' \<longrightarrow> set (idx_pkgs ix nm) = {p \<in> set pkgs. provides_name nm p})"

definition ps_good :: "penv \<Rightarrow> pkgset \<Rightarrow> bool" where
  "ps_good E ps \<longleftrightarrow> pkgs_ok E (ps_pkgs ps) \<and>
     (\<forall>ix. cap_idx ps = Some ix \<longrightarrow> idx_exact (ps_pkgs ps) ix)"

lemma good_indexed:
  "cap_idx ps \<noteq> None \<Longrightarrow> ps_good E ps \<Longrightarrow> indexed ps"
  by (auto simp: ps_good_def indexed_def pkgs_ok_def idx_exact_def)

lemma indexed_good:
  "indexed ps \<Longrightarrow> pkgs_ok E (ps_pkgs ps) \<Longrightarrow> ps_good E ps"
  by (auto simp: ps_good_def indexed_def idx_exact_def)

lemma good_cong:
  "set (ps_pkgs ps') = set (ps_pkgs ps) \<Longrightarrow> distinct (map addr (ps_pkgs ps')) = distinct (map addr (ps_pkgs ps)) \<Longrightarrow>
     cap_idx ps' = cap_idx ps \<Longrightarrow> ps_good E ps' = ps_good E ps"
  by (simp add: ps_good_def pkgs_ok_def idx_exact_def)

lemma good_same:
  "ps_pkgs ps' = ps_pkgs ps \<Longrightarrow> cap_idx ps' = cap_idx ps \<Longrightarrow> ps_good E ps' = ps_good E ps"
  by (rule good_cong) simp_all

lemma good_sorted:
  assumes "mset pkgs = mset (ps_pkgs ps)"
  shows "ps_good E (ps\<lparr>ps_pkgs := pkgs\<rparr>) = ps_good E ps"
proof (rule good_cong)
  show "set (ps_pkgs (ps\<lparr>ps_pkgs := pkgs\<rparr>)) = set (ps_pkgs ps)" using mset_eq_setD [OF assms] by simp
  have "mset (map addr pkgs) = mset (map addr (ps_pkgs ps))" using assms by simp
  then show "distinct (map addr (ps_pkgs (ps\<lparr>ps_pkgs := pkgs\<rparr>))) = distinct (map addr (ps_pkgs ps))"
    using mset_eq_imp_distinct_iff by (simp del: mset_map) blast
qed simp

lemma good_look:
  assumes "ps_good E ps" "look (cap_idx ps) nm = (r, ix)"
  shows "ps_good E (ps\<lparr>cap_idx := ix\<rparr>)"
proof (cases "cap_idx ps")
  case None
  then have "ix = None" using assms(2) by (simp add: look_def)
  then show ?thesis using None assms(1) good_same [of "ps\<lparr>cap_idx := ix\<rparr>" ps E] by simp
next
  case (Some i)
  then have i: "idx_exact (ps_pkgs ps) i" using assms(1) by (simp add: ps_good_def)
  then have "ix = Some (snd (capreq_idx_lookup i nm))"
    using assms(2) Some by (auto simp: look_def split: prod.splits option.splits)
  moreover have "idx_flags (snd (capreq_idx_lookup i nm)) = idx_flags i"
    by (simp add: capreq_idx_lookup_def Let_def split: option.split)
  ultimately show ?thesis
    using i assms(1) idx_lookup(2,3) [of i nm] by (simp add: ps_good_def idx_exact_def)
qed

lemma prepared_same [simp]:
  "name (sort_pkg_caps E (pkg_add_selfcap E p)) = name p" "epoch (sort_pkg_caps E (pkg_add_selfcap E p)) = epoch p"
  "ver (sort_pkg_caps E (pkg_add_selfcap E p)) = ver p" "rel (sort_pkg_caps E (pkg_add_selfcap E p)) = rel p"
  by (simp_all add: sort_pkg_caps_def pkg_add_selfcap_def Let_def split: prod.splits option.splits)

lemma cmp_prepared [simp]:
  "pkg_cmp_name_evr E (sort_pkg_caps E' (pkg_add_selfcap E' p)) (sort_pkg_caps E' (pkg_add_selfcap E' q)) = pkg_cmp_name_evr E p q"
  by (simp add: pkg_cmp_name_evr_def pkg_cmp_name_def pkg_cmp_evr_def Let_def)

lemma index_caps_unfold:
  "cap_idx ps = None \<Longrightarrow> ps_pkgs (pkgset_index_caps E ps) = map (\<lambda>p. sort_pkg_caps E (pkg_add_selfcap E p)) (ps_pkgs ps)"
  by (simp add: pkgset_index_caps_def Let_def)

lemma index_caps_good:
  assumes "ps_good E ps"
  shows "ps_good E (pkgset_index_caps E ps) \<and> cap_idx (pkgset_index_caps E ps) \<noteq> None"
proof (cases "cap_idx ps")
  case None
  have ok: "pkgs_ok E (ps_pkgs ps)" using assms by (simp add: ps_good_def)
  then have ix: "indexed (pkgset_index_caps E ps)"
    using None by (intro index_caps_indexed) (auto simp: pkgs_ok_def)
  have "pkgs_ok E (ps_pkgs (pkgset_index_caps E ps))"
    using ok unfolding index_caps_unfold [OF None]
    by (auto simp: pkgs_ok_def comp_def small_addr_def)
  then show ?thesis using indexed_good [OF ix] ix by (auto simp: indexed_def)
qed (use assms in \<open>simp add: pkgset_index_caps_def\<close>)

lemma index_reqs_same [simp]:
  "ps_pkgs (pkgset_index_reqs ps) = ps_pkgs ps" "cap_idx (pkgset_index_reqs ps) = cap_idx ps"
proof -
  have "ps_pkgs (foldl (\<lambda>ps p. index_package_reqs p ps) ps pkgs) = ps_pkgs ps \<and>
      cap_idx (foldl (\<lambda>ps p. index_package_reqs p ps) ps pkgs) = cap_idx ps" for ps pkgs
    by (induction pkgs arbitrary: ps) (simp_all add: index_package_reqs_def Let_def)
  then show "ps_pkgs (pkgset_index_reqs ps) = ps_pkgs ps" "cap_idx (pkgset_index_reqs ps) = cap_idx ps"
    by (simp_all add: pkgset_index_reqs_def)
qed


section \<open>Adding and removing\<close>

lemma rev_zero:
  "\<not> conf_MULTILIB E \<Longrightarrow> pkg_cmp_name_evr_rev E R p q = 0 \<longleftrightarrow> pkg_cmp_name_evr E p q = 0"
  by (simp add: pkg_cmp_name_evr_rev_def pkg_cmp_name_evr_def cmp_then_def)

context ps_env
begin

lemma ps_find_cases:
  assumes "\<forall>q \<in> set (ps_pkgs ps). nonneg32 (epoch q)" "nonneg32 (epoch p)"
  obtains (none) pkgs where "ps_find E P R ps p = (- 1, pkgs)" "mset pkgs = mset (ps_pkgs ps)"
      "\<forall>q \<in> set (ps_pkgs ps). pkg_cmp_name_evr_rev E R q p \<noteq> 0"
  | (found) i pkgs where "ps_find E P R ps p = (int i, pkgs)" "mset pkgs = mset (ps_pkgs ps)"
      "i < length pkgs" "pkg_cmp_name_evr_rev E R (pkgs ! i) p = 0"
proof -
  let ?cmp = "pkg_cmp_name_evr_rev E R"
  let ?pkgs = "if sorted_cmp ?cmp (ps_pkgs ps) then ps_pkgs ps else pk_sort P ?cmp (ps_pkgs ps)"
  have m: "mset ?pkgs = mset (ps_pkgs ps)" using sorted_arrays.sort_mset [OF pk_arrays] by simp
  then have s: "set ?pkgs = set (ps_pkgs ps)" by (metis set_mset_mset)
  note ord = pkg_name_evr_rev_order [of R]
  have "cmp_order (set (ps_pkgs ps)) ?cmp" using assms(1) by (intro cmp_order_subset [OF ord]) auto
  then have "sorted_cmp ?cmp ?pkgs" using sorted_arrays.sort_sorted [OF pk_arrays] by simp
  moreover have "p \<in> {p. nonneg32 (epoch p)}" "set ?pkgs \<subseteq> {p. nonneg32 (epoch p)}" using assms s by auto
  ultimately have k: "key_sorted (\<lambda>q. ?cmp q p) ?pkgs" by (intro sorted_key_sorted [OF ord])
  have f: "ps_find E P R ps p = (pk_bsearch P (\<lambda>q. ?cmp q p) ?pkgs, ?pkgs)"
    by (simp add: ps_find_def Let_def)
  show thesis
  proof (cases rule: sorted_arrays.search_cases [OF pk_arrays k])
    case 1
    then show thesis using none [OF _ m] f s by simp
  next
    case (2 i)
    then show thesis using found [OF _ m] f by simp
  qed
qed

lemma index_package_good:
  assumes "ps_good E ps" "cap_idx ps = Some ix" "small_addr p" "addr p \<notin> addr ` set (ps_pkgs ps)"
    and "pkgs_ok E (pkgs @ [p])" "set pkgs = set (ps_pkgs ps)"
  shows "ps_good E (index_package_caps p (ps\<lparr>ps_pkgs := pkgs @ [p]\<rparr>))"
proof -
  have ix: "idx_ok ix" "idx_flags ix = CAPREQ_IDX_CAP"
    "\<And>nm. nm \<noteq> ''elf(buildid)'' \<Longrightarrow> set (idx_pkgs ix nm) = {p \<in> set (ps_pkgs ps). provides_name nm p}"
    using assms(1,2) by (auto simp: ps_good_def idx_exact_def)
  let ?cs = "case caps p of None \<Rightarrow> [] | Some cs \<Rightarrow> cs"
  let ?ix = "foldl (\<lambda>ix c. capreq_idx_add ix (cr_name c) p) ix ?cs"
  note one = index_caps_of [OF ix(1,2) assms(3), of ?cs]
  have prov: "(\<exists>c \<in> set ?cs. cr_name c = nm) \<longleftrightarrow> provides_name nm p" for nm
    by (cases "caps p") (auto simp: provides_name_def)
  have "set (idx_pkgs ?ix nm) = {q \<in> set (pkgs @ [p]). provides_name nm q}" if "nm \<noteq> ''elf(buildid)''" for nm
    using one [of nm] ix(3) [OF that] that assms(4,6) unfolding prov by auto
  then show ?thesis
    using assms(2,5) one by (simp add: ps_good_def idx_exact_def index_package_caps_def)
qed

lemma add_good:
  assumes ml: "\<not> conf_MULTILIB E" and good: "ps_good E ps"
    and p: "small_addr p" "nonneg32 (epoch p)" "addr p \<notin> addr ` set (ps_pkgs ps)"
    and add: "pkgset_add_package E P R ps p = (b, ps')"
  shows "ps_good E ps'"
proof -
  have ok: "pkgs_ok E (ps_pkgs ps)" using good by (simp add: ps_good_def)
  then have nn: "\<forall>q \<in> set (ps_pkgs ps). nonneg32 (epoch q)" by (simp add: pkgs_ok_def)
  show ?thesis
  proof (cases rule: ps_find_cases [OF nn p(2), of R])
    case (2 i pkgs)
    then show ?thesis using add good_sorted [OF 2(2), of E] good by (simp add: pkgset_add_package_def)
  next
    case (1 pkgs)
    let ?ps = "ps\<lparr>ps_pkgs := pkgs @ [p]\<rparr>"
    have s: "set pkgs = set (ps_pkgs ps)" by (metis 1(2) set_mset_mset)
    have d: "distinct (map addr pkgs)"
      using good_sorted [OF 1(2), of E] good by (simp add: ps_good_def pkgs_ok_def)
    have ne: "pkg_cmp_name_evr E q p \<noteq> 0" "pkg_cmp_name_evr E p q \<noteq> 0" if "q \<in> set (ps_pkgs ps)" for q
    proof -
      show "pkg_cmp_name_evr E q p \<noteq> 0" using 1(3) that rev_zero [OF ml] by simp
      then show "pkg_cmp_name_evr E p q \<noteq> 0"
        using cmp_order.eq_sym [OF pkg_name_evr_order, of p q] p(2) nn that by auto
    qed
    have ok': "pkgs_ok E (pkgs @ [p])"
      using ok d p ne s unfolding pkgs_ok_def by auto
    let ?ps2 = "if cap_idx ?ps \<noteq> None then index_package_caps p ?ps else ?ps"
    have "ps_good E ?ps2"
    proof (cases "cap_idx ps")
      case (Some ix)
      then show ?thesis using index_package_good [OF good Some p(1,3) ok' s] by simp
    qed (use ok' in \<open>simp add: ps_good_def\<close>)
    moreover have "snd (pkgset_add_package E P R ps p) =
        (if req_idx ?ps2 \<noteq> None then index_package_reqs p ?ps2 else ?ps2)"
      by (simp only: pkgset_add_package_def 1(1) prod.case Let_def) simp
    then have "ps' = (if req_idx ?ps2 \<noteq> None then index_package_reqs p ?ps2 else ?ps2)"
      by (simp only: add snd_conv)
    moreover have "ps_good E (index_package_reqs p ?ps2) = ps_good E ?ps2"
      by (rule good_same) (simp_all add: index_package_reqs_def Let_def)
    ultimately show ?thesis by simp
  qed
qed

end

lemma ent_remove_some:
  assumes ok: "ent_ok fl ent" and r: "ent_remove E p ent = Some ent'"
  shows "ent_ok fl ent' \<and> ent_pkgs ent' = skip_remove (\<lambda>q. pkg_cmp_name_evr E p q = 0) (ent_pkgs ent)"
proof (cases "e_size ent = 1 \<and> items ent \<noteq> 1")
  case True
  then have i: "items ent = 0" "length (slots ent) = 1" using ok by (auto simp: ent_ok_def)
  then have "ent' = ent \<or> ent' = ent\<lparr>items := 0, slots := [None]\<rparr>"
    using True r by (auto simp: ent_remove_def split: option.splits if_splits)
  then show ?thesis using i True ok by (auto simp: ent_ok_def ent_pkgs_def)
next
  case False
  then show ?thesis by (metis ent_remove_pkgs [OF ok] option.inject r)
qed


lemma idx_remove_some:
  assumes ok: "idx_ok ix" and r: "capreq_idx_remove E ix nm p = Some ix'"
  shows "idx_ok ix' \<and> idx_flags ix' = idx_flags ix \<and>
    idx_pkgs ix' nm = skip_remove (\<lambda>q. pkg_cmp_name_evr E p q = 0) (idx_pkgs ix nm) \<and>
    (\<forall>nm'. nm' \<noteq> nm \<longrightarrow> idx_pkgs ix' nm' = idx_pkgs ix nm')"
proof (cases "ht ix nm")
  case (Some ent)
  then have e: "ent_ok (idx_flags ix) ent" using ok by (simp add: idx_ok_def)
  obtain ent' where ent': "ent_remove E p ent = Some ent'" "ix' = ix\<lparr>ht := (ht ix)(nm \<mapsto> ent')\<rparr>"
    using r Some by (auto simp: capreq_idx_remove_def)
  then show ?thesis using ent_remove_some [OF e ent'(1)] ok Some by (simp add: idx_ok_def idx_pkgs_def)
qed (use assms in \<open>simp add: capreq_idx_remove_def idx_pkgs_def\<close>)

lemma idx_cap_distinct:
  "idx_ok ix \<Longrightarrow> idx_flags ix = CAPREQ_IDX_CAP \<Longrightarrow> distinct (map addr (idx_pkgs ix nm))"
  by (auto simp: idx_ok_def ent_ok_def idx_pkgs_def sorted_distinct split: option.split)

lemma skip_remove_one:
  assumes "distinct (map addr xs)" "\<forall>q \<in> set xs. P q \<longrightarrow> q = p"
  shows "skip_remove P xs = filter (\<lambda>x. \<not> P x) xs"
proof (rule skip_remove_filter, intro allI impI notI)
  fix i assume i: "Suc i < length xs" "P (xs ! i) \<and> P (xs ! Suc i)"
  then have "xs ! i = p" "xs ! Suc i = p" using assms(2) by auto
  then have "map addr xs ! i = map addr xs ! Suc i" using i(1) by simp
  then show False using assms(1) i(1) nth_eq_iff_index_eq [of "map addr xs" i "Suc i"] by simp
qed

lemma remove_all_exact:
  assumes "idx_ok ix" "idx_flags ix = CAPREQ_IDX_CAP" "idx_remove_all E p cs ix = Some ix'"
    and "\<forall>q \<in> set (idx_pkgs ix nm). pkg_cmp_name_evr E p q = 0 \<longleftrightarrow> q = p"
  shows "idx_ok ix' \<and> idx_flags ix' = CAPREQ_IDX_CAP \<and>
    set (idx_pkgs ix' nm) = set (idx_pkgs ix nm) - (if nm \<in> cr_name ` set cs then {p} else {})"
  using assms
proof (induction cs arbitrary: ix)
  case (Cons c cs)
  obtain ix1 where r: "capreq_idx_remove E ix (cr_name c) p = Some ix1" "idx_remove_all E p cs ix1 = Some ix'"
    using Cons.prems(3) by (cases "capreq_idx_remove E ix (cr_name c) p") auto
  note one = idx_remove_some [OF Cons.prems(1) r(1)]
  have "skip_remove (\<lambda>q. pkg_cmp_name_evr E p q = 0) (idx_pkgs ix nm) =
      filter (\<lambda>q. \<not> pkg_cmp_name_evr E p q = 0) (idx_pkgs ix nm)"
    using Cons.prems(4) by (intro skip_remove_one idx_cap_distinct Cons.prems(1,2)) blast
  then have st: "set (idx_pkgs ix1 nm) = set (idx_pkgs ix nm) - (if nm = cr_name c then {p} else {})"
    using one Cons.prems(4) by (cases "nm = cr_name c") auto
  then have "\<forall>q \<in> set (idx_pkgs ix1 nm). pkg_cmp_name_evr E p q = 0 \<longleftrightarrow> q = p"
    using Cons.prems(4) by auto
  then have "idx_ok ix' \<and> idx_flags ix' = CAPREQ_IDX_CAP \<and>
      set (idx_pkgs ix' nm) = set (idx_pkgs ix1 nm) - (if nm \<in> cr_name ` set cs then {p} else {})"
    using Cons.IH [OF _ _ r(2)] one Cons.prems(2) by simp
  then show ?case using st by auto
qed simp

lemma remove_all_ok:
  "idx_ok ix \<Longrightarrow> idx_remove_all E p cs ix = Some ix' \<Longrightarrow> idx_ok ix' \<and> idx_flags ix' = idx_flags ix"
proof (induction cs arbitrary: ix)
  case (Cons c cs)
  then obtain ix1 where r: "capreq_idx_remove E ix (cr_name c) p = Some ix1" "idx_remove_all E p cs ix1 = Some ix'"
    by (cases "capreq_idx_remove E ix (cr_name c) p") auto
  then show ?case using idx_remove_some [OF Cons.prems(1) r(1)] Cons.IH [OF _ r(2)] by simp
qed simp

context ps_env
begin

lemma remove_good:
  assumes ml: "\<not> conf_MULTILIB E" and good: "ps_good E ps" and p0: "nonneg32 (epoch p0)"
    and rm: "pkgset_remove_package E P R ps p0 = Some (b, ps')"
  shows "ps_good E ps'"
proof -
  have ok: "pkgs_ok E (ps_pkgs ps)" using good by (simp add: ps_good_def)
  then have nn: "\<forall>q \<in> set (ps_pkgs ps). nonneg32 (epoch q)" by (simp add: pkgs_ok_def)
  show ?thesis
  proof (cases rule: ps_find_cases [OF nn p0, of R])
    case (1 pkgs)
    then show ?thesis using rm good_sorted [OF 1(2), of E] good by (simp add: pkgset_remove_package_def)
  next
    case (2 i pkgs)
    let ?p = "pkgs ! i" and ?pkgs = "take i pkgs @ drop (i + 1) pkgs"
    let ?cs = "case caps ?p of None \<Rightarrow> [] | Some cs \<Rightarrow> cs"
    have s: "set pkgs = set (ps_pkgs ps)" by (metis 2(2) set_mset_mset)
    have okp: "pkgs_ok E pkgs" using good_sorted [OF 2(2), of E] good by (simp add: ps_good_def)
    have split: "pkgs = take i pkgs @ ?p # drop (i + 1) pkgs" using 2(3) by (simp add: id_take_nth_drop)
    have d: "distinct (map addr pkgs)" using okp by (simp add: pkgs_ok_def)
    then have "distinct (map addr (take i pkgs @ ?p # drop (i + 1) pkgs))" using split by simp
    then have d': "distinct (map addr ?pkgs)" "?p \<notin> set ?pkgs" by auto
    have sp: "set pkgs = insert ?p (set ?pkgs)" using arg_cong [OF split, of set] by auto
    then have okp': "pkgs_ok E ?pkgs" using okp d' unfolding pkgs_ok_def by auto
    obtain ci ri oi ni where c: "opt_remove_all E ?p ?cs (cap_idx ps) = Some ci" "ps_pkgs ps' = ?pkgs" "cap_idx ps' = ci"
      using rm 2(1) by (auto simp: pkgset_remove_package_def Let_def bind_eq_Some_conv)
    have pr: "nm \<in> cr_name ` set ?cs \<longleftrightarrow> provides_name nm ?p" for nm
      by (cases "caps ?p") (auto simp: provides_name_def)
    have "idx_exact ?pkgs ix'" if ix': "cap_idx ps' = Some ix'" for ix'
    proof -
      obtain ix where ix: "cap_idx ps = Some ix" "idx_remove_all E ?p ?cs ix = Some ix'"
        using c ix' by (auto simp: opt_remove_all_def split: option.splits)
      then have ex: "idx_ok ix" "idx_flags ix = CAPREQ_IDX_CAP"
        "\<And>nm. nm \<noteq> ''elf(buildid)'' \<Longrightarrow> set (idx_pkgs ix nm) = {p \<in> set (ps_pkgs ps). provides_name nm p}"
        using good by (auto simp: ps_good_def idx_exact_def)
      have eq: "pkg_cmp_name_evr E ?p q = 0 \<longleftrightarrow> q = ?p" if "q \<in> set (ps_pkgs ps)" for q
        using ok that s 2(3) nth_mem [OF 2(3)] cmp_order.refl [OF pkg_name_evr_order, of ?p] nn
        unfolding pkgs_ok_def by auto
      have "set (idx_pkgs ix' nm) = {q \<in> set ?pkgs. provides_name nm q}" if nm: "nm \<noteq> ''elf(buildid)''" for nm
      proof -
        have "\<forall>q \<in> set (idx_pkgs ix nm). pkg_cmp_name_evr E ?p q = 0 \<longleftrightarrow> q = ?p"
          using ex(3) [OF nm] eq by auto
        from remove_all_exact [OF ex(1,2) ix(2) this]
        have "set (idx_pkgs ix' nm) = {q \<in> set pkgs. provides_name nm q} - (if provides_name nm ?p then {?p} else {})"
          using ex(3) [OF nm] s unfolding pr by simp
        then show ?thesis using sp d'(2) by auto
      qed
      then show ?thesis using remove_all_ok [OF ex(1) ix(2)] ex(2) by (simp add: idx_exact_def)
    qed
    then show ?thesis using c okp' by (simp add: ps_good_def)
  qed
qed

end


section \<open>Asking\<close>

lemma good_file [simp]: "ps_good E (ps\<lparr>file_idx := fi\<rparr>) = ps_good E ps"
  by (rule good_same) simp_all

lemma good_caches [simp]:
  "ps_good E (ps\<lparr>req_cache := c\<rparr>) = ps_good E ps" "ps_good E (ps\<lparr>reqpkgs_cache := c'\<rparr>) = ps_good E ps"
  by (rule good_same; simp)+

lemma find_capreq_good:
  assumes good: "ps_good E ps" and f: "find_capreq E ps tag nm = (r, ps')"
  shows "ps_good E ps'"
proof (cases "tag = ST_CAP")
  case True
  let ?ps1 = "pkgset_index_caps E ps"
  obtain r' ix where l: "look (cap_idx ?ps1) nm = (r', ix)" by fastforce
  have "ps_good E (?ps1\<lparr>cap_idx := ix\<rparr>)"
    using index_caps_good [OF good] by (intro good_look [OF _ l]) simp
  then show ?thesis using f True l by (simp add: find_capreq_def Let_def)
next
  case False
  have "ps_pkgs ps' = ps_pkgs ps \<and> cap_idx ps' = cap_idx ps"
    using f False by (auto simp: find_capreq_def Let_def split: prod.splits if_splits)
  then show ?thesis using good good_same [of ps' ps E] by simp
qed

lemma search_file_good:
  assumes "ps_good E ps" "search_file E P R ps v = (r, ps')"
  shows "ps_good E ps'"
  using assms(2) index_caps_good [OF assms(1)]
  by (auto simp: search_file_def Let_def split: prod.splits if_splits)

context ps_env
begin

lemma sorted_good: "ps_good E ps \<Longrightarrow> ps_good E (ps_sorted E P R ps)"
  using good_sorted [OF sorted_arrays.sort_mset [OF pk_arrays, of "pkg_cmp_name_evr_rev E R" "ps_pkgs ps"], of E]
  by (simp add: ps_sorted_def)

lemma find_package_good: "ps_good E ps \<Longrightarrow> find_package E P R ps nm = (r, ps') \<Longrightarrow> ps_good E ps'"
  using sorted_good by (auto simp: find_package_def Let_def split: if_splits)

lemma search_good:
  assumes good: "ps_good E ps" and s: "pkgset_search E P R ps tag v = (r, ps')"
  shows "ps_good E ps'"
proof -
  note g = sorted_good [OF good, of R]
  consider (none) "v = None" | (recno) w where "v = Some w" "tag = ST_RECNO" | (name) w where "v = Some w" "tag = ST_NAME"
    | (path) w where "v = Some w" "tag = ST_FILE" | (prov) w where "v = Some w" "tag = ST_PROVIDES"
    | (other) w where "v = Some w" "tag \<in> {ST_CAP, ST_REQ, ST_CNFL, ST_OBSL}"
    by (cases v; cases tag) auto
  then show ?thesis
  proof cases
    case none
    then show ?thesis using s g by (cases tag) (auto simp: pkgset_search_def Let_def)
  next
    case (recno w)
    then show ?thesis using s g by (simp add: pkgset_search_def Let_def)
  next
    case (name w)
    then show ?thesis using s find_package_good [OF g, of R w]
      by (auto simp: pkgset_search_def Let_def split: prod.splits)
  next
    case (path w)
    then show ?thesis using s search_file_good [OF g, of P R w]
      by (auto simp: pkgset_search_def Let_def split: prod.splits)
  next
    case (prov w)
    then show ?thesis using s find_capreq_good [OF g, of ST_CAP w] search_file_good
      by (auto simp: pkgset_search_def Let_def split: prod.splits)
  next
    case (other w)
    then show ?thesis using s find_capreq_good [OF g, of tag w]
      by (auto simp: pkgset_search_def Let_def split: prod.splits)
  qed
qed

end

lemma psreq_sus_good:
  assumes good: "ps_good E ps" and s: "psreq_sus E P R ps req = (r, ps')"
  shows "ps_good E ps'"
proof -
  let ?ps1 = "pkgset_index_caps E ps"
  obtain r' ix where l: "look (cap_idx ?ps1) (cr_name req) = (r', ix)" by fastforce
  have "ps_good E (?ps1\<lparr>cap_idx := ix\<rparr>)"
    using index_caps_good [OF good] by (intro good_look [OF _ l]) simp
  then show ?thesis
    using s l by (auto simp: psreq_sus_def Let_def split: prod.splits if_splits option.splits)
qed

lemma find_match_good:
  assumes good: "ps_good E ps" and f: "pkgset_find_match_packages E P R ps q req strict = (r, ps')"
  shows "ps_good E ps'"
proof -
  obtain sus ps1 where s: "psreq_sus E P R ps req = (sus, ps1)" by fastforce
  have "snd (psreq_lookup E P R ps req) = ps1"
    using s by (simp add: psreq_lookup_def Let_def split: prod.split)
  moreover have "snd (pkgset_find_match_packages E P R ps q req strict) = snd (psreq_lookup E P R ps req)"
    by (auto simp: pkgset_find_match_packages_def Let_def split: prod.splits if_splits)
  ultimately show ?thesis using psreq_sus_good [OF good s] f by simp
qed

lemma resolve_req_good:
  assumes "ps_good E ps" "resolve_req E P R p strict req ps = (ms, ps')"
  shows "ps_good E ps'"
proof -
  obtain r ps1 where f: "pkgset_find_match_packages E P R ps (Some p) req strict = (r, ps1)" by fastforce
  then show ?thesis using find_match_good [OF assms(1) f] assms
    by (auto simp: resolve_req_def Let_def split: option.splits prod.splits)
qed

lemma resolve_all_good:
  "ps_good E ps \<Longrightarrow> resolve_all E P R p strict rs ps = (res, ps') \<Longrightarrow> ps_good E ps'"
proof (induction rs arbitrary: ps res)
  case (Cons req rs)
  show ?case
  proof (cases "capreq_is_rpmlib req")
    case False
    then obtain ms ps1 rest where r: "resolve_req E P R p strict req ps = (ms, ps1)"
      "resolve_all E P R p strict rs ps1 = (rest, ps')"
      using Cons.prems(2) by (auto split: prod.splits)
    show ?thesis by (rule Cons.IH [OF resolve_req_good [OF Cons.prems(1) r(1)] r(2)])
  qed (use Cons in simp)
qed simp

lemma required_good:
  assumes good: "ps_good E ps" and g: "pkgset_get_required_packages E P R ps p = (r, ps')"
  shows "ps_good E ps'"
proof -
  have x: "ps_good E ps2" if "ps_good E ps1" "pkgset_get_required_packages_x E P R ps1 p un = (r2, ps2, un2)" for ps1 un r2 ps2 un2
  proof (cases "reqs p")
    case (Some rs)
    let ?ps = "pkgset_index_caps E (case req_cache ps1 of None \<Rightarrow> ps1\<lparr>req_cache := Some (\<lambda>_. None)\<rparr> | Some _ \<Rightarrow> ps1)"
    obtain res ps3 where res: "resolve_all E P R p True rs ?ps = (res, ps3)" by fastforce
    have "ps_good E ?ps" using that(1) index_caps_good by (simp split: option.split)
    then have "ps_good E ps3" using resolve_all_good res by blast
    moreover have "fst (snd (process_reqs E P R p True rs [] ?ps un 0)) = ps3"
      using arg_cong [OF process_reqs_resolve [of E P R p True rs "[]" ?ps un 0], of "\<lambda>x. fst (snd x)"]
      unfolding res by simp
    ultimately show ?thesis using that(2) Some
      by (auto simp: pkgset_get_required_packages_x_def Let_def split: prod.splits)
  qed (use that in \<open>simp add: pkgset_get_required_packages_x_def\<close>)
  have "ps_good E (ps\<lparr>reqpkgs_cache := c\<rparr>)" for c using good by simp
  from x [OF this] show ?thesis using g good
    by (auto simp: pkgset_get_required_packages_def Let_def split: option.splits prod.splits)
qed

lemma conflicted_good:
  assumes good: "ps_good E ps" and g: "pkgset_get_conflicted_packages E P R ps p = (r, ps')"
  shows "ps_good E ps'"
proof -
  have one: "ps_good E (snd (get_conflicted E P R ps1 p cnfl re))" if "ps_good E ps1" for ps1 cnfl re
  proof -
    let ?ps1 = "pkgset_index_caps E ps1"
    obtain r' ix where l: "look (cap_idx ?ps1) (cr_name cnfl) = (r', ix)" by fastforce
    have "ps_good E (?ps1\<lparr>cap_idx := ix\<rparr>)"
      using index_caps_good [OF that] by (intro good_look [OF _ l]) simp
    then show ?thesis using l by (simp add: get_conflicted_def Let_def)
  qed
  have "ps_good E (snd (foldl (\<lambda>(re, ps) cnfl. get_conflicted E P R ps p cnfl re) x cs))" if "ps_good E (snd x)" for x cs
    using that
  proof (induction cs arbitrary: x)
    case (Cons c cs)
    then show ?case using one [of "snd x" c "fst x"] by (cases x) simp
  qed simp
  from this [of "(None, ps)"] show ?thesis using g good
    by (auto simp: pkgset_get_conflicted_packages_def split: option.splits) (metis snd_conv)
qed

lemma requiredby_good:
  assumes good: "ps_good E ps" and g: "pkgset_get_requiredby_packages E P R ps p = (r, ps')"
  shows "ps_good E ps'"
proof -
  have one: "ps_good E (snd (get_reqby E P R ps1 p' cap re))" if "ps_good E ps1" for ps1 p' cap re
    using that good_same [of "snd (get_reqby E P R ps1 p' cap re)" ps1 E]
    by (simp add: get_reqby_def Let_def split: prod.split)
  have "ps_good E (snd (foldl (\<lambda>(re, ps) cap. get_reqby E P R ps p' cap re) x cs))" if "ps_good E (snd x)" for x p' cs
    using that
  proof (induction cs arbitrary: x)
    case (Cons c cs)
    then show ?case using one [of "snd x" p' c "fst x"] by (cases x) simp
  qed simp
  from this [of "(None, ps)"] show ?thesis using g good
    by (auto simp: pkgset_get_requiredby_packages_def Let_def) (metis snd_conv)
qed

section \<open>Every reachable set\<close>

context ps_env
begin

lemma reachable_good:
  assumes "\<not> conf_MULTILIB E" "ps_reachable E P R ps"
  shows "ps_good E ps"
  using assms(2)
proof (induction rule: ps_reachable.induct)
  case new
  then show ?case by (simp add: ps_good_def pkgs_ok_def pkgset_new_def)
next
  case (step ps ps')
  note good = step.IH
  from step.hyps(2) show ?case
  proof (cases rule: ps_step.cases)
    case (add p b)
    then show ?thesis by (rule add_good [OF assms(1) good])
  next
    case (remove p b)
    then show ?thesis by (rule remove_good [OF assms(1) good])
  next
    case search
    then show ?thesis by (rule search_good [OF good])
  next
    case find_match
    then show ?thesis by (rule find_match_good [OF good])
  next
    case required
    then show ?thesis by (rule required_good [OF good])
  next
    case conflicted
    then show ?thesis by (rule conflicted_good [OF good])
  next
    case requiredby
    then show ?thesis by (rule requiredby_good [OF good])
  qed
qed

end


section \<open>Properties\<close>



text \<open>the caches of a set outlive its packages: what was required of a package that has been
  removed since is still answered.\<close>

theorem caches_outlive_packages:
  defines "a \<equiv> ref_pkg 3 ''a'' [ref_cap ''v''] []" and "q \<equiv> ref_pkg 4 ''q'' [] [ref_cap ''v'']"
  defines "get \<equiv> pkgset_get_required_packages ref_env ref_psenv arch_registry_init"
    and "rm \<equiv> \<lambda>ps p. case pkgset_remove_package ref_env ref_psenv arch_registry_init ps p of
      None \<Rightarrow> ps | Some (b, ps') \<Rightarrow> ps'"
  shows "map_option (map (\<lambda>rp. name (rp_pkg rp))) (fst (get (rm (snd (get (ref_set [a, q]) q)) a) q)) = Some [''a''] \<and>
    map_option (map (\<lambda>rp. name (rp_pkg rp))) (fst (get (rm (ref_set [a, q]) a) q)) = None"
  unfolding a_def q_def get_def rm_def by code_simp

end
