(* ===== verification/Pkgfl.thy ===== *)
theory Pkgfl
  imports Pkgset Capreq_Store
begin

text \<open>
  File lists of packages: pkgfl.c with the comparison of files, the byte image of a file list in
  package indexes and the walk over its paths, the iterators of pkgiter.c over the capabilities
  and requirements of a package, and the questions of pkg.c about the paths of a package.
\<close>

section \<open>Files\<close>

abbreviation S_IFMT :: u16 where "S_IFMT \<equiv> 61440"
abbreviation S_IFDIR :: u16 where "S_IFDIR \<equiv> 16384"
abbreviation S_IFLNK :: u16 where "S_IFLNK \<equiv> 40960"

definition S_ISDIR :: "u16 \<Rightarrow> bool" where
  "S_ISDIR m \<longleftrightarrow> m AND S_IFMT = S_IFDIR"

definition S_ISLNK :: "u16 \<Rightarrow> bool" where
  "S_ISLNK m \<longleftrightarrow> m AND S_IFMT = S_IFLNK"

text \<open>The target of a link stands behind the base name; without one there is an empty string.\<close>

definition link_of :: "flfile \<Rightarrow> string" where
  "link_of f = (case slinkto f of None \<Rightarrow> [] | Some l \<Rightarrow> l)"

definition flfile_new :: "u32 \<Rightarrow> u16 \<Rightarrow> string \<Rightarrow> string option \<Rightarrow> flfile" where
  "flfile_new sz mode bn lnk =
     \<lparr>fl_size = sz, fl_mode = mode, basename = bn,
      slinkto = (case lnk of None \<Rightarrow> None | Some l \<Rightarrow> if l = [] then None else Some l)\<rparr>"

definition flfile_clone :: "flfile \<Rightarrow> flfile" where
  "flfile_clone f = flfile_new (fl_size f) (fl_mode f) (basename f)
     (if S_ISLNK (fl_mode f) then Some (link_of f) else None)"

text \<open>\<open>size\<close> is unsigned: the difference wraps; modes are promoted to \<open>int\<close>.\<close>

definition mode_diff :: "u16 \<Rightarrow> u16 \<Rightarrow> int" where
  "mode_diff a b = int (unat a) - int (unat b)"

text \<open>The common end of both conflict tests, from the comparison so far.\<close>

definition flfile_cnfl_end :: "flfile \<Rightarrow> u16 \<Rightarrow> string \<Rightarrow> bool \<Rightarrow> int \<Rightarrow> int" where
  "flfile_cnfl_end f1 mode lnk strict rc =
     (let rc1 = (if rc = 0 \<or> \<not> strict
                 then if S_ISLNK (fl_mode f1) then if \<not> S_ISLNK mode then 1 else strcmp (link_of f1) lnk
                      else if S_ISLNK mode then - 1 else rc
                 else rc)
      in if rc1 \<noteq> 0 \<and> \<not> strict \<and> S_ISDIR (fl_mode f1) \<and> S_ISDIR mode then 0 else rc1)"

definition flfile_cnfl2 :: "flfile \<Rightarrow> u32 \<Rightarrow> u16 \<Rightarrow> string \<Rightarrow> bool \<Rightarrow> int" where
  "flfile_cnfl2 f1 sz mode lnk strict =
     (let rc = i32_diff (fl_size f1) sz
      in flfile_cnfl_end f1 mode lnk strict (if rc = 0 then mode_diff (fl_mode f1) mode else rc))"

text \<open>The test for directories asks the first file twice.\<close>

definition flfile_cnfl :: "flfile \<Rightarrow> flfile \<Rightarrow> bool \<Rightarrow> int" where
  "flfile_cnfl f1 f2 strict =
     (if fl_mode f1 = 0 \<or> fl_mode f2 = 0 then 0
      else let rc = mode_diff (fl_mode f1) (fl_mode f2)
           in flfile_cnfl_end f1 (fl_mode f2) (link_of f2) strict
                (if rc = 0 \<and> \<not> S_ISDIR (fl_mode f1) \<and> \<not> S_ISDIR (fl_mode f1)
                 then i32_diff (fl_size f1) (fl_size f2) else rc))"

definition flfile_cmp :: "flfile \<Rightarrow> flfile \<Rightarrow> int" where
  "flfile_cmp f1 f2 =
     (let rc = strcmp (basename f1) (basename f2) in
      if rc \<noteq> 0 then rc
      else let rc1 = i32_diff (fl_size f1) (fl_size f2);
               rc2 = (if rc1 = 0 then mode_diff (fl_mode f1) (fl_mode f2) else rc1)
           in if rc2 = 0 \<and> S_ISLNK (fl_mode f1) then strcmp (link_of f1) (link_of f2) else rc2)"

section \<open>Directories of a file list\<close>

type_synonym pkgfl_ent = "string \<times> flfile list"

definition pkgfl_ent_cmp :: "pkgfl_ent \<Rightarrow> pkgfl_ent \<Rightarrow> int" where
  "pkgfl_ent_cmp a b = strcmp (fst a) (fst b)"

fun flfiles_cmp :: "flfile list \<Rightarrow> flfile list \<Rightarrow> int" where
  "flfiles_cmp (f # fs) (g # gs) = (if flfile_cmp f g \<noteq> 0 then flfile_cmp f g else flfiles_cmp fs gs)"
| "flfiles_cmp _ _ = 0"

text \<open>Equal directories end the program (\<open>None\<close>).\<close>

definition pkgfl_ent_deep_cmp :: "pkgfl_ent \<Rightarrow> pkgfl_ent \<Rightarrow> int option" where
  "pkgfl_ent_deep_cmp a b =
     (let rc = pkgfl_ent_cmp a b; rc1 = int (length (snd a)) - int (length (snd b));
          rc2 = flfiles_cmp (snd a) (snd b)
      in if rc \<noteq> 0 then Some rc else if rc1 \<noteq> 0 then Some rc1 else if rc2 \<noteq> 0 then Some rc2 else None)"

text \<open>
  Slashes around a directory name are cut off, one on either side, unless it is a slash alone;
  the name is not empty.
\<close>

definition prepare_dirname :: "string \<Rightarrow> string" where
  "prepare_dirname d =
     (let d1 = (if last d = CHR ''/'' \<and> length d > 1 then butlast d else d)
      in if hd d1 = CHR ''/'' \<and> length d1 > 1 then tl d1 else d1)"

text \<open>\<open>None\<close> is the failed assertion on the length.\<close>

definition pkgfl_ent_new :: "string \<Rightarrow> pkgfl_ent option" where
  "pkgfl_ent_new d = (let d' = prepare_dirname d in if length d' < 255 then Some (d', []) else None)"

section \<open>The byte image\<close>

text \<open>
  trurl's buffers and string arrays: 16-bit and 32-bit fields, the search in a sorted array of
  names. A buffer position is the list of the bytes after it.
\<close>

record flio =
  fl_nb :: nbio
  bput32 :: "u32 \<Rightarrow> string"
  btake32 :: "string \<Rightarrow> u32"
  st_sort :: "(string \<Rightarrow> string \<Rightarrow> int) \<Rightarrow> string list \<Rightarrow> string list"
  st_bsearch :: "(string \<Rightarrow> int) \<Rightarrow> string list \<Rightarrow> int"

locale pkgfl_io =
  fixes io :: flio
  assumes nb: "nbuf_io (fl_nb io)"
    and length_bput32: "length (bput32 io w) = 4"
    and btake32_bput32: "btake32 io (bput32 io w) = w"
    and st_arrays: "sorted_arrays (st_sort io) (st_bsearch io)"

definition st_has :: "flio \<Rightarrow> string list \<Rightarrow> string \<Rightarrow> bool" where
  "st_has io arr x \<longleftrightarrow>
     st_bsearch io (\<lambda>d. strcmp d x) (if sorted_cmp strcmp arr then arr else st_sort io strcmp arr) \<noteq> - 1"

text \<open>Which directories of a list are stored.\<close>

datatype pkgfl_which = PKGFL_ALL | PKGFL_DEPDIRS | PKGFL_NOTDEPDIRS

definition strncmp_path :: "string \<Rightarrow> string \<Rightarrow> int" where
  "strncmp_path p1 p2 =
     (let rc = strcmp (take 1 p1) (take 1 p2) in if rc \<noteq> 0 then rc else strncmp p1 p2 (length p1))"

definition excluded :: "flio \<Rightarrow> string list option \<Rightarrow> string \<Rightarrow> bool" where
  "excluded io exclpath d \<longleftrightarrow>
     (case exclpath of
        None \<Rightarrow> False
      | Some paths \<Rightarrow>
          st_bsearch io (\<lambda>e. strncmp_path e d)
            (if sorted_cmp strcmp paths then paths else st_sort io strcmp paths) \<noteq> - 1)"

text \<open>\<open>None\<close> is a failed assertion: on the length of a name, or on storing all with paths excluded.\<close>

fun fl_matches ::
  "flio \<Rightarrow> string list option \<Rightarrow> string list option \<Rightarrow> pkgfl_which \<Rightarrow> pkgfl_ent list \<Rightarrow> pkgfl_ent list option" where
  "fl_matches io exclpath depdirs which [] = Some []"
| "fl_matches io exclpath depdirs which ((d, fs) # fl) =
     (if 254 \<le> length d \<or> which = PKGFL_ALL then None
      else let is_depdir = (case depdirs of None \<Rightarrow> False | Some dd \<Rightarrow> st_has io dd d);
               m = (which = PKGFL_DEPDIRS \<and> is_depdir \<or>
                    which = PKGFL_NOTDEPDIRS \<and> \<not> is_depdir \<and> \<not> excluded io exclpath d)
           in map_option (\<lambda>r. if m then (d, fs) # r else r) (fl_matches io exclpath depdirs which fl))"

definition fl_select ::
  "flio \<Rightarrow> string list option \<Rightarrow> string list option \<Rightarrow> pkgfl_which \<Rightarrow> pkgfl_ent list \<Rightarrow> pkgfl_ent list option" where
  "fl_select io exclpath depdirs which fl =
     (if which = PKGFL_ALL \<and> exclpath = None then Some fl else fl_matches io exclpath depdirs which fl)"

text \<open>Lengths of names are kept in one byte and may wrap; the bytes written are those counted.\<close>

definition put_str8 :: "string \<Rightarrow> string" where
  "put_str8 s = (let n = word_of_nat (length s) :: u8 in byte n # take (unat n) s)"

definition file_image :: "flio \<Rightarrow> flfile \<Rightarrow> string" where
  "file_image io f =
     put_str8 (basename f) @ put16 (fl_nb io) (fl_mode f) @ bput32 io (fl_size f) @
     (if S_ISLNK (fl_mode f) then put_str8 (link_of f) else [])"

definition ent_image :: "flio \<Rightarrow> pkgfl_ent \<Rightarrow> string" where
  "ent_image io e =
     put_str8 (fst e @ [NUL]) @ bput32 io (word_of_nat (length (snd e))) @ concat (map (file_image io) (snd e))"

definition pkgfl_store_buf ::
  "flio \<Rightarrow> pkgfl_ent list \<Rightarrow> string list option \<Rightarrow> string list option \<Rightarrow> pkgfl_which \<Rightarrow> (nat \<times> string) option" where
  "pkgfl_store_buf io fl exclpath depdirs which =
     map_option (\<lambda>sel. (length sel, bput32 io (word_of_nat (length sel)) @ concat (map (ent_image io) sel)))
       (fl_select io exclpath depdirs which fl)"

text \<open>The image behind its size and before a newline.\<close>

definition pkgfl_store ::
  "flio \<Rightarrow> pkgfl_ent list \<Rightarrow> string list option \<Rightarrow> string list option \<Rightarrow> pkgfl_which \<Rightarrow> (nat \<times> string) option" where
  "pkgfl_store io fl exclpath depdirs which =
     Option.bind (pkgfl_store_buf io fl exclpath depdirs which)
       (\<lambda>(_, body). if body = [] then None
          else Some (length body, bput32 io (word_of_nat (length body)) @ body @ [CHR 0x0A]))"

section \<open>Restoring\<close>

text \<open>Reading past the end of the buffer is \<open>None\<close>: the code goes on with a null pointer.\<close>

definition get8 :: "string \<Rightarrow> (u8 \<times> string) option" where
  "get8 bs = (case bs of [] \<Rightarrow> None | b # bs' \<Rightarrow> Some (ubyte b, bs'))"

definition get_bytes :: "nat \<Rightarrow> string \<Rightarrow> (string \<times> string) option" where
  "get_bytes n bs = (if n \<le> length bs then Some (take n bs, drop n bs) else None)"

definition get_str8 :: "string \<Rightarrow> (string \<times> string) option" where
  "get_str8 bs = Option.bind (get8 bs) (\<lambda>(n, bs'). get_bytes (unat n) bs')"

definition get_file :: "flio \<Rightarrow> string \<Rightarrow> (flfile \<times> string) option" where
  "get_file io bs =
     Option.bind (get_str8 bs) (\<lambda>(bn, bs1).
     Option.bind (get_bytes 2 bs1) (\<lambda>(m, bs2).
     Option.bind (get_bytes 4 bs2) (\<lambda>(sz, bs3).
       let mode = get16 (fl_nb io) m in
       if S_ISLNK mode
       then map_option (\<lambda>(l, bs4). (flfile_new (btake32 io sz) mode bn (Some l), bs4)) (get_str8 bs3)
       else Some (flfile_new (btake32 io sz) mode bn None, bs3))))"

primrec get_files :: "flio \<Rightarrow> nat \<Rightarrow> string \<Rightarrow> (flfile list \<times> string) option" where
  "get_files io 0 bs = Some ([], bs)"
| "get_files io (Suc n) bs =
     Option.bind (get_file io bs) (\<lambda>(f, bs1). map_option (\<lambda>(fs, bs2). (f # fs, bs2)) (get_files io n bs1))"

text \<open>Directories are loaded when they are, or are not, among \<open>dirs\<close>; the others are read over.\<close>

definition loadir :: "flio \<Rightarrow> string list option \<Rightarrow> bool \<Rightarrow> string \<Rightarrow> bool" where
  "loadir io dirs incl d =
     (case dirs of None \<Rightarrow> True | Some ds \<Rightarrow> if st_has io ds d then incl else \<not> incl)"

primrec restore_dirs ::
  "flio \<Rightarrow> string list option \<Rightarrow> bool \<Rightarrow> nat \<Rightarrow> string \<Rightarrow> (pkgfl_ent list \<times> string) option" where
  "restore_dirs io dirs incl 0 bs = Some ([], bs)"
| "restore_dirs io dirs incl (Suc n) bs =
     Option.bind (get_str8 bs) (\<lambda>(dn0, bs1). let dn = takeWhile (\<lambda>c. c \<noteq> NUL) dn0 in
     Option.bind (get_bytes 4 bs1) (\<lambda>(nf, bs2).
     Option.bind (if \<not> loadir io dirs incl dn then Some None
                  else if dn0 = [] then None else map_option Some (pkgfl_ent_new (butlast dn0))) (\<lambda>ent.
     Option.bind (get_files io (unat (btake32 io nf)) bs2) (\<lambda>(fs, bs3).
     map_option (\<lambda>(es, bs4). (case ent of None \<Rightarrow> es | Some (d, _) \<Rightarrow> (d, fs) # es, bs4))
       (restore_dirs io dirs incl n bs3)))))"

definition pkgfl_restore ::
  "flio \<Rightarrow> string \<Rightarrow> string list option \<Rightarrow> bool \<Rightarrow> (pkgfl_ent list option \<times> string) option" where
  "pkgfl_restore io bs dirs incl =
     Option.bind (get_bytes 4 bs) (\<lambda>(n, bs1).
       map_option (\<lambda>(es, bs2). (if es = [] then None else Some es, bs2))
         (restore_dirs io dirs incl (unat (btake32 io n)) bs1))"

text \<open>The image stands behind its size in the stream and before a newline.\<close>

definition buf_restore :: "flio \<Rightarrow> string \<Rightarrow> (string \<times> string) option" where
  "buf_restore io st = Option.bind (get_bytes 4 st) (\<lambda>(n, st1). get_bytes (unat (btake32 io n)) st1)"

definition pkgfl_restore_st ::
  "flio \<Rightarrow> string \<Rightarrow> string list option \<Rightarrow> bool \<Rightarrow> (pkgfl_ent list option \<times> string) option" where
  "pkgfl_restore_st io st dirs incl =
     Option.bind (buf_restore io st) (\<lambda>(nbuf, st1).
       map_option (\<lambda>(fl, _). (fl, drop 1 st1)) (pkgfl_restore io nbuf dirs incl))"

definition pkgfl_skip_st :: "flio \<Rightarrow> string \<Rightarrow> string option" where
  "pkgfl_skip_st io st = map_option (\<lambda>(_, st1). drop 1 st1) (buf_restore io st)"


section \<open>Paths\<close>

text \<open>
  The walk over the paths of a file list, a directory always with the slash that storing it cut
  off. Names fit the iterator's buffer, directories have files.
\<close>

definition path_of :: "string \<Rightarrow> string \<Rightarrow> string" where
  "path_of d b =
     (let p = (if d = [] \<or> hd d \<noteq> CHR ''/'' then CHR ''/'' # d else d)
      in (if last p \<noteq> CHR ''/'' then p @ ''/'' else p) @ b)"

definition pkgfl_paths :: "pkgfl_ent list \<Rightarrow> (string \<times> flfile) list" where
  "pkgfl_paths fl = concat (map (\<lambda>(d, fs). map (\<lambda>f. (path_of d (basename f), f)) fs) fl)"

text \<open>
  The iterator itself: the next entry to go to, the next file of the entry it is in, and the part of
  the path that the files of the entry share, once written. \<open>None\<close> is a read behind the files of
  an entry that has none.
\<close>

record pkgfl_it =
  it_fl :: "pkgfl_ent list"
  it_flent :: "pkgfl_ent option"
  it_i :: nat
  it_j :: nat
  it_endp :: "string option"

definition pkgfl_it_init :: "pkgfl_ent list \<Rightarrow> pkgfl_it" where
  "pkgfl_it_init fl =
     (case fl of
        [] \<Rightarrow> \<lparr>it_fl = [], it_flent = None, it_i = 0, it_j = 0, it_endp = None\<rparr>
      | e # _ \<Rightarrow> \<lparr>it_fl = fl, it_flent = Some e, it_i = 1, it_j = 0, it_endp = None\<rparr>)"

definition it_file :: "pkgfl_it \<Rightarrow> pkgfl_ent \<Rightarrow> ((string \<times> flfile) option \<times> pkgfl_it) option" where
  "it_file it e =
     (let prefix = (case it_endp it of Some p \<Rightarrow> p | None \<Rightarrow> path_of (fst e) []) in
      if it_j it < length (snd e)
      then let f = snd e ! it_j it
           in Some (Some (prefix @ basename f, f), it\<lparr>it_j := it_j it + 1, it_endp := Some prefix\<rparr>)
      else None)"

definition pkgfl_it_get :: "pkgfl_it \<Rightarrow> ((string \<times> flfile) option \<times> pkgfl_it) option" where
  "pkgfl_it_get it =
     (case it_flent it of
        None \<Rightarrow> Some (None, it)
      | Some e \<Rightarrow>
          if it_j it \<noteq> length (snd e) then it_file it e
          else if it_i it = length (it_fl it) then Some (None, it)
          else let e' = it_fl it ! it_i it
               in it_file (it\<lparr>it_flent := Some e', it_i := it_i it + 1, it_j := 0, it_endp := None\<rparr>) e')"

text \<open>All the iterator yields, for at most \<open>n\<close> steps.\<close>

primrec it_all :: "nat \<Rightarrow> pkgfl_it \<Rightarrow> (string \<times> flfile) list option" where
  "it_all 0 it = None"
| "it_all (Suc n) it =
     (case pkgfl_it_get it of
        None \<Rightarrow> None
      | Some (None, _) \<Rightarrow> Some []
      | Some (Some x, it') \<Rightarrow> map_option ((#) x) (it_all n it'))"

text \<open>
  The directories a file list contains, and those of its files that it does not; they are the keys
  of a hash, in the order \<open>hash_keys\<close> of trurl's hashes.
\<close>

definition owned_name :: "string \<Rightarrow> flfile \<Rightarrow> string" where
  "owned_name d f =
     (if d = [] \<or> hd d \<noteq> CHR ''/'' then d @ ''/'' @ basename f
      else if basename f = [] then d else basename f)"

text \<open>
  The directory index of a package directory, where there is one, answers instead; it is a tndb
  database.
\<close>

record dirix =
  hash_keys :: "string list \<Rightarrow> string list"
  has_dirindex :: "pkg \<Rightarrow> bool"
  dirindex_pkg_has_path :: "pkg \<Rightarrow> string \<Rightarrow> bool"
  dirindex_get_required :: "pkg \<Rightarrow> string list option"
  dirindex_get_provided :: "pkg \<Rightarrow> string list option"

definition pkgfl_owned_and_required_dirs :: "dirix \<Rightarrow> pkgfl_ent list \<Rightarrow> string list option \<times> string list option" where
  "pkgfl_owned_and_required_dirs D fl =
     (let od = hash_keys D (concat (map (\<lambda>(d, fs). map (owned_name d) (filter (\<lambda>f. S_ISDIR (fl_mode f)) fs)) fl));
          rd = filter (\<lambda>d. d \<notin> set od) (map fst fl)
      in (if od = [] then None else Some od, if rd = [] then None else Some rd))"

definition pkg_required_dirs :: "dirix \<Rightarrow> pkg \<Rightarrow> string list option" where
  "pkg_required_dirs D p =
     (if has_dirindex D p then dirindex_get_required D p
      else case pfl p of None \<Rightarrow> None | Some fl \<Rightarrow> snd (pkgfl_owned_and_required_dirs D fl))"

definition pkg_owned_dirs :: "dirix \<Rightarrow> pkg \<Rightarrow> string list option" where
  "pkg_owned_dirs D p =
     (if has_dirindex D p then dirindex_get_provided D p
      else case pfl p of None \<Rightarrow> None | Some fl \<Rightarrow> fst (pkgfl_owned_and_required_dirs D fl))"

definition pkg_has_path_dirindex :: "dirix \<Rightarrow> pkg \<Rightarrow> string \<Rightarrow> string \<Rightarrow> bool" where
  "pkg_has_path_dirindex D p dirname bname \<longleftrightarrow>
     has_dirindex D p \<and> dirindex_pkg_has_path D p
       ((if dirname = [] \<or> hd dirname \<noteq> CHR ''/'' then ''/'' else []) @ dirname @ ''/'' @ bname)"

definition skip_slash :: "string \<Rightarrow> string" where
  "skip_slash d = (if d \<noteq> [] \<and> hd d = CHR ''/'' \<and> tl d \<noteq> [] then tl d else d)"

text \<open>File lists are sorted by directory; the search finds the entry of the directory.\<close>

definition pkg_has_path :: "dirix \<Rightarrow> pkg \<Rightarrow> string \<Rightarrow> string \<Rightarrow> bool" where
  "pkg_has_path D p dirname bname =
     (case pfl p of
        None \<Rightarrow> pkg_has_path_dirindex D p dirname bname
      | Some fl \<Rightarrow>
          if fl = [] then pkg_has_path_dirindex D p dirname bname
          else case map_of fl (skip_slash dirname) of
                 None \<Rightarrow> pkg_has_path_dirindex D p (skip_slash dirname) bname
               | Some fs \<Rightarrow>
                   if list_ex (\<lambda>f. strcmp bname (basename f) = 0) fs then True
                   else pkg_has_path_dirindex D p (skip_slash dirname) bname)"

definition pkg_satisfies_req :: "penv \<Rightarrow> psenv \<Rightarrow> dirix \<Rightarrow> pkg \<Rightarrow> capreq \<Rightarrow> bool \<Rightarrow> bool" where
  "pkg_satisfies_req E P D p req strict =
     (if \<not> capreq_is_file req then fst (pkg_match_req E p req strict)
      else let (dir, bname) = basedirnam P (cr_name req);
               dirname = (case dir of None \<Rightarrow> ''/'' | Some d \<Rightarrow> if d = [] then ''/'' else d)
           in pkg_has_path D p (skip_slash dirname) bname)"

section \<open>Iterators\<close>

abbreviation PKG_ITER_REQIN :: u32 where "PKG_ITER_REQIN \<equiv> 1"
abbreviation PKG_ITER_REQUN :: u32 where "PKG_ITER_REQUN \<equiv> 2"
abbreviation PKG_ITER_REQDIR :: u32 where "PKG_ITER_REQDIR \<equiv> 4"
abbreviation PKG_ITER_REQSUG :: u32 where "PKG_ITER_REQSUG \<equiv> 8"
abbreviation PKG_INCLUDED_DIRREQS :: u32 where "PKG_INCLUDED_DIRREQS \<equiv> 131072"
abbreviation CAPREQ_ISDIR :: u32 where "CAPREQ_ISDIR \<equiv> 64"

text \<open>\<open>capreq_new_name_a\<close>: a name on the stack.\<close>

definition capreq_new_name_a :: "string \<Rightarrow> capreq" where
  "capreq_new_name_a nm =
     \<lparr>cr_flags = 0, cr_relflags = 0, cr_name = nm, namelen = of_nat (length nm), cr_ep_ofs = 0,
      cr_ver_ofs = 0, cr_rel_ofs = 0, cr_buff = NUL # nm @ [NUL]\<rparr>"

text \<open>An iteration ends where no value can be made.\<close>

fun somes :: "'a option list \<Rightarrow> 'a list" where
  "somes (Some x # xs) = x # somes xs"
| "somes _ = []"

text \<open>The capabilities of a package, then its paths as capabilities.\<close>

definition pkg_cap_iter :: "pkg \<Rightarrow> capreq list" where
  "pkg_cap_iter p =
     (case caps p of None \<Rightarrow> [] | Some cs \<Rightarrow> cs) @
     (case pfl p of None \<Rightarrow> []
      | Some fl \<Rightarrow> somes (map (\<lambda>(path, f). capreq_new False path 0 None None 0
          (if S_ISDIR (fl_mode f) then CAPREQ_BASTARD OR CAPREQ_ISDIR else CAPREQ_BASTARD)) (pkgfl_paths fl)))"

text \<open>
  The requirements an iteration goes through, each with its type: those of the package, its
  suggestions \<open>sugs\<close>, its required directories.
\<close>

definition pkg_req_iter :: "dirix \<Rightarrow> pkg \<Rightarrow> capreq list \<Rightarrow> u32 \<Rightarrow> (capreq \<times> u32) list" where
  "pkg_req_iter D p sugs fl0 =
     (let fl = (if fl0 = 0 then PKG_ITER_REQIN else fl0);
          skip = (\<lambda>r. if fl AND PKG_ITER_REQUN \<noteq> 0 then \<not> capreq_is_prereq_un r
                      else \<not> capreq_is_prereq r \<and> capreq_is_prereq_un r);
          rs = filter (\<lambda>r. \<not> skip r) (case reqs p of None \<Rightarrow> [] | Some rs \<Rightarrow> rs);
          dirs = (if fl AND PKG_ITER_REQDIR = 0 \<or> flags p AND PKG_INCLUDED_DIRREQS \<noteq> 0 then []
                  else case pkg_required_dirs D p of None \<Rightarrow> [] | Some ds \<Rightarrow> ds)
      in map (\<lambda>r. (r, if capreq_is_prereq_un r then PKG_ITER_REQUN else PKG_ITER_REQIN)) rs @
         (if fl AND PKG_ITER_REQSUG \<noteq> 0 then map (\<lambda>r. (r, PKG_ITER_REQSUG)) sugs else []) @
         map (\<lambda>r. (r, PKG_ITER_REQIN))
           (somes (map (\<lambda>d. capreq_new False (if d \<noteq> [] \<and> hd d = CHR ''/'' then d else CHR ''/'' # d)
              0 None None 0 (CAPREQ_BASTARD OR CAPREQ_ISDIR)) dirs)))"

section \<open>The image reads back\<close>

definition file_ok :: "flfile \<Rightarrow> bool" where
  "file_ok f \<longleftrightarrow> length (basename f) < 256 \<and>
     (if S_ISLNK (fl_mode f) then length (link_of f) < 256 \<and> slinkto f \<noteq> Some [] else slinkto f = None)"

definition ent_ok :: "pkgfl_ent \<Rightarrow> bool" where
  "ent_ok e \<longleftrightarrow> fst e \<noteq> [] \<and> length (fst e) < 254 \<and> NUL \<notin> set (fst e) \<and> prepare_dirname (fst e) = fst e \<and>
     length (snd e) < 4294967296 \<and> (\<forall>f \<in> set (snd e). file_ok f)"

lemma get_str8_put [simp]: "length s < 256 \<Longrightarrow> get_str8 (put_str8 s @ rest) = Some (s, rest)"
  by (simp add: put_str8_def get_str8_def get8_def get_bytes_def Let_def unsigned_of_nat take_bit_nat_eq_self)

lemma get_bytes_append [simp]: "length xs = n \<Longrightarrow> get_bytes n (xs @ rest) = Some (xs, rest)"
  by (simp add: get_bytes_def)

lemma flfile_new_self:
  "file_ok f \<Longrightarrow> flfile_new (fl_size f) (fl_mode f) (basename f) (if S_ISLNK (fl_mode f) then Some (link_of f) else None) = f"
  by (cases "slinkto f") (auto simp: file_ok_def flfile_new_def link_of_def split: if_splits)

lemma fl_matches_select:
  "\<forall>e \<in> set fl. length (fst e) < 254 \<Longrightarrow> which \<noteq> PKGFL_ALL \<Longrightarrow>
     fl_matches io exclpath depdirs which fl = Some (filter (\<lambda>e.
       let is_depdir = (case depdirs of None \<Rightarrow> False | Some dd \<Rightarrow> st_has io dd (fst e))
       in which = PKGFL_DEPDIRS \<and> is_depdir \<or>
          which = PKGFL_NOTDEPDIRS \<and> \<not> is_depdir \<and> \<not> excluded io exclpath (fst e)) fl)"
proof (induction fl)
  case (Cons e fl)
  obtain d fs where e: "e = (d, fs)" by fastforce
  have "\<not> 254 \<le> length d" using Cons.prems(1) by (simp add: e)
  then show ?case using Cons by (simp add: e Let_def split: option.split)
qed simp

lemma fl_select_sub: "fl_select io exclpath depdirs which fl = Some sel \<Longrightarrow> set sel \<subseteq> set fl \<and> length sel \<le> length fl"
proof -
  have "fl_matches io exclpath depdirs which fl = Some sel \<Longrightarrow> set sel \<subseteq> set fl \<and> length sel \<le> length fl"
    by (induction fl arbitrary: sel) (fastforce simp: Let_def split: if_splits)+
  then show "fl_select io exclpath depdirs which fl = Some sel \<Longrightarrow> set sel \<subseteq> set fl \<and> length sel \<le> length fl"
    by (auto simp: fl_select_def split: if_splits)
qed

lemma takeWhile_NUL: "NUL \<notin> set d \<Longrightarrow> takeWhile (\<lambda>c. c \<noteq> NUL) (d @ [NUL]) = d"
  by (induction d) auto

lemma fl_select_size:
  "fl_select io exclpath depdirs which fl = Some sel \<Longrightarrow> (\<Sum>e \<leftarrow> sel. f e) \<le> (\<Sum>e \<leftarrow> fl. f e :: nat)"
proof -
  have "fl_matches io exclpath depdirs which fl = Some sel \<Longrightarrow> (\<Sum>e \<leftarrow> sel. f e) \<le> (\<Sum>e \<leftarrow> fl. f e)"
    by (induction fl arbitrary: sel) (fastforce simp: Let_def split: if_splits)+
  then show "fl_select io exclpath depdirs which fl = Some sel \<Longrightarrow> (\<Sum>e \<leftarrow> sel. f e) \<le> (\<Sum>e \<leftarrow> fl. f e)"
    by (auto simp: fl_select_def split: if_splits)
qed

context pkgfl_io
begin

lemma get_file_image: "file_ok f \<Longrightarrow> get_file io (file_image io f @ rest) = Some (f, rest)"
  using flfile_new_self [of f] nbuf_io.length_put16 [OF nb] nbuf_io.get16_put16 [OF nb]
  by (simp add: file_ok_def file_image_def get_file_def Let_def length_bput32 btake32_bput32 split: if_splits)

lemma get_files_image:
  "\<forall>f \<in> set fs. file_ok f \<Longrightarrow> get_files io (length fs) (concat (map (file_image io) fs) @ rest) = Some (fs, rest)"
  by (induction fs) (simp_all add: get_file_image)

lemma restore_dirs_image:
  "\<forall>e \<in> set es. ent_ok e \<Longrightarrow>
     restore_dirs io dirs incl (length es) (concat (map (ent_image io) es) @ rest) =
       Some (filter (\<lambda>e. loadir io dirs incl (fst e)) es, rest)"
proof (induction es)
  case (Cons e es)
  obtain d fs where e: "e = (d, fs)" by fastforce
  have ok: "d \<noteq> []" "length (d @ [NUL]) < 256" "NUL \<notin> set d" "prepare_dirname d = d" "length fs < 4294967296"
    "length d < 255" "\<forall>f \<in> set fs. file_ok f"
    using Cons.prems by (auto simp: e ent_ok_def)
  let ?rest = "concat (map (ent_image io) es) @ rest"
  let ?files = "concat (map (file_image io) fs) @ ?rest"
  have img: "concat (map (ent_image io) (e # es)) @ rest =
      put_str8 (d @ [NUL]) @ bput32 io (word_of_nat (length fs)) @ ?files"
    by (simp add: e ent_image_def)
  have "takeWhile (\<lambda>c. c \<noteq> NUL) (d @ [NUL]) = d" 
    by (rule takeWhile_NUL [OF ok(3)])
  moreover have "unat (btake32 io (bput32 io (word_of_nat (length fs)))) = length fs"
    using ok(5) by (simp add: btake32_bput32 unsigned_of_nat take_bit_nat_eq_self)
  moreover have "pkgfl_ent_new (butlast (d @ [NUL])) = Some (d, [])" using ok(4,6) by (simp add: pkgfl_ent_new_def)
  moreover have "get_files io (length fs) ?files = Some (fs, ?rest)" by (rule get_files_image [OF ok(7)])
  moreover have "get_str8 (put_str8 (d @ [NUL]) @ bput32 io (word_of_nat (length fs)) @ ?files) =
      Some (d @ [NUL], bput32 io (word_of_nat (length fs)) @ ?files)" by (rule get_str8_put [OF ok(2)])
  ultimately show ?case
    using Cons length_bput32 unfolding img by (simp add: e Let_def)
qed simp

lemma restore_store:
  assumes ok: "\<forall>e \<in> set fl. ent_ok e" "length fl < 4294967296"
    and sz: "(\<Sum>e \<leftarrow> fl. length (ent_image io e)) + 4 < 4294967296"
    and sel: "fl_select io exclpath depdirs which fl = Some sel"
  shows "\<exists>n st. pkgfl_store io fl exclpath depdirs which = Some (n, st) \<and> pkgfl_skip_st io (st @ rest) = Some rest \<and>
    pkgfl_restore_st io (st @ rest) dirs incl =
      (let es = filter (\<lambda>e. loadir io dirs incl (fst e)) sel in Some (if es = [] then None else Some es, rest))"
proof -
  have s: "\<forall>e \<in> set sel. ent_ok e" "length sel < 4294967296" "(\<Sum>e \<leftarrow> sel. length (ent_image io e)) + 4 < 4294967296"
    using fl_select_sub [OF sel] fl_select_size [OF sel, of "\<lambda>e. length (ent_image io e)"] ok sz by auto
  define body where "body = bput32 io (word_of_nat (length sel)) @ concat (map (ent_image io) sel)"
  let ?st = "bput32 io (word_of_nat (length body)) @ body @ [CHR 0x0A]"
  have "length body = 4 + (\<Sum>e \<leftarrow> sel. length (ent_image io e))"
    by (simp add: body_def length_bput32 length_concat comp_def)
  then have len: "length body < 4294967296" "body \<noteq> []" using s(3) by auto
  then have "buf_restore io (?st @ rest) = Some (body, CHR 0x0A # rest)"
    by (simp add: buf_restore_def btake32_bput32 unsigned_of_nat take_bit_nat_eq_self length_bput32)
  moreover have "unat (btake32 io (bput32 io (word_of_nat (length sel)))) = length sel"
    using s(2) by (simp add: btake32_bput32 unsigned_of_nat take_bit_nat_eq_self)
  then have "pkgfl_restore io body dirs incl =
      (let es = filter (\<lambda>e. loadir io dirs incl (fst e)) sel in Some (if es = [] then None else Some es, []))"
    using restore_dirs_image [OF s(1), of dirs incl "[]"] length_bput32
    by (simp add: pkgfl_restore_def body_def Let_def)
  moreover have "pkgfl_store io fl exclpath depdirs which = Some (length body, ?st)"
    using sel len(2) by (auto simp: pkgfl_store_def pkgfl_store_buf_def body_def)
  ultimately show ?thesis by (auto simp: pkgfl_restore_st_def pkgfl_skip_st_def Let_def)
qed

text \<open>The search in the array of directory names is membership.\<close>

lemma st_has_iff: "st_has io arr x \<longleftrightarrow> x \<in> set arr"
proof -
  let ?arr = "if sorted_cmp strcmp arr then arr else st_sort io strcmp arr"
  have s: "set ?arr = set arr" using sorted_arrays.set_nsort [OF st_arrays] by simp
  have "cmp_order (set arr) strcmp" by (rule cmp_order_subset [OF cmp_order_strcmp]) simp
  then have "sorted_cmp strcmp ?arr" using sorted_arrays.sort_sorted [OF st_arrays] by simp
  then have k: "key_sorted (\<lambda>d. strcmp d x) ?arr" using key_sorted_strcmp [of "\<lambda>d. d" ?arr x] by simp
  show ?thesis
  proof (cases rule: sorted_arrays.search_cases [OF st_arrays k])
    case 1
    then show ?thesis using s by (auto simp: st_has_def)
  next
    case (2 i)
    then have "?arr ! i = x" "?arr ! i \<in> set arr" using s nth_mem [of i ?arr] by simp_all
    then show ?thesis using 2(1) by (simp add: st_has_def)
  qed
qed

end

section \<open>Paths name files\<close>

definition dir_ok :: "string \<Rightarrow> bool" where
  "dir_ok d \<longleftrightarrow> d = ''/'' \<or> d \<noteq> [] \<and> hd d \<noteq> CHR ''/'' \<and> last d \<noteq> CHR ''/''"

lemma path_of_ok:
  assumes "dir_ok d"
  shows "path_of d b = (if d = ''/'' then CHR ''/'' # b else CHR ''/'' # d @ CHR ''/'' # b)"
  using assms by (auto simp: path_of_def dir_ok_def)

lemma path_of_split:
  assumes d: "dir_ok d" and b: "CHR ''/'' \<notin> set b" "CHR ''/'' \<notin> set b'"
  shows "path_of d b = x @ CHR ''/'' # b' \<longleftrightarrow> b = b' \<and> x = (if d = ''/'' then [] else CHR ''/'' # d)"
proof -
  have split: "y @ CHR ''/'' # b = x @ CHR ''/'' # b' \<longleftrightarrow> y = x \<and> b = b'" for y
    using b by (metis after_rchr_append append_same_eq)
  have "path_of d b = (if d = ''/'' then [] else CHR ''/'' # d) @ CHR ''/'' # b" using path_of_ok [OF d] by simp
  then show ?thesis using split [of "if d = ''/'' then [] else CHR ''/'' # d"] by auto
qed

section \<open>The iterator yields the paths\<close>

lemma path_of_append: "path_of d [] @ b = path_of d b"
  by (simp add: path_of_def Let_def)

text \<open>What an iterator is still to yield.\<close>

definition it_left :: "pkgfl_it \<Rightarrow> (string \<times> flfile) list" where
  "it_left it =
     (case it_flent it of
        None \<Rightarrow> []
      | Some (d, fs) \<Rightarrow> map (\<lambda>f. (path_of d (basename f), f)) (drop (it_j it) fs)) @
     pkgfl_paths (drop (it_i it) (it_fl it))"

definition it_ok :: "pkgfl_it \<Rightarrow> bool" where
  "it_ok it \<longleftrightarrow> (\<forall>e \<in> set (it_fl it). snd e \<noteq> []) \<and> it_i it \<le> length (it_fl it) \<and>
     (case it_flent it of
        None \<Rightarrow> it_fl it = []
      | Some (d, fs) \<Rightarrow> it_j it \<le> length fs \<and> it_endp it \<in> {None, Some (path_of d [])})"

lemma it_file_left:
  assumes "it_ok it" "it_flent it = Some e" "it_j it < length (snd e)"
  shows "\<exists>x it'. it_file it e = Some (Some x, it') \<and> it_ok it' \<and> it_left it = x # it_left it'"
proof -
  obtain d fs where e: "e = (d, fs)" by fastforce
  have "drop (it_j it) fs = fs ! it_j it # drop (Suc (it_j it)) fs" using assms(3) by (simp add: e Cons_nth_drop_Suc)
  then show ?thesis
    using assms by (auto simp: e it_file_def it_ok_def it_left_def path_of_append Let_def)
qed

lemma it_get_left:
  assumes "it_ok it"
  shows "case it_left it of
      [] \<Rightarrow> pkgfl_it_get it = Some (None, it)
    | x # xs \<Rightarrow> \<exists>it'. pkgfl_it_get it = Some (Some x, it') \<and> it_ok it' \<and> it_left it' = xs"
proof (cases "it_flent it")
  case None
  then show ?thesis using assms by (simp add: it_left_def it_ok_def pkgfl_it_get_def pkgfl_paths_def)
next
  case (Some e)
  obtain d fs where e: "e = (d, fs)" by fastforce
  consider (within) "it_j it < length fs" | (ends) "it_j it = length fs" "it_i it = length (it_fl it)"
    | (dir) "it_j it = length fs" "it_i it < length (it_fl it)"
    using assms Some by (fastforce simp: e it_ok_def)
  then show ?thesis
  proof cases
    case within
    then show ?thesis using it_file_left [OF assms Some] Some by (auto simp: e pkgfl_it_get_def)
  next
    case ends
    then show ?thesis using Some by (simp add: e it_left_def pkgfl_it_get_def pkgfl_paths_def)
  next
    case dir
    define e' where "e' = it_fl it ! it_i it"
    define it' where "it' = it\<lparr>it_flent := Some e', it_i := it_i it + 1, it_j := 0, it_endp := None\<rparr>"
    have "snd e' \<noteq> []" using assms dir by (simp add: e'_def it_ok_def)
    then have e': "it_ok it'" "it_flent it' = Some e'" "it_j it' < length (snd e')"
      using assms dir Some by (auto simp: it'_def it_ok_def split: prod.splits)
    moreover have "drop (it_i it) (it_fl it) = e' # drop (Suc (it_i it)) (it_fl it)"
      using dir by (simp add: e'_def Cons_nth_drop_Suc)
    then have "it_left it = it_left it'"
      using dir Some by (auto simp: e it_left_def it'_def pkgfl_paths_def split: prod.splits)
    moreover have "pkgfl_it_get it = it_file it' e'"
      using dir Some by (simp add: e pkgfl_it_get_def it'_def e'_def Let_def)
    ultimately show ?thesis using it_file_left [OF e'] by auto
  qed
qed

lemma it_all_left: "it_ok it \<Longrightarrow> length (it_left it) < n \<Longrightarrow> it_all n it = Some (it_left it)"
proof (induction n arbitrary: it)
  case (Suc n)
  show ?case
  proof (cases "it_left it")
    case Nil
    then show ?thesis using it_get_left [OF Suc.prems(1)] by simp
  next
    case (Cons x xs)
    then obtain it' where "pkgfl_it_get it = Some (Some x, it')" "it_ok it'" "it_left it' = xs"
      using it_get_left [OF Suc.prems(1)] by auto
    then show ?thesis using Suc.IH [of it'] Suc.prems(2) Cons by simp
  qed
qed simp

lemma it_all_paths:
  assumes "\<forall>e \<in> set fl. snd e \<noteq> []"
  shows "it_all (Suc (length (pkgfl_paths fl))) (pkgfl_it_init fl) = Some (pkgfl_paths fl)"
proof -
  have "it_ok (pkgfl_it_init fl)" "it_left (pkgfl_it_init fl) = pkgfl_paths fl"
    using assms by (auto simp: pkgfl_it_init_def it_ok_def it_left_def pkgfl_paths_def split: list.split)
  then show ?thesis using it_all_left [of "pkgfl_it_init fl"] by (metis lessI)
qed

lemma skip_slash_simps:
  "skip_slash ''/'' = ''/''" "t \<noteq> [] \<Longrightarrow> hd t \<noteq> CHR ''/'' \<Longrightarrow> skip_slash t = t" "t \<noteq> [] \<Longrightarrow> skip_slash (CHR ''/'' # t) = t"
  by (auto simp: skip_slash_def)

text \<open>A file list whose paths are unambiguous: directories once and trimmed, not empty, base names without
  slash.\<close>

definition pkgfl_ok :: "pkgfl_ent list \<Rightarrow> bool" where
  "pkgfl_ok fl \<longleftrightarrow> distinct (map fst fl) \<and>
     (\<forall>e \<in> set fl. snd e \<noteq> []) \<and> (\<forall>(d, fs) \<in> set fl. dir_ok d \<and> (\<forall>f \<in> set fs. CHR ''/'' \<notin> set (basename f)))"

lemma path_in_list:
  assumes ok: "pkgfl_ok fl" and y: "CHR ''/'' \<notin> set y" and t: "t \<noteq> []" "t = ''/'' \<or> hd t \<noteq> CHR ''/''"
    and q: "q = (if t = ''/'' then [] else CHR ''/'' # t) @ CHR ''/'' # y"
  shows "q \<in> fst ` set (pkgfl_paths fl) \<longleftrightarrow> (\<exists>fs. map_of fl t = Some fs \<and> (\<exists>f \<in> set fs. basename f = y))"
proof -
  have "((if t = ''/'' then [] else CHR ''/'' # t) = (if d = ''/'' then [] else CHR ''/'' # d)) = (d = t)" for d
    using t by auto
  then have "path_of d (basename f) = q \<longleftrightarrow> basename f = y \<and> d = t" if "(d, fs) \<in> set fl" "f \<in> set fs" for d fs f
    using path_of_split [OF _ _ y, of d "basename f"] ok that unfolding q pkgfl_ok_def by fast
  moreover have "q \<in> fst ` set (pkgfl_paths fl) \<longleftrightarrow>
      (\<exists>d fs. (d, fs) \<in> set fl \<and> (\<exists>f \<in> set fs. path_of d (basename f) = q))"
    by (force simp: pkgfl_paths_def)
  ultimately have "q \<in> fst ` set (pkgfl_paths fl) \<longleftrightarrow> (\<exists>fs. (t, fs) \<in> set fl \<and> (\<exists>f \<in> set fs. basename f = y))"
    by (simp cong: conj_cong bex_cong)
  then show ?thesis using ok by (simp add: pkgfl_ok_def)
qed

text \<open>An empty list of directories is no list.\<close>

definition opt_list :: "'a list \<Rightarrow> 'a list option" where
  "opt_list es = (if es = [] then None else Some es)"

lemma loadir_simps: "loadir io None incl d" "loadir io (Some ds) incl d \<longleftrightarrow> st_has io ds d = incl"
  by (auto simp: loadir_def)

section \<open>Properties\<close>

text \<open>C35: A file list stored to an index in two parts, the directories that dependencies name and the
  others, restores from them to exactly the entries of each part in order; stored as a whole it
  restores to the entries whose directory is asked for. What stands behind an image in the stream
  is left, also when the image is skipped.
\<close>

theorem file_list_roundtrip:
  assumes "pkgfl_io io" and "\<forall>e \<in> set fl. ent_ok e" and "length fl < 4294967296"
    and "(\<Sum>e \<leftarrow> fl. length (ent_image io e)) + 4 < 4294967296"
  shows "\<exists>n1 b1 n2 b2 n3 b3.
    pkgfl_store io fl None (Some dd) PKGFL_DEPDIRS = Some (n1, b1) \<and>
    pkgfl_store io fl None (Some dd) PKGFL_NOTDEPDIRS = Some (n2, b2) \<and>
    pkgfl_store io fl None None PKGFL_ALL = Some (n3, b3) \<and>
    pkgfl_restore_st io (b1 @ b2) None incl = Some (opt_list (filter (\<lambda>e. fst e \<in> set dd) fl), b2) \<and>
    pkgfl_restore_st io (b2 @ rest) None incl = Some (opt_list (filter (\<lambda>e. fst e \<notin> set dd) fl), rest) \<and>
    pkgfl_skip_st io (b1 @ b2) = Some b2 \<and>
    pkgfl_restore_st io (b3 @ rest) (Some ds) incl =
      Some (opt_list (filter (\<lambda>e. (fst e \<in> set ds) = incl) fl), rest)"
proof -
  have len: "\<forall>e \<in> set fl. length (fst e) < 254" using assms(2) by (simp add: ent_ok_def)
  note rs = pkgfl_io.restore_store [OF assms]
    and f = fl_matches_select [OF len] fl_select_def pkgfl_io.st_has_iff [OF assms(1)] excluded_def Let_def
      loadir_simps opt_list_def
  obtain n2 b2 where b2: "pkgfl_store io fl None (Some dd) PKGFL_NOTDEPDIRS = Some (n2, b2)"
    "pkgfl_restore_st io (b2 @ rest) None incl = Some (opt_list (filter (\<lambda>e. fst e \<notin> set dd) fl), rest)"
    using rs [of None "Some dd" PKGFL_NOTDEPDIRS "filter (\<lambda>e. fst e \<notin> set dd) fl" rest None incl] by (auto simp: f)
  moreover have "\<exists>n b. pkgfl_store io fl None (Some dd) PKGFL_DEPDIRS = Some (n, b) \<and> pkgfl_skip_st io (b @ b2) = Some b2 \<and>
      pkgfl_restore_st io (b @ b2) None incl = Some (opt_list (filter (\<lambda>e. fst e \<in> set dd) fl), b2)"
    using rs [of None "Some dd" PKGFL_DEPDIRS "filter (\<lambda>e. fst e \<in> set dd) fl" b2 None incl] by (simp add: f)
  moreover have "\<exists>n b. pkgfl_store io fl None None PKGFL_ALL = Some (n, b) \<and>
      pkgfl_restore_st io (b @ rest) (Some ds) incl = Some (opt_list (filter (\<lambda>e. (fst e \<in> set ds) = incl) fl), rest)"
    using rs [of None None PKGFL_ALL fl rest "Some ds" incl] by (auto simp: f)
  ultimately show ?thesis by blast
qed


text \<open>A reference instance of the buffers: numbers in little-endian order, the reference arrays.\<close>

definition ref_flio :: flio where
  "ref_flio = \<lparr>fl_nb = ref_io, bput32 = put32, btake32 = get32, st_sort = isort, st_bsearch = scan_from 0\<rparr>"

interpretation ref_fl: pkgfl_io ref_flio
  by (rule pkgfl_io.intro) (simp_all add: ref_flio_def ref_io.nbuf_io_axioms sorted_arrays_ref)

text \<open>A list with a directory, a program and a link.\<close>

definition ref_fl :: "pkgfl_ent list" where
  "ref_fl =
     [(''etc'', [\<lparr>fl_size = 0, fl_mode = S_IFDIR, basename = ''exim'', slinkto = None\<rparr>]),
      (''usr/bin'', [\<lparr>fl_size = 70000, fl_mode = 33261, basename = ''exim'', slinkto = None\<rparr>,
                   \<lparr>fl_size = 4, fl_mode = 41471, basename = ''rmail'', slinkto = Some ''exim''\<rparr>])]"

lemma ref_fl_ok: "\<forall>e \<in> set ref_fl. ent_ok e" "pkgfl_ok ref_fl"
  by (simp_all add: ref_fl_def ent_ok_def file_ok_def S_ISLNK_def link_of_def prepare_dirname_def pkgfl_ok_def
      dir_ok_def)

theorem file_list_roundtrip_witness:
  "\<exists>n1 b1 n2 b2. pkgfl_store ref_flio ref_fl None (Some [''usr/bin'']) PKGFL_DEPDIRS = Some (n1, b1) \<and>
    pkgfl_store ref_flio ref_fl None (Some [''usr/bin'']) PKGFL_NOTDEPDIRS = Some (n2, b2) \<and>
    pkgfl_restore_st ref_flio (b1 @ b2) None True = Some (Some (tl ref_fl), b2)"
proof -
  have "length ref_fl < 4294967296" by (simp add: ref_fl_def)
  moreover have "(\<Sum>e \<leftarrow> ref_fl. length (ent_image ref_flio e)) + 4 < 4294967296"
    by (simp add: ref_fl_def ent_image_def file_image_def put_str8_def ref_flio_def ref_io.length_put16 S_ISLNK_def
        link_of_def unsigned_of_nat take_bit_nat_eq_self)
  moreover have "opt_list (filter (\<lambda>e. fst e \<in> set [''usr/bin'']) ref_fl) = Some (tl ref_fl)"
    by (simp add: opt_list_def ref_fl_def)
  ultimately show ?thesis
    using file_list_roundtrip [OF ref_fl.pkgfl_io_axioms ref_fl_ok(1), of "[''usr/bin'']" True "[]" "[]"] by auto
qed

definition no_dirix :: dirix where
  "no_dirix = \<lparr>hash_keys = remdups, has_dirindex = \<lambda>_. False, dirindex_pkg_has_path = \<lambda>_ _. False,
     dirindex_get_required = \<lambda>_. None, dirindex_get_provided = \<lambda>_. None\<rparr>"


end
