(* ===== verification/Pkgset_Order.thy ===== *)
theory Pkgset_Order
  imports Pkgset_Dep
begin

text \<open>
  pkgset-order.c: the installation order of a set of packages, a depth-first traversal of the
  requirements with the colours of the packages kept in their flag words. The traversal runs
  twice: over all requirements, and over its own result for the prerequisites alone, where it
  counts the loops.
\<close>

abbreviation PKG_ORDER_PREREQ :: u32 where "PKG_ORDER_PREREQ \<equiv> 32768"
abbreviation PKG_COLOR_WHITE :: u32 where "PKG_COLOR_WHITE \<equiv> 1048576"
abbreviation PKG_COLOR_GRAY :: u32 where "PKG_COLOR_GRAY \<equiv> 2097152"
abbreviation PKG_COLOR_BLACK :: u32 where "PKG_COLOR_BLACK \<equiv> 4194304"
abbreviation PKG_ALL_COLORS :: u32 where "PKG_ALL_COLORS \<equiv> 7340032"

section \<open>Colours\<close>

text \<open>The flag words of the packages by address: the traversal writes into the shared objects.\<close>

type_synonym pkg_flags = "nat \<Rightarrow> u32"

definition pkg_set_color :: "pkg \<Rightarrow> u32 \<Rightarrow> pkg_flags \<Rightarrow> pkg_flags" where
  "pkg_set_color p c fl = fl(addr p := (fl (addr p) AND NOT PKG_ALL_COLORS) OR c)"

definition pkg_is_color :: "pkg_flags \<Rightarrow> pkg \<Rightarrow> u32 \<Rightarrow> bool" where
  "pkg_is_color fl p c \<longleftrightarrow> fl (addr p) AND c \<noteq> 0"

definition pkg_set_prereqed :: "pkg \<Rightarrow> pkg_flags \<Rightarrow> pkg_flags" where
  "pkg_set_prereqed p fl = fl(addr p := fl (addr p) OR PKG_ORDER_PREREQ)"

definition pkg_clr_prereqed :: "pkg \<Rightarrow> pkg_flags \<Rightarrow> pkg_flags" where
  "pkg_clr_prereqed p fl = fl(addr p := fl (addr p) AND NOT PKG_ORDER_PREREQ)"

definition pkg_is_prereqed :: "pkg_flags \<Rightarrow> pkg \<Rightarrow> bool" where
  "pkg_is_prereqed fl p \<longleftrightarrow> fl (addr p) AND PKG_ORDER_PREREQ \<noteq> 0"

section \<open>The traversal\<close>

text \<open>
  \<open>struct visit_install_order_s\<close> with the flag words; the top of the stack is its head, the
  state of the package set is a parameter.
\<close>

record 's visit_state =
  vs_ps :: 's
  pflags :: pkg_flags
  ordered :: "pkg list"
  stack :: "pkg list"
  nerrors :: nat

text \<open>The packages of an entry in the order of the inner loop, with the flags of their links.\<close>

definition reqpkg_elems :: "reqpkg \<Rightarrow> (pkg \<times> u8) list" where
  "reqpkg_elems rp = (rp_pkg rp, rp_flags rp) #
     (if rp_flags rp AND REQPKG_MULTI \<noteq> 0 then map (\<lambda>a. (rp_pkg a, rp_flags a)) (adds rp) else [])"

definition req_elems :: "reqpkg list option \<Rightarrow> (pkg \<times> u8) list" where
  "req_elems r = concat (map reqpkg_elems (case r of None \<Rightarrow> [] | Some arr \<Rightarrow> arr))"

text \<open>The walk down the stack to a package already on it: the steps, and how many are prerequired.\<close>

fun loop_walk :: "pkg_flags \<Rightarrow> pkg \<Rightarrow> pkg list \<Rightarrow> nat \<times> nat \<Rightarrow> nat \<times> nat" where
  "loop_walk fl q [] (nn, nprereqs) = (nn, nprereqs)"
| "loop_walk fl q (p # ps) (nn, nprereqs) =
     (if addr p = addr q then (nn, nprereqs)
      else if \<not> pkg_is_prereqed fl p then (nn + 1, nprereqs)
      else loop_walk fl q ps (nn + 1, nprereqs + 1))"

definition is_loop :: "'s visit_state \<Rightarrow> pkg \<Rightarrow> bool" where
  "is_loop v q \<longleftrightarrow>
     (let (nn, nprereqs) = loop_walk (pflags v) q (stack v) (0, 0) in 0 < nn \<and> nn = nprereqs)"

text \<open>
  One required package; \<open>vis\<close> visits a package. \<open>None\<close> is the failed assertion on the colour.
\<close>

definition visit_rp ::
  "('s visit_state \<Rightarrow> pkg \<Rightarrow> 's visit_state option) \<Rightarrow> u8 \<Rightarrow> pkg \<times> u8 \<Rightarrow> 's visit_state \<Rightarrow>
   's visit_state option" where
  "visit_rp vis reqpkg_flag = (\<lambda>(q, fl) v.
     if \<not> pkg_is_color (pflags v) q PKG_ALL_COLORS then Some v
     else if pkg_is_color (pflags v) q PKG_COLOR_WHITE then
       let pre = fl AND reqpkg_flag \<noteq> 0;
           v1 = v\<lparr>pflags := (if pre then pkg_set_prereqed else pkg_clr_prereqed) q (pflags v)\<rparr>
       in if reqpkg_flag = 0 \<or> pre then vis v1 q else Some v1
     else if pkg_is_color (pflags v) q PKG_COLOR_BLACK then Some v
     else if pkg_is_color (pflags v) q PKG_COLOR_GRAY then
       Some (if fl AND reqpkg_flag \<noteq> 0 \<and> is_loop v q then v\<lparr>nerrors := nerrors v + 1\<rparr> else v)
     else None)"

fun visit_rps ::
  "('s visit_state \<Rightarrow> pkg \<Rightarrow> 's visit_state option) \<Rightarrow> u8 \<Rightarrow> (pkg \<times> u8) list \<Rightarrow> 's visit_state \<Rightarrow>
   's visit_state option" where
  "visit_rps vis reqpkg_flag [] v = Some v"
| "visit_rps vis reqpkg_flag (e # es) v =
     Option.bind (visit_rp vis reqpkg_flag e v) (visit_rps vis reqpkg_flag es)"

text \<open>The loop that pops the stack: its bound is read again as the stack gets shorter.\<close>

function pop_stack :: "nat \<Rightarrow> pkg list \<Rightarrow> pkg_flags \<Rightarrow> pkg list \<times> pkg_flags" where
  "pop_stack i st fl =
     (if i < length st then pop_stack (i + 1) (tl st) (pkg_clr_prereqed (hd st) fl) else (st, fl))"
  by auto
termination by (relation "measure (\<lambda>(i, st, _). length st - i)") auto

declare pop_stack.simps [simp del]

definition visit_end :: "pkg \<Rightarrow> 's visit_state \<Rightarrow> 's visit_state" where
  "visit_end p v = v\<lparr>pflags := pkg_clr_prereqed p (pkg_set_color p PKG_COLOR_BLACK (pflags v)),
     ordered := ordered v @ [p]\<rparr>"

text \<open>
  The visit of a package: \<open>getreq\<close> is the package set's answer for its requirements. The fuel
  bounds the depth of the recursion; the number of white packages is always enough.
\<close>

primrec visit_install_order ::
  "('s \<Rightarrow> pkg \<Rightarrow> reqpkg list option \<times> 's) \<Rightarrow> u8 \<Rightarrow> nat \<Rightarrow> 's visit_state \<Rightarrow> pkg \<Rightarrow>
   's visit_state option" where
  "visit_install_order getreq reqpkg_flag 0 = (\<lambda>v p. None)"
| "visit_install_order getreq reqpkg_flag (Suc n) = (\<lambda>v p.
     let v1 = v\<lparr>pflags := pkg_set_color p PKG_COLOR_GRAY (pflags v)\<rparr>;
         (reqpkgs, s) = getreq (vs_ps v1) p;
         v2 = v1\<lparr>vs_ps := s\<rparr>
     in if (case reqpkgs of None \<Rightarrow> True | Some arr \<Rightarrow> arr = []) then Some (visit_end p v2)
        else
          let last_stack_i = length (stack v2) in
          map_option
            (\<lambda>v3. let v4 = visit_end p v3; (st, fl) = pop_stack last_stack_i (stack v4) (pflags v4)
                  in v4\<lparr>stack := st, pflags := fl\<rparr>)
            (visit_rps (visit_install_order getreq reqpkg_flag n) reqpkg_flag (req_elems reqpkgs)
              (v2\<lparr>stack := p # stack v2\<rparr>)))"

definition mapfn_clean_pkg_color :: "pkg \<Rightarrow> pkg_flags \<Rightarrow> pkg_flags" where
  "mapfn_clean_pkg_color p fl = pkg_clr_prereqed p (pkg_set_color p PKG_COLOR_WHITE fl)"

fun order_loop ::
  "('s \<Rightarrow> pkg \<Rightarrow> reqpkg list option \<times> 's) \<Rightarrow> u8 \<Rightarrow> nat \<Rightarrow> pkg list \<Rightarrow> 's visit_state \<Rightarrow>
   's visit_state option" where
  "order_loop getreq reqpkg_flag n [] v = Some v"
| "order_loop getreq reqpkg_flag n (p # ps) v =
     (if pkg_is_color (pflags v) p PKG_COLOR_WHITE
      then Option.bind (visit_install_order getreq reqpkg_flag n v p)
             (\<lambda>v'. order_loop getreq reqpkg_flag n ps (v'\<lparr>stack := []\<rparr>))
      else order_loop getreq reqpkg_flag n ps v)"

text \<open>\<open>None\<close> when the assertion on the number of packages fails.\<close>

definition do_order ::
  "('s \<Rightarrow> pkg \<Rightarrow> reqpkg list option \<times> 's) \<Rightarrow> u8 \<Rightarrow> 's \<Rightarrow> pkg_flags \<Rightarrow> pkg list \<Rightarrow>
   's visit_state option" where
  "do_order getreq reqpkg_flag s fl pkgs =
     Option.bind
       (order_loop getreq reqpkg_flag (length pkgs) pkgs
         \<lparr>vs_ps = s, pflags = fold mapfn_clean_pkg_color pkgs fl, ordered = [], stack = [], nerrors = 0\<rparr>)
       (\<lambda>v. if length (ordered v) = length pkgs then Some v else None)"

datatype ordertype = PKGORDER_INSTALL | PKGORDER_UNINSTALL

fun order_flag :: "ordertype \<Rightarrow> u8" where
  "order_flag PKGORDER_INSTALL = REQPKG_PREREQ"
| "order_flag PKGORDER_UNINSTALL = REQPKG_PREREQ_UN"

definition do_packages_order ::
  "penv \<Rightarrow> psenv \<Rightarrow> arch_registry \<Rightarrow> ('s \<Rightarrow> pkg \<Rightarrow> reqpkg list option \<times> 's) \<Rightarrow> 's \<Rightarrow> pkg_flags \<Rightarrow>
   pkg list \<Rightarrow> ordertype \<Rightarrow> 's visit_state option" where
  "do_packages_order E P R getreq s fl pkgs ot =
     (if pkgs = [] then None
      else
        let inpkgs = pk_sort P (pkg_cmp_pri_name_evr_rev E R) pkgs in
          Option.bind (do_order getreq 0 s fl inpkgs)
             (\<lambda>pre. do_order getreq (order_flag ot) (vs_ps pre) (pflags pre) (ordered pre)))"

definition pkgset_order ::
  "penv \<Rightarrow> psenv \<Rightarrow> arch_registry \<Rightarrow> pkgset \<Rightarrow> pkg_flags \<Rightarrow> pkg list \<Rightarrow> ordertype \<Rightarrow>
   pkgset visit_state option" where
  "pkgset_order E P R ps fl pkgs ot =
     do_packages_order E P R (pkgset_get_required_packages E P R) ps fl pkgs ot"

section \<open>Colours of the flag words\<close>

lemma bit_masks [flag_simps]:
  "(w AND PKG_ORDER_PREREQ \<noteq> 0) = bit (w :: u32) 15"
  "(w AND PKG_COLOR_WHITE \<noteq> 0) = bit w 20"
  "(w AND PKG_COLOR_GRAY \<noteq> 0) = bit w 21"
  "(w AND PKG_COLOR_BLACK \<noteq> 0) = bit w 22"
  using bit_iff_and_push_bit_not_eq_0 [of w 15] bit_iff_and_push_bit_not_eq_0 [of w 20]
    bit_iff_and_push_bit_not_eq_0 [of w 21] bit_iff_and_push_bit_not_eq_0 [of w 22]
  by (simp_all add: push_bit_eq_mult)

lemma bit_consts [flag_simps]:
  "bit PKG_ORDER_PREREQ n \<longleftrightarrow> n = 15" "bit PKG_COLOR_WHITE n \<longleftrightarrow> n = 20"
  "bit PKG_COLOR_GRAY n \<longleftrightarrow> n = 21" "bit PKG_COLOR_BLACK n \<longleftrightarrow> n = 22"
  "bit PKG_ALL_COLORS n \<longleftrightarrow> n = 20 \<or> n = 21 \<or> n = 22"
proof -
  have e: "PKG_ORDER_PREREQ = 2 ^ 15" "PKG_COLOR_WHITE = 2 ^ 20" "PKG_COLOR_GRAY = 2 ^ 21"
    "PKG_COLOR_BLACK = 2 ^ 22" "PKG_ALL_COLORS = 2 ^ 20 OR 2 ^ 21 OR 2 ^ 22"
    by simp_all
  show "bit PKG_ORDER_PREREQ n \<longleftrightarrow> n = 15" "bit PKG_COLOR_WHITE n \<longleftrightarrow> n = 20"
    "bit PKG_COLOR_GRAY n \<longleftrightarrow> n = 21" "bit PKG_COLOR_BLACK n \<longleftrightarrow> n = 22"
    "bit PKG_ALL_COLORS n \<longleftrightarrow> n = 20 \<or> n = 21 \<or> n = 22"
    unfolding e by (auto simp only: bit_exp_iff bit_or_iff) simp_all
qed

lemma bit_consts_int [flag_simps]:
  "bit (32768 :: int) n \<longleftrightarrow> n = 15" "bit (1048576 :: int) n \<longleftrightarrow> n = 20"
  "bit (2097152 :: int) n \<longleftrightarrow> n = 21" "bit (4194304 :: int) n \<longleftrightarrow> n = 22"
  using bit_exp_iff [where 'a = int, of 15 n] bit_exp_iff [where 'a = int, of 20 n]
    bit_exp_iff [where 'a = int, of 21 n] bit_exp_iff [where 'a = int, of 22 n]
  by simp_all

lemma all_colors [flag_simps]:
  "((w :: u32) AND PKG_ALL_COLORS \<noteq> 0) \<longleftrightarrow> bit w 20 \<or> bit w 21 \<or> bit w 22"
proof -
  have "PKG_ALL_COLORS = PKG_COLOR_WHITE OR PKG_COLOR_GRAY OR PKG_COLOR_BLACK" by simp
  then have "w AND PKG_ALL_COLORS = (w AND PKG_COLOR_WHITE) OR (w AND PKG_COLOR_GRAY) OR (w AND PKG_COLOR_BLACK)"
    by (metis bit.conj_disj_distrib)
  then show ?thesis using bit_masks [of w] by (auto simp: or_eq_0_iff)
qed

lemma bit_set_color [flag_simps]:
  "n < 32 \<Longrightarrow> bit (pkg_set_color p c fl a) n \<longleftrightarrow>
     (if a = addr p then bit (fl a) n \<and> n \<notin> {20, 21, 22} \<or> bit c n else bit (fl a) n)"
  by (auto simp only: pkg_set_color_def fun_upd_apply bit_and_iff bit_or_iff bit_not_iff_eq bit_consts
    possible_bit_word if_True if_False len_num1 len_bit0 split: if_splits) simp_all

lemma bit_set_prereqed [flag_simps]:
  "bit (pkg_set_prereqed p fl a) n \<longleftrightarrow> bit (fl a) n \<or> a = addr p \<and> n = 15"
  by (auto simp only: pkg_set_prereqed_def fun_upd_apply bit_or_iff bit_consts split: if_splits)

lemma bit_clr_prereqed [flag_simps]:
  "n < 32 \<Longrightarrow> bit (pkg_clr_prereqed p fl a) n \<longleftrightarrow> bit (fl a) n \<and> \<not> (a = addr p \<and> n = 15)"
  by (auto simp only: pkg_clr_prereqed_def fun_upd_apply bit_and_iff bit_not_iff_eq bit_consts
    possible_bit_word split: if_splits) simp_all

abbreviation white :: "pkg_flags \<Rightarrow> nat \<Rightarrow> bool" where "white fl a \<equiv> bit (fl a) 20"
abbreviation gray :: "pkg_flags \<Rightarrow> nat \<Rightarrow> bool" where "gray fl a \<equiv> bit (fl a) 21"
abbreviation black :: "pkg_flags \<Rightarrow> nat \<Rightarrow> bool" where "black fl a \<equiv> bit (fl a) 22"
abbreviation prereqed :: "pkg_flags \<Rightarrow> nat \<Rightarrow> bool" where "prereqed fl a \<equiv> bit (fl a) 15"

lemmas colour_simps = pkg_is_color_def pkg_is_prereqed_def flag_simps

lemma pop_one: "pop_stack (length st) (p # st) fl = (st, pkg_clr_prereqed p fl)"
  by (simp add: pop_stack.simps [of "length st"] pop_stack.simps [of "Suc (length st)"])

section \<open>The colouring\<close>

text \<open>
  Of the packages to order, \<open>pool\<close>, each has one colour, the black ones are those already
  ordered; the gray packages are those on the stack.
\<close>

definition coloured :: "nat set \<Rightarrow> 's visit_state \<Rightarrow> bool" where
  "coloured pool v \<longleftrightarrow>
     (\<forall>a \<in> pool. (white (pflags v) a \<or> gray (pflags v) a \<or> black (pflags v) a) \<and>
        \<not> (white (pflags v) a \<and> gray (pflags v) a) \<and> \<not> (white (pflags v) a \<and> black (pflags v) a) \<and>
        \<not> (gray (pflags v) a \<and> black (pflags v) a)) \<and>
     (\<forall>a. a \<notin> pool \<longrightarrow> \<not> white (pflags v) a \<and> \<not> gray (pflags v) a) \<and>
     distinct (map addr (ordered v)) \<and>
     addr ` set (ordered v) = {a \<in> pool. black (pflags v) a} \<and>
     addr ` set (stack v) = {a. gray (pflags v) a}"

text \<open>What a visit leaves as it is, and how it moves on.\<close>

definition moves :: "'s visit_state \<Rightarrow> 's visit_state \<Rightarrow> bool" where
  "moves v v' \<longleftrightarrow> stack v' = stack v \<and> (\<exists>os. ordered v' = ordered v @ os) \<and>
     (\<forall>a. white (pflags v') a \<longrightarrow> white (pflags v) a) \<and> nerrors v \<le> nerrors v' \<and>
     (\<forall>p \<in> set (stack v). prereqed (pflags v') (addr p) = prereqed (pflags v) (addr p))"

lemma moves_refl [simp]: "moves v v"
  by (simp add: moves_def)

lemma moves_trans: "moves v v1 \<Longrightarrow> moves v1 v2 \<Longrightarrow> moves v v2"
  by (fastforce simp: moves_def)

definition visits :: "nat set \<Rightarrow> nat \<Rightarrow> ('s visit_state \<Rightarrow> pkg \<Rightarrow> 's visit_state option) \<Rightarrow> bool" where
  "visits pool n vis \<longleftrightarrow>
     (\<forall>v (q :: pkg). coloured pool v \<longrightarrow> white (pflags v) (addr q) \<longrightarrow> card {a. white (pflags v) a} \<le> n \<longrightarrow>
        (\<exists>v'. vis v q = Some v' \<and> coloured pool v' \<and> moves v v' \<and> black (pflags v') (addr q)))"

text \<open>A relevant link: any link in the first traversal, a prerequisite in the second.\<close>

abbreviation relevant :: "u8 \<Rightarrow> u8 \<Rightarrow> bool" where
  "relevant rf fl \<equiv> rf = 0 \<or> fl AND rf \<noteq> 0"

lemma visit_rp_ok:
  assumes vis: "visits pool n vis" and v: "coloured pool v" "card {a. white (pflags v) a} \<le> n"
  shows "\<exists>v'. visit_rp vis rf (q, fl) v = Some v' \<and> coloured pool v' \<and> moves v v' \<and>
    (relevant rf fl \<longrightarrow> \<not> white (pflags v') (addr q))"
proof (cases "white (pflags v) (addr q)")
  case True
  let ?pre = "fl AND rf \<noteq> 0"
  let ?v = "v\<lparr>pflags := (if ?pre then pkg_set_prereqed else pkg_clr_prereqed) q (pflags v)\<rparr>"
  have q: "addr q \<in> pool" using True v(1) by (auto simp: coloured_def)
  have w: "white (pflags ?v) a = white (pflags v) a" for a by (simp add: flag_simps)
  have cv: "coloured pool ?v" using v(1) by (simp add: coloured_def flag_simps)
  have ns: "addr q \<notin> addr ` set (stack v)" using q True v(1) by (auto simp: coloured_def)
  then have "p \<in> set (stack v) \<Longrightarrow> addr p \<noteq> addr q" for p by (metis imageI)
  then have mv: "moves v ?v" by (auto simp: moves_def flag_simps)
  have eq: "visit_rp vis rf (q, fl) v = (if relevant rf fl then vis ?v q else Some ?v)"
    using True by (simp add: visit_rp_def colour_simps Let_def)
  show ?thesis
  proof (cases "relevant rf fl")
    case rel: True
    have "card {a. white (pflags ?v) a} \<le> n" unfolding w by (rule v(2))
    moreover have "white (pflags ?v) (addr q)" unfolding w by (rule True)
    ultimately obtain v' where v': "vis ?v q = Some v'" "coloured pool v'" "moves ?v v'" "black (pflags v') (addr q)"
      using vis cv unfolding visits_def by blast
    then have "\<not> white (pflags v') (addr q)" using q by (auto simp: coloured_def)
    then show ?thesis using v' eq rel moves_trans [OF mv v'(3)] by auto
  qed (use cv mv eq in simp)
next
  case False
  then show ?thesis using v by (auto simp: visit_rp_def colour_simps coloured_def moves_def)
qed

lemma whites_card:
  assumes "moves v v'" "coloured pool v" "finite pool"
  shows "card {a. white (pflags v') a} \<le> card {a. white (pflags v) a}"
proof (rule card_mono)
  have "{a. white (pflags v) a} \<subseteq> pool" using assms(2) by (auto simp: coloured_def)
  then show "finite {a. white (pflags v) a}" using assms(3) finite_subset by blast
qed (use assms(1) in \<open>auto simp: moves_def\<close>)

lemma visit_rps_ok:
  assumes vis: "visits pool n vis" and fin: "finite pool"
    and v: "coloured pool v" "card {a. white (pflags v) a} \<le> n"
  shows "\<exists>v'. visit_rps vis rf es v = Some v' \<and> coloured pool v' \<and> moves v v' \<and>
    (\<forall>(q, fl) \<in> set es. relevant rf fl \<longrightarrow> \<not> white (pflags v') (addr q))"
  using v
proof (induction es arbitrary: v)
  case (Cons e es)
  obtain q fl where e: "e = (q, fl)" by fastforce
  obtain v1 where v1: "visit_rp vis rf e v = Some v1" "coloured pool v1" "moves v v1"
    "relevant rf fl \<longrightarrow> \<not> white (pflags v1) (addr q)"
    using visit_rp_ok [OF vis Cons.prems] e by blast
  have "card {a. white (pflags v1) a} \<le> n"
    using whites_card [OF v1(3) Cons.prems(1) fin] Cons.prems(2) by simp
  then obtain v2 where v2: "visit_rps vis rf es v1 = Some v2" "coloured pool v2" "moves v1 v2"
    "\<forall>(q, fl) \<in> set es. relevant rf fl \<longrightarrow> \<not> white (pflags v2) (addr q)"
    using Cons.IH [OF v1(2)] by blast
  have "relevant rf fl \<longrightarrow> \<not> white (pflags v2) (addr q)"
    using v1(4) v2(3) by (auto simp: moves_def)
  then show ?case using v1(1) v2 moves_trans [OF v1(3) v2(3)] e by auto
qed simp

section \<open>The traversal ends and orders every package once\<close>

text \<open>The two halves of a visit: a package painted gray, and a gray package at its end.\<close>

definition visit_begin ::
  "('s \<Rightarrow> pkg \<Rightarrow> reqpkg list option \<times> 's) \<Rightarrow> pkg \<Rightarrow> 's visit_state \<Rightarrow> 's visit_state" where
  "visit_begin getreq p v = v\<lparr>pflags := pkg_set_color p PKG_COLOR_GRAY (pflags v),
     vs_ps := snd (getreq (vs_ps v) p), stack := p # stack v\<rparr>"

definition visit_finish :: "pkg \<Rightarrow> 's visit_state \<Rightarrow> 's visit_state" where
  "visit_finish p v = v\<lparr>pflags := pkg_clr_prereqed p (pkg_set_color p PKG_COLOR_BLACK (pflags v)),
     ordered := ordered v @ [p], stack := tl (stack v)\<rparr>"

lemma clr_prereqed_twice: "pkg_clr_prereqed p (pkg_clr_prereqed p fl) = pkg_clr_prereqed p fl"
  by (simp add: pkg_clr_prereqed_def)

lemma visit_Suc:
  assumes "\<And>v'. visit_rps (visit_install_order getreq rf n) rf (req_elems (fst (getreq (vs_ps v) p)))
      (visit_begin getreq p v) = Some v' \<Longrightarrow> stack v' = p # stack v"
  shows "visit_install_order getreq rf (Suc n) v p =
    map_option (visit_finish p) (visit_rps (visit_install_order getreq rf n) rf
      (req_elems (fst (getreq (vs_ps v) p))) (visit_begin getreq p v))"
proof -
  obtain r s where r: "getreq (vs_ps v) p = (r, s)" by fastforce
  let ?vb = "visit_begin getreq p v"
  show ?thesis
  proof (cases "r = None \<or> r = Some []")
    case True
    then have none: "req_elems r = []" by (auto simp: req_elems_def)
    then have "visit_install_order getreq rf (Suc n) v p = Some (visit_end p
        (v\<lparr>pflags := pkg_set_color p PKG_COLOR_GRAY (pflags v), vs_ps := s\<rparr>))"
      using True r by (auto simp: Let_def split: option.splits)
    then show ?thesis using none r by (simp add: visit_end_def visit_begin_def visit_finish_def)
  next
    case False
    have "pop_stack (length (stack v)) (stack (visit_end p v3)) (pflags (visit_end p v3)) =
        (stack v, pflags (visit_end p v3))" if "stack v3 = p # stack v" for v3 :: "'a visit_state"
      using that by (simp add: visit_end_def pop_one clr_prereqed_twice)
    then have fin: "(let v4 = visit_end p v3; (st, fl) = pop_stack (length (stack v)) (stack v4) (pflags v4)
        in v4\<lparr>stack := st, pflags := fl\<rparr>) = visit_finish p v3" if "stack v3 = p # stack v" for v3 :: "'a visit_state"
      using that by (simp add: visit_end_def visit_finish_def Let_def)
    have "visit_install_order getreq rf (Suc n) v p =
        map_option (\<lambda>v3. let v4 = visit_end p v3; (st, fl) = pop_stack (length (stack v)) (stack v4) (pflags v4)
            in v4\<lparr>stack := st, pflags := fl\<rparr>)
          (visit_rps (visit_install_order getreq rf n) rf (req_elems r) ?vb)"
      using False r by (cases r) (auto simp: visit_begin_def Let_def)
    then show ?thesis using fin assms r
      by (cases "visit_rps (visit_install_order getreq rf n) rf (req_elems r) ?vb") simp_all
  qed
qed

lemma begin_ok:
  assumes "coloured pool v" "white (pflags v) (addr p)"
  shows "coloured pool (visit_begin getreq p v)"
    and "{a. white (pflags v) a} = insert (addr p) {a. white (pflags (visit_begin getreq p v)) a}"
    and "\<not> white (pflags (visit_begin getreq p v)) (addr p)"
  using assms by (auto simp: coloured_def visit_begin_def flag_simps)

lemma finish_ok:
  assumes "coloured pool v" "stack v = p # st" "addr p \<notin> addr ` set st" "addr p \<in> pool"
  shows "coloured pool (visit_finish p v)"
proof -
  have g: "gray (pflags v) (addr p)" "addr ` set st = {a. gray (pflags v) a} - {addr p}"
  proof -
    have i: "insert (addr p) (addr ` set st) = {a. gray (pflags v) a}"
      using assms(1,2) by (simp add: coloured_def)
    then show "gray (pflags v) (addr p)" by blast
    show "addr ` set st = {a. gray (pflags v) a} - {addr p}"
      unfolding i [symmetric] using assms(3) by (rule Diff_insert_absorb [symmetric])
  qed
  then have "addr p \<notin> addr ` set (ordered v)" using assms(1) by (auto simp: coloured_def)
  moreover have "a \<in> pool \<Longrightarrow> gray (pflags v) a \<Longrightarrow> \<not> black (pflags v) a" for a
    using assms(1) by (simp add: coloured_def)
  ultimately show ?thesis using assms g
    unfolding coloured_def visit_finish_def by (simp add: flag_simps) blast
qed

lemma visit_moves:
  assumes "coloured pool v" "white (pflags v) (addr p)" "moves (visit_begin getreq p v) v1"
  shows "moves v (visit_finish p v1)"
proof -
  have st: "stack v1 = p # stack v" and
    w: "white (pflags v1) a \<Longrightarrow> white (pflags (visit_begin getreq p v)) a" for a
    using assms(3) by (auto simp: moves_def visit_begin_def)
  have ns: "addr p \<notin> addr ` set (stack v)"
    using assms(1,2) by (auto simp: coloured_def)
  have pre: "prereqed (pflags v1) (addr q) = prereqed (pflags v) (addr q)" if "q \<in> set (stack v)" for q
    using assms(3) that by (auto simp: moves_def visit_begin_def flag_simps)
  have "q \<in> set (stack v) \<Longrightarrow> addr q \<noteq> addr p" for q using ns by (metis imageI)
  then show ?thesis using st w pre assms(3)
    by (auto simp: moves_def visit_begin_def visit_finish_def flag_simps)
qed

lemma visit_ok:
  assumes fin: "finite pool"
  shows "visits pool n (visit_install_order getreq rf n)"
proof (induction n)
  case 0
  have "\<not> (white (pflags v) (addr q) \<and> card {a. white (pflags v) a} \<le> 0)"
    if "coloured pool v" for v :: "'a visit_state" and q
  proof -
    have "{a. white (pflags v) a} \<subseteq> pool" using that by (auto simp: coloured_def)
    then have "finite {a. white (pflags v) a}" using fin finite_subset by blast
    then show ?thesis by auto
  qed
  then show ?case unfolding visits_def by blast
next
  case (Suc n)
  show ?case unfolding visits_def
  proof (intro allI impI)
    fix v :: "'a visit_state" and p :: pkg
    assume v: "coloured pool v" "white (pflags v) (addr (p :: pkg))" "card {a. white (pflags v) a} \<le> Suc n"
    let ?vb = "visit_begin getreq p v" and ?es = "req_elems (fst (getreq (vs_ps v) p))"
    note vb = begin_ok [OF v(1,2), of getreq]
    have "{a. white (pflags ?vb) a} \<subseteq> pool" using vb(1) by (auto simp: coloured_def)
    then have "finite {a. white (pflags ?vb) a}" using fin finite_subset by blast
    then have "card {a. white (pflags ?vb) a} \<le> n" using v(3) vb(2,3) by simp
    from visit_rps_ok [OF Suc fin vb(1) this] obtain v1 where
      v1: "visit_rps (visit_install_order getreq rf n) rf ?es ?vb = Some v1" "coloured pool v1" "moves ?vb v1"
      by blast
    have st: "stack v1 = p # stack v" using v1(3) by (simp add: moves_def visit_begin_def)
    have ns: "addr p \<notin> addr ` set (stack v)" and pp: "addr p \<in> pool"
      using v(1,2) by (auto simp: coloured_def)
    have "visit_install_order getreq rf (Suc n) v p = Some (visit_finish p v1)"
      using v1(1) st by (subst visit_Suc) auto
    moreover have "black (pflags (visit_finish p v1)) (addr p)"
      by (simp add: visit_finish_def flag_simps)
    ultimately show "\<exists>v'. visit_install_order getreq rf (Suc n) v p = Some v' \<and> coloured pool v' \<and>
        moves v v' \<and> black (pflags v') (addr p)"
      using finish_ok [OF v1(2) st ns pp] visit_moves [OF v(1,2) v1(3)] by blast
  qed
qed

text \<open>No package but those to order is left white or gray.\<close>

definition settled :: "pkg_flags \<Rightarrow> pkg list \<Rightarrow> bool" where
  "settled fl pkgs \<longleftrightarrow> (\<forall>a. a \<notin> addr ` set pkgs \<longrightarrow> \<not> white fl a \<and> \<not> gray fl a)"

lemma clean_colours:
  "n < 32 \<Longrightarrow> bit (mapfn_clean_pkg_color p fl a) n =
     (if a = addr p then bit (fl a) n \<and> n \<notin> {15, 21, 22} \<or> n = 20 else bit (fl a) n)"
  by (auto simp: mapfn_clean_pkg_color_def flag_simps)

lemma clean_all:
  "n < 32 \<Longrightarrow> bit (fold mapfn_clean_pkg_color pkgs fl a) n =
     (if a \<in> addr ` set pkgs then bit (fl a) n \<and> n \<notin> {15, 21, 22} \<or> n = 20 else bit (fl a) n)"
  by (induction pkgs arbitrary: fl) (auto simp: clean_colours)

definition order_start :: "'s \<Rightarrow> pkg_flags \<Rightarrow> pkg list \<Rightarrow> 's visit_state" where
  "order_start s fl pkgs =
     \<lparr>vs_ps = s, pflags = fold mapfn_clean_pkg_color pkgs fl, ordered = [], stack = [], nerrors = 0\<rparr>"

lemma start_ok: "settled fl pkgs \<Longrightarrow> coloured (addr ` set pkgs) (order_start s fl pkgs)"
  by (auto simp: coloured_def order_start_def clean_all settled_def)

lemma order_loop_ok:
  assumes fin: "finite pool" and v: "coloured pool v" "stack v = []" "card {a. white (pflags v) a} \<le> n"
    and sub: "addr ` set pkgs \<subseteq> pool"
  shows "\<exists>v'. order_loop getreq rf n pkgs v = Some v' \<and> coloured pool v' \<and> moves v v' \<and>
    (\<forall>p \<in> set pkgs. black (pflags v') (addr p))"
  using v sub
proof (induction pkgs arbitrary: v)
  case (Cons p pkgs)
  have keeps: "black (pflags v2) (addr p)"
    if "coloured pool v1" "black (pflags v1) (addr p)" "moves v1 v2" "coloured pool v2" for v1 v2 :: "'a visit_state"
  proof -
    have "addr p \<in> addr ` set (ordered v1)" using that(1,2) Cons.prems(4) by (simp add: coloured_def)
    then have "addr p \<in> addr ` set (ordered v2)" using that(3) by (auto simp: moves_def)
    then show ?thesis using that(4) by (auto simp: coloured_def)
  qed
  show ?case
  proof (cases "white (pflags v) (addr p)")
    case True
    obtain v1 where v1: "visit_install_order getreq rf n v p = Some v1" "coloured pool v1" "moves v v1"
      "black (pflags v1) (addr p)"
      using visit_ok [OF fin, of n getreq rf] Cons.prems(1,3) True unfolding visits_def by blast
    have st: "stack v1 = []" "v1\<lparr>stack := []\<rparr> = v1" using v1(3) Cons.prems(2) by (auto simp: moves_def)
    have "card {a. white (pflags v1) a} \<le> n"
      using whites_card [OF v1(3) Cons.prems(1) fin] Cons.prems(3) by simp
    then obtain v2 where v2: "order_loop getreq rf n pkgs v1 = Some v2" "coloured pool v2" "moves v1 v2"
      "\<forall>p \<in> set pkgs. black (pflags v2) (addr p)"
      using Cons.IH [OF v1(2) st(1)] Cons.prems(4) by auto
    have "order_loop getreq rf n (p # pkgs) v = Some v2"
      using True v1(1) v2(1) st(2) by (simp add: colour_simps)
    then show ?thesis
      using v2 moves_trans [OF v1(3) v2(3)] keeps [OF v1(2,4) v2(3,2)] by auto
  next
    case False
    obtain v2 where v2: "order_loop getreq rf n pkgs v = Some v2" "coloured pool v2" "moves v v2"
      "\<forall>p \<in> set pkgs. black (pflags v2) (addr p)"
      using Cons.IH [OF Cons.prems(1-3)] Cons.prems(4) by auto
    have "addr p \<in> pool" using Cons.prems(4) by simp
    moreover have "\<not> gray (pflags v) (addr p)" using Cons.prems(1,2) by (auto simp: coloured_def)
    ultimately have "black (pflags v) (addr p)" using False Cons.prems(1) by (auto simp: coloured_def)
    then show ?thesis using v2 False keeps [OF Cons.prems(1) _ v2(3,2)] by (simp add: colour_simps)
  qed
qed simp

text \<open>The traversal returns, its assertions hold, and it orders every package exactly once.\<close>

lemma do_order_ok:
  assumes "distinct (map addr pkgs)" "settled fl pkgs"
  obtains v where "do_order getreq rf s fl pkgs = Some v"
    "order_loop getreq rf (length pkgs) pkgs (order_start s fl pkgs) = Some v"
    "coloured (addr ` set pkgs) v" "moves (order_start s fl pkgs) v"
    "distinct (map addr (ordered v))" "addr ` set (ordered v) = addr ` set pkgs"
    "settled (pflags v) (ordered v)"
proof -
  let ?v = "order_start s fl pkgs" and ?pool = "addr ` set pkgs"
  have "{a. white (pflags ?v) a} \<subseteq> ?pool" using start_ok [OF assms(2), of s] by (auto simp: coloured_def)
  then have "card {a. white (pflags ?v) a} \<le> card ?pool" by (intro card_mono) auto
  also have "\<dots> \<le> length pkgs" by (metis card_image_le card_length finite_set le_trans)
  finally have c: "card {a. white (pflags ?v) a} \<le> length pkgs" .
  obtain v where v: "order_loop getreq rf (length pkgs) pkgs ?v = Some v" "coloured ?pool v" "moves ?v v"
    "\<forall>p \<in> set pkgs. black (pflags v) (addr p)"
    using order_loop_ok [OF _ start_ok [OF assms(2)] _ c, of pkgs getreq rf]
    by (auto simp: order_start_def)
  have d: "distinct (map addr (ordered v))" "addr ` set (ordered v) = ?pool"
    using v(2,4) by (auto simp: coloured_def)
  then have "length (ordered v) = length pkgs"
    using assms(1) by (metis distinct_card length_map set_map)
  then have "do_order getreq rf s fl pkgs = Some v"
    using v(1) by (simp add: do_order_def order_start_def)
  moreover have "settled (pflags v) (ordered v)"
    using v(2) d by (auto simp: coloured_def settled_def)
  ultimately show thesis using that v d by blast
qed

section \<open>The order respects the requirements\<close>

text \<open>The relevant requirements among the packages to order that are known in a state.\<close>

definition needs ::
  "('s \<Rightarrow> pkg \<Rightarrow> reqpkg list option \<Rightarrow> bool) \<Rightarrow> pkg set \<Rightarrow> nat set \<Rightarrow> u8 \<Rightarrow> 's \<Rightarrow> (nat \<times> nat) set" where
  "needs known F pool rf s = {(addr q, addr d) | q d fl r.
     q \<in> F \<and> known s q r \<and> (d, fl) \<in> set (req_elems r) \<and> relevant rf fl \<and> addr d \<in> pool}"

fun linked :: "(nat \<times> nat) set \<Rightarrow> pkg list \<Rightarrow> bool" where
  "linked S (c # p # ps) = ((addr p, addr c) \<in> S \<and> linked S (p # ps))"
| "linked S ps = True"

lemma linked_mono: "linked S ps \<Longrightarrow> S \<subseteq> T \<Longrightarrow> linked T ps"
  by (induction S ps rule: linked.induct) auto

lemma linked_path: "linked S (c # ps) \<Longrightarrow> q \<in> set (c # ps) \<Longrightarrow> (addr q, addr c) \<in> S\<^sup>*"
proof (induction ps arbitrary: c)
  case (Cons p ps)
  then have s: "(addr p, addr c) \<in> S" by simp
  show ?case
  proof (cases "q = c")
    case False
    then have "(addr q, addr p) \<in> S\<^sup>*" using Cons by simp
    then show ?thesis using s by (rule rtrancl_into_rtrancl)
  qed simp
qed simp

text \<open>A required package is in front, or requires the package in turn (is it, without errors).\<close>

definition met :: "(nat \<times> nat) set \<Rightarrow> pkg list \<Rightarrow> bool \<Rightarrow> nat \<Rightarrow> nat \<Rightarrow> bool" where
  "met S xs clean a d \<longleftrightarrow> d \<in> addr ` set xs \<or> (d, a) \<in> S\<^sup>* \<and> (clean \<longrightarrow> d = a)"

lemma met_mono: "met S xs c a d \<Longrightarrow> S \<subseteq> T \<Longrightarrow> (c' \<Longrightarrow> c) \<Longrightarrow> met T (xs @ ys) c' a d"
  using rtrancl_mono [of S T] by (auto simp: met_def)

definition placed ::
  "('s \<Rightarrow> pkg \<Rightarrow> reqpkg list option \<Rightarrow> bool) \<Rightarrow> pkg set \<Rightarrow> nat set \<Rightarrow> u8 \<Rightarrow> 's \<Rightarrow> bool \<Rightarrow> pkg list \<Rightarrow>
   pkg \<Rightarrow> bool" where
  "placed known F pool rf s clean xs q \<longleftrightarrow>
     (\<exists>r. known s q r \<and> (\<forall>(d, fl) \<in> set (req_elems r). relevant rf fl \<longrightarrow> addr d \<in> pool \<longrightarrow>
        met (needs known F pool rf s) xs clean (addr q) (addr d)))"

definition explored ::
  "('s \<Rightarrow> pkg \<Rightarrow> reqpkg list option \<Rightarrow> bool) \<Rightarrow> pkg set \<Rightarrow> nat set \<Rightarrow> u8 \<Rightarrow> 's visit_state \<Rightarrow> bool" where
  "explored known F pool rf v \<longleftrightarrow>
     set (stack v) \<subseteq> F \<and> linked (needs known F pool rf (vs_ps v)) (stack v) \<and>
     (\<forall>xs q ys. ordered v = xs @ q # ys \<longrightarrow>
        placed known F pool rf (vs_ps v) (rf \<noteq> 0 \<and> nerrors v = 0) xs q) \<and>
     (rf \<noteq> 0 \<longrightarrow> (\<forall>p \<in> set (butlast (stack v)). prereqed (pflags v) (addr p))) \<and>
     (0 < nerrors v \<longrightarrow> (\<exists>x y. x \<noteq> y \<and> (x, y) \<in> (needs known F pool rf (vs_ps v))\<^sup>* \<and>
        (y, x) \<in> (needs known F pool rf (vs_ps v))\<^sup>*))"

lemma loop_walk_all:
  assumes "addr q \<in> addr ` set st" "\<forall>p \<in> set (butlast st). prereqed fl (addr p)"
  shows "\<exists>k. loop_walk fl q st (n, n) = (n + k, n + k) \<and> (k = 0 \<longleftrightarrow> addr (hd st) = addr q)"
  using assms
proof (induction st arbitrary: n)
  case (Cons p st)
  show ?case
  proof (cases "addr p = addr q")
    case False
    then have "addr q \<in> addr ` set st" "st \<noteq> []" using Cons.prems(1) by auto
    then obtain k where "loop_walk fl q st (n + 1, n + 1) = (n + 1 + k, n + 1 + k)"
      using Cons.IH [of "n + 1"] Cons.prems(2) by auto
    moreover have "prereqed fl (addr p)" using Cons.prems(2) \<open>st \<noteq> []\<close> by simp
    ultimately show ?thesis using False by (intro exI [of _ "Suc k"]) (simp add: colour_simps)
  qed (auto intro: exI [of _ 0])
qed simp

lemma is_loop_top:
  assumes "addr q \<in> addr ` set (stack v)" "\<forall>p \<in> set (butlast (stack v)). prereqed (pflags v) (addr p)"
  shows "is_loop v q \<longleftrightarrow> addr (hd (stack v)) \<noteq> addr q"
proof -
  obtain k where "loop_walk (pflags v) q (stack v) (0, 0) = (k, k)" "k = 0 \<longleftrightarrow> addr (hd (stack v)) = addr q"
    using loop_walk_all [OF assms, of 0] by auto
  then have "is_loop v q \<longleftrightarrow> 0 < k" "k = 0 \<longleftrightarrow> addr (hd (stack v)) = addr q"
    by (simp_all add: is_loop_def)
  then show ?thesis by (cases k) auto
qed

text \<open>A step of the package set that forgets nothing about the packages of \<open>F\<close>.\<close>

definition forward ::
  "('s \<Rightarrow> pkg \<Rightarrow> reqpkg list option \<Rightarrow> bool) \<Rightarrow> pkg set \<Rightarrow> 's \<Rightarrow> 's \<Rightarrow> bool" where
  "forward known F s s' \<longleftrightarrow> (\<forall>q \<in> F. \<forall>r. known s q r \<longrightarrow> known s' q r)"

lemma forward_refl [simp]: "forward known F s s"
  by (simp add: forward_def)

lemma forward_trans: "forward known F s s1 \<Longrightarrow> forward known F s1 s2 \<Longrightarrow> forward known F s s2"
  by (simp add: forward_def)

lemma needs_mono: "forward known F s s' \<Longrightarrow> needs known F pool rf s \<subseteq> needs known F pool rf s'"
  unfolding forward_def needs_def by blast

lemma placed_mono:
  assumes "placed known F pool rf s c xs q" "forward known F s s'" "q \<in> F" "c' \<Longrightarrow> c"
  shows "placed known F pool rf s' c' (xs @ ys) q"
proof -
  obtain r where r: "known s q r" "\<forall>(d, fl) \<in> set (req_elems r). relevant rf fl \<longrightarrow> addr d \<in> pool \<longrightarrow>
      met (needs known F pool rf s) xs c (addr q) (addr d)"
    using assms(1) unfolding placed_def by blast
  have "met (needs known F pool rf s') (xs @ ys) c' (addr q) a"
    if "met (needs known F pool rf s) xs c (addr q) a" for a
    using met_mono [OF that needs_mono [OF assms(2)] assms(4)] .
  moreover have "known s' q r" using assms(2,3) r(1) by (simp add: forward_def)
  ultimately show ?thesis using r(2) unfolding placed_def by blast
qed

text \<open>What is explored stays so when the package set moves on and nothing else that matters changes.\<close>

lemma explored_forward:
  assumes v: "explored known F pool rf v" and fw: "forward known F (vs_ps v) (vs_ps v')"
    and sub: "set (ordered v) \<subseteq> F"
    and eq: "stack v' = stack v" "ordered v' = ordered v" "nerrors v' = nerrors v"
    and pre: "\<forall>p \<in> set (stack v). prereqed (pflags v') (addr p) = prereqed (pflags v) (addr p)"
  shows "explored known F pool rf v'"
proof -
  let ?S = "needs known F pool rf (vs_ps v)" and ?T = "needs known F pool rf (vs_ps v')"
  have st: "?S \<subseteq> ?T" by (rule needs_mono [OF fw])
  have "linked ?T (stack v)" using v linked_mono [OF _ st] by (simp add: explored_def)
  moreover have "placed known F pool rf (vs_ps v') (rf \<noteq> 0 \<and> nerrors v = 0) xs q"
    if o: "ordered v = xs @ q # ys" for xs q ys
    using placed_mono [OF _ fw, of pool rf "rf \<noteq> 0 \<and> nerrors v = 0" xs q _ "[]"] v o sub
    by (simp add: explored_def)
  moreover have "rf \<noteq> 0 \<longrightarrow> (\<forall>p \<in> set (butlast (stack v)). prereqed (pflags v') (addr p))"
    using v pre in_set_butlastD unfolding explored_def by fast
  moreover have "0 < nerrors v \<longrightarrow> (\<exists>x y. x \<noteq> y \<and> (x, y) \<in> ?T\<^sup>* \<and> (y, x) \<in> ?T\<^sup>*)"
    using v rtrancl_mono [OF st] unfolding explored_def by blast
  ultimately show ?thesis using v unfolding explored_def eq by blast
qed

text \<open>A package may be visited: first of all, or for the package on top of the stack.\<close>

definition entry ::
  "('s \<Rightarrow> pkg \<Rightarrow> reqpkg list option \<Rightarrow> bool) \<Rightarrow> pkg set \<Rightarrow> nat set \<Rightarrow> u8 \<Rightarrow> 's visit_state \<Rightarrow> pkg \<Rightarrow> bool" where
  "entry known F pool rf v q \<longleftrightarrow>
     (stack v \<noteq> [] \<longrightarrow> (addr (hd (stack v)), addr q) \<in> needs known F pool rf (vs_ps v) \<and>
        (rf \<noteq> 0 \<longrightarrow> prereqed (pflags v) (addr q)))"

definition explores ::
  "('s \<Rightarrow> pkg \<Rightarrow> reqpkg list option \<Rightarrow> bool) \<Rightarrow> pkg set \<Rightarrow> nat set \<Rightarrow> u8 \<Rightarrow> nat \<Rightarrow>
   ('s visit_state \<Rightarrow> pkg \<Rightarrow> 's visit_state option) \<Rightarrow> bool" where
  "explores known F pool rf n vis \<longleftrightarrow>
     (\<forall>v q v'. coloured pool v \<longrightarrow> white (pflags v) (addr q) \<longrightarrow> card {a. white (pflags v) a} \<le> n \<longrightarrow>
        explored known F pool rf v \<longrightarrow> entry known F pool rf v q \<longrightarrow> vis v q = Some v' \<longrightarrow>
        set (ordered v') \<subseteq> F \<longrightarrow>
        explored known F pool rf v' \<and> forward known F (vs_ps v) (vs_ps v'))"

text \<open>The requirement of the top package for \<open>d\<close> is dealt with.\<close>

abbreviation handled ::
  "('s \<Rightarrow> pkg \<Rightarrow> reqpkg list option \<Rightarrow> bool) \<Rightarrow> pkg set \<Rightarrow> nat set \<Rightarrow> u8 \<Rightarrow> 's visit_state \<Rightarrow> nat \<Rightarrow> bool" where
  "handled known F pool rf v d \<equiv>
     met (needs known F pool rf (vs_ps v)) (ordered v) (rf \<noteq> 0 \<and> nerrors v = 0) (addr (hd (stack v))) d"

lemma handled_mono:
  assumes "handled known F pool rf v d" "moves v v'" "forward known F (vs_ps v) (vs_ps v')"
  shows "handled known F pool rf v' d"
proof -
  obtain os where os: "ordered v' = ordered v @ os" using assms(2) by (auto simp: moves_def)
  have "stack v' = stack v" "nerrors v \<le> nerrors v'" using assms(2) by (simp_all add: moves_def)
  then show ?thesis
    using met_mono [OF assms(1) needs_mono [OF assms(3)], of "rf \<noteq> 0 \<and> nerrors v' = 0" os] os by simp
qed

lemma rp_gray:
  assumes v: "coloured pool v" "explored known F pool rf v" "stack v \<noteq> []"
    and q: "gray (pflags v) (addr q)" and rel: "relevant rf fl"
    and need: "(addr (hd (stack v)), addr q) \<in> needs known F pool rf (vs_ps v)"
    and v': "v' = (if fl AND rf \<noteq> 0 \<and> is_loop v q then v\<lparr>nerrors := nerrors v + 1\<rparr> else v)"
  shows "explored known F pool rf v' \<and> handled known F pool rf v' (addr q)"
proof -
  let ?S = "needs known F pool rf (vs_ps v)"
  obtain c st where st: "stack v = c # st" using v(3) by (cases "stack v") auto
  have qs: "addr q \<in> addr ` set (stack v)" using v(1) q by (simp add: coloured_def)
  moreover have lk: "linked ?S (c # st)" using v(2) st by (simp add: explored_def)
  ultimately have path: "(addr q, addr c) \<in> ?S\<^sup>*" using linked_path [OF lk] st by auto
  have top: "is_loop v q \<longleftrightarrow> addr c \<noteq> addr q" if "rf \<noteq> 0"
    using is_loop_top [OF qs] v(2) that st by (simp add: explored_def)
  have ps: "vs_ps v' = vs_ps v" "stack v' = stack v" "ordered v' = ordered v" "pflags v' = pflags v"
    "nerrors v \<le> nerrors v'" by (simp_all add: v')
  have err: "rf \<noteq> 0 \<Longrightarrow> nerrors v' = 0 \<Longrightarrow> addr c = addr q" using rel top by (auto simp: v' split: if_splits)
  have "0 < nerrors v' \<longrightarrow> (\<exists>x y. x \<noteq> y \<and> (x, y) \<in> ?S\<^sup>* \<and> (y, x) \<in> ?S\<^sup>*)"
  proof (cases "nerrors v' = nerrors v")
    case False
    then have "rf \<noteq> 0" "is_loop v q" by (auto simp: v' split: if_splits)
    then have "addr c \<noteq> addr q" using top by simp
    moreover have "(addr c, addr q) \<in> ?S\<^sup>*" using need st by (simp add: r_into_rtrancl)
    ultimately show ?thesis using path by blast
  qed (use v(2) in \<open>simp add: explored_def\<close>)
  moreover have "placed known F pool rf (vs_ps v) (rf \<noteq> 0 \<and> nerrors v' = 0) xs q"
    if "ordered v = xs @ q # ys" for xs q ys
  proof -
    have "placed known F pool rf (vs_ps v) (rf \<noteq> 0 \<and> nerrors v = 0) xs q"
      using v(2) that unfolding explored_def by blast
    then show ?thesis using ps(5) unfolding placed_def met_def by fastforce
  qed
  ultimately have "explored known F pool rf v'" using v(2) unfolding explored_def ps by blast
  moreover have "handled known F pool rf v' (addr q)" using path err st ps by (simp add: met_def)
  ultimately show ?thesis by blast
qed

lemma rp_explored:
  assumes vis: "visits pool n vis" "explores known F pool rf n vis"
    and v: "coloured pool v" "card {a. white (pflags v) a} \<le> n" "explored known F pool rf v" "stack v \<noteq> []"
    and need: "relevant rf fl \<Longrightarrow> addr q \<in> pool \<Longrightarrow>
      (addr (hd (stack v)), addr q) \<in> needs known F pool rf (vs_ps v)"
    and v': "visit_rp vis rf (q, fl) v = Some v'" and sub: "set (ordered v') \<subseteq> F"
  shows "explored known F pool rf v' \<and> forward known F (vs_ps v) (vs_ps v') \<and>
    (relevant rf fl \<longrightarrow> addr q \<in> pool \<longrightarrow> handled known F pool rf v' (addr q))"
proof (cases "white (pflags v) (addr q)")
  case True
  let ?pre = "fl AND rf \<noteq> 0"
  let ?v = "v\<lparr>pflags := (if ?pre then pkg_set_prereqed else pkg_clr_prereqed) q (pflags v)\<rparr>"
  have w: "white (pflags ?v) a = white (pflags v) a" for a by (simp add: flag_simps)
  have q: "addr q \<in> pool" using True v(1) by (auto simp: coloured_def)
  have cv: "coloured pool ?v" using v(1) by (simp add: coloured_def flag_simps)
  have ns: "addr p \<noteq> addr q" if "p \<in> set (stack v)" for p
  proof -
    have "gray (pflags v) (addr p)" using that v(1) by (auto simp: coloured_def)
    then show ?thesis using v(1) True q by (auto simp: coloured_def)
  qed
  have eq: "visit_rp vis rf (q, fl) v = (if relevant rf fl then vis ?v q else Some ?v)"
    using True by (simp add: visit_rp_def colour_simps Let_def)
  have so: "set (ordered v) \<subseteq> F"
  proof -
    obtain v1 where "visit_rp vis rf (q, fl) v = Some v1" "moves v v1"
      using visit_rp_ok [OF vis(1) v(1,2), of rf q fl] by blast
    then show ?thesis using v' sub by (auto simp: moves_def)
  qed
  have ev: "explored known F pool rf ?v"
    by (rule explored_forward [OF v(3) _ so]) (use ns in \<open>auto simp: flag_simps\<close>)
  show ?thesis
  proof (cases "relevant rf fl")
    case rel: True
    have vq: "vis ?v q = Some v'" using eq rel v' by simp
    have wq: "white (pflags ?v) (addr q)" unfolding w by (rule True)
    have cd: "card {a. white (pflags ?v) a} \<le> n" unfolding w by (rule v(2))
    have en: "entry known F pool rf ?v q"
      using need [OF rel q] rel by (auto simp: entry_def flag_simps)
    have r: "explored known F pool rf v'" "forward known F (vs_ps v) (vs_ps v')"
      using vis(2) [unfolded explores_def, rule_format, OF cv wq cd ev en vq sub] by simp_all
    obtain v2 where "vis ?v q = Some v2" "coloured pool v2" "moves ?v v2" "black (pflags v2) (addr q)"
      using vis(1) [unfolded visits_def, rule_format, OF cv wq cd] by blast
    then have "addr q \<in> addr ` set (ordered v')" using vq q by (simp add: coloured_def)
    then show ?thesis using r by (simp add: met_def)
  next
    case False
    then have "v' = ?v" using eq v' by simp
    then show ?thesis using ev False by simp
  qed
next
  case False
  show ?thesis
  proof (cases "relevant rf fl \<and> addr q \<in> pool \<and> gray (pflags v) (addr q)")
    case True
    then have nb: "\<not> black (pflags v) (addr q)" using v(1) by (auto simp: coloured_def)
    have rel: "relevant rf fl" and q: "addr q \<in> pool" and g: "gray (pflags v) (addr q)"
      using True by auto
    have eq: "v' = (if fl AND rf \<noteq> 0 \<and> is_loop v q then v\<lparr>nerrors := nerrors v + 1\<rparr> else v)"
      using False nb g v' by (simp add: visit_rp_def colour_simps)
    have "vs_ps v' = vs_ps v" by (simp add: eq)
    then show ?thesis
      using rp_gray [OF v(1,3,4) g rel need [OF rel q] eq] by simp
  next
    case ng: False
    have "v' = v"
    proof (cases "relevant rf fl")
      case True
      then have "addr q \<in> pool \<longrightarrow> \<not> gray (pflags v) (addr q)" using ng by blast
      then have "\<not> gray (pflags v) (addr q)" using v(1) by (auto simp: coloured_def)
      then show ?thesis using False v' by (auto simp: visit_rp_def colour_simps split: if_splits)
    next
      case nr: False
      then have "fl AND rf = 0" by auto
      then show ?thesis using False v' by (auto simp: visit_rp_def colour_simps split: if_splits)
    qed
    moreover have "addr q \<in> addr ` set (ordered v)" if "relevant rf fl" "addr q \<in> pool"
      using that ng False v(1) by (auto simp: coloured_def)
    ultimately show ?thesis using v(3) by (auto simp: met_def)
  qed
qed

lemma rps_explored:
  assumes vis: "visits pool n vis" "explores known F pool rf n vis" and fin: "finite pool"
    and v: "coloured pool v" "card {a. white (pflags v) a} \<le> n" "explored known F pool rf v" "stack v \<noteq> []"
    and need: "\<forall>(q, fl) \<in> set es. relevant rf fl \<longrightarrow> addr q \<in> pool \<longrightarrow>
      (addr (hd (stack v)), addr q) \<in> needs known F pool rf (vs_ps v)"
    and v': "visit_rps vis rf es v = Some v'" and sub: "set (ordered v') \<subseteq> F"
  shows "explored known F pool rf v' \<and> forward known F (vs_ps v) (vs_ps v') \<and>
    (\<forall>(q, fl) \<in> set es. relevant rf fl \<longrightarrow> addr q \<in> pool \<longrightarrow> handled known F pool rf v' (addr q))"
  using v need v'
proof (induction es arbitrary: v)
  case (Cons e es)
  obtain q fl where e: "e = (q, fl)" by fastforce
  obtain v1 where v1: "visit_rp vis rf (q, fl) v = Some v1" "coloured pool v1" "moves v v1"
    using visit_rp_ok [OF vis(1) Cons.prems(1,2)] by blast
  have c1: "card {a. white (pflags v1) a} \<le> n"
    using whites_card [OF v1(3) Cons.prems(1) fin] Cons.prems(2) by simp
  have rest: "visit_rps vis rf es v1 = Some v'" using Cons.prems(6) v1(1) e by simp
  have m2: "moves v1 v'" using visit_rps_ok [OF vis(1) fin v1(2) c1, of rf es] rest by auto
  then have sub1: "set (ordered v1) \<subseteq> F" using sub by (auto simp: moves_def)
  have need1: "relevant rf fl \<Longrightarrow> addr q \<in> pool \<Longrightarrow>
      (addr (hd (stack v)), addr q) \<in> needs known F pool rf (vs_ps v)"
    using Cons.prems(5) e by auto
  have one: "explored known F pool rf v1" "forward known F (vs_ps v) (vs_ps v1)"
    "relevant rf fl \<longrightarrow> addr q \<in> pool \<longrightarrow> handled known F pool rf v1 (addr q)"
    using rp_explored [OF vis Cons.prems(1-4) need1 v1(1) sub1] by blast+
  have st1: "stack v1 = stack v" using v1(3) by (simp add: moves_def)
  have "\<forall>(q, fl) \<in> set es. relevant rf fl \<longrightarrow> addr q \<in> pool \<longrightarrow>
      (addr (hd (stack v1)), addr q) \<in> needs known F pool rf (vs_ps v1)"
    using Cons.prems(5) needs_mono [OF one(2), of pool rf] st1 by fastforce
  from Cons.IH [OF v1(2) c1 one(1) _ this rest] Cons.prems(4) st1
  have two: "explored known F pool rf v'" "forward known F (vs_ps v1) (vs_ps v')"
    "\<forall>(q, fl) \<in> set es. relevant rf fl \<longrightarrow> addr q \<in> pool \<longrightarrow> handled known F pool rf v' (addr q)"
    by simp_all
  have "relevant rf fl \<longrightarrow> addr q \<in> pool \<longrightarrow> handled known F pool rf v' (addr q)"
    using one(3) handled_mono [OF _ m2 two(2)] by blast
  then show ?case using two forward_trans [OF one(2) two(2)] e by auto
qed simp

context req_source
begin

lemma begin_explored:
  assumes F: "\<And>q. q \<in> F \<Longrightarrow> compat q p" "p \<in> F"
    and v: "coloured pool v" "white (pflags v) (addr p)" "explored known F pool rf v"
      "entry known F pool rf v p" and sub: "set (ordered v) \<subseteq> F"
  defines "vb \<equiv> visit_begin getreq p v"
  shows "explored known F pool rf vb" "forward known F (vs_ps v) (vs_ps vb)"
    "\<forall>(d, fl) \<in> set (req_elems (fst (getreq (vs_ps v) p))). relevant rf fl \<longrightarrow> addr d \<in> pool \<longrightarrow>
       (addr p, addr d) \<in> needs known F pool rf (vs_ps vb)"
proof -
  let ?S = "needs known F pool rf (vs_ps v)" and ?T = "needs known F pool rf (vs_ps vb)"
  have ps: "vs_ps vb = snd (getreq (vs_ps v) p)" "stack vb = p # stack v" "ordered vb = ordered v"
    "nerrors vb = nerrors v" by (simp_all add: vb_def visit_begin_def)
  show fw: "forward known F (vs_ps v) (vs_ps vb)"
    unfolding forward_def ps(1) using kept F(1) by blast
  have st: "?S \<subseteq> ?T" by (rule needs_mono [OF fw])
  have kn: "known (vs_ps vb) p (fst (getreq (vs_ps v) p))" unfolding ps(1) by (rule asked)
  then show "\<forall>(d, fl) \<in> set (req_elems (fst (getreq (vs_ps v) p))). relevant rf fl \<longrightarrow> addr d \<in> pool \<longrightarrow>
      (addr p, addr d) \<in> ?T"
    using F(2) unfolding needs_def by blast
  have pre: "prereqed (pflags vb) (addr q) = prereqed (pflags v) (addr q)" for q :: pkg
    by (simp add: vb_def visit_begin_def flag_simps)
  have "linked ?T (p # stack v)"
  proof (cases "stack v")
    case (Cons c cs)
    then have "(addr c, addr p) \<in> ?T" using v(4) st unfolding entry_def by auto
    moreover have "linked ?T (c # cs)" using v(3) st linked_mono Cons unfolding explored_def by metis
    ultimately show ?thesis using Cons by simp
  qed simp
  moreover have "placed known F pool rf (vs_ps vb) (rf \<noteq> 0 \<and> nerrors v = 0) xs q"
    if o: "ordered v = xs @ q # ys" for xs q ys
    using placed_mono [OF _ fw, of pool rf "rf \<noteq> 0 \<and> nerrors v = 0" xs q _ "[]"] v(3) o sub
    by (simp add: explored_def)
  moreover have "rf \<noteq> 0 \<longrightarrow> (\<forall>q \<in> set (butlast (p # stack v)). prereqed (pflags vb) (addr q))"
    using v(3,4) unfolding pre explored_def entry_def by (cases "stack v") auto
  moreover have "0 < nerrors v \<longrightarrow> (\<exists>x y. x \<noteq> y \<and> (x, y) \<in> ?T\<^sup>* \<and> (y, x) \<in> ?T\<^sup>*)"
    using v(3) rtrancl_mono [OF st] unfolding explored_def by blast
  ultimately show "explored known F pool rf vb"
    using v(3) F(2) unfolding explored_def ps by auto
qed

lemma finish_explored:
  assumes v: "explored known F pool rf v" "stack v = p # st" "addr p \<notin> addr ` set st" "known (vs_ps v) p r"
    and met: "\<forall>(d, fl) \<in> set (req_elems r). relevant rf fl \<longrightarrow> addr d \<in> pool \<longrightarrow> handled known F pool rf v (addr d)"
  shows "explored known F pool rf (visit_finish p v)"
proof -
  let ?S = "needs known F pool rf (vs_ps v)" and ?c = "rf \<noteq> 0 \<and> nerrors v = 0"
  have ps: "vs_ps (visit_finish p v) = vs_ps v" "stack (visit_finish p v) = st" "nerrors (visit_finish p v) = nerrors v"
    "ordered (visit_finish p v) = ordered v @ [p]" using v(2) by (simp_all add: visit_finish_def)
  have "linked ?S (p # st)" using v(1,2) by (simp add: explored_def)
  then have lk: "linked ?S st" by (cases st) auto
  have pp: "placed known F pool rf (vs_ps v) ?c (ordered v) p"
    using v(2,4) met unfolding placed_def by auto
  have pl: "placed known F pool rf (vs_ps v) ?c xs q" if o: "ordered v @ [p] = xs @ q # ys" for xs q ys
  proof (cases ys rule: rev_cases)
    case Nil
    then show ?thesis using o pp by simp
  next
    case (snoc zs z)
    then have "ordered v = xs @ q # zs" using o by simp
    then show ?thesis using v(1) unfolding explored_def by blast
  qed
  have "q \<in> set (butlast (p # st)) \<and> addr q \<noteq> addr p" if q: "q \<in> set (butlast st)" for q
  proof
    have "q \<in> set st" using q by (rule in_set_butlastD)
    then show "addr q \<noteq> addr p" using v(3) by (metis imageI)
  qed (use q in \<open>cases st; simp\<close>)
  then have pr: "rf \<noteq> 0 \<longrightarrow> (\<forall>q \<in> set (butlast st). prereqed (pflags (visit_finish p v)) (addr q))"
    using v(1,2) by (simp add: explored_def visit_finish_def flag_simps)
  show ?thesis using v(1,2) lk pl pr unfolding explored_def ps by simp
qed

lemma visit_explores:
  assumes fin: "finite pool" and F: "\<And>q p. q \<in> F \<Longrightarrow> p \<in> F \<Longrightarrow> compat q p"
  shows "explores known F pool rf n (visit_install_order getreq rf n)"
proof (induction n)
  case (Suc n)
  let ?vis = "visit_install_order getreq rf n"
  note vis = visit_ok [OF fin, of n getreq rf] Suc
  show ?case unfolding explores_def
  proof (intro allI impI)
    fix v :: "'s visit_state" and p v'
    assume v: "coloured pool v" "white (pflags v) (addr p)" "card {a. white (pflags v) a} \<le> Suc n"
      "explored known F pool rf v" "entry known F pool rf v p"
      and v': "visit_install_order getreq rf (Suc n) v p = Some v'" and sub: "set (ordered v') \<subseteq> F"
    let ?vb = "visit_begin getreq p v" and ?r = "fst (getreq (vs_ps v) p)"
    note vb = begin_ok [OF v(1,2), of getreq]
    have "{a. white (pflags ?vb) a} \<subseteq> pool" using vb(1) by (auto simp: coloured_def)
    then have "finite {a. white (pflags ?vb) a}" using fin finite_subset by blast
    then have cb: "card {a. white (pflags ?vb) a} \<le> n" using v(3) vb(2,3) by simp
    obtain v1 where v1: "visit_rps ?vis rf (req_elems ?r) ?vb = Some v1" "coloured pool v1" "moves ?vb v1"
      using visit_rps_ok [OF vis(1) fin vb(1) cb] by blast
    have st: "stack v1 = p # stack v" using v1(3) by (simp add: moves_def visit_begin_def)
    have eq: "v' = visit_finish p v1" using v' v1(1) st by (subst (asm) visit_Suc) auto
    have subs: "p \<in> F" "set (ordered v1) \<subseteq> F" "set (ordered v) \<subseteq> F"
      using sub v1(3) by (auto simp: eq visit_finish_def moves_def visit_begin_def)
    note b = begin_explored [OF F [OF _ subs(1)] subs(1) v(1,2,4,5) subs(3)]
    have nb: "stack ?vb \<noteq> []" and hb: "hd (stack ?vb) = p" by (simp_all add: visit_begin_def)
    have r: "explored known F pool rf v1" "forward known F (vs_ps ?vb) (vs_ps v1)"
      "\<forall>(d, fl) \<in> set (req_elems ?r). relevant rf fl \<longrightarrow> addr d \<in> pool \<longrightarrow> handled known F pool rf v1 (addr d)"
      using rps_explored [OF vis fin vb(1) cb b(1) nb _ v1(1) subs(2)] b(3) unfolding hb by blast+
    have "known (vs_ps ?vb) p ?r" using asked by (simp add: visit_begin_def)
    then have kn: "known (vs_ps v1) p ?r" using r(2) subs(1) by (simp add: forward_def)
    have ns: "addr p \<notin> addr ` set (stack v)" using v(1,2) by (auto simp: coloured_def)
    have "explored known F pool rf v'" unfolding eq by (rule finish_explored [OF r(1) st ns kn r(3)])
    moreover have "forward known F (vs_ps v) (vs_ps v')"
      using forward_trans [OF b(2) r(2)] by (simp add: eq visit_finish_def)
    ultimately show "explored known F pool rf v' \<and> forward known F (vs_ps v) (vs_ps v')" by blast
  qed
qed (simp add: explores_def)

lemma order_loop_explored:
  assumes fin: "finite pool" and F: "\<And>q p. q \<in> F \<Longrightarrow> p \<in> F \<Longrightarrow> compat q p"
    and v: "coloured pool v" "stack v = []" "card {a. white (pflags v) a} \<le> n" "explored known F pool rf v"
    and pkgs: "addr ` set pkgs \<subseteq> pool"
    and v': "order_loop getreq rf n pkgs v = Some v'" and sub: "set (ordered v') \<subseteq> F"
  shows "explored known F pool rf v'"
  using v v' pkgs
proof (induction pkgs arbitrary: v)
  case (Cons p pkgs)
  show ?case
  proof (cases "white (pflags v) (addr p)")
    case True
    obtain v1 where v1: "visit_install_order getreq rf n v p = Some v1" "coloured pool v1" "moves v v1"
      using visit_ok [OF fin, of n getreq rf] Cons.prems(1,3) True unfolding visits_def by blast
    have st: "stack v1 = []" "v1\<lparr>stack := []\<rparr> = v1" using v1(3) Cons.prems(2) by (auto simp: moves_def)
    have c: "card {a. white (pflags v1) a} \<le> n"
      using whites_card [OF v1(3) Cons.prems(1) fin] Cons.prems(3) by simp
    have rest: "order_loop getreq rf n pkgs v1 = Some v'"
      using Cons.prems(5) True v1(1) st(2) by (simp add: colour_simps)
    have "moves v1 v'"
      using order_loop_ok [OF fin v1(2) st(1) c, of pkgs getreq rf] Cons.prems(6) rest by auto
    then have s1: "set (ordered v1) \<subseteq> F" using sub by (auto simp: moves_def)
    have "entry known F pool rf v p" using Cons.prems(2) by (simp add: entry_def)
    then have "explored known F pool rf v1"
      using visit_explores [OF fin F, of F, unfolded explores_def, rule_format, OF _ _ Cons.prems(1) True Cons.prems(3,4) _ v1(1) s1]
      by simp
    then show ?thesis using Cons.IH [OF v1(2) st(1) c _ rest] Cons.prems(6) by simp
  qed (use Cons in \<open>simp add: colour_simps\<close>)
qed simp

end

text \<open>
  The relevant requirements among ordered packages as the package set reports them, and
  what a finished order promises: whatever a package requires is in front of it or requires it
  back; without errors, only a package itself is not in front of itself.
\<close>

definition order_rel ::
  "('s \<Rightarrow> pkg \<Rightarrow> reqpkg list option \<times> 's) \<Rightarrow> u8 \<Rightarrow> 's \<Rightarrow> pkg list \<Rightarrow> (nat \<times> nat) set" where
  "order_rel getreq rf s pkgs = {(addr q, addr d) | q d fl.
     q \<in> set pkgs \<and> (d, fl) \<in> set (req_elems (fst (getreq s q))) \<and> relevant rf fl \<and> addr d \<in> addr ` set pkgs}"

definition pos :: "pkg list \<Rightarrow> nat \<Rightarrow> nat" where
  "pos os a = length (takeWhile (\<lambda>b. b \<noteq> a) (map addr os))"

lemma pos_at:
  assumes "distinct (map addr (xs @ q # ys))"
  shows "pos (xs @ q # ys) (addr q) = length xs"
    and "d \<in> addr ` set xs \<Longrightarrow> pos (xs @ q # ys) d < length xs"
proof -
  have "addr q \<notin> set (map addr xs)" using assms by simp
  then have "\<forall>b \<in> set (map addr xs). b \<noteq> addr q" by metis
  then show "pos (xs @ q # ys) (addr q) = length xs" by (simp add: pos_def takeWhile_append comp_def)
next
  assume "d \<in> addr ` set xs"
  then have d: "d \<in> set (map addr xs)" by simp
  then obtain as bs where ab: "map addr xs = as @ d # bs" "d \<notin> set as" using split_list_first by metis
  then have "takeWhile (\<lambda>b. b \<noteq> d) (map addr (xs @ q # ys)) = as"
    by (simp add: takeWhile_append)
  moreover have "length as < length xs" using arg_cong [OF ab(1), of length] by simp
  ultimately show "pos (xs @ q # ys) d < length xs" by (simp add: pos_def)
qed

definition sound_order :: "(nat \<times> nat) set \<Rightarrow> bool \<Rightarrow> pkg list \<Rightarrow> bool" where
  "sound_order S clean os \<longleftrightarrow> (\<forall>(a, d) \<in> S. pos os d < pos os a \<or> (d, a) \<in> S\<^sup>* \<and> (clean \<longrightarrow> d = a))"

lemma sound_acyclic: "sound_order S True os \<Longrightarrow> acyclic (S - Id)"
proof -
  assume "sound_order S True os"
  then have "S - Id \<subseteq> (measure (pos os))\<inverse>" by (auto simp: sound_order_def)
  moreover have "acyclic ((measure (pos os))\<inverse>)" by (simp add: wf_acyclic)
  ultimately show ?thesis by (rule acyclic_subset [rotated])
qed

lemma two_way_cyclic:
  assumes "x \<noteq> y" "(x, y) \<in> S\<^sup>*" "(y, x) \<in> S\<^sup>*"
  shows "\<not> acyclic (S - Id)"
proof -
  have "(x, y) \<in> (S - Id)\<^sup>*" "(y, x) \<in> (S - Id)\<^sup>*" using assms(2,3) by (simp_all only: rtrancl_r_diff_Id)
  then have "(x, x) \<in> (S - Id)\<^sup>+" using assms(1) by (metis rtranclD trancl_trans)
  then show ?thesis by (auto simp: acyclic_def)
qed

context req_source
begin

lemma do_order_sound:
  assumes d: "distinct (map addr pkgs)" "settled fl pkgs"
    and v: "do_order getreq rf s fl pkgs = Some v"
    and compat: "\<forall>q \<in> set (ordered v). \<forall>p \<in> set (ordered v). compat q p"
  defines "S \<equiv> order_rel getreq rf (vs_ps v) (ordered v)"
  shows "sound_order S (rf \<noteq> 0 \<and> nerrors v = 0) (ordered v)"
    and "rf \<noteq> 0 \<Longrightarrow> nerrors v = 0 \<longleftrightarrow> acyclic (S - Id)"
proof -
  let ?F = "set (ordered v)" and ?pool = "addr ` set pkgs" and ?c = "rf \<noteq> 0 \<and> nerrors v = 0"
  obtain v2 where v2: "do_order getreq rf s fl pkgs = Some v2"
    "order_loop getreq rf (length pkgs) pkgs (order_start s fl pkgs) = Some v2"
    "distinct (map addr (ordered v2))" "addr ` set (ordered v2) = addr ` set pkgs"
    using do_order_ok [OF d] by metis
  then have l: "order_loop getreq rf (length pkgs) pkgs (order_start s fl pkgs) = Some v"
    and dist: "distinct (map addr (ordered v))" and pool: "addr ` ?F = ?pool"
    using v by simp_all
  have "{a. white (pflags (order_start s fl pkgs)) a} \<subseteq> ?pool"
    using start_ok [OF d(2), of s] by (auto simp: coloured_def)
  then have "card {a. white (pflags (order_start s fl pkgs)) a} \<le> card ?pool" by (intro card_mono) auto
  also have "\<dots> \<le> length pkgs" by (metis card_image_le card_length finite_set le_trans)
  finally have c: "card {a. white (pflags (order_start s fl pkgs)) a} \<le> length pkgs" .
  have "explored known ?F ?pool rf (order_start s fl pkgs)" "stack (order_start s fl pkgs) = []"
    by (simp_all add: explored_def order_start_def)
  from order_loop_explored [OF _ _ start_ok [OF d(2)] this(2) c this(1) _ l] compat
  have ex: "explored known ?F ?pool rf v" by simp
  have pl: "placed known ?F ?pool rf (vs_ps v) ?c xs q" if "ordered v = xs @ q # ys" for xs q ys
    using ex that by (simp add: explored_def)
  have kn: "known (vs_ps v) q (fst (getreq (vs_ps v) q))" if "q \<in> ?F" for q
    using pl split_list [OF that] again unfolding placed_def by metis
  have S: "needs known ?F ?pool rf (vs_ps v) = S"
    using kn again unfolding S_def needs_def order_rel_def pool by blast
  show sound: "sound_order S ?c (ordered v)" unfolding sound_order_def
  proof (intro ballI)
    fix ad assume "ad \<in> S"
    obtain a d where ad: "ad = (a, d)" by fastforce
    show "case ad of (a, d) \<Rightarrow> pos (ordered v) d < pos (ordered v) a \<or> (d, a) \<in> S\<^sup>* \<and> (?c \<longrightarrow> d = a)"
    proof (cases "pos (ordered v) d < pos (ordered v) a")
      case False
    obtain q e fl' where q: "q \<in> ?F" "(e, fl') \<in> set (req_elems (fst (getreq (vs_ps v) q)))" "relevant rf fl'"
      "addr e \<in> ?pool" "a = addr q" "d = addr e"
      using \<open>ad \<in> S\<close> unfolding ad S_def order_rel_def pool by blast
    obtain xs ys where o: "ordered v = xs @ q # ys" using split_list [OF q(1)] by blast
    have "met S xs ?c a d"
      using pl [OF o] again q(2-6) unfolding placed_def S by blast
    moreover have "d \<notin> addr ` set xs"
      using pos_at [of xs q ys] dist False q(5) unfolding o by auto
    ultimately show ?thesis by (simp add: met_def ad)
    qed (simp add: ad)
  qed
  show "nerrors v = 0 \<longleftrightarrow> acyclic (S - Id)" if "rf \<noteq> 0"
  proof
    assume "nerrors v = 0"
    then show "acyclic (S - Id)" using sound that sound_acyclic by simp
  next
    assume "acyclic (S - Id)"
    moreover have "0 < nerrors v \<longrightarrow> (\<exists>x y. x \<noteq> y \<and> (x, y) \<in> S\<^sup>* \<and> (y, x) \<in> S\<^sup>*)"
      using ex unfolding explored_def S by (elim conjE)
    ultimately show "nerrors v = 0" using two_way_cyclic [of _ _ S] by (cases "nerrors v") auto
  qed
qed

lemma do_packages_order_sound:
  assumes d: "distinct (map addr pkgs)" "settled fl pkgs" "pkgs \<noteq> []"
    and sort: "mset (pk_sort P (pkg_cmp_pri_name_evr_rev E R) pkgs) = mset pkgs"
  obtains v where "do_packages_order E P R getreq s fl pkgs ot = Some v"
    "mset (map addr (ordered v)) = mset (map addr pkgs)"
    "(\<forall>q \<in> set (ordered v). \<forall>p \<in> set (ordered v). compat q p) \<Longrightarrow>
       sound_order (order_rel getreq (order_flag ot) (vs_ps v) (ordered v))
         (nerrors v = 0) (ordered v) \<and>
       (nerrors v = 0 \<longleftrightarrow>
         acyclic (order_rel getreq (order_flag ot) (vs_ps v) (ordered v) - Id))"
proof -
  let ?in = "pk_sort P (pkg_cmp_pri_name_evr_rev E R) pkgs"
  let ?rf = "order_flag ot"
  have m: "mset (map addr ?in) = mset (map addr pkgs)" using sort by simp
  then have i: "distinct (map addr ?in)" "settled fl ?in"
    using d(1,2) mset_eq_imp_distinct_iff mset_eq_setD [OF sort] by (blast, simp add: settled_def)
  obtain v1 where v1: "do_order getreq 0 s fl ?in = Some v1" "distinct (map addr (ordered v1))"
    "addr ` set (ordered v1) = addr ` set ?in" "settled (pflags v1) (ordered v1)"
    using do_order_ok [OF i] by metis
  obtain v2 where v2: "do_order getreq ?rf (vs_ps v1) (pflags v1) (ordered v1) = Some v2"
    "distinct (map addr (ordered v2))" "addr ` set (ordered v2) = addr ` set (ordered v1)"
    using do_order_ok [OF v1(2,4)] by metis
  have "set (map addr (ordered v2)) = set (map addr pkgs)"
    using v1(3) v2(3) mset_eq_setD [OF sort] by simp
  then have "mset (map addr (ordered v2)) = mset (map addr pkgs)"
    using v2(2) d(1) set_eq_iff_mset_eq_distinct by blast
  moreover have "do_packages_order E P R getreq s fl pkgs ot = Some v2"
    using d(3) v1(1) v2(1) by (simp add: do_packages_order_def)
  moreover have "?rf \<noteq> 0" by (cases ot) simp_all
  ultimately show thesis
    using that do_order_sound [OF v1(2,4) v2(1)] by simp
qed

end

section \<open>Properties\<close>

text \<open>C5: ordering distinct packages ends, passes the assertion on the number of packages, and
  answers every package exactly once, whatever cycles the requirements form.\<close>

theorem pkgset_order_permutes:
  assumes "ps_env E P" and "distinct (map addr pkgs)" and "settled fl pkgs" and "pkgs \<noteq> []"
  shows "\<exists>v. pkgset_order E P R ps fl pkgs ot = Some v \<and>
    mset (map addr (ordered v)) = mset (map addr pkgs)"
proof -
  have "mset (pk_sort P (pkg_cmp_pri_name_evr_rev E R) pkgs) = mset pkgs"
    by (rule sorted_arrays.sort_mset [OF ps_env.pk_arrays [OF assms(1)]])
  from pkgset_reqs.do_packages_order_sound [OF assms(2-4) this] show ?thesis
    unfolding pkgset_order_def by metis
qed

theorem pkgset_order_permutes_witness:
  "\<exists>v. pkgset_order ref_env ref_psenv arch_registry_init (ref_set [ref_pkg 3 ''a'' [] [ref_cap ''b''], ref_pkg 4 ''b'' [] [ref_cap ''a'']])
      (\<lambda>_. 0) [ref_pkg 3 ''a'' [] [ref_cap ''b''], ref_pkg 4 ''b'' [] [ref_cap ''a'']] PKGORDER_INSTALL = Some v \<and>
    mset (map addr (ordered v)) = {#3, 4#}"
  using pkgset_order_permutes [OF ref_ps.ps_env_axioms, of "[ref_pkg 3 ''a'' [] [ref_cap ''b''], ref_pkg 4 ''b'' [] [ref_cap ''a'']]" "\<lambda>_. 0"]
  by (simp add: settled_def)

text \<open>C4: in the order every package stands behind the packages it pre-requires; where one does
  not, the two require each other on a cycle, and without reported errors there is no such pair.
  Errors are reported exactly when the pre-requirements have a cycle.\<close>

theorem pkgset_order_topological:
  assumes "ps_env E P" and "distinct (map addr pkgs)" and "settled fl pkgs" and "pkgs \<noteq> []"
    and "pkgset_order E P R ps fl pkgs ot = Some v"
    and "\<forall>q \<in> set (ordered v). \<forall>p \<in> set (ordered v). same_reqs q p"
  defines "S \<equiv> order_rel (pkgset_get_required_packages E P R) (order_flag ot) (vs_ps v) (ordered v)"
  shows "(\<forall>(a, d) \<in> S. pos (ordered v) d < pos (ordered v) a \<or> (d, a) \<in> S\<^sup>* \<and> (nerrors v = 0 \<longrightarrow> d = a)) \<and>
    (nerrors v = 0 \<longleftrightarrow> acyclic (S - Id))"
proof -
  have sort: "mset (pk_sort P (pkg_cmp_pri_name_evr_rev E R) pkgs) = mset pkgs"
    by (rule sorted_arrays.sort_mset [OF ps_env.pk_arrays [OF assms(1)]])
  let ?get = "pkgset_get_required_packages E P R"
  show ?thesis
  proof (rule pkgset_reqs.do_packages_order_sound [OF assms(2-4) sort, of E P R ps ot])
    fix v' assume v': "do_packages_order E P R ?get ps fl pkgs ot = Some v'"
      and sound: "\<forall>q \<in> set (ordered v'). \<forall>p \<in> set (ordered v'). same_reqs q p \<Longrightarrow>
        sound_order (order_rel ?get (order_flag ot) (vs_ps v') (ordered v')) (nerrors v' = 0) (ordered v') \<and>
        (nerrors v' = 0 \<longleftrightarrow> acyclic (order_rel ?get (order_flag ot) (vs_ps v') (ordered v') - Id))"
    have "v' = v" using assms(5) v' by (simp add: pkgset_order_def)
    from sound [unfolded this sound_order_def, OF assms(6)] show ?thesis unfolding S_def .
  qed
qed

theorem pkgset_order_topological_witness:
  defines "ps \<equiv> ref_set [ref_pkg 3 ''a'' [] [ref_cap ''b''], ref_pkg 4 ''b'' [] []]"
  shows "\<exists>v. pkgset_order ref_env ref_psenv arch_registry_init ps (\<lambda>_. 0)
      [ref_pkg 3 ''a'' [] [ref_cap ''b''], ref_pkg 4 ''b'' [] []] PKGORDER_INSTALL = Some v \<and>
    acyclic (order_rel (pkgset_get_required_packages ref_env ref_psenv arch_registry_init)
      (order_flag PKGORDER_INSTALL) (vs_ps v) (ordered v) - Id)"
proof -
  let ?pkgs = "[ref_pkg 3 ''a'' [] [ref_cap ''b''], ref_pkg 4 ''b'' [] []]"
  let ?o = "pkgset_order ref_env ref_psenv arch_registry_init ps (\<lambda>_. 0) ?pkgs PKGORDER_INSTALL"
  have o: "case ?o of None \<Rightarrow> False | Some v \<Rightarrow> nerrors v = 0 \<and>
      list_all (\<lambda>q. list_all (same_reqs q) (ordered v)) (ordered v)"
    unfolding ps_def by code_simp
  then obtain v where v: "?o = Some v" by (cases ?o) auto
  have "settled (\<lambda>_. 0) ?pkgs" "distinct (map addr ?pkgs)" by (simp_all add: settled_def)
  with pkgset_order_topological [OF ref_ps.ps_env_axioms _ _ _ v] show ?thesis
    using o v by (simp add: list_all_iff)
qed

end
