(* ===== verification/Pkgmark.thy ===== *)
theory Pkgmark
  imports Pkgset_Order
begin

text \<open>
  pkgmark.c: marks on packages, kept in a table beside the packages, and the marking of what a
  selection of packages requires. A visit marks a package and goes on to one package of every
  group of alternatives none of which is marked yet, the one that drags fewest others in.
\<close>

section \<open>The set of marks\<close>

abbreviation PKGMARK_SET_IDNEVR :: u32 where "PKGMARK_SET_IDNEVR \<equiv> 1"
abbreviation PKGMARK_SET_IDPTR :: u32 where "PKGMARK_SET_IDPTR \<equiv> 2"
abbreviation PKGMARK_MARK :: u32 where "PKGMARK_MARK \<equiv> 2"
abbreviation PKGMARK_DEP :: u32 where "PKGMARK_DEP \<equiv> 4"
abbreviation PKGMARK_ANY :: u32 where "PKGMARK_ANY \<equiv> 6"
abbreviation PKGMARK_RM :: u32 where "PKGMARK_RM \<equiv> 8"
abbreviation PKGMARK_INTERNAL :: u32 where "PKGMARK_INTERNAL \<equiv> 16"
abbreviation PKGMARK_UNMETDEPS :: u32 where "PKGMARK_UNMETDEPS \<equiv> 32"
abbreviation PKGMARK_GRAY :: u32 where "PKGMARK_GRAY \<equiv> 2048"
abbreviation PKGMARK_BLACK :: u32 where "PKGMARK_BLACK \<equiv> 4096"

record pkg_mark =
  mk_pkg :: pkg
  mk_flags :: u32

text \<open>
  \<open>struct pkgmark_set\<close>. The tables are lists of entries with different keys, a table that is not
  there yet is empty. The package set is kept by its address; its state is passed beside.
\<close>

record pmark_set =
  pms_flags :: u32
  pms_ps :: "nat option"
  unreqh :: unreqs
  pms_ht :: "(string \<times> pkg_mark) list"

text \<open>The text of an address, as printed by the conversion for pointers.\<close>

fun hex_nat :: "nat \<Rightarrow> string" where
  "hex_nat n = (if n < 16 then [''0123456789abcdef'' ! n] else hex_nat (n div 16) @ [''0123456789abcdef'' ! (n mod 16)])"

declare hex_nat.simps [simp del]

definition package_id :: "pmark_set \<Rightarrow> pkg \<Rightarrow> string" where
  "package_id pms p =
     (if pms_flags pms AND PKGMARK_SET_IDNEVR \<noteq> 0 then nvr p else ''0x'' @ hex_nat (addr p))"

definition pkgmark_set_new :: "nat option \<Rightarrow> u32 \<Rightarrow> pmark_set" where
  "pkgmark_set_new ps fl =
     \<lparr>pms_flags = (if fl = 0 then fl OR PKGMARK_SET_IDNEVR else fl), pms_ps = ps, unreqh = [], pms_ht = []\<rparr>"

definition pkgmark_set :: "pmark_set \<Rightarrow> pkg \<Rightarrow> bool \<Rightarrow> u32 \<Rightarrow> pmark_set" where
  "pkgmark_set pms p st flag =
     (let id = package_id pms p;
          upd = (\<lambda>mk. pms\<lparr>pms_ht := AList.update id
                  (mk\<lparr>mk_flags := (if st then mk_flags mk OR flag else mk_flags mk AND NOT flag)\<rparr>) (pms_ht pms)\<rparr>)
      in case map_of (pms_ht pms) id of
           None \<Rightarrow> if \<not> st then pms else upd \<lparr>mk_pkg = p, mk_flags = 0\<rparr>
         | Some mk \<Rightarrow> upd mk)"

definition pkgmark_isset :: "pmark_set \<Rightarrow> pkg \<Rightarrow> u32 \<Rightarrow> bool" where
  "pkgmark_isset pms p flag =
     (case map_of (pms_ht pms) (package_id pms p) of
        None \<Rightarrow> False
      | Some mk \<Rightarrow> mk_flags mk AND flag \<noteq> 0)"

abbreviation pkg_is_marked :: "pmark_set \<Rightarrow> pkg \<Rightarrow> bool" where
  "pkg_is_marked pms p \<equiv> pkgmark_isset pms p PKGMARK_ANY"

abbreviation pkg_is_dep_marked :: "pmark_set \<Rightarrow> pkg \<Rightarrow> bool" where
  "pkg_is_dep_marked pms p \<equiv> pkgmark_isset pms p PKGMARK_DEP"

abbreviation pkg_is_hand_marked :: "pmark_set \<Rightarrow> pkg \<Rightarrow> bool" where
  "pkg_is_hand_marked pms p \<equiv> pkgmark_isset pms p PKGMARK_MARK"

abbreviation pkg_hand_mark :: "pmark_set \<Rightarrow> pkg \<Rightarrow> pmark_set" where
  "pkg_hand_mark pms p \<equiv> pkgmark_set pms p True PKGMARK_MARK"

abbreviation pkg_dep_mark :: "pmark_set \<Rightarrow> pkg \<Rightarrow> pmark_set" where
  "pkg_dep_mark pms p \<equiv> pkgmark_set pms p True PKGMARK_DEP"

text \<open>The iteration over a table, \<open>it\<close>, goes through the entries in an order of its own.\<close>

definition pkgmark_get_packages ::
  "((string \<times> pkg_mark) list \<Rightarrow> (string \<times> pkg_mark) list) \<Rightarrow> pmark_set \<Rightarrow> u32 \<Rightarrow> pkg list option" where
  "pkgmark_get_packages it pms flag =
     (if pms_ht pms = [] then None
      else let pkgs = map (mk_pkg \<circ> snd) (filter (\<lambda>(_, mk). mk_flags mk AND flag \<noteq> 0) (it (pms_ht pms)))
           in if pkgs = [] then None else Some pkgs)"

definition pkgmark_massset :: "pmark_set \<Rightarrow> bool \<Rightarrow> u32 \<Rightarrow> pmark_set" where
  "pkgmark_massset pms st flag =
     pms\<lparr>pms_ht := map (\<lambda>(id, mk).
       (id, mk\<lparr>mk_flags := (if st then mk_flags mk OR flag else mk_flags mk AND NOT flag)\<rparr>)) (pms_ht pms)\<rparr>"

section \<open>Marking with dependencies\<close>

text \<open>A failed assertion ends the program.\<close>

definition n_assert :: "bool \<Rightarrow> 'a option \<Rightarrow> 'a option" where
  "n_assert b x = (if b then x else None)"

definition rp_list :: "reqpkg list option \<Rightarrow> reqpkg list" where
  "rp_list r = (case r of None \<Rightarrow> [] | Some arr \<Rightarrow> arr)"

text \<open>
  How many packages a package would drag in, up to a depth: \<open>getreq\<close> is the package set's answer
  for its requirements, \<open>rec\<close> the recursive call.
\<close>

fun drag_loop ::
  "(pkg \<Rightarrow> 's \<Rightarrow> (int \<times> 's) option) \<Rightarrow> pmark_set \<Rightarrow> reqpkg list \<Rightarrow> int \<Rightarrow> 's \<Rightarrow> (int \<times> 's) option" where
  "drag_loop rec pms [] n s = Some (n, s)"
| "drag_loop rec pms (rp # rps) n s =
     (if pkg_is_marked pms (rp_pkg rp) then drag_loop rec pms rps n s
      else n_assert (\<not> pkg_is_dep_marked pms (rp_pkg rp))
        (if rp_flags rp AND REQPKG_MULTI \<noteq> 0 \<and> list_ex (\<lambda>a. pkg_is_marked pms (rp_pkg a)) (adds rp)
         then drag_loop rec pms rps n s
         else Option.bind (rec (rp_pkg rp) s) (\<lambda>(k, s'). drag_loop rec pms rps (n + k + 1) s')))"

primrec pkgmark_pkg_drags ::
  "('s \<Rightarrow> pkg \<Rightarrow> reqpkg list option \<times> 's) \<Rightarrow> pmark_set \<Rightarrow> nat \<Rightarrow> pkg \<Rightarrow> 's \<Rightarrow> (int \<times> 's) option" where
  "pkgmark_pkg_drags getreq pms 0 = (\<lambda>p s. Some (0, s))"
| "pkgmark_pkg_drags getreq pms (Suc deep) = (\<lambda>p s.
     n_assert (pms_ps pms \<noteq> None)
       (let (r, s') = getreq s p in drag_loop (pkgmark_pkg_drags getreq pms deep) pms (rp_list r) 0 s'))"

text \<open>
  The alternatives of a group: whether none is marked, and the array of the candidates, which
  starts with the group's first package.
\<close>

fun scan_alts :: "pmark_set \<Rightarrow> pkg \<Rightarrow> pkg list option \<Rightarrow> reqpkg0 list \<Rightarrow> bool \<times> pkg list option" where
  "scan_alts pms p eq [] = (True, eq)"
| "scan_alts pms p eq (a # as) =
     (if pkg_is_marked pms (rp_pkg a) then (False, eq)
      else scan_alts pms p (Some ((case eq of None \<Rightarrow> [p] | Some es \<Rightarrow> es) @ [rp_pkg a])) as)"

text \<open>The first candidate that drags fewest.\<close>

fun least_drag ::
  "('s \<Rightarrow> pkg \<Rightarrow> reqpkg list option \<times> 's) \<Rightarrow> pmark_set \<Rightarrow> pkg list \<Rightarrow> int \<Rightarrow> pkg \<Rightarrow> 's \<Rightarrow>
   (pkg \<times> 's) option" where
  "least_drag getreq pms [] ndragged_min tomark s = Some (tomark, s)"
| "least_drag getreq pms (p # ps) ndragged_min tomark s =
     Option.bind (pkgmark_pkg_drags getreq pms 2 p s) (\<lambda>(n, s').
       if n < ndragged_min then least_drag getreq pms ps n p s'
       else least_drag getreq pms ps ndragged_min tomark s')"

text \<open>One group of alternatives after the other; \<open>vis\<close> visits a package for a requirement.\<close>

fun mark_loop ::
  "(capreq \<Rightarrow> pkg \<Rightarrow> pmark_set \<times> 's \<Rightarrow> (pmark_set \<times> 's) option) \<Rightarrow>
   ('s \<Rightarrow> pkg \<Rightarrow> reqpkg list option \<times> 's) \<Rightarrow> reqpkg list \<Rightarrow> pmark_set \<times> 's \<Rightarrow> (pmark_set \<times> 's) option" where
  "mark_loop vis getreq [] m = Some m"
| "mark_loop vis getreq (rp # rps) (pms, s) =
     (if pkg_is_marked pms (rp_pkg rp) then mark_loop vis getreq rps (pms, s)
      else n_assert (\<not> pkg_is_dep_marked pms (rp_pkg rp))
        (let (markit, eq) = (if rp_flags rp AND REQPKG_MULTI \<noteq> 0
               then scan_alts pms (rp_pkg rp) None (adds rp) else (True, None))
         in if \<not> markit then mark_loop vis getreq rps (pms, s)
            else Option.bind
              (case eq of None \<Rightarrow> Some (rp_pkg rp, s)
               | Some es \<Rightarrow> least_drag getreq pms es 2147483646 (rp_pkg rp) s)
              (\<lambda>(tomark, s'). Option.bind (vis (rp_req rp) tomark (pms, s')) (mark_loop vis getreq rps))))"

text \<open>
  The visit: \<open>getx\<close> is the package set's answer that also collects what nothing satisfies. The
  fuel bounds the depth of the recursion; one more than the packages there are is enough.
\<close>

primrec visit_mark_reqs ::
  "('s \<Rightarrow> pkg \<Rightarrow> unreqs \<Rightarrow> reqpkg list option \<times> 's \<times> unreqs) \<Rightarrow>
   ('s \<Rightarrow> pkg \<Rightarrow> reqpkg list option \<times> 's) \<Rightarrow> nat \<Rightarrow>
   pkg option \<Rightarrow> capreq option \<Rightarrow> pkg \<Rightarrow> int \<Rightarrow> pmark_set \<times> 's \<Rightarrow> (pmark_set \<times> 's) option" where
  "visit_mark_reqs getx getreq 0 = (\<lambda>parent req p deep m. None)"
| "visit_mark_reqs getx getreq (Suc n) = (\<lambda>parent req p deep (pms, s).
     if pkg_is_dep_marked pms p then Some (pms, s)
     else n_assert (pkg_is_marked pms p \<or> parent \<noteq> None \<and> req \<noteq> None \<and> 0 \<le> deep)
       (let pms1 = (if pkg_is_marked pms p then pms else pkg_dep_mark pms p)
        in n_assert (pms_ps pms1 \<noteq> None)
          (let (r, s', un) = getx s p (unreqh pms1)
           in mark_loop (\<lambda>rq q. visit_mark_reqs getx getreq n (Some p) (Some rq) q (deep + 2))
                getreq (rp_list r) (pms1\<lparr>unreqh := un\<rparr>, s'))))"

fun visit_all ::
  "(pkg \<Rightarrow> pmark_set \<times> 's \<Rightarrow> (pmark_set \<times> 's) option) \<Rightarrow> pkg list \<Rightarrow> pmark_set \<times> 's \<Rightarrow>
   (pmark_set \<times> 's) option" where
  "visit_all vis [] m = Some m"
| "visit_all vis (p # ps) m =
     n_assert (pkg_is_hand_marked (fst m) p) (Option.bind (vis p m) (visit_all vis ps))"

definition depmark_packages ::
  "('s \<Rightarrow> pkg \<Rightarrow> unreqs \<Rightarrow> reqpkg list option \<times> 's \<times> unreqs) \<Rightarrow>
   ('s \<Rightarrow> pkg \<Rightarrow> reqpkg list option \<times> 's) \<Rightarrow> nat \<Rightarrow>
   pmark_set \<Rightarrow> 's \<Rightarrow> pkg list \<Rightarrow> bool \<Rightarrow> (bool \<times> pmark_set \<times> 's) option" where
  "depmark_packages getx getreq n pms s tomark withdeps =
     (let pms1 = foldl pkg_hand_mark pms tomark in
      if \<not> withdeps then Some (True, pms1, s)
      else map_option (\<lambda>(pms2, s2). (unreqh pms2 = [], pms2, s2))
        (visit_all (\<lambda>p. visit_mark_reqs getx getreq n None None p (- 2)) tomark (pms1, s)))"

definition get_required_unmet ::
  "penv \<Rightarrow> psenv \<Rightarrow> arch_registry \<Rightarrow> pkgset \<Rightarrow> pkg \<Rightarrow> unreqs \<Rightarrow> reqpkg list option \<times> pkgset \<times> unreqs" where
  "get_required_unmet E P R ps p un =
     (let (r, ps', un') = pkgset_get_required_packages_x E P R ps p (Some un)
      in (r, ps', case un' of None \<Rightarrow> un | Some u \<Rightarrow> u))"

text \<open>The package set is given by its address, none for a null pointer, and its state.\<close>

definition packages_mark ::
  "penv \<Rightarrow> psenv \<Rightarrow> arch_registry \<Rightarrow> nat \<Rightarrow> pmark_set \<Rightarrow> pkg list \<Rightarrow> nat option \<Rightarrow> pkgset \<Rightarrow> bool \<Rightarrow>
   (bool \<times> pmark_set \<times> pkgset) option" where
  "packages_mark E P R n pms pkgs psaddr ps withdeps =
     (let mark = (\<lambda>pms. depmark_packages (get_required_unmet E P R) (pkgset_get_required_packages E P R) n
            pms ps pkgs withdeps)
      in if withdeps \<and> psaddr \<noteq> None
         then n_assert (pms_ps pms = None \<or> pms_ps pms = psaddr) (mark (pms\<lparr>pms_ps := psaddr\<rparr>))
         else mark pms)"

section \<open>Verifying a marked set\<close>

text \<open>What is logged: the package with the requirement nothing satisfies.\<close>

definition pkgmark_log_unsatisfied ::
  "((string \<times> pkg_mark) list \<Rightarrow> (string \<times> pkg_mark) list) \<Rightarrow> pmark_set \<Rightarrow> (pkg \<times> pkg_unreq) list" where
  "pkgmark_log_unsatisfied it pms =
     concat (map (\<lambda>(_, mk).
       if mk_flags mk AND PKGMARK_ANY = 0 then []
       else case map_of (unreqh pms) (nvr (mk_pkg mk)) of
              None \<Rightarrow> [] | Some errs \<Rightarrow> map (Pair (mk_pkg mk)) errs) (it (pms_ht pms)))"

text \<open>
  The conflicts among the marked packages, in the order they are logged; the result of the code
  is whether there are none.
\<close>

fun conflict_loop ::
  "(pkgset \<Rightarrow> pkg \<Rightarrow> reqpkg list option \<times> pkgset) \<Rightarrow> pmark_set \<Rightarrow> (string \<times> pkg_mark) list \<Rightarrow> pkgset \<Rightarrow>
   ((pkg \<times> pkg) list \<times> pkgset) option" where
  "conflict_loop getcnfl pms [] ps = Some ([], ps)"
| "conflict_loop getcnfl pms ((key, mk) # mks) ps =
     (if mk_flags mk AND PKGMARK_ANY = 0 then conflict_loop getcnfl pms mks ps
      else n_assert (pkg_is_marked pms (mk_pkg mk))
        (let (r, ps') = getcnfl ps (mk_pkg mk);
             errs = map (\<lambda>rp. (mk_pkg mk, rp_pkg rp)) (filter (\<lambda>rp. pkg_is_marked pms (rp_pkg rp)) (rp_list r))
         in map_option (\<lambda>(rest, ps2). (errs @ rest, ps2)) (conflict_loop getcnfl pms mks ps')))"

definition pkgmark_verify_package_conflicts ::
  "penv \<Rightarrow> psenv \<Rightarrow> arch_registry \<Rightarrow> ((string \<times> pkg_mark) list \<Rightarrow> (string \<times> pkg_mark) list) \<Rightarrow>
   pmark_set \<Rightarrow> pkgset \<Rightarrow> ((pkg \<times> pkg) list \<times> pkgset) option" where
  "pkgmark_verify_package_conflicts E P R it pms ps =
     n_assert (pms_ps pms \<noteq> None)
       (conflict_loop (pkgset_get_conflicted_packages E P R) pms (it (pms_ht pms)) ps)"

definition pkgmark_verify_package_order ::
  "penv \<Rightarrow> psenv \<Rightarrow> arch_registry \<Rightarrow> ((string \<times> pkg_mark) list \<Rightarrow> (string \<times> pkg_mark) list) \<Rightarrow>
   pmark_set \<Rightarrow> pkgset \<Rightarrow> pkg_flags \<Rightarrow> (bool \<times> pkgset visit_state) option" where
  "pkgmark_verify_package_order E P R it pms ps fl =
     n_assert (pms_ps pms \<noteq> None)
       (case pkgmark_get_packages it pms PKGMARK_ANY of
          None \<Rightarrow> None
        | Some pkgs \<Rightarrow> map_option (\<lambda>v. (nerrors v = 0, v)) (pkgset_order E P R ps fl pkgs PKGORDER_INSTALL))"

section \<open>Reading the marks\<close>

text \<open>What the table says of a package, by its identifier.\<close>

definition mark_of :: "pmark_set \<Rightarrow> pkg \<Rightarrow> pkg_mark option" where
  "mark_of pms p = map_of (pms_ht pms) (package_id pms p)"

lemma isset_mark: "pkgmark_isset pms p fl \<longleftrightarrow> (\<exists>mk. mark_of pms p = Some mk \<and> mk_flags mk AND fl \<noteq> 0)"
  by (simp add: pkgmark_isset_def mark_of_def split: option.split)

lemma package_id_cong [simp]:
  "package_id (pms\<lparr>pms_ps := a\<rparr>) = package_id pms"
  "package_id (pms\<lparr>unreqh := un\<rparr>) = package_id pms"
  "package_id (pms\<lparr>pms_ht := t\<rparr>) = package_id pms"
  by (simp_all add: package_id_def fun_eq_iff)

lemma isset_cong [simp]:
  "pkgmark_isset (pms\<lparr>pms_ps := a\<rparr>) = pkgmark_isset pms"
  "pkgmark_isset (pms\<lparr>unreqh := un\<rparr>) = pkgmark_isset pms"
  by (simp_all add: pkgmark_isset_def fun_eq_iff)

lemma set_fields [simp]:
  "package_id (pkgmark_set pms p st fl) = package_id pms"
  "pms_flags (pkgmark_set pms p st fl) = pms_flags pms"
  "pms_ps (pkgmark_set pms p st fl) = pms_ps pms"
  "unreqh (pkgmark_set pms p st fl) = unreqh pms"
  by (simp_all add: pkgmark_set_def Let_def split: option.split)

lemma set_ht:
  "map_of (pms_ht (pkgmark_set pms p True fl)) =
     (map_of (pms_ht pms))(package_id pms p \<mapsto>
       (case mark_of pms p of
          None \<Rightarrow> \<lparr>mk_pkg = p, mk_flags = fl\<rparr>
        | Some mk \<Rightarrow> mk\<lparr>mk_flags := mk_flags mk OR fl\<rparr>))"
  by (simp add: pkgmark_set_def mark_of_def Let_def update_conv' split: option.split)

text \<open>
  A table in which every entry is marked by hand or by the visit, never both, and stands under
  the identifier of its package.
\<close>

definition tight :: "pmark_set \<Rightarrow> bool" where
  "tight pms \<longleftrightarrow> (\<forall>k mk. map_of (pms_ht pms) k = Some mk \<longrightarrow>
     package_id pms (mk_pkg mk) = k \<and> (mk_flags mk = PKGMARK_MARK \<or> mk_flags mk = PKGMARK_DEP))"

lemma tight_flags: "tight pms \<Longrightarrow> mark_of pms p = Some mk \<Longrightarrow> mk_flags mk = PKGMARK_MARK \<or> mk_flags mk = PKGMARK_DEP"
  by (simp add: tight_def mark_of_def)

lemma tight_marked: "tight pms \<Longrightarrow> pkg_is_marked pms p \<longleftrightarrow> mark_of pms p \<noteq> None"
  using tight_flags [of pms p] by (cases "mark_of pms p") (auto simp: isset_mark)

lemma tight_dep: "tight pms \<Longrightarrow> pkg_is_dep_marked pms p \<longleftrightarrow> (\<exists>mk. mark_of pms p = Some mk \<and> mk_flags mk = PKGMARK_DEP)"
  using tight_flags [of pms p] by (cases "mark_of pms p") (auto simp: isset_mark)

lemma tight_hand: "tight pms \<Longrightarrow> pkg_is_hand_marked pms p \<longleftrightarrow> (\<exists>mk. mark_of pms p = Some mk \<and> mk_flags mk = PKGMARK_MARK)"
  using tight_flags [of pms p] by (cases "mark_of pms p") (auto simp: isset_mark)

lemma dep_mark_new:
  assumes "tight pms" "\<not> pkg_is_marked pms p"
  shows "map_of (pms_ht (pkg_dep_mark pms p)) =
      (map_of (pms_ht pms))(package_id pms p \<mapsto> \<lparr>mk_pkg = p, mk_flags = PKGMARK_DEP\<rparr>)"
    and "tight (pkg_dep_mark pms p)"
proof -
  have n: "mark_of pms p = None" using assms tight_marked by blast
  show 1: "map_of (pms_ht (pkg_dep_mark pms p)) =
      (map_of (pms_ht pms))(package_id pms p \<mapsto> \<lparr>mk_pkg = p, mk_flags = PKGMARK_DEP\<rparr>)"
    using n by (simp add: set_ht)
  show "tight (pkg_dep_mark pms p)"
    using assms(1) unfolding tight_def 1 by (auto split: if_splits)
qed

lemma hand_mark_tight:
  assumes "tight pms" "\<forall>k mk. map_of (pms_ht pms) k = Some mk \<longrightarrow> mk_flags mk = PKGMARK_MARK"
  shows "tight (pkg_hand_mark pms p) \<and>
    (\<forall>k mk. map_of (pms_ht (pkg_hand_mark pms p)) k = Some mk \<longrightarrow> mk_flags mk = PKGMARK_MARK)"
  using assms unfolding tight_def set_ht
  by (auto simp: mark_of_def split: option.splits if_splits)

text \<open>A group has a marked member.\<close>

definition group_met :: "pmark_set \<Rightarrow> reqpkg \<Rightarrow> bool" where
  "group_met pms rp \<longleftrightarrow> pkg_is_marked pms (rp_pkg rp) \<or>
     rp_flags rp AND REQPKG_MULTI \<noteq> 0 \<and> list_ex (\<lambda>a. pkg_is_marked pms (rp_pkg a)) (adds rp)"

section \<open>The choice of a candidate\<close>

lemma scan_alts_result:
  "scan_alts pms p eq as =
     (if list_ex (\<lambda>a. pkg_is_marked pms (rp_pkg a)) as then (False, snd (scan_alts pms p eq as))
      else (True, if as = [] then eq else Some ((case eq of None \<Rightarrow> [p] | Some es \<Rightarrow> es) @ map rp_pkg as)))"
  by (induction pms p eq as rule: scan_alts.induct) (auto split: if_splits)

text \<open>What the visit takes from the package set.\<close>

locale mark_source =
  fixes getx :: "'s \<Rightarrow> pkg \<Rightarrow> unreqs \<Rightarrow> reqpkg list option \<times> 's \<times> unreqs"
    and getreq :: "'s \<Rightarrow> pkg \<Rightarrow> reqpkg list option \<times> 's"
    and known :: "'s \<Rightarrow> pkg \<Rightarrow> reqpkg list option \<Rightarrow> bool \<Rightarrow> bool"
    and held :: "pkg set \<Rightarrow> 's \<Rightarrow> bool"
  assumes x_asked: "getx s p un = (r, s', un') \<Longrightarrow> \<exists>b. known s' p r b \<and>
      fst ` set un' = (if b then insert (nvr p) (fst ` set un) else fst ` set un)"
    and x_kept: "getx s p un = (r, s', un') \<Longrightarrow> known s q r' b \<Longrightarrow> known s' q r' b"
    and x_held: "getx s p un = (r, s', un') \<Longrightarrow> held A s \<Longrightarrow>
      held A s' \<and> (\<forall>rp \<in> set (rp_list r). set (rp_pkgs rp) \<subseteq> A)"
    and g_kept: "getreq s p = (r, s') \<Longrightarrow> known s q r' b \<Longrightarrow> known s' q r' b"
    and g_held: "getreq s p = (r, s') \<Longrightarrow> held A s \<Longrightarrow> held A s'"
begin

text \<open>The package set knows no less than before.\<close>

definition s_ext :: "'s \<Rightarrow> 's \<Rightarrow> bool" where
  "s_ext s s' \<longleftrightarrow> (\<forall>q r b. known s q r b \<longrightarrow> known s' q r b) \<and> (\<forall>A. held A s \<longrightarrow> held A s')"

lemma s_ext_refl [simp]: "s_ext s s"
  by (simp add: s_ext_def)

lemma s_ext_trans: "s_ext s s' \<Longrightarrow> s_ext s' s'' \<Longrightarrow> s_ext s s''"
  by (simp add: s_ext_def)

lemma s_ext_getx: "getx s p un = (r, s', un') \<Longrightarrow> s_ext s s'"
  using x_kept x_held by (fastforce simp: s_ext_def)

lemma s_ext_getreq: "getreq s p = (r, s') \<Longrightarrow> s_ext s s'"
  using g_kept g_held by (fastforce simp: s_ext_def)

lemma drag_loop_some:
  assumes "tight pms" "\<forall>p s. \<exists>k s'. rec p s = Some (k, s') \<and> s_ext s s'"
  shows "\<exists>k s'. drag_loop rec pms rps n s = Some (k, s') \<and> s_ext s s'"
proof (induction rps arbitrary: n s)
  case (Cons rp rps)
  have "\<not> pkg_is_dep_marked pms (rp_pkg rp)" if "\<not> pkg_is_marked pms (rp_pkg rp)"
    using that tight_dep [OF assms(1)] tight_marked [OF assms(1)] by auto
  moreover obtain k s1 where "rec (rp_pkg rp) s = Some (k, s1)" "s_ext s s1" using assms(2) by blast
  moreover from this obtain k2 s2 where "drag_loop rec pms rps (n + k + 1) s1 = Some (k2, s2)" "s_ext s s2"
    using Cons.IH [of "n + k + 1" s1] s_ext_trans by blast
  ultimately show ?case using Cons.IH [of n s] by (simp add: n_assert_def)
qed simp

lemma drags_some:
  assumes "tight pms" "pms_ps pms \<noteq> None"
  shows "\<exists>k s'. pkgmark_pkg_drags getreq pms d p s = Some (k, s') \<and> s_ext s s'"
proof (induction d arbitrary: p s)
  case (Suc d)
  obtain r s1 where g: "getreq s p = (r, s1)" by fastforce
  have rec: "\<forall>p s. \<exists>k s'. pkgmark_pkg_drags getreq pms d p s = Some (k, s') \<and> s_ext s s'"
    using Suc.IH by blast
  obtain k s2 where "drag_loop (pkgmark_pkg_drags getreq pms d) pms (rp_list r) 0 s1 = Some (k, s2)" "s_ext s1 s2"
    using drag_loop_some [OF assms(1) rec, where rps = "rp_list r" and n = 0 and s = s1] by blast
  then show ?case using g s_ext_trans [OF s_ext_getreq [OF g]] assms(2) by (simp add: n_assert_def)
qed simp

lemma least_drag_some:
  assumes "tight pms" "pms_ps pms \<noteq> None"
  shows "\<exists>q s'. least_drag getreq pms ps best t s = Some (q, s') \<and> s_ext s s' \<and> (q = t \<or> q \<in> set ps)"
proof (induction ps arbitrary: best t s)
  case (Cons p ps)
  obtain k s1 where d: "pkgmark_pkg_drags getreq pms 2 p s = Some (k, s1)" "s_ext s s1"
    using drags_some [OF assms] by blast
  show ?case
    using Cons.IH [of k p s1] Cons.IH [of best t s1] d s_ext_trans [OF d(2)] by auto
qed simp

text \<open>What one step of the loop over the groups takes.\<close>

lemma candidate:
  assumes "tight pms" "pms_ps pms \<noteq> None" "\<not> group_met pms rp"
  obtains eq q s' where
    "(if rp_flags rp AND REQPKG_MULTI \<noteq> 0 then scan_alts pms (rp_pkg rp) None (adds rp) else (True, None)) = (True, eq)"
    "(case eq of None \<Rightarrow> Some (rp_pkg rp, s) | Some es \<Rightarrow> least_drag getreq pms es 2147483646 (rp_pkg rp) s) = Some (q, s')"
    "s_ext s s'" "q = rp_pkg rp \<or> rp_flags rp AND REQPKG_MULTI \<noteq> 0 \<and> q \<in> rp_pkg ` set (adds rp)"
proof (cases "rp_flags rp AND REQPKG_MULTI \<noteq> 0 \<and> adds rp \<noteq> []")
  case False
  then have "(if rp_flags rp AND REQPKG_MULTI \<noteq> 0 then scan_alts pms (rp_pkg rp) None (adds rp) else (True, None)) = (True, None)"
    by auto
  then show thesis using that [of None "rp_pkg rp" s] by simp
next
  case True
  let ?es = "rp_pkg rp # map rp_pkg (adds rp)"
  have "scan_alts pms (rp_pkg rp) None (adds rp) = (True, Some ?es)"
    using scan_alts_result [of pms "rp_pkg rp" None "adds rp"] True assms(3) by (auto simp: group_met_def)
  moreover obtain q s' where "least_drag getreq pms ?es 2147483646 (rp_pkg rp) s = Some (q, s')" "s_ext s s'"
    "q = rp_pkg rp \<or> q \<in> set ?es"
    using least_drag_some [OF assms(1,2), of ?es 2147483646 "rp_pkg rp" s] by blast
  ultimately show thesis using that [of "Some ?es" q s'] True by auto
qed

section \<open>The visit\<close>

text \<open>Every group of the package has a marked member, and its unmet requirements are recorded.\<close>

definition satisfied :: "pmark_set \<times> 's \<Rightarrow> pkg \<Rightarrow> bool" where
  "satisfied m q \<longleftrightarrow> (\<exists>r b. known (snd m) q r b \<and> (\<forall>rp \<in> set (rp_list r). group_met (fst m) rp) \<and>
     (b \<longrightarrow> nvr q \<in> fst ` set (unreqh (fst m))))"

text \<open>The package is a candidate in a group of a marked package.\<close>

definition wanted :: "pmark_set \<times> 's \<Rightarrow> pkg \<Rightarrow> bool" where
  "wanted m x \<longleftrightarrow> (\<exists>q r b. \<exists>rp \<in> set (rp_list r). pkg_is_marked (fst m) q \<and> known (snd m) q r b \<and> x \<in> set (rp_pkgs rp))"

definition reported :: "pmark_set \<times> 's \<Rightarrow> string \<Rightarrow> bool" where
  "reported m k \<longleftrightarrow> (\<exists>q r. pkg_is_marked (fst m) q \<and> known (snd m) q r True \<and> k = nvr q)"

text \<open>The marks grow from one state to another.\<close>

definition m_ext :: "pmark_set \<times> 's \<Rightarrow> pmark_set \<times> 's \<Rightarrow> bool" where
  "m_ext m m' \<longleftrightarrow> pms_flags (fst m') = pms_flags (fst m) \<and> pms_ps (fst m') = pms_ps (fst m) \<and>
     map_of (pms_ht (fst m)) \<subseteq>\<^sub>m map_of (pms_ht (fst m')) \<and>
     fst ` set (unreqh (fst m)) \<subseteq> fst ` set (unreqh (fst m')) \<and> s_ext (snd m) (snd m')"

text \<open>Everything that is new is there for a reason.\<close>

definition sound_new :: "pmark_set \<times> 's \<Rightarrow> pmark_set \<times> 's \<Rightarrow> bool" where
  "sound_new m m' \<longleftrightarrow>
     (\<forall>k mk. map_of (pms_ht (fst m')) k = Some mk \<longrightarrow> map_of (pms_ht (fst m)) k = None \<longrightarrow>
        mk_flags mk = PKGMARK_DEP \<and> satisfied m' (mk_pkg mk) \<and> wanted m' (mk_pkg mk)) \<and>
     (\<forall>k \<in> fst ` set (unreqh (fst m')). k \<in> fst ` set (unreqh (fst m)) \<or> reported m' k)"

lemma m_ext_id: "m_ext m m' \<Longrightarrow> package_id (fst m') = package_id (fst m)"
  by (simp add: m_ext_def package_id_def fun_eq_iff)

lemma m_ext_isset: "m_ext m m' \<Longrightarrow> pkgmark_isset (fst m) p fl \<Longrightarrow> pkgmark_isset (fst m') p fl"
  using m_ext_id [of m m'] unfolding isset_mark mark_of_def m_ext_def map_le_def by (metis domI)

lemma m_ext_refl [simp]: "m_ext m m"
  by (simp add: m_ext_def)

lemma m_ext_trans: "m_ext m m' \<Longrightarrow> m_ext m' m'' \<Longrightarrow> m_ext m m''"
  by (auto simp: m_ext_def intro: map_le_trans s_ext_trans)

lemma m_ext_met: "m_ext m m' \<Longrightarrow> group_met (fst m) rp \<Longrightarrow> group_met (fst m') rp"
  using m_ext_isset [of m m'] by (auto simp: group_met_def list_ex_iff)

lemma m_ext_known: "m_ext m m' \<Longrightarrow> known (snd m) q r b \<Longrightarrow> known (snd m') q r b"
  by (simp add: m_ext_def s_ext_def)

lemma m_ext_unreqh: "m_ext m m' \<Longrightarrow> k \<in> fst ` set (unreqh (fst m)) \<Longrightarrow> k \<in> fst ` set (unreqh (fst m'))"
  by (auto simp: m_ext_def)

lemma m_ext_satisfied:
  assumes e: "m_ext m m'" and s: "satisfied m q"
  shows "satisfied m' q"
proof -
  obtain r b where r: "known (snd m) q r b" "\<forall>rp \<in> set (rp_list r). group_met (fst m) rp"
    "b \<longrightarrow> nvr q \<in> fst ` set (unreqh (fst m))"
    using s unfolding satisfied_def by blast
  then show ?thesis
    using m_ext_known [OF e r(1)] m_ext_met [OF e] m_ext_unreqh [OF e] unfolding satisfied_def by blast
qed

lemma m_ext_wanted: "m_ext m m' \<Longrightarrow> wanted m q \<Longrightarrow> wanted m' q"
  unfolding wanted_def using m_ext_isset m_ext_known by blast

lemma m_ext_reported: "m_ext m m' \<Longrightarrow> reported m k \<Longrightarrow> reported m' k"
  unfolding reported_def using m_ext_isset m_ext_known by blast

lemma sound_new_refl [simp]: "sound_new m m"
  by (auto simp: sound_new_def)

lemma sound_new_trans:
  assumes "m_ext m m'" "m_ext m' m''" "sound_new m m'" "sound_new m' m''"
  shows "sound_new m m''"
proof -
  have "mk_flags mk = PKGMARK_DEP \<and> satisfied m'' (mk_pkg mk) \<and> wanted m'' (mk_pkg mk)"
    if "map_of (pms_ht (fst m'')) k = Some mk" "map_of (pms_ht (fst m)) k = None" for k mk
  proof (cases "map_of (pms_ht (fst m')) k")
    case None
    then show ?thesis using assms(4) that by (simp add: sound_new_def)
  next
    case (Some mk')
    then have "mk' = mk" using assms(2) that(1) by (auto simp: m_ext_def map_le_def) (metis domI option.inject)
    then show ?thesis
      using Some assms(3) that(2) m_ext_satisfied [OF assms(2)] m_ext_wanted [OF assms(2)]
      by (auto simp: sound_new_def)
  qed
  moreover have "k \<in> fst ` set (unreqh (fst m)) \<or> reported m'' k" if "k \<in> fst ` set (unreqh (fst m''))" for k
    using assms(3,4) m_ext_reported [OF assms(2)] that unfolding sound_new_def by blast
  ultimately show ?thesis by (simp add: sound_new_def)
qed

end

section \<open>Every visit ends and closes the groups\<close>

definition unmarked :: "pkg set \<Rightarrow> pmark_set \<Rightarrow> string set" where
  "unmarked A pms = {k \<in> package_id pms ` A. map_of (pms_ht pms) k = None}"

context mark_source
begin

lemma m_ext_entry:
  assumes "m_ext m m'" "map_of (pms_ht (fst m)) k = Some mk"
  shows "map_of (pms_ht (fst m')) k = Some mk"
proof -
  have "k \<in> dom (map_of (pms_ht (fst m)))" using assms(2) by blast
  then show ?thesis using assms by (simp add: m_ext_def map_le_def)
qed

lemma unmarked_mono: "m_ext m m' \<Longrightarrow> unmarked A (fst m') \<subseteq> unmarked A (fst m)"
proof (rule subsetI)
  fix k assume e: "m_ext m m'" and k: "k \<in> unmarked A (fst m')"
  have "map_of (pms_ht (fst m)) k = map_of (pms_ht (fst m')) k" if "k \<in> dom (map_of (pms_ht (fst m)))"
    using e that by (simp add: m_ext_def map_le_def)
  then have "map_of (pms_ht (fst m)) k = None" using k by (cases "map_of (pms_ht (fst m)) k") (auto simp: unmarked_def)
  then show "k \<in> unmarked A (fst m)" using k m_ext_id [OF e] by (simp add: unmarked_def)
qed

lemma card_unmarked: "finite A \<Longrightarrow> m_ext m m' \<Longrightarrow> card (unmarked A (fst m')) \<le> card (unmarked A (fst m))"
  by (intro card_mono unmarked_mono) (simp_all add: unmarked_def)

text \<open>A state the visit starts from.\<close>

definition ready :: "pkg set \<Rightarrow> pmark_set \<times> 's \<Rightarrow> bool" where
  "ready A m \<longleftrightarrow> held A (snd m) \<and> tight (fst m) \<and> pms_ps (fst m) \<noteq> None"

lemma ready_ext: "ready A m \<Longrightarrow> m_ext m m' \<Longrightarrow> tight (fst m') \<Longrightarrow> ready A m'"
  by (simp add: ready_def m_ext_def s_ext_def)

definition visits_ok ::
  "pkg set \<Rightarrow> nat \<Rightarrow> (capreq \<Rightarrow> pkg \<Rightarrow> pmark_set \<times> 's \<Rightarrow> (pmark_set \<times> 's) option) \<Rightarrow> bool" where
  "visits_ok A n vis \<longleftrightarrow> (\<forall>m q rq. ready A m \<and> q \<in> A \<and> \<not> pkg_is_marked (fst m) q \<and> wanted m q \<and>
      card (unmarked A (fst m)) \<le> n \<longrightarrow>
      (\<exists>m'. vis rq q m = Some m' \<and> m_ext m m' \<and> tight (fst m') \<and> pkg_is_marked (fst m') q \<and> sound_new m m'))"

lemma mark_loop_met:
  assumes "tight pms" "group_met pms rp"
  shows "mark_loop vis getreq (rp # rps) (pms, s) = mark_loop vis getreq rps (pms, s)"
proof (cases "pkg_is_marked pms (rp_pkg rp)")
  case False
  then have "\<not> pkg_is_dep_marked pms (rp_pkg rp)"
    using tight_dep [OF assms(1)] tight_marked [OF assms(1)] by auto
  moreover have "rp_flags rp AND REQPKG_MULTI \<noteq> 0" "list_ex (\<lambda>a. pkg_is_marked pms (rp_pkg a)) (adds rp)"
    using assms(2) False by (auto simp: group_met_def)
  moreover from this obtain eq where "scan_alts pms (rp_pkg rp) None (adds rp) = (False, eq)"
    using scan_alts_result [of pms "rp_pkg rp" None "adds rp"] by metis
  ultimately show ?thesis using False by (simp add: n_assert_def)
qed simp

lemma mark_loop_choice:
  assumes "tight pms" "pms_ps pms \<noteq> None" "\<not> group_met pms rp"
  obtains q s' where "s_ext s s'" "q \<in> set (rp_pkgs rp)"
    "\<And>pms'. pkg_is_marked pms' q \<Longrightarrow> group_met pms' rp"
    "\<not> pkg_is_marked pms q"
    "mark_loop vis getreq (rp # rps) (pms, s) =
      Option.bind (vis (rp_req rp) q (pms, s')) (mark_loop vis getreq rps)"
proof (cases rule: candidate [OF assms, of s])
  case (1 eq q s')
  have u: "\<not> pkg_is_marked pms (rp_pkg rp)" using assms(3) by (simp add: group_met_def)
  then have "\<not> pkg_is_dep_marked pms (rp_pkg rp)"
    using tight_dep [OF assms(1)] tight_marked [OF assms(1)] by auto
  then have "mark_loop vis getreq (rp # rps) (pms, s) =
      Option.bind (vis (rp_req rp) q (pms, s')) (mark_loop vis getreq rps)"
    using u 1(1,2) by (simp add: n_assert_def)
  moreover have "group_met pms' rp" if "pkg_is_marked pms' q" for pms'
    using 1(4) that by (auto simp: group_met_def list_ex_iff)
  moreover have "q \<in> set (rp_pkgs rp)" using 1(4) by (auto simp: rp_pkgs_def)
  moreover have "\<not> pkg_is_marked pms q" using calculation(2) assms(3) by blast
  ultimately show thesis using that 1(3) by blast
qed

lemma m_ext_state: "s_ext s s' \<Longrightarrow> m_ext (pms, s) (pms, s')"
  by (simp add: m_ext_def)

lemma sound_new_state: "sound_new (pms, s) (pms, s')"
  by (auto simp: sound_new_def)

lemma mark_loop_ok:
  assumes fin: "finite A" and vis: "visits_ok A n vis"
    and m: "ready A m" "card (unmarked A (fst m)) \<le> n"
    and p: "pkg_is_marked (fst m) p" "known (snd m) p r b" "set rps \<subseteq> set (rp_list r)"
    and A: "\<forall>rp \<in> set rps. set (rp_pkgs rp) \<subseteq> A"
  shows "\<exists>m'. mark_loop vis getreq rps m = Some m' \<and> m_ext m m' \<and> tight (fst m') \<and>
    (\<forall>rp \<in> set rps. group_met (fst m') rp) \<and> sound_new m m'"
  using m p A
proof (induction rps arbitrary: m)
  case (Cons rp rps)
  obtain pms s where ms: "m = (pms, s)" by fastforce
  have t: "tight pms" "pms_ps pms \<noteq> None" using Cons.prems(1) by (simp_all add: ready_def ms)
  show ?case
  proof (cases "group_met pms rp")
    case True
    obtain m' where "mark_loop vis getreq rps m = Some m'" "m_ext m m'" "tight (fst m')"
      "\<forall>rp \<in> set rps. group_met (fst m') rp" "sound_new m m'"
      using Cons.IH [OF Cons.prems(1-4)] Cons.prems(5,6) by auto
    then show ?thesis
      using mark_loop_met [OF t(1) True, of vis rps s] m_ext_met [of m m' rp] True by (auto simp: ms)
  next
    case False
    obtain q s' where q: "s_ext s s'" "q \<in> set (rp_pkgs rp)" "\<And>pms'. pkg_is_marked pms' q \<Longrightarrow> group_met pms' rp"
      "\<not> pkg_is_marked pms q" "mark_loop vis getreq (rp # rps) (pms, s) =
        Option.bind (vis (rp_req rp) q (pms, s')) (mark_loop vis getreq rps)"
      using mark_loop_choice [OF t False] by blast
    let ?m1 = "(pms, s')"
    have e1: "m_ext m ?m1" using m_ext_state [OF q(1)] by (simp add: ms)
    have r1: "ready A ?m1" using ready_ext [OF Cons.prems(1) e1] t by simp
    have "wanted ?m1 q"
      using Cons.prems(3,5) q(2) m_ext_known [OF e1 Cons.prems(4)] by (auto simp: wanted_def ms)
    moreover have "q \<in> A" using q(2) Cons.prems(6) by auto
    ultimately obtain m2 where m2: "vis (rp_req rp) q ?m1 = Some m2" "m_ext ?m1 m2" "tight (fst m2)"
      "pkg_is_marked (fst m2) q" "sound_new ?m1 m2"
      using vis r1 q(4) Cons.prems(2) unfolding visits_ok_def by (fastforce simp: ms)
    have e2: "m_ext m m2" by (rule m_ext_trans [OF e1 m2(2)])
    have "card (unmarked A (fst m2)) \<le> n" using card_unmarked [OF fin e2] Cons.prems(2) by simp
    then obtain m' where m': "mark_loop vis getreq rps m2 = Some m'" "m_ext m2 m'" "tight (fst m')"
      "\<forall>rp \<in> set rps. group_met (fst m') rp" "sound_new m2 m'"
      using Cons.IH [OF ready_ext [OF Cons.prems(1) e2 m2(3)] _ m_ext_isset [OF e2 Cons.prems(3)]
        m_ext_known [OF e2 Cons.prems(4)]] Cons.prems(5,6) by auto
    have "sound_new m m2" using sound_new_trans [OF e1 m2(2) _ m2(5)] sound_new_state ms by blast
    then have "sound_new m m'" by (rule sound_new_trans [OF e2 m'(2) _ m'(5)])
    moreover have "group_met (fst m') rp" by (rule m_ext_met [OF m'(2) q(3) [OF m2(4)]])
    ultimately show ?thesis
      using m' q(5) m2(1) m_ext_trans [OF e2 m'(2)] by (auto simp: ms)
  qed
qed (use m in \<open>auto simp: ready_def\<close>)

text \<open>The state the loop starts from when a package is visited.\<close>

lemma visit_start:
  assumes m: "tight pms" and x: "getx s p (unreqh pms) = (r, s', un)"
  defines "pms1 \<equiv> (if pkg_is_marked pms p then pms else pkg_dep_mark pms p)"
  shows "m_ext (pms, s) (pms1\<lparr>unreqh := un\<rparr>, s')" and "tight (pms1\<lparr>unreqh := un\<rparr>)"
    and "pkg_is_marked (pms1\<lparr>unreqh := un\<rparr>) p"
    and "map_of (pms_ht pms1) k = Some mk \<Longrightarrow> map_of (pms_ht pms) k = None \<Longrightarrow>
      mk = \<lparr>mk_pkg = p, mk_flags = PKGMARK_DEP\<rparr> \<and> \<not> pkg_is_marked pms p"
proof -
  have ht: "map_of (pms_ht pms1) = (if pkg_is_marked pms p then map_of (pms_ht pms)
      else (map_of (pms_ht pms))(package_id pms p \<mapsto> \<lparr>mk_pkg = p, mk_flags = PKGMARK_DEP\<rparr>))"
    using dep_mark_new(1) [OF m] by (simp add: pms1_def)
  have new: "map_of (pms_ht pms) (package_id pms p) = None" if "\<not> pkg_is_marked pms p"
    using tight_marked [OF m, of p] that by (simp add: mark_of_def)
  obtain b where "fst ` set un = (if b then insert (nvr p) (fst ` set (unreqh pms)) else fst ` set (unreqh pms))"
    using x_asked [OF x] by blast
  then have u: "fst ` set (unreqh pms) \<subseteq> fst ` set un" by (cases b) (simp_all add: subset_insertI)
  have f: "pms_flags pms1 = pms_flags pms" "pms_ps pms1 = pms_ps pms" "package_id pms1 = package_id pms"
    by (simp_all add: pms1_def)
  show "m_ext (pms, s) (pms1\<lparr>unreqh := un\<rparr>, s')"
    using f u s_ext_getx [OF x] new unfolding m_ext_def by (auto simp: ht map_le_def)
  show "tight (pms1\<lparr>unreqh := un\<rparr>)"
    using m dep_mark_new(2) [OF m, of p] by (simp add: tight_def pms1_def)
  show "pkg_is_marked (pms1\<lparr>unreqh := un\<rparr>) p"
    using f by (simp add: pms1_def isset_mark mark_of_def dep_mark_new(1) [OF m])
  show "mk = \<lparr>mk_pkg = p, mk_flags = PKGMARK_DEP\<rparr> \<and> \<not> pkg_is_marked pms p"
    if "map_of (pms_ht pms1) k = Some mk" "map_of (pms_ht pms) k = None"
    using that ht by (auto split: if_splits)
qed

lemma visit_body:
  assumes fin: "finite A" and m: "ready A (pms, s)" "\<not> pkg_is_dep_marked pms p"
    and w: "pkg_is_marked pms p \<or> wanted (pms, s) p \<and> parent \<noteq> None \<and> req \<noteq> None \<and> 0 \<le> deep"
    and n: "card (unmarked A (if pkg_is_marked pms p then pms else pkg_dep_mark pms p)) \<le> n"
    and vis: "visits_ok A n (\<lambda>rq q. visit_mark_reqs getx getreq n (Some p) (Some rq) q (deep + 2))"
  shows "\<exists>m'. visit_mark_reqs getx getreq (Suc n) parent req p deep (pms, s) = Some m' \<and> m_ext (pms, s) m' \<and>
    tight (fst m') \<and> pkg_is_marked (fst m') p \<and> satisfied m' p \<and> sound_new (pms, s) m'"
proof -
  obtain r s' un where x: "getx s p (unreqh pms) = (r, s', un)" by (metis prod.exhaust)
  let ?pms1 = "if pkg_is_marked pms p then pms else pkg_dep_mark pms p"
  let ?m1 = "(?pms1\<lparr>unreqh := un\<rparr>, s')"
  have t: "tight pms" "held A s" "pms_ps pms \<noteq> None" using m(1) by (simp_all add: ready_def)
  note st = visit_start [OF t(1) x]
  obtain b where b: "known s' p r b"
    "fst ` set un = (if b then insert (nvr p) (fst ` set (unreqh pms)) else fst ` set (unreqh pms))"
    using x_asked [OF x] by blast
  have "unmarked A (fst ?m1) = unmarked A ?pms1" by (auto simp: unmarked_def)
  then have c: "card (unmarked A (fst ?m1)) \<le> n" using n by simp
  have A: "\<forall>rp \<in> set (rp_list r). set (rp_pkgs rp) \<subseteq> A" using x_held [OF x t(2)] by blast
  have "ready A ?m1" by (rule ready_ext [OF m(1) st(1)]) (simp only: fst_conv st(2))
  from mark_loop_ok [OF fin vis this c _ _ order_refl A, of p b] st(3) b(1)
  obtain m' where m': "mark_loop (\<lambda>rq q. visit_mark_reqs getx getreq n (Some p) (Some rq) q (deep + 2)) getreq (rp_list r) ?m1 = Some m'"
    "m_ext ?m1 m'" "tight (fst m')" "\<forall>rp \<in> set (rp_list r). group_met (fst m') rp" "sound_new ?m1 m'"
    by auto
  have e: "m_ext (pms, s) m'" by (rule m_ext_trans [OF st(1) m'(2)])
  have marked: "pkg_is_marked (fst m') p" by (rule m_ext_isset [OF m'(2)]) (simp only: fst_conv st(3))
  have k: "known (snd m') p r b" by (rule m_ext_known [OF m'(2)]) (simp add: b(1))
  have "nvr p \<in> fst ` set (unreqh (fst ?m1))" if b using b(2) that by simp
  then have sat: "satisfied m' p"
    unfolding satisfied_def using k m'(4) m_ext_unreqh [OF m'(2), of "nvr p"] by blast
  have "mk_flags mk = PKGMARK_DEP \<and> satisfied m' (mk_pkg mk) \<and> wanted m' (mk_pkg mk)"
    if "map_of (pms_ht (fst m')) k = Some mk" "map_of (pms_ht pms) k = None" for k mk
  proof (cases "map_of (pms_ht ?pms1) k")
    case None
    then show ?thesis using m'(5) that(1) by (simp add: sound_new_def)
  next
    case (Some mk1)
    then have "map_of (pms_ht (fst ?m1)) k = Some mk1" by simp
    then have "mk1 = mk" using m_ext_entry [OF m'(2)] that(1) by simp
    then have mk: "mk = \<lparr>mk_pkg = p, mk_flags = PKGMARK_DEP\<rparr>" "\<not> pkg_is_marked pms p"
      using st(4) [OF Some that(2)] by simp_all
    then have "wanted m' p" using w m_ext_wanted [OF e] by blast
    then show ?thesis using sat mk(1) by simp
  qed
  moreover have "k \<in> fst ` set (unreqh pms) \<or> reported m' k" if "k \<in> fst ` set (unreqh (fst m'))" for k
  proof -
    have "k \<in> fst ` set (unreqh (fst ?m1)) \<or> reported m' k" using m'(5) that unfolding sound_new_def by blast
    then have "k \<in> fst ` set un \<or> reported m' k" by simp
    moreover have "reported m' (nvr p)" if b using that k marked by (auto simp: reported_def)
    ultimately show ?thesis using b(2) by (auto split: if_splits)
  qed
  ultimately have "sound_new (pms, s) m'" by (simp add: sound_new_def)
  moreover have "visit_mark_reqs getx getreq (Suc n) parent req p deep (pms, s) = Some m'"
    using m(2) w t(3) x m'(1) by (cases "pkg_is_marked pms p") (simp_all add: n_assert_def)
  ultimately show ?thesis using e m'(3) marked sat by blast
qed

lemma mark_visit_ok:
  "finite A \<Longrightarrow> 0 \<le> deep \<Longrightarrow>
     visits_ok A n (\<lambda>rq q. visit_mark_reqs getx getreq n (Some p) (Some rq) q deep)"
proof (induction n arbitrary: p deep)
  case 0
  have "unmarked A (fst m) \<noteq> {}" if "ready A m" "q \<in> A" "\<not> pkg_is_marked (fst m) q" for m q
    using that tight_marked [of "fst m" q] by (auto simp: ready_def unmarked_def mark_of_def)
  moreover have "finite (unmarked A pms)" for pms using 0 by (simp add: unmarked_def)
  ultimately show ?case unfolding visits_ok_def by (metis card_0_eq le_zero_eq)
next
  case (Suc n)
  show ?case unfolding visits_ok_def
  proof (intro allI impI, elim conjE)
    fix m q rq
    assume m: "ready A m" "q \<in> A" "\<not> pkg_is_marked (fst m) q" "wanted m q"
      and c: "card (unmarked A (fst m)) \<le> Suc n"
    obtain pms s where ms: "m = (pms, s)" by fastforce
    have t: "tight pms" using m(1) by (simp add: ready_def ms)
    have nd: "\<not> pkg_is_dep_marked pms q"
      using m(3) tight_dep [OF t] tight_marked [OF t] by (auto simp: ms)
    have "package_id pms q \<in> unmarked A pms"
      using m(2,3) tight_marked [OF t] by (auto simp: ms unmarked_def mark_of_def)
    moreover have "unmarked A (pkg_dep_mark pms q) = unmarked A pms - {package_id pms q}"
      using dep_mark_new(1) [OF t] m(3) by (auto simp: ms unmarked_def split: if_splits)
    moreover have "finite (unmarked A pms)" using Suc.prems by (simp add: unmarked_def)
    ultimately have "card (unmarked A (pkg_dep_mark pms q)) \<le> n" using c by (simp add: ms)
    then show "\<exists>m'. visit_mark_reqs getx getreq (Suc n) (Some p) (Some rq) q deep m = Some m' \<and> m_ext m m' \<and>
        tight (fst m') \<and> pkg_is_marked (fst m') q \<and> sound_new m m'"
      using visit_body [OF Suc.prems(1) _ nd _ _ Suc.IH [OF Suc.prems(1)], of s "Some p" "Some rq" deep] m Suc.prems(2)
      unfolding ms by auto
  qed
qed

end

section \<open>The selection\<close>

lemma hand_mark_all:
  assumes "tight pms" "\<forall>k mk. map_of (pms_ht pms) k = Some mk \<longrightarrow> mk_flags mk = PKGMARK_MARK \<and> mk_pkg mk \<in> S"
  shows "let pms1 = foldl pkg_hand_mark pms ps in tight pms1 \<and> pms_ps pms1 = pms_ps pms \<and> unreqh pms1 = unreqh pms \<and> package_id pms1 = package_id pms \<and>
    (\<forall>k mk. map_of (pms_ht pms1) k = Some mk \<longrightarrow> mk_flags mk = PKGMARK_MARK \<and> mk_pkg mk \<in> S \<union> set ps) \<and>
    dom (map_of (pms_ht pms1)) = dom (map_of (pms_ht pms)) \<union> package_id pms ` set ps"
  using assms
proof (induction ps arbitrary: pms S)
  case (Cons p ps)
  let ?pms = "pkg_hand_mark pms p"
  have t: "tight ?pms" using hand_mark_tight [OF Cons.prems(1)] Cons.prems(2) by blast
  have "\<forall>k mk. map_of (pms_ht ?pms) k = Some mk \<longrightarrow> mk_flags mk = PKGMARK_MARK \<and> mk_pkg mk \<in> insert p S"
    using Cons.prems unfolding set_ht by (auto simp: mark_of_def split: option.splits if_splits)
  from Cons.IH [OF t this] show ?case unfolding foldl_Cons set_fields set_ht dom_fun_upd Let_def by auto
qed (auto simp: Let_def)

lemma tight_empty: "pms_ht pms = [] \<Longrightarrow> tight pms"
  by (simp add: tight_def)

lemma hand_marks:
  assumes "pms_ht pms = []"
  shows "tight (foldl pkg_hand_mark pms ps)" "package_id (foldl pkg_hand_mark pms ps) = package_id pms"
    "pms_ps (foldl pkg_hand_mark pms ps) = pms_ps pms" "unreqh (foldl pkg_hand_mark pms ps) = unreqh pms"
    "\<And>k mk. map_of (pms_ht (foldl pkg_hand_mark pms ps)) k = Some mk \<Longrightarrow> mk_flags mk = PKGMARK_MARK \<and> mk_pkg mk \<in> set ps"
    "dom (map_of (pms_ht (foldl pkg_hand_mark pms ps))) = package_id pms ` set ps"
proof -
  let ?pms1 = "foldl pkg_hand_mark pms ps"
  have "\<forall>k mk. map_of (pms_ht pms) k = Some mk \<longrightarrow> mk_flags mk = PKGMARK_MARK \<and> mk_pkg mk \<in> {}"
    using assms by simp
  note * = hand_mark_all [OF tight_empty [OF assms] this, of ps, unfolded Let_def]
  show "tight ?pms1" "package_id ?pms1 = package_id pms" "pms_ps ?pms1 = pms_ps pms" "unreqh ?pms1 = unreqh pms"
    using * by blast+
  show "mk_flags mk = PKGMARK_MARK \<and> mk_pkg mk \<in> set ps" if "map_of (pms_ht ?pms1) k = Some mk" for k mk
    using * that by blast
  have "dom (map_of (pms_ht ?pms1)) = dom (map_of (pms_ht pms)) \<union> package_id pms ` set ps" using * by blast
  then show "dom (map_of (pms_ht ?pms1)) = package_id pms ` set ps" by (simp only: assms map_of.simps dom_empty Un_empty_left)
qed

lemma hand_marked_all:
  assumes "pms_ht pms = []" "p \<in> set ps"
  shows "pkg_is_hand_marked (foldl pkg_hand_mark pms ps) p"
proof -
  let ?pms1 = "foldl pkg_hand_mark pms ps"
  note h = hand_marks [OF assms(1), of ps]
  have "package_id ?pms1 p \<in> dom (map_of (pms_ht ?pms1))" by (simp only: h(2,6) assms(2) imageI)
  then obtain mk where mk: "mark_of ?pms1 p = Some mk" unfolding mark_of_def by blast
  from h(5) [OF this [unfolded mark_of_def]] have "mk_flags mk AND PKGMARK_MARK \<noteq> 0" by simp
  then show ?thesis using mk isset_mark by blast
qed

context mark_source
begin

lemma visit_all_ok:
  assumes fin: "finite A"
  shows "ready A m \<Longrightarrow> card (unmarked A (fst m)) < n \<Longrightarrow> \<forall>p \<in> set ps. pkg_is_hand_marked (fst m) p \<Longrightarrow>
    \<exists>m'. visit_all (\<lambda>p. visit_mark_reqs getx getreq n None None p (- 2)) ps m = Some m' \<and> m_ext m m' \<and>
      tight (fst m') \<and> (\<forall>p \<in> set ps. satisfied m' p) \<and> sound_new m m'"
proof (induction ps arbitrary: m)
  case (Cons p ps)
  obtain n' where n: "n = Suc n'" using Cons.prems(2) by (cases n) auto
  obtain pms s where ms: "m = (pms, s)" by fastforce
  have t: "tight pms" using Cons.prems(1) by (simp add: ready_def ms)
  have h: "pkg_is_hand_marked pms p" using Cons.prems(3) by (simp add: ms)
  then have mk: "pkg_is_marked pms p" "\<not> pkg_is_dep_marked pms p"
    using tight_hand [OF t] tight_dep [OF t] tight_marked [OF t] by auto
  have "visits_ok A n' (\<lambda>rq q. visit_mark_reqs getx getreq n' (Some p) (Some rq) q (- 2 + 2))"
    by (rule mark_visit_ok [OF fin]) simp
  from visit_body [OF fin _ mk(2) _ _ this, of s None None] Cons.prems(1,2) mk(1) n
  obtain m1 where m1: "visit_mark_reqs getx getreq n None None p (- 2) m = Some m1" "m_ext m m1"
    "tight (fst m1)" "satisfied m1 p" "sound_new m m1"
    by (auto simp: ms)
  have "card (unmarked A (fst m1)) < n" using card_unmarked [OF fin m1(2)] Cons.prems(2) by simp
  moreover have "\<forall>p \<in> set ps. pkg_is_hand_marked (fst m1) p" using Cons.prems(3) m_ext_isset [OF m1(2)] by simp
  ultimately obtain m' where m': "visit_all (\<lambda>p. visit_mark_reqs getx getreq n None None p (- 2)) ps m1 = Some m'"
    "m_ext m1 m'" "tight (fst m')" "\<forall>p \<in> set ps. satisfied m' p" "sound_new m1 m'"
    using Cons.IH [OF ready_ext [OF Cons.prems(1) m1(2,3)]] by blast
  have "visit_all (\<lambda>p. visit_mark_reqs getx getreq n None None p (- 2)) (p # ps) m = Some m'"
    using h m1(1) m'(1) by (simp add: n_assert_def ms)
  moreover have "satisfied m' p" by (rule m_ext_satisfied [OF m'(2) m1(4)])
  ultimately show ?case
    using m' m_ext_trans [OF m1(2) m'(2)] sound_new_trans [OF m1(2) m'(2) m1(5) m'(5)] by auto
qed (auto simp: ready_def)

lemma depmark_ok:
  assumes fin: "finite A" and s: "held A s" and pms: "pms_ht pms = []" "unreqh pms = []" "pms_ps pms \<noteq> None"
    and n: "card (package_id pms ` A) < n"
  obtains ok pms' s' where "depmark_packages getx getreq n pms s tomark True = Some (ok, pms', s')"
    "package_id pms' = package_id pms" "ok \<longleftrightarrow> unreqh pms' = []"
    "\<And>p. p \<in> set tomark \<Longrightarrow> pkg_is_marked pms' p \<and> satisfied (pms', s') p"
    "\<And>k mk. map_of (pms_ht pms') k = Some mk \<Longrightarrow> k = package_id pms (mk_pkg mk) \<and> satisfied (pms', s') (mk_pkg mk) \<and>
      (mk_flags mk = PKGMARK_MARK \<and> mk_pkg mk \<in> set tomark \<or> mk_flags mk = PKGMARK_DEP \<and> wanted (pms', s') (mk_pkg mk))"
    "\<And>k. k \<in> fst ` set (unreqh pms') \<Longrightarrow> reported (pms', s') k"
proof -
  let ?pms1 = "foldl pkg_hand_mark pms tomark"
  note h1 = hand_marks [OF pms(1), of tomark]
  have h: "tight ?pms1" "package_id ?pms1 = package_id pms" "pms_ps ?pms1 \<noteq> None" "unreqh ?pms1 = []"
    "\<And>k mk. map_of (pms_ht ?pms1) k = Some mk \<Longrightarrow> mk_flags mk = PKGMARK_MARK \<and> mk_pkg mk \<in> set tomark"
    by (simp_all only: h1 pms not_False_eq_True)
  have hm: "\<forall>p \<in> set tomark. pkg_is_hand_marked ?pms1 p" using hand_marked_all [OF pms(1)] by blast
  have r: "ready A (?pms1, s)" using h s by (simp add: ready_def)
  have "card (unmarked A ?pms1) \<le> card (package_id pms ` A)"
    using fin by (intro card_mono) (auto simp: unmarked_def h(2))
  then have c: "card (unmarked A (fst (?pms1, s))) < n" using n by simp
  obtain m' where m': "visit_all (\<lambda>p. visit_mark_reqs getx getreq n None None p (- 2)) tomark (?pms1, s) = Some m'"
    "m_ext (?pms1, s) m'" "tight (fst m')" "\<forall>p \<in> set tomark. satisfied m' p" "sound_new (?pms1, s) m'"
    using visit_all_ok [OF fin r c, of tomark] hm by auto
  obtain pms' s' where ms: "m' = (pms', s')" by fastforce
  have i: "package_id pms' = package_id pms" using m_ext_id [OF m'(2)] h(2) by (simp add: ms)
  show thesis
  proof (rule that)
    show "depmark_packages getx getreq n pms s tomark True = Some (unreqh pms' = [], pms', s')"
      using m'(1) by (simp add: depmark_packages_def ms)
    show "pkg_is_marked pms' p \<and> satisfied (pms', s') p" if "p \<in> set tomark" for p
    proof
      have "pkg_is_marked ?pms1 p" using hm that tight_hand [OF h(1)] tight_marked [OF h(1)] by auto
      then show "pkg_is_marked pms' p" using m_ext_isset [OF m'(2)] by (simp add: ms)
    qed (use m'(4) that ms in simp)
    show "k = package_id pms (mk_pkg mk) \<and> satisfied (pms', s') (mk_pkg mk) \<and>
      (mk_flags mk = PKGMARK_MARK \<and> mk_pkg mk \<in> set tomark \<or> mk_flags mk = PKGMARK_DEP \<and> wanted (pms', s') (mk_pkg mk))"
      if k: "map_of (pms_ht pms') k = Some mk" for k mk
    proof (cases "map_of (pms_ht ?pms1) k")
      case None
      then show ?thesis using m'(3,5) k i by (auto simp: sound_new_def tight_def ms)
    next
      case (Some mk')
      then have "mk' = mk" using m_ext_entry [OF m'(2)] k by (simp add: ms)
      then show ?thesis using h(5) [OF Some] m'(3,4) k i by (auto simp: tight_def ms)
    qed
    show "reported (pms', s') k" if "k \<in> fst ` set (unreqh pms')" for k
      using m'(5) that h(4) unfolding sound_new_def ms by auto
  qed (use i in simp_all)
qed

end

section \<open>The package set answers\<close>

text \<open>What is known of the requirements of a package, and whether some are unmet.\<close>

definition marks_known :: "psenv \<Rightarrow> pkgset \<Rightarrow> pkg \<Rightarrow> reqpkg list option \<Rightarrow> bool \<Rightarrow> bool" where
  "marks_known P ps p r b \<longleftrightarrow>
     (case reqs p of
        None \<Rightarrow> r = None \<and> \<not> b
      | Some rs \<Rightarrow> \<exists>c arr. req_cache ps = Some c \<and> replay P c rs [] = Some arr \<and>
          r = (if arr = [] then None else Some arr) \<and>
          b = (\<exists>req \<in> set rs. \<not> capreq_is_rpmlib req \<and> c (req_key P req) = Some None))"

text \<open>A package set out of whose indexes and caches, and the directory indexes, come packages of \<open>A\<close> alone.\<close>

definition pkgs_held :: "psenv \<Rightarrow> pkg set \<Rightarrow> pkgset \<Rightarrow> bool" where
  "pkgs_held P A ps \<longleftrightarrow> (\<forall>d. set (dirindex_get P d) \<subseteq> A) \<and>
     (\<exists>ix. cap_idx ps = Some ix \<and> idx_ok ix \<and> (\<forall>nm. set (idx_pkgs ix nm) \<subseteq> A)) \<and>
     (\<forall>d es. file_idx ps d = Some es \<longrightarrow> fe_pkg ` set es \<subseteq> A) \<and>
     (\<forall>c k ms. req_cache ps = Some c \<longrightarrow> c k = Some (Some ms) \<longrightarrow> set ms \<subseteq> A)"

lemma unreq_table:
  assumes "req_cache ps = Some c" "process_reqs E P R p strict rs arr ps (Some un) n = (arr', ps', un', n')"
    "req_cache ps' = Some c'"
  shows "\<exists>u. un' = Some u \<and> fst ` set u =
    (if \<exists>req \<in> set rs. \<not> capreq_is_rpmlib req \<and> c' (req_key P req) = Some None
     then insert (nvr p) (fst ` set un) else fst ` set un)"
  using assms
proof (induction rs arbitrary: arr ps c un n)
  case (Cons req rs)
  show ?case
  proof (cases "capreq_is_rpmlib req")
    case False
    obtain ms ps1 where q: "resolve_req E P R p strict req ps = (ms, ps1)" by fastforce
    then obtain c1 where c1: "req_cache ps1 = Some c1" "c1 (req_key P req) = Some ms"
      using resolve_req_caches(1) [OF Cons.prems(1), of E P R p strict req] by auto
    obtain arr1 un1 n1 where rest: "process_reqs E P R p strict rs arr1 ps1 (Some un1) n1 = (arr', ps', un', n')"
      "un1 = (if ms = None then add_unreq P un p req False else un)"
      using Cons.prems(2) q False by (cases ms) auto
    have "c1 \<subseteq>\<^sub>m c'" using process_reqs_caches [OF c1(1) rest(1)] Cons.prems(3) by auto
    then have "c' (req_key P req) = Some ms" using c1(2) by (metis domI map_le_def)
    moreover have "fst ` set un1 = (if ms = None then insert (nvr p) (fst ` set un) else fst ` set un)"
      by (simp add: rest(2) add_unreq_def dom_update)
    ultimately show ?thesis using Cons.IH [OF c1(1) rest(1) Cons.prems(3)] False by auto
  qed (use Cons in auto)
qed auto

lemma get_required_unmet_shape:
  assumes "get_required_unmet E P R ps p un = (r, ps', un')" "reqs p = Some rs"
  obtains ps1 c arr un1 n' where "req_cache ps1 = Some c" "\<And>c0. req_cache ps = Some c0 \<Longrightarrow> c = c0"
    "ps1 = pkgset_index_caps E (case req_cache ps of None \<Rightarrow> ps\<lparr>req_cache := Some (\<lambda>_. None)\<rparr> | Some _ \<Rightarrow> ps)"
    "process_reqs E P R p True rs [] ps1 (Some un) 0 = (arr, ps', Some un', n')"
    "r = (if arr = [] then None else Some arr)"
proof -
  let ?ps1 = "pkgset_index_caps E (case req_cache ps of None \<Rightarrow> ps\<lparr>req_cache := Some (\<lambda>_. None)\<rparr> | Some _ \<Rightarrow> ps)"
  obtain c where c: "req_cache ?ps1 = Some c" "\<And>c0. req_cache ps = Some c0 \<Longrightarrow> c = c0"
    by (cases "req_cache ps") auto
  obtain arr ps2 un2 n' where pr: "process_reqs E P R p True rs [] ?ps1 (Some un) 0 = (arr, ps2, un2, n')"
    by (metis prod.exhaust)
  obtain c' where "req_cache ps2 = Some c'" using process_reqs_caches [OF c(1) pr] by blast
  then obtain u where u: "un2 = Some u" using unreq_table [OF c(1) pr] by blast
  have "pkgset_get_required_packages_x E P R ps p (Some un) = (if arr = [] then None else Some arr, ps2, Some u)"
    using assms(2) pr u by (simp only: pkgset_get_required_packages_x_def option.case Let_def prod.case)
  then have "r = (if arr = [] then None else Some arr)" "ps' = ps2" "un' = u"
    using assms(1) by (simp_all add: get_required_unmet_def)
  then show thesis using that [OF c _ _] pr u by blast
qed

lemma known_mono:
  assumes "marks_known P ps p r b" "\<And>c. req_cache ps = Some c \<Longrightarrow> \<exists>c'. req_cache ps' = Some c' \<and> c \<subseteq>\<^sub>m c'"
  shows "marks_known P ps' p r b"
proof (cases "reqs p")
  case (Some rs)
  then obtain c arr where c: "req_cache ps = Some c" "replay P c rs [] = Some arr"
    "r = (if arr = [] then None else Some arr)"
    "b = (\<exists>req \<in> set rs. \<not> capreq_is_rpmlib req \<and> c (req_key P req) = Some None)"
    using assms(1) by (auto simp: marks_known_def)
  obtain c' where c': "req_cache ps' = Some c'" "c \<subseteq>\<^sub>m c'" using assms(2) c(1) by blast
  have dom: "\<forall>req \<in> set rs. \<not> capreq_is_rpmlib req \<longrightarrow> c (req_key P req) \<noteq> None" if "replay P c rs arr0 = Some arr" for arr0
    using that by (induction rs arbitrary: arr0) (auto split: if_splits option.splits)
  have "c' (req_key P req) = c (req_key P req)" if "req \<in> set rs" "\<not> capreq_is_rpmlib req" for req
    using dom [OF c(2)] that c'(2) unfolding map_le_def by (metis domIff)
  then have "b = (\<exists>req \<in> set rs. \<not> capreq_is_rpmlib req \<and> c' (req_key P req) = Some None)" using c(4) by auto
  then show ?thesis using Some c'(1) c(3) replay_mono [OF c(2) c'(2)] by (auto simp: marks_known_def)
qed (use assms(1) in \<open>simp add: marks_known_def\<close>)

lemma get_required_unmet_caches:
  assumes "get_required_unmet E P R ps p un = (r, ps', un')" "req_cache ps = Some c"
  shows "\<exists>c'. req_cache ps' = Some c' \<and> c \<subseteq>\<^sub>m c'"
proof (cases "reqs p")
  case None
  then show ?thesis using assms by (simp add: get_required_unmet_def pkgset_get_required_packages_x_def)
next
  case (Some rs)
  then show ?thesis
    using get_required_unmet_shape [OF assms(1) Some] process_reqs_caches assms(2) by metis
qed

lemma get_required_caches:
  assumes "pkgset_get_required_packages E P R ps p = (r, ps')" "req_cache ps = Some c"
  shows "\<exists>c'. req_cache ps' = Some c' \<and> c \<subseteq>\<^sub>m c'"
proof (cases "rp_cache ps (nvr p)")
  case None
  then show ?thesis using get_required_miss(3) [OF None assms(1) assms(2)] by blast
next
  case (Some arr)
  then show ?thesis using get_required_hit [OF Some] assms by simp
qed

lemma get_required_unmet_known:
  assumes "get_required_unmet E P R ps p un = (r, ps', un')"
  shows "\<exists>b. marks_known P ps' p r b \<and>
    fst ` set un' = (if b then insert (nvr p) (fst ` set un) else fst ` set un)"
proof (cases "reqs p")
  case None
  then have "r = None" "un' = un"
    using assms by (simp_all add: get_required_unmet_def pkgset_get_required_packages_x_def)
  then show ?thesis using None by (intro exI [of _ False]) (simp add: marks_known_def)
next
  case (Some rs)
  obtain ps1 c arr n' where pr: "req_cache ps1 = Some c"
    "process_reqs E P R p True rs [] ps1 (Some un) 0 = (arr, ps', Some un', n')"
    "r = (if arr = [] then None else Some arr)"
    using get_required_unmet_shape [OF assms Some] by metis
  obtain c' where c': "req_cache ps' = Some c'" "replay P c' rs [] = Some arr"
    using process_reqs_caches [OF pr(1,2)] by blast
  then show ?thesis
    using unreq_table [OF pr(1,2) c'(1)] pr(3) Some by (auto simp: marks_known_def)
qed

text \<open>Searching the indexes answers packages of \<open>A\<close> and keeps the set that way.\<close>

lemma held_idx:
  "pkgs_held P A ps \<Longrightarrow> \<exists>ix. cap_idx ps = Some ix \<and> idx_ok ix \<and> (\<forall>nm. set (idx_pkgs ix nm) \<subseteq> A)"
  by (simp add: pkgs_held_def)

lemma look_held:
  assumes h: "pkgs_held P A ps" and l: "look (cap_idx ps) nm = (r, ix)"
  shows "set r \<subseteq> A \<and> pkgs_held P A (ps\<lparr>cap_idx := ix\<rparr>)"
proof -
  obtain i where i: "cap_idx ps = Some i" "idx_ok i" "\<And>nm. set (idx_pkgs i nm) \<subseteq> A"
    using held_idx [OF h] by blast
  obtain o1 i' where q: "capreq_idx_lookup i nm = (o1, i')" by fastforce
  have "o1 = (if idx_pkgs i nm = [] then None else Some (idx_pkgs i nm))" "idx_ok i'" "idx_pkgs i' = idx_pkgs i"
    using idx_lookup [OF i(2), of nm] q by simp_all
  moreover have "r = idx_pkgs i nm \<and> ix = Some i'"
    using l i(1) q calculation(1) by (cases o1) (auto simp: look_def split: if_splits)
  ultimately show ?thesis using h i(3) by (simp add: pkgs_held_def)
qed

lemma held_index_id: "pkgs_held P A ps \<Longrightarrow> pkgset_index_caps E ps = ps"
  by (auto simp: pkgs_held_def pkgset_index_caps_def)

lemma psreq_match_sub:
  "set (snd (psreq_match_pkgs E R p req strict sus)) \<subseteq> set sus"
proof -
  have l: "set (snd (psreq_loop E p req strict sus n acc)) \<subseteq> set acc \<union> set sus" for n acc
  proof (induction sus arbitrary: n acc)
    case (Cons q sus)
    show ?case
      using Cons.IH [of n acc] Cons.IH [of "n + 1" "acc @ [q]"] by (cases p) auto
  qed simp
  have "set (isort (pkg_cmp_name_evr_rev E R) ms) = set ms" for ms :: "pkg list"
    by (rule sorted_arrays.set_nsort [OF sorted_arrays_ref])
  then show ?thesis using l [of 0 "[]"] by (auto simp: psreq_match_pkgs_def Let_def split: prod.splits)
qed

lemma find_match_sub:
  assumes "psreq_sus E P R ps req = (sus, ps1)"
  obtains f q where "pkgset_find_match_packages E P R ps p req strict = ((f, q), ps1)" "set q \<subseteq> set sus"
proof -
  have "\<exists>f1 sus1. psreq_lookup E P R ps req = ((f1, sus1), ps1) \<and> set sus1 \<subseteq> set sus"
    using assms by (simp add: psreq_lookup_def) blast
  then obtain f1 sus1 where l: "psreq_lookup E P R ps req = ((f1, sus1), ps1)" "set sus1 \<subseteq> set sus"
    by blast
  obtain n ms where m: "psreq_match_pkgs E R p req strict sus1 = (n, ms)" by fastforce
  have "pkgset_find_match_packages E P R ps p req strict =
      ((if \<not> f1 \<or> sus1 = [] then (f1, []) else if n > 0 then (True, ms) else (False, [])), ps1)"
    using l(1) m by (simp add: pkgset_find_match_packages_def)
  moreover have "set ms \<subseteq> set sus" using psreq_match_sub [of E R p req strict sus1] m l(2) by simp
  ultimately show thesis using that by (auto split: if_splits)
qed

context ps_env
begin

lemma findfile_held:
  assumes "findfile P fi d b n = (buf, fi')" "\<And>d es. fi d = Some es \<Longrightarrow> fe_pkg ` set es \<subseteq> A"
  shows "set buf \<subseteq> A \<and> (\<forall>d es. fi' d = Some es \<longrightarrow> fe_pkg ` set es \<subseteq> A)"
proof (cases "fi d")
  case None
  then show ?thesis using assms by (simp add: findfile_def)
next
  case (Some es)
  let ?es = "if sorted_cmp fent_cmp es then es else fe_sort P fent_cmp es"
  have s: "set ?es = set es" using sorted_arrays.set_nsort [OF fe_arrays] by simp
  have A: "fe_pkg ` set ?es \<subseteq> A" using assms(2) [OF Some] s by simp
  have "cmp_order (set es) fent_cmp"
    unfolding fent_cmp_def by (rule cmp_order_on [OF cmp_order_strcmp]) simp
  then have "sorted_cmp fent_cmp ?es"
    using sorted_arrays.sort_sorted [OF fe_arrays] by simp
  then have k: "key_sorted (\<lambda>e. fent_cmp2str e b) ?es"
    unfolding fent_cmp_def [abs_def] fent_cmp2str_def by (rule key_sorted_strcmp)
  have ff: "findfile P fi d b n = (if fe_bsearch P (\<lambda>e. fent_cmp2str e b) ?es = - 1 then ([], fi(d \<mapsto> ?es))
      else (take n (map fe_pkg (?es ! nat (fe_bsearch P (\<lambda>e. fent_cmp2str e b) ?es) #
        takeWhile (\<lambda>e. strcmp (basename (flfile e)) b = 0) (drop (nat (fe_bsearch P (\<lambda>e. fent_cmp2str e b) ?es) + 1) ?es))), fi(d \<mapsto> ?es)))"
    using Some by (simp add: findfile_def Let_def)
  have fi': "fi' = fi(d \<mapsto> ?es)" using assms(1) unfolding ff by (metis snd_conv)
  have "set buf \<subseteq> A"
  proof (cases rule: sorted_arrays.search_cases [OF fe_arrays k])
    case 1
    then show ?thesis using assms(1) unfolding ff by simp
  next
    case (2 i)
    let ?blk = "?es ! i # takeWhile (\<lambda>e. strcmp (basename (flfile e)) b = 0) (drop (i + 1) ?es)"
    have "buf = take n (map fe_pkg ?blk)" using assms(1) unfolding ff 2(1) by auto
    moreover have "set ?blk \<subseteq> set ?es" using 2(2) set_takeWhileD [of _ _ "drop (i + 1) ?es"] in_set_dropD [of _ "i + 1" ?es] by force
    then have "fe_pkg ` set ?blk \<subseteq> A" using A by (meson image_mono subset_trans)
    then have "set (map fe_pkg ?blk) \<subseteq> A" by (simp only: set_map)
    ultimately show ?thesis using set_take_subset [of n "map fe_pkg ?blk"] by (metis subset_trans)
  qed
  then show ?thesis using assms(2) A unfolding fi' by auto
qed

lemma file_lookup_held:
  assumes h: "pkgs_held P A ps" and l: "file_index_lookup P (file_idx ps) path n = (buf, fi)"
  shows "set buf \<subseteq> A \<and> pkgs_held P A (ps\<lparr>file_idx := fi\<rparr>)"
proof -
  have f: "\<And>d es. file_idx ps d = Some es \<Longrightarrow> fe_pkg ` set es \<subseteq> A" using h by (simp add: pkgs_held_def)
  have "set buf \<subseteq> A \<and> (\<forall>d es. fi d = Some es \<longrightarrow> fe_pkg ` set es \<subseteq> A)"
  proof (cases "path = [] \<or> hd path \<noteq> CHR ''/''")
    case True
    then have "buf = []" "fi = file_idx ps" using l by (auto simp: file_index_lookup_def)
    then show ?thesis using f by simp
  next
    case False
    then obtain d b where "findfile P (file_idx ps) d b n = (buf, fi)"
      using l by (auto simp: file_index_lookup_def Let_def split: prod.splits)
    then show ?thesis using findfile_held f by blast
  qed
  then show ?thesis using h by (auto simp: pkgs_held_def)
qed

lemma psreq_sus_held:
  assumes h: "pkgs_held P A ps" and s: "psreq_sus E P R ps req = (sus, ps')"
  shows "set sus \<subseteq> A \<and> pkgs_held P A ps'"
proof -
  obtain r ix where l: "look (cap_idx ps) (cr_name req) = (r, ix)" by fastforce
  let ?ps2 = "ps\<lparr>cap_idx := ix\<rparr>"
  have l2: "set r \<subseteq> A" "pkgs_held P A ?ps2" using look_held [OF h l] by auto
  obtain buf fi where f: "file_index_lookup P (file_idx ?ps2) (cr_name req) 1024 = (buf, fi)" by fastforce
  have f2: "set buf \<subseteq> A" "pkgs_held P A (?ps2\<lparr>file_idx := fi\<rparr>)" using file_lookup_held [OF l2(2) f] by auto
  have d: "set (do_search_provdir E P R ps1 dir) \<subseteq> A" for ps1 dir
    using h by (auto simp: do_search_provdir_def pkgs_held_def)
  have "set (take 1024 (do_search_provdir E P R ps1 dir)) \<subseteq> A" for ps1 dir
    using d set_take_subset [of 1024] by (metis subset_trans)
  then show ?thesis
    using s l f l2 f2
    unfolding psreq_sus_def held_index_id [OF h] pkgset_search_provdir_def Let_def
    by (simp split: if_splits) blast+
qed

lemma resolve_held:
  assumes h: "pkgs_held P A ps" and r: "resolve_req E P R p strict req ps = (ms, ps')"
  shows "(\<forall>q. ms = Some q \<longrightarrow> set q \<subseteq> A) \<and> pkgs_held P A ps'"
proof -
  obtain sus ps1 where s: "psreq_sus E P R ps req = (sus, ps1)" by fastforce
  have h1: "set sus \<subseteq> A" "pkgs_held P A ps1" using psreq_sus_held [OF h s] by auto
  obtain f q where m: "pkgset_find_match_packages E P R ps (Some p) req strict = ((f, q), ps1)" "set q \<subseteq> set sus"
    using find_match_sub [OF s] by blast
  have q: "set q \<subseteq> A" using h1(1) m(2) by blast
  let ?c = "case req_cache ps of None \<Rightarrow> (\<lambda>_. None) | Some c \<Rightarrow> c" and ?k = "req_key P req"
  have c: "\<And>k ms. ?c k = Some (Some ms) \<Longrightarrow> set ms \<subseteq> A"
    using h by (auto simp: pkgs_held_def split: option.splits)
  show ?thesis
  proof (cases "?c ?k")
    case None
    then have "ms = (if f then Some q else None)" "ps' = ps1\<lparr>req_cache := Some (?c(?k \<mapsto> ms))\<rparr>"
      using r m by (auto simp: resolve_req_def Let_def)
    moreover have "pkgs_held P A (ps1\<lparr>req_cache := Some (?c(?k \<mapsto> ms))\<rparr>)"
      using h1(2) q c calculation(1) by (auto simp: pkgs_held_def)
    ultimately show ?thesis using q by auto
  next
    case (Some x)
    then have "ms = x" "ps' = ps" using r by (simp_all add: resolve_req_def Let_def)
    then show ?thesis using h c Some by auto
  qed
qed

lemma resolve_all_held:
  "pkgs_held P A ps \<Longrightarrow> resolve_all E P R p strict rs ps = (res, ps') \<Longrightarrow>
     pkgs_held P A ps' \<and> (\<forall>(req, ms) \<in> set res. \<forall>q. ms = Some q \<longrightarrow> set q \<subseteq> A)"
proof (induction rs arbitrary: ps res)
  case (Cons req rs)
  show ?case
  proof (cases "capreq_is_rpmlib req")
    case False
    then obtain ms ps1 rest where r: "resolve_req E P R p strict req ps = (ms, ps1)"
      "resolve_all E P R p strict rs ps1 = (rest, ps')" "res = (req, ms) # rest"
      using Cons.prems(2) by (auto split: prod.splits)
    have "(\<forall>q. ms = Some q \<longrightarrow> set q \<subseteq> A) \<and> pkgs_held P A ps1" by (rule resolve_held [OF Cons.prems(1) r(1)])
    then show ?thesis using Cons.IH [of ps1 rest] r(2,3) by auto
  qed (use Cons in simp)
qed simp

lemma required_x_held:
  assumes h: "pkgs_held P A ps" and x: "pkgset_get_required_packages_x E P R ps p un = (r, ps', un')"
  shows "pkgs_held P A ps' \<and> (\<forall>rp \<in> set (rp_list r). set (rp_pkgs rp) \<subseteq> A)"
proof (cases "reqs p")
  case None
  then show ?thesis using h x by (simp add: pkgset_get_required_packages_x_def rp_list_def)
next
  case (Some rs)
  let ?ps0 = "case req_cache ps of None \<Rightarrow> ps\<lparr>req_cache := Some (\<lambda>_. None)\<rparr> | Some _ \<Rightarrow> ps"
  have h0: "pkgs_held P A ?ps0" using h by (auto simp: pkgs_held_def split: option.split)
  obtain res ps2 where res: "resolve_all E P R p True rs ?ps0 = (res, ps2)" by fastforce
  note h2 = resolve_all_held [OF h0 res]
  obtain arr ps3 un3 n3 where pr: "process_reqs E P R p True rs [] ?ps0 un 0 = (arr, ps3, un3, n3)"
    by (metis prod.exhaust)
  have "(arr, ps3, un3, n3) = (fold_reqs [] res, ps2, fst (snd (snd (arr, ps3, un3, n3))), n3)"
    using process_reqs_resolve [of E P R p True rs "[]" ?ps0 un 0] unfolding res pr by simp
  then have arr: "arr = fold_reqs [] res" "ps3 = ps2" by simp_all
  have "set (rp_pkgs rp) \<subseteq> A" if "rp \<in> set arr" for rp
  proof -
    have "(rp_req rp, rp_pkgs rp) \<in># groups (fold_reqs [] res)" using groups_mem that unfolding arr(1) by blast
    from fold_reqs_sound [OF this] have "(rp_req rp, Some (rp_pkgs rp)) \<in> set res" by (simp add: groups_def)
    then show ?thesis using h2 by fastforce
  qed
  moreover have "r = (if arr = [] then None else Some arr)" "ps' = ps3"
    using x Some pr held_index_id [OF h0, of E] by (simp_all add: pkgset_get_required_packages_x_def Let_def)
  ultimately show ?thesis using h2 arr(2) by (auto simp: rp_list_def)
qed

lemma required_held:
  assumes h: "pkgs_held P A ps" and g: "pkgset_get_required_packages E P R ps p = (r, ps')"
  shows "pkgs_held P A ps'"
proof -
  have c: "pkgs_held P A (ps1\<lparr>reqpkgs_cache := c\<rparr>) = pkgs_held P A ps1" for ps1 c
    by (simp add: pkgs_held_def)
  let ?c = "case reqpkgs_cache ps of None \<Rightarrow> (\<lambda>_. None) | Some c \<Rightarrow> c"
  obtain r1 ps1 un1 where x: "pkgset_get_required_packages_x E P R (ps\<lparr>reqpkgs_cache := Some ?c\<rparr>) p None = (r1, ps1, un1)"
    by (metis prod.exhaust)
  have "pkgs_held P A (ps\<lparr>reqpkgs_cache := Some ?c\<rparr>)" using h c by simp
  then have "pkgs_held P A ps1" using required_x_held x by blast
  moreover have "ps' = ps \<or> ps' = ps1 \<or> (\<exists>c. ps' = ps1\<lparr>reqpkgs_cache := c\<rparr>)"
    using g x by (auto simp: pkgset_get_required_packages_def Let_def split: option.splits)
  ultimately show ?thesis using h c by auto
qed

end

sublocale ps_env \<subseteq> marks: mark_source "get_required_unmet E P R" "pkgset_get_required_packages E P R"
    "marks_known P" "pkgs_held P" for R
proof (unfold_locales, goal_cases)
  case (1 s p un r s' un')
  then show ?case by (rule get_required_unmet_known)
next
  case (2 s p un r s' un' q r' b)
  then show ?case using known_mono get_required_unmet_caches by metis
next
  case (3 s p un r s' un' A)
  obtain r1 ps1 un1 where x: "pkgset_get_required_packages_x E P R s p (Some un) = (r1, ps1, un1)"
    by (metis prod.exhaust)
  then have "r = r1" "s' = ps1" using 3(1) by (simp_all add: get_required_unmet_def)
  then show ?case using required_x_held [OF 3(2) x] by simp
next
  case (4 s p r s' q r' b)
  then show ?case using known_mono get_required_caches by metis
next
  case (5 s p r s' A)
  then show ?case using required_held by blast
qed

text \<open>A set just indexed holds its own packages.\<close>

lemma idx_add_sub:
  assumes "idx_ok ix" "idx_flags ix = CAPREQ_IDX_CAP" "small_addr p"
  shows "idx_ok (capreq_idx_add ix nm p) \<and> idx_flags (capreq_idx_add ix nm p) = CAPREQ_IDX_CAP \<and>
    set (idx_pkgs (capreq_idx_add ix nm p) nm') \<subseteq> insert p (set (idx_pkgs ix nm'))"
proof (cases "skipped ix nm")
  case True
  then show ?thesis using assms by (auto simp: idx_add_skipped)
next
  case False
  have "set (idx_pkgs (capreq_idx_add ix nm p) nm') \<subseteq> insert p (set (idx_pkgs ix nm'))"
  proof (cases "nm' = nm")
    case True
    have "idx_flags ix AND CAPREQ_IDX_CAP \<noteq> 0" using assms(2) by simp
    from idx_add(3) [OF assms(1,3) False this] True show ?thesis by (auto split: if_splits)
  qed (use idx_add_other in auto)
  then show ?thesis using idx_add(1) [OF assms(1,3) False] assms(2) by (simp add: idx_flags_add)
qed

lemma pkgfl2fidx_sub:
  assumes "p \<in> A" "\<And>d es. fi d = Some es \<Longrightarrow> fe_pkg ` set es \<subseteq> A"
  shows "pkgfl2fidx p fi d = Some es \<Longrightarrow> fe_pkg ` set es \<subseteq> A"
proof -
  let ?ok = "\<lambda>fi. \<forall>d es. fi d = Some es \<longrightarrow> fe_pkg ` set es \<subseteq> A"
  have f: "?ok (foldl (\<lambda>fi f. file_index_add_basename fi d f p) fi fs)" if "?ok fi" for fi d and fs :: "flfile list"
    using that
  proof (induction fs arbitrary: fi)
    case (Cons f fs)
    have "?ok (file_index_add_basename fi d f p)"
      using Cons.prems assms(1) by (cases "fi d") (auto simp: file_index_add_basename_def)
    then show ?case using Cons.IH by simp
  qed simp
  have a: "?ok (file_index_add_dirname fi d)" if "?ok fi" for fi d
    using that by (auto simp: file_index_add_dirname_def split: option.splits)
  have "?ok (foldl (\<lambda>fi (dirname, files).
      foldl (\<lambda>fi f. file_index_add_basename fi dirname f p) (file_index_add_dirname fi dirname) files) fi fl)"
    if "?ok fi" for fi and fl :: "(string \<times> flfile list) list"
    using that
  proof (induction fl arbitrary: fi)
    case (Cons df fl)
    obtain d fs where df: "df = (d, fs)" by fastforce
    show ?case unfolding df foldl_Cons prod.case by (rule Cons.IH [OF f [OF a [OF Cons.prems]]])
  qed simp
  note fl = this
  have "?ok (pkgfl2fidx p fi)"
  proof (cases "pfl p")
    case None
    then show ?thesis using assms(2) by (simp add: pkgfl2fidx_def)
  next
    case (Some l)
    have "?ok fi" using assms(2) by blast
    from fl [OF this, of l] Some show ?thesis by (simp only: pkgfl2fidx_def option.case)
  qed
  then show "pkgfl2fidx p fi d = Some es \<Longrightarrow> fe_pkg ` set es \<subseteq> A" by blast
qed

lemma index_package_held:
  assumes "pkgs_held P A ps" "cap_idx ps = Some ix" "idx_flags ix = CAPREQ_IDX_CAP" "small_addr p" "p \<in> A"
  shows "pkgs_held P A (index_package_caps p ps) \<and>
    (\<exists>ix'. cap_idx (index_package_caps p ps) = Some ix' \<and> idx_flags ix' = CAPREQ_IDX_CAP)"
proof -
  have i: "idx_ok ix" "\<And>nm. set (idx_pkgs ix nm) \<subseteq> A" using held_idx [OF assms(1)] assms(2) by auto
  have "idx_ok (foldl (\<lambda>ix c. capreq_idx_add ix (cr_name c) p) ix cs) \<and>
      idx_flags (foldl (\<lambda>ix c. capreq_idx_add ix (cr_name c) p) ix cs) = CAPREQ_IDX_CAP \<and>
      (\<forall>nm. set (idx_pkgs (foldl (\<lambda>ix c. capreq_idx_add ix (cr_name c) p) ix cs) nm) \<subseteq> A)" for cs :: "capreq list"
    using i assms(3)
  proof (induction cs arbitrary: ix)
    case (Cons c cs)
    let ?ix = "capreq_idx_add ix (cr_name c) p"
    have "set (idx_pkgs ?ix nm) \<subseteq> A" for nm
      using idx_add_sub [OF Cons.prems(1,3) assms(4), of "cr_name c" nm] Cons.prems(2) [of nm] assms(5) by blast
    then show ?case using Cons.IH [of ?ix] idx_add_sub [OF Cons.prems(1,3) assms(4)] by simp
  qed simp
  note c = this [of "case caps p of None \<Rightarrow> [] | Some cs \<Rightarrow> cs"]
  have "\<And>d es. file_idx ps d = Some es \<Longrightarrow> fe_pkg ` set es \<subseteq> A" using assms(1) by (simp add: pkgs_held_def)
  note pkgfl2fidx_sub [OF assms(5) this]
  then show ?thesis using assms(1,2) c by (simp add: pkgs_held_def index_package_caps_def)
qed

lemma index_caps_held:
  assumes "cap_idx ps = None" "req_cache ps = None" "\<forall>p \<in> set (ps_pkgs ps). small_addr p"
    and "\<forall>d. set (dirindex_get P d) \<subseteq> set (ps_pkgs (pkgset_index_caps E ps))"
  shows "pkgs_held P (set (ps_pkgs (pkgset_index_caps E ps))) (pkgset_index_caps E ps)"
proof -
  let ?pkgs = "map (\<lambda>p. sort_pkg_caps E (pkg_add_selfcap E p)) (ps_pkgs ps)"
  let ?ps = "ps\<lparr>ps_pkgs := ?pkgs, cap_idx := Some (capreq_idx_init CAPREQ_IDX_CAP), file_idx := file_index_new\<rparr>"
  have eq: "pkgset_index_caps E ps = foldl (\<lambda>ps p. index_package_caps p ps) ?ps ?pkgs"
    using assms(1) by (simp add: pkgset_index_caps_def Let_def)
  have A: "set (ps_pkgs (pkgset_index_caps E ps)) = set ?pkgs" unfolding eq by simp
  have step: "pkgs_held P (set ?pkgs) (foldl (\<lambda>ps p. index_package_caps p ps) ps1 pkgs)"
    if "pkgs_held P (set ?pkgs) ps1" "cap_idx ps1 = Some ix" "idx_flags ix = CAPREQ_IDX_CAP"
      "\<forall>p \<in> set pkgs. small_addr p \<and> p \<in> set ?pkgs" for ps1 ix pkgs
    using that
  proof (induction pkgs arbitrary: ps1 ix)
    case (Cons p pkgs)
    then show ?case using index_package_held [OF Cons.prems(1-3), of p] by auto
  qed simp
  have "pkgs_held P (set ?pkgs) ?ps"
    using assms(2,4) A idx_ok_init by (simp add: pkgs_held_def file_index_new_def)
  moreover have "\<forall>p \<in> set ?pkgs. small_addr p \<and> p \<in> set ?pkgs" using assms(3) by (auto simp: small_addr_def)
  ultimately show ?thesis
    using step [of ?ps "capreq_idx_init CAPREQ_IDX_CAP" ?pkgs] A unfolding eq by (simp add: capreq_idx_init_def)
qed

text \<open>What is known is answered again.\<close>

lemma known_again:
  assumes "marks_known P ps p r b"
  shows "fst (pkgset_get_required_packages_x E P R ps p un) = r"
    and "reqs p = Some rs \<Longrightarrow> b = (\<exists>req \<in> set rs. \<not> capreq_is_rpmlib req \<and> fst (resolve_req E P R p True req ps) = None)"
proof -
  show "fst (pkgset_get_required_packages_x E P R ps p un) = r"
  proof (cases "reqs p")
    case None
    then show ?thesis using assms by (simp add: marks_known_def pkgset_get_required_packages_x_def)
  next
    case (Some rs)
    then obtain c arr where c: "req_cache ps = Some c" "replay P c rs [] = Some arr"
      "r = (if arr = [] then None else Some arr)"
      using assms by (auto simp: marks_known_def)
    have "req_cache (pkgset_index_caps E ps) = Some c" using c(1) by simp
    from process_reqs_replay [OF this c(2), of E R p True un 0] show ?thesis
      using Some c by (auto simp: pkgset_get_required_packages_x_def Let_def)
  qed
  assume rs: "reqs p = Some rs"
  then obtain c arr where c: "req_cache ps = Some c" "replay P c rs [] = Some arr"
    "b = (\<exists>req \<in> set rs. \<not> capreq_is_rpmlib req \<and> c (req_key P req) = Some None)"
    using assms by (auto simp: marks_known_def)
  have "\<forall>req \<in> set rs. \<not> capreq_is_rpmlib req \<longrightarrow> c (req_key P req) \<noteq> None" if "replay P c rs arr0 = Some arr" for arr0
    using that by (induction rs arbitrary: arr0) (auto split: if_splits option.splits)
  then have "fst (resolve_req E P R p True req ps) = the (c (req_key P req)) \<and> c (req_key P req) \<noteq> None"
    if "req \<in> set rs" "\<not> capreq_is_rpmlib req" for req
    using that c(1,2) by (fastforce simp: resolve_req_def Let_def)
  then show "b = (\<exists>req \<in> set rs. \<not> capreq_is_rpmlib req \<and> fst (resolve_req E P R p True req ps) = None)"
    using c(3) by (metis option.collapse option.sel)
qed

section \<open>Properties\<close>

text \<open>The entries a package set answers for a package, without the cache of whole answers.\<close>

abbreviation groups_of :: "penv \<Rightarrow> psenv \<Rightarrow> arch_registry \<Rightarrow> pkgset \<Rightarrow> pkg \<Rightarrow> reqpkg list" where
  "groups_of E P R ps p \<equiv> rp_list (fst (pkgset_get_required_packages_x E P R ps p None))"

text \<open>The packages in the table of marks.\<close>

definition marked_pkgs :: "pmark_set \<Rightarrow> pkg set" where
  "marked_pkgs pms = mk_pkg ` ran (map_of (pms_ht pms))"

context ps_env
begin

lemma packages_mark_ok:
  assumes held: "pkgs_held P A ps" and fin: "finite A"
    and set: "psaddr \<noteq> None" "a = None \<or> a = psaddr" and n: "card (package_id (pkgmark_set_new a fl) ` A) < n"
  obtains ok pms' ps' where
    "packages_mark E P R n (pkgmark_set_new a fl) pkgs psaddr ps True = Some (ok, pms', ps')"
    "\<And>q. q \<in> set pkgs \<union> marked_pkgs pms' \<Longrightarrow> \<exists>r b. marks_known P ps' q r b \<and>
      (\<forall>rp \<in> set (rp_list r). group_met pms' rp) \<and> (ok \<longrightarrow> \<not> b)"
    "\<And>q. q \<in> set pkgs \<Longrightarrow> pkg_is_marked pms' q"
    "\<And>mk. mk \<in> ran (map_of (pms_ht pms')) \<Longrightarrow> mk_flags mk = PKGMARK_MARK \<and> mk_pkg mk \<in> set pkgs \<or>
      mk_flags mk = PKGMARK_DEP \<and> (\<exists>q r b. pkg_is_marked pms' q \<and> marks_known P ps' q r b \<and>
        (\<exists>rp \<in> set (rp_list r). mk_pkg mk \<in> set (rp_pkgs rp)))"
    "\<not> ok \<Longrightarrow> \<exists>q r. pkg_is_marked pms' q \<and> marks_known P ps' q r True"
proof -
  let ?pms = "(pkgmark_set_new a fl)\<lparr>pms_ps := psaddr\<rparr>"
  have p: "pms_ht ?pms = []" "unreqh ?pms = []" "pms_ps ?pms \<noteq> None"
    using set(1) by (simp_all add: pkgmark_set_new_def)
  have n': "card (package_id ?pms ` A) < n" using n by simp
  show thesis
  proof (rule marks.depmark_ok [OF fin held p n', of R pkgs])
  fix ok pms' ps'
  assume d: "depmark_packages (get_required_unmet E P R) (pkgset_get_required_packages E P R) n
      ?pms ps pkgs True = Some (ok, pms', ps')"
    "package_id pms' = package_id ?pms" "ok \<longleftrightarrow> unreqh pms' = []"
    "\<And>p. p \<in> set pkgs \<Longrightarrow> pkg_is_marked pms' p \<and> marks.satisfied (pms', ps') p"
    "\<And>k mk. map_of (pms_ht pms') k = Some mk \<Longrightarrow> k = package_id ?pms (mk_pkg mk) \<and> marks.satisfied (pms', ps') (mk_pkg mk) \<and>
      (mk_flags mk = PKGMARK_MARK \<and> mk_pkg mk \<in> set pkgs \<or> mk_flags mk = PKGMARK_DEP \<and> marks.wanted (pms', ps') (mk_pkg mk))"
    "\<And>k. k \<in> fst ` set (unreqh pms') \<Longrightarrow> marks.reported (pms', ps') k"
  have "packages_mark E P R n (pkgmark_set_new a fl) pkgs psaddr ps True = Some (ok, pms', ps')"
    using d(1) set by (auto simp: packages_mark_def n_assert_def pkgmark_set_new_def)
  moreover have "\<exists>r b. marks_known P ps' q r b \<and> (\<forall>rp \<in> set (rp_list r). group_met pms' rp) \<and> (ok \<longrightarrow> \<not> b)"
    if "q \<in> set pkgs \<union> marked_pkgs pms'" for q
  proof -
    have "marks.satisfied (pms', ps') q" using that d(4,5) by (auto simp: marked_pkgs_def ran_def)
    then show ?thesis using d(3) by (fastforce simp: marks.satisfied_def)
  qed
  moreover have "mk_flags mk = PKGMARK_MARK \<and> mk_pkg mk \<in> set pkgs \<or>
      mk_flags mk = PKGMARK_DEP \<and> (\<exists>q r b. pkg_is_marked pms' q \<and> marks_known P ps' q r b \<and>
        (\<exists>rp \<in> set (rp_list r). mk_pkg mk \<in> set (rp_pkgs rp)))" if mk: "mk \<in> ran (map_of (pms_ht pms'))" for mk
  proof -
    obtain k where "map_of (pms_ht pms') k = Some mk" using mk by (auto simp: ran_def)
    from d(5) [OF this] show ?thesis unfolding marks.wanted_def fst_conv snd_conv by blast
  qed
  moreover have "\<exists>q r. pkg_is_marked pms' q \<and> marks_known P ps' q r True" if bad: "\<not> ok"
  proof -
    obtain k where "k \<in> fst ` set (unreqh pms')" using d(3) bad by (cases "unreqh pms'") auto
    from d(6) [OF this] show ?thesis unfolding marks.reported_def fst_conv snd_conv by blast
  qed
  ultimately show thesis using that d(4) by blast
  qed
qed

end

text \<open>C17: marking a selection of packages with what it requires always ends, and closes the
  selection: every group of alternatives a marked package requires has a marked member. What it
  marks beyond the selection is a candidate in a group of a marked package.\<close>

theorem packages_mark_closed:
  assumes "ps_env E P" and "pkgs_held P A ps" and "finite A" and "psaddr \<noteq> None" and "a = None \<or> a = psaddr"
    and "card (package_id (pkgmark_set_new a fl) ` A) < n"
  shows "\<exists>ok pms' ps'. packages_mark E P R n (pkgmark_set_new a fl) pkgs psaddr ps True = Some (ok, pms', ps') \<and>
    (\<forall>q \<in> set pkgs. pkg_is_marked pms' q) \<and>
    (\<forall>q \<in> set pkgs \<union> marked_pkgs pms'. \<forall>rp \<in> set (groups_of E P R ps' q). group_met pms' rp) \<and>
    (\<forall>mk \<in> ran (map_of (pms_ht pms')). mk_pkg mk \<in> set pkgs \<or>
      (\<exists>q. pkg_is_marked pms' q \<and> (\<exists>rp \<in> set (groups_of E P R ps' q). mk_pkg mk \<in> set (rp_pkgs rp))))"
proof (rule ps_env.packages_mark_ok [OF assms, of R pkgs])
  fix ok pms' ps'
  assume m: "packages_mark E P R n (pkgmark_set_new a fl) pkgs psaddr ps True = Some (ok, pms', ps')"
    and closed: "\<And>q. q \<in> set pkgs \<union> marked_pkgs pms' \<Longrightarrow> \<exists>r b. marks_known P ps' q r b \<and>
      (\<forall>rp \<in> set (rp_list r). group_met pms' rp) \<and> (ok \<longrightarrow> \<not> b)"
    and sel: "\<And>q. q \<in> set pkgs \<Longrightarrow> pkg_is_marked pms' q"
    and why: "\<And>mk. mk \<in> ran (map_of (pms_ht pms')) \<Longrightarrow> mk_flags mk = PKGMARK_MARK \<and> mk_pkg mk \<in> set pkgs \<or>
      mk_flags mk = PKGMARK_DEP \<and> (\<exists>q r b. pkg_is_marked pms' q \<and> marks_known P ps' q r b \<and>
        (\<exists>rp \<in> set (rp_list r). mk_pkg mk \<in> set (rp_pkgs rp)))"
  have again: "groups_of E P R ps' q = rp_list r" if "marks_known P ps' q r b" for q r b
    using known_again(1) [OF that] by simp
  have "\<forall>q \<in> set pkgs \<union> marked_pkgs pms'. \<forall>rp \<in> set (groups_of E P R ps' q). group_met pms' rp"
    using closed again by metis
  moreover have "mk_pkg mk \<in> set pkgs \<or>
      (\<exists>q. pkg_is_marked pms' q \<and> (\<exists>rp \<in> set (groups_of E P R ps' q). mk_pkg mk \<in> set (rp_pkgs rp)))"
    if "mk \<in> ran (map_of (pms_ht pms'))" for mk
    using why [OF that] again by metis
  ultimately show ?thesis using m sel by blast
qed

lemma ref_set_held:
  "\<forall>p \<in> set pkgs. small_addr p \<Longrightarrow> pkgs_held ref_psenv (set (ps_pkgs (ref_set pkgs))) (ref_set pkgs)"
  unfolding ref_set_def by (rule index_caps_held) (simp_all add: pkgset_new_def ref_psenv_def)

lemma ref_set_card: "length (ps_pkgs (ref_set pkgs)) < n \<Longrightarrow> card (f ` set (ps_pkgs (ref_set pkgs))) < n"
  by (metis card_image_le card_length finite_set le_less_trans)

theorem packages_mark_closed_witness:
  defines "a \<equiv> ref_pkg 3 ''a'' [] [ref_cap ''v'']" and "b \<equiv> ref_pkg 4 ''b'' [ref_cap ''v''] []"
  shows "\<exists>pms' ps'. packages_mark ref_env ref_psenv arch_registry_init 3 (pkgmark_set_new None 0) [a] (Some 1)
      (ref_set [a, b]) True = Some (True, pms', ps') \<and>
    groups_of ref_env ref_psenv arch_registry_init ps' a \<noteq> [] \<and>
    (\<forall>rp \<in> set (groups_of ref_env ref_psenv arch_registry_init ps' a). group_met pms' rp)"
proof -
  let ?ps = "ref_set [a, b]"
  let ?m = "packages_mark ref_env ref_psenv arch_registry_init 3 (pkgmark_set_new None 0) [a] (Some 1) ?ps True"
  have h: "pkgs_held ref_psenv (set (ps_pkgs ?ps)) ?ps"
    by (rule ref_set_held) (simp add: a_def b_def small_addr_def)
  have "length (ps_pkgs ?ps) < 3" unfolding a_def b_def by code_simp
  then have c: "card (package_id (pkgmark_set_new None 0) ` set (ps_pkgs ?ps)) < 3" by (rule ref_set_card)
  have e: "case ?m of None \<Rightarrow> False | Some (ok, pms', ps') \<Rightarrow> ok \<and>
      (case groups_of ref_env ref_psenv arch_registry_init ps' a of [] \<Rightarrow> False | _ \<Rightarrow> True)"
    unfolding a_def b_def by code_simp
  from packages_mark_closed [OF ref_ps.ps_env_axioms h _ _ _ c, of "Some 1" arch_registry_init "[a]"]
  obtain ok pms' ps' where m: "?m = Some (ok, pms', ps')"
    "\<forall>rp \<in> set (groups_of ref_env ref_psenv arch_registry_init ps' a). group_met pms' rp" by auto
  then show ?thesis using e by (auto split: list.splits)
qed

text \<open>C18: marking succeeds only when everything the marked packages require is there, and it
  fails only when some requirement of a marked package resolves to nothing.\<close>

theorem packages_mark_reports:
  assumes "ps_env E P" and "pkgs_held P A ps" and "finite A" and "psaddr \<noteq> None" and "a = None \<or> a = psaddr"
    and "card (package_id (pkgmark_set_new a fl) ` A) < n"
    and "packages_mark E P R n (pkgmark_set_new a fl) pkgs psaddr ps True = Some (ok, pms', ps')"
  defines "unmet \<equiv> \<lambda>q. \<exists>rs. reqs q = Some rs \<and>
    (\<exists>req \<in> set rs. \<not> capreq_is_rpmlib req \<and> fst (resolve_req E P R q True req ps') = None)"
  shows "(ok \<longrightarrow> (\<forall>q \<in> set pkgs \<union> marked_pkgs pms'. \<not> unmet q)) \<and>
    (\<not> ok \<longrightarrow> (\<exists>q. pkg_is_marked pms' q \<and> unmet q))"
proof (rule ps_env.packages_mark_ok [OF assms(1-6), of R pkgs])
  fix ok1 pms1 ps1
  assume m: "packages_mark E P R n (pkgmark_set_new a fl) pkgs psaddr ps True = Some (ok1, pms1, ps1)"
    and closed: "\<And>q. q \<in> set pkgs \<union> marked_pkgs pms1 \<Longrightarrow> \<exists>r b. marks_known P ps1 q r b \<and>
      (\<forall>rp \<in> set (rp_list r). group_met pms1 rp) \<and> (ok1 \<longrightarrow> \<not> b)"
    and bad: "\<not> ok1 \<Longrightarrow> \<exists>q r. pkg_is_marked pms1 q \<and> marks_known P ps1 q r True"
  have eq: "ok1 = ok" "pms1 = pms'" "ps1 = ps'" using m assms(7) by simp_all
  have un: "unmet q = b" if "marks_known P ps' q r b" for q r b
    using known_again(2) [OF that] that by (cases "reqs q") (auto simp: unmet_def marks_known_def)
  show ?thesis using closed bad un unfolding eq by metis
qed

theorem packages_mark_reports_witness:
  defines "a \<equiv> ref_pkg 3 ''a'' [] [ref_cap ''w'']"
  shows "\<exists>pms' ps' q. packages_mark ref_env ref_psenv arch_registry_init 3 (pkgmark_set_new None 0) [a] (Some 1)
      (ref_set [a]) True = Some (False, pms', ps') \<and> pkg_is_marked pms' q \<and> (\<exists>rs. reqs q = Some rs \<and>
        (\<exists>req \<in> set rs. fst (resolve_req ref_env ref_psenv arch_registry_init q True req ps') = None))"
proof -
  let ?ps = "ref_set [a]"
  let ?m = "packages_mark ref_env ref_psenv arch_registry_init 3 (pkgmark_set_new None 0) [a] (Some 1) ?ps True"
  have h: "pkgs_held ref_psenv (set (ps_pkgs ?ps)) ?ps"
    by (rule ref_set_held) (simp add: a_def small_addr_def)
  have "length (ps_pkgs ?ps) < 3" unfolding a_def by code_simp
  then have c: "card (package_id (pkgmark_set_new None 0) ` set (ps_pkgs ?ps)) < 3" by (rule ref_set_card)
  have "case ?m of None \<Rightarrow> False | Some (ok, pms', ps') \<Rightarrow> \<not> ok" unfolding a_def by code_simp
  then obtain pms' ps' where m: "?m = Some (False, pms', ps')" by (auto split: option.splits prod.splits)
  have "\<exists>q. pkg_is_marked pms' q \<and> (\<exists>rs. reqs q = Some rs \<and> (\<exists>req \<in> set rs. \<not> capreq_is_rpmlib req \<and>
      fst (resolve_req ref_env ref_psenv arch_registry_init q True req ps') = None))"
    using packages_mark_reports [OF ref_ps.ps_env_axioms h _ _ _ c m] by simp
  then show ?thesis using m by blast
qed

end
