(* ===== verification/Pkgdb.thy ===== *)
theory Pkgdb
  imports Pkgfl Pkgmark
begin

text \<open>
  The database of installed packages: pkgdb.c over a module of the package manager (pm/mod.h),
  librpm or a package set. The functions return the database as it is after them and the arrays a
  search has sorted on the way.
\<close>

section \<open>Modules\<close>

datatype pkgdb_it_tag =
  PMTAG_RECNO | PMTAG_NAME | PMTAG_CAP | PMTAG_REQ | PMTAG_CNFL | PMTAG_OBSL | PMTAG_FILE | PMTAG_DIRNAME

datatype capreq_type = PMCAP_CAP | PMCAP_REQ | PMCAP_CNFL | PMCAP_OBSL

record 'h pm_dbrec =
  db_recno :: u32
  db_hdr :: 'h

text \<open>
  What the code uses of a module with state \<open>'s\<close> and headers \<open>'h\<close>: opening and transactions, the
  records an iterator yields, in order, and the readers of headers. \<open>have_rpm_4_1\<close> is a switch of
  the build.
\<close>

record ('s, 'h) pm_module =
  pm_dbopen :: "'s option \<Rightarrow> u32 \<Rightarrow> 's option"
  pm_dbclose :: "'s \<Rightarrow> 's"
  pm_dbtxbegin :: "'s \<Rightarrow> 's"
  pm_dbtxcommit :: "'s \<Rightarrow> 's"
  pm_it_init :: "'s \<Rightarrow> pkgdb_it_tag \<Rightarrow> string \<Rightarrow> 'h pm_dbrec list \<times> 's"
  hdr_nevr :: "'h \<Rightarrow> (string \<times> u32 \<times> string \<times> string) option"
  hdr_ld :: "'h \<Rightarrow> u32 \<Rightarrow> pkg option"
  hdr_ld_capreqs :: "'h \<Rightarrow> capreq_type \<Rightarrow> capreq list option"
  have_rpm_4_1 :: bool

record ('s, 'h) pkgdb =
  dbh :: 's
  db_filter :: "('h pm_dbrec \<Rightarrow> bool) option"

section \<open>Opening and transactions\<close>

text \<open>A handle: \<open>h_dbh\<close> is null before the first opening.\<close>

record 's dbhandle =
  h_dbh :: "'s option"
  h_mode :: u32
  h_opened :: bool
  h_txcnt :: u16

definition pkgdb_reopen :: "('s, 'h) pm_module \<Rightarrow> 's dbhandle \<Rightarrow> u32 \<Rightarrow> bool \<times> 's dbhandle" where
  "pkgdb_reopen M db mode =
     (if h_opened db then (True, db)
      else case pm_dbopen M (h_dbh db) mode of
             None \<Rightarrow> (False, db\<lparr>h_dbh := None\<rparr>)
           | Some s \<Rightarrow> (True, db\<lparr>h_dbh := Some s, h_opened := True, h_mode := mode\<rparr>))"

definition pkgdb_close :: "('s, 'h) pm_module \<Rightarrow> 's dbhandle \<Rightarrow> 's dbhandle" where
  "pkgdb_close M db =
     (if h_opened db then db\<lparr>h_dbh := map_option (pm_dbclose M) (h_dbh db), h_opened := False\<rparr> else db)"

text \<open>Transactions nest: only the outermost begins and commits.\<close>

definition pkgdb_tx_begin :: "('s, 'h) pm_module \<Rightarrow> 's dbhandle \<Rightarrow> u16 \<times> 's dbhandle" where
  "pkgdb_tx_begin M db =
     (let db1 = (if h_txcnt db = 0 then db\<lparr>h_dbh := map_option (pm_dbtxbegin M) (h_dbh db)\<rparr> else db);
          db2 = db1\<lparr>h_txcnt := h_txcnt db1 + 1\<rparr>
      in (h_txcnt db2, db2))"

definition pkgdb_tx_commit :: "('s, 'h) pm_module \<Rightarrow> 's dbhandle \<Rightarrow> u16 \<times> 's dbhandle" where
  "pkgdb_tx_commit M db =
     (let db1 = (if h_txcnt db > 0 then db\<lparr>h_txcnt := h_txcnt db - 1\<rparr> else db);
          db2 = (if h_txcnt db1 = 0 then db1\<lparr>h_dbh := map_option (pm_dbtxcommit M) (h_dbh db1)\<rparr> else db1)
      in (h_txcnt db2, db2))"

section \<open>Iterators and records\<close>

text \<open>All records an iterator yields, less those the filter of the database drops.\<close>

definition pkgdb_it ::
  "('s, 'h) pm_module \<Rightarrow> ('s, 'h) pkgdb \<Rightarrow> pkgdb_it_tag \<Rightarrow> string \<Rightarrow> 'h pm_dbrec list \<times> ('s, 'h) pkgdb" where
  "pkgdb_it M db tag v =
     (let (recs, s) = pm_it_init M (dbh db) tag v
      in (case db_filter db of None \<Rightarrow> recs | Some f \<Rightarrow> filter f recs, db\<lparr>dbh := s\<rparr>))"

text \<open>A package on the stack of which only name and version are set.\<close>

definition nevr_pkg :: "string \<Rightarrow> u32 \<Rightarrow> string \<Rightarrow> string \<Rightarrow> pkg" where
  "nevr_pkg nm e v r = \<lparr>addr = 0, has_na = False, flags = 0, isize = 0, fsize = 0, btime = 0, color = 0,
     name = nm, epoch = e, ver = v, rel = r, fn = None, srcfn = None, nvr = [], arch_ix = 0, os_ix = 0,
     caps = None, reqs = None, cnfls = None, pkgdir = 0, pkgdir_pri = 0, pri = 0, recno = 0, seqno = 0,
     pfl = None\<rparr>"

definition pkg_hdr_cmp_evr :: "penv \<Rightarrow> ('s, 'h) pm_module \<Rightarrow> 'h \<Rightarrow> pkg \<Rightarrow> int option" where
  "pkg_hdr_cmp_evr E M h p =
     (case hdr_nevr M h of None \<Rightarrow> None | Some (nm, e, v, r) \<Rightarrow> Some (pkg_cmp_evr E p (nevr_pkg nm e v r)))"

text \<open>The first record of the package's version; with the comparison made last.\<close>

fun search_package_loop ::
  "penv \<Rightarrow> ('s, 'h) pm_module \<Rightarrow> pkg \<Rightarrow> int \<Rightarrow> 'h pm_dbrec list \<Rightarrow> 'h pm_dbrec option \<times> int" where
  "search_package_loop E M p cmprc [] = (None, cmprc)"
| "search_package_loop E M p cmprc (r # rs) =
     (case pkg_hdr_cmp_evr E M (db_hdr r) p of
        None \<Rightarrow> search_package_loop E M p cmprc rs
      | Some c \<Rightarrow> if c = 0 then (Some r, c) else search_package_loop E M p c rs)"

definition do_search_package ::
  "penv \<Rightarrow> ('s, 'h) pm_module \<Rightarrow> ('s, 'h) pkgdb \<Rightarrow> pkg \<Rightarrow> ('h pm_dbrec option \<times> int) \<times> ('s, 'h) pkgdb" where
  "do_search_package E M db p =
     (let (recs, db') = pkgdb_it M db PMTAG_NAME (name p) in (search_package_loop E M p 0 recs, db'))"

definition pkgdb_is_pkg_installed ::
  "penv \<Rightarrow> ('s, 'h) pm_module \<Rightarrow> ('s, 'h) pkgdb \<Rightarrow> pkg \<Rightarrow> (bool \<times> int) \<times> ('s, 'h) pkgdb" where
  "pkgdb_is_pkg_installed E M db p =
     (let ((r, cmprc), db') = do_search_package E M db p in ((r \<noteq> None, cmprc), db'))"

abbreviation PKG_DBPKG :: u32 where "PKG_DBPKG \<equiv> 65536"
abbreviation PKG_LDCAPS :: u32 where "PKG_LDCAPS \<equiv> 1"
abbreviation PKG_LDREQS :: u32 where "PKG_LDREQS \<equiv> 2"
abbreviation PKG_LDFL_DEPDIRS :: u32 where "PKG_LDFL_DEPDIRS \<equiv> 8"
abbreviation PKG_LDFL_WHOLE :: u32 where "PKG_LDFL_WHOLE \<equiv> 16"

definition load_pkg :: "penv \<Rightarrow> ('s, 'h) pm_module \<Rightarrow> 'h pm_dbrec \<Rightarrow> u32 \<Rightarrow> pkg option" where
  "load_pkg E M r ldflags =
     map_option (\<lambda>p. let p' = pkg_add_selfcap E (p\<lparr>recno := db_recno r\<rparr>) in p'\<lparr>flags := flags p' OR PKG_DBPKG\<rparr>)
       (hdr_ld M (db_hdr r) ldflags)"

text \<open>The binary search in an array of packages by record number, which sorts it first.\<close>

definition dbpkg_array_has :: "psenv \<Rightarrow> pkg list \<Rightarrow> u32 \<Rightarrow> bool \<times> pkg list" where
  "dbpkg_array_has P pkgs r =
     (let pkgs' = (if sorted_cmp pkg_cmp_recno pkgs then pkgs else pk_sort P pkg_cmp_recno pkgs)
      in (pk_bsearch P (\<lambda>q. i32_diff (recno q) r) pkgs' \<noteq> - 1, pkgs'))"

definition excl_has :: "psenv \<Rightarrow> pkg list option \<Rightarrow> u32 \<Rightarrow> bool \<times> pkg list option" where
  "excl_has P ex r =
     (case ex of None \<Rightarrow> (False, None) | Some pkgs \<Rightarrow> let (b, pkgs') = dbpkg_array_has P pkgs r in (b, Some pkgs'))"

section \<open>Searching\<close>

text \<open>
  \<open>dbpkgs\<close> is a null pointer or points to an array that may be null; without it the records are
  only counted.
\<close>

fun search_loop ::
  "penv \<Rightarrow> psenv \<Rightarrow> ('s, 'h) pm_module \<Rightarrow> u32 \<Rightarrow> pkg list option option \<Rightarrow> pkg list option \<Rightarrow> nat \<Rightarrow>
   'h pm_dbrec list \<Rightarrow> nat \<times> pkg list option option \<times> pkg list option" where
  "search_loop E P M ldflags dbpkgs ex nfound [] = (nfound, dbpkgs, ex)"
| "search_loop E P M ldflags dbpkgs ex nfound (r # rs) =
     (let (skip, ex') = excl_has P ex (db_recno r) in
      if skip then search_loop E P M ldflags dbpkgs ex' nfound rs
      else case dbpkgs of
             None \<Rightarrow> search_loop E P M ldflags None ex' (nfound + 1) rs
           | Some d \<Rightarrow>
               let (has, d') = dbpkg_array_has P (case d of None \<Rightarrow> [] | Some a \<Rightarrow> a) (db_recno r) in
               if has then search_loop E P M ldflags (Some (Some d')) ex' nfound rs
               else case load_pkg E M r ldflags of
                      None \<Rightarrow> search_loop E P M ldflags (Some (Some d')) ex' nfound rs
                    | Some p \<Rightarrow> search_loop E P M ldflags (Some (Some (d' @ [p]))) ex' (nfound + 1) rs)"

definition pkgdb_search ::
  "penv \<Rightarrow> psenv \<Rightarrow> ('s, 'h) pm_module \<Rightarrow> ('s, 'h) pkgdb \<Rightarrow> pkg list option option \<Rightarrow> pkgdb_it_tag \<Rightarrow> string \<Rightarrow>
   pkg list option \<Rightarrow> u32 \<Rightarrow> (nat \<times> pkg list option option \<times> pkg list option) \<times> ('s, 'h) pkgdb" where
  "pkgdb_search E P M db dbpkgs tag v ex ldflags =
     (let (recs, db') = pkgdb_it M db tag v in (search_loop E P M ldflags dbpkgs ex 0 recs, db'))"

section \<open>Matching a requirement\<close>

text \<open>\<open>- 1\<close> is a header that cannot be read.\<close>

definition header_evr_match_req :: "penv \<Rightarrow> ('s, 'h) pm_module \<Rightarrow> 'h \<Rightarrow> capreq \<Rightarrow> int" where
  "header_evr_match_req E M h req =
     (case hdr_nevr M h of
        None \<Rightarrow> - 1
      | Some (nm, e, v, r) \<Rightarrow> if pkg_evr_match_req E (nevr_pkg nm e v r) req MA_PROMOTE_VERSION then 1 else 0)"

definition header_cap_match_req :: "penv \<Rightarrow> ('s, 'h) pm_module \<Rightarrow> 'h \<Rightarrow> capreq \<Rightarrow> u32 \<Rightarrow> int" where
  "header_cap_match_req E M h req ma_flags =
     (case hdr_ld_capreqs M h PMCAP_CAP of
        None \<Rightarrow> - 1
      | Some cs \<Rightarrow>
          if cs \<noteq> [] \<and> fst (pkg_caps_match_req E ((nevr_pkg [] 0 [] [])\<lparr>caps := Some (cr_sort E (capreq_cmp_name_evr E) cs)\<rparr>)
               req ma_flags)
          then 1 else 0)"

text \<open>For a file the first record not excluded matches, as does one whose header cannot be read.\<close>

fun db_match_loop ::
  "penv \<Rightarrow> psenv \<Rightarrow> ('s, 'h) pm_module \<Rightarrow> capreq \<Rightarrow> u32 \<Rightarrow> pkg list option \<Rightarrow> 'h pm_dbrec list \<Rightarrow>
   bool \<times> pkg list option" where
  "db_match_loop E P M cap ma_flags ex [] = (False, ex)"
| "db_match_loop E P M cap ma_flags ex (r # rs) =
     (let (skip, ex') = excl_has P ex (db_recno r) in
      if \<not> skip \<and> (capreq_is_file cap \<or> header_cap_match_req E M (db_hdr r) cap ma_flags \<noteq> 0) then (True, ex')
      else db_match_loop E P M cap ma_flags ex' rs)"

definition db_match ::
  "penv \<Rightarrow> psenv \<Rightarrow> ('s, 'h) pm_module \<Rightarrow> ('s, 'h) pkgdb \<Rightarrow> pkgdb_it_tag \<Rightarrow> capreq \<Rightarrow> pkg list option \<Rightarrow> u32 \<Rightarrow>
   (bool \<times> pkg list option) \<times> ('s, 'h) pkgdb" where
  "db_match E P M db tag cap ex ma_flags =
     (let (recs, db') = pkgdb_it M db tag (cr_name cap) in (db_match_loop E P M cap ma_flags ex recs, db'))"

definition pkgdb_match_req ::
  "penv \<Rightarrow> psenv \<Rightarrow> ('s, 'h) pm_module \<Rightarrow> ('s, 'h) pkgdb \<Rightarrow> capreq \<Rightarrow> u32 \<Rightarrow> pkg list option \<Rightarrow>
   (bool \<times> pkg list option) \<times> ('s, 'h) pkgdb" where
  "pkgdb_match_req E P M db req ma_flags ex =
     (let is_file = capreq_is_file req;
          ((b1, ex1), db1) = (if is_file then ((False, ex), db) else db_match E P M db PMTAG_NAME req ex ma_flags)
      in if b1 then ((True, ex1), db1)
         else let ((b2, ex2), db2) = db_match E P M db1 PMTAG_CAP req ex1 ma_flags in
              if b2 then ((True, ex2), db2)
              else if is_file then db_match E P M db2 PMTAG_FILE req ex2 ma_flags
              else ((False, ex2), db2))"

section \<open>What a package obsoletes\<close>

fun obsoletedby_loop ::
  "penv \<Rightarrow> psenv \<Rightarrow> ('s, 'h) pm_module \<Rightarrow> ('h \<Rightarrow> int) \<Rightarrow> u32 \<Rightarrow> pkg list \<Rightarrow> pkg list option \<Rightarrow> nat \<Rightarrow>
   'h pm_dbrec list \<Rightarrow> nat \<times> pkg list \<times> pkg list option" where
  "obsoletedby_loop E P M add ldflags dbpkgs ex n [] = (n, dbpkgs, ex)"
| "obsoletedby_loop E P M add ldflags dbpkgs ex n (r # rs) =
     (let (skip, ex') = excl_has P ex (db_recno r) in
      if skip then obsoletedby_loop E P M add ldflags dbpkgs ex' n rs
      else let (has, dbpkgs') = dbpkg_array_has P dbpkgs (db_recno r) in
           if has \<or> add (db_hdr r) = 0 then obsoletedby_loop E P M add ldflags dbpkgs' ex' n rs
           else case load_pkg E M r ldflags of
                  None \<Rightarrow> obsoletedby_loop E P M add ldflags dbpkgs' ex' n rs
                | Some p \<Rightarrow> obsoletedby_loop E P M add ldflags (pk_sort P pkg_cmp_recno (dbpkgs' @ [p])) ex' (n + 1) rs)"

text \<open>Only names and capabilities are searched; another tag is a failed assertion.\<close>

definition get_obsoletedby_cap ::
  "penv \<Rightarrow> psenv \<Rightarrow> ('s, 'h) pm_module \<Rightarrow> ('s, 'h) pkgdb \<Rightarrow> bool \<Rightarrow> pkg list \<Rightarrow> capreq \<Rightarrow> pkg list option \<Rightarrow> u32 \<Rightarrow>
   (nat \<times> pkg list \<times> pkg list option) \<times> ('s, 'h) pkgdb" where
  "get_obsoletedby_cap E P M db by_name dbpkgs cap ex ldflags =
     (let (recs, db') = pkgdb_it M db (if by_name then PMTAG_NAME else PMTAG_CAP) (cr_name cap);
          add = (\<lambda>h. if by_name then header_evr_match_req E M h cap
                     else header_cap_match_req E M h cap MA_PROMOTE_VERSION)
      in (obsoletedby_loop E P M add ldflags dbpkgs ex 0 recs, db'))"

definition get_obsoletedby_pkg_nevr ::
  "penv \<Rightarrow> psenv \<Rightarrow> ('s, 'h) pm_module \<Rightarrow> ('s, 'h) pkgdb \<Rightarrow> pkg list \<Rightarrow> pkg \<Rightarrow> pkg list option \<Rightarrow> u32 \<Rightarrow> bool \<Rightarrow>
   ((nat \<times> pkg list \<times> pkg list option) \<times> ('s, 'h) pkgdb) option" where
  "get_obsoletedby_pkg_nevr E P M db dbpkgs p ex ldflags revrel =
     map_option (\<lambda>self_cap. get_obsoletedby_cap E P M db True dbpkgs self_cap ex ldflags)
       (capreq_new False (name p) (epoch p) (Some (ver p)) (Some (rel p)) (if revrel then REL_EQ OR REL_GT else REL_EQ OR REL_LT) 0)"

fun obsoletes_loop ::
  "penv \<Rightarrow> psenv \<Rightarrow> ('s, 'h) pm_module \<Rightarrow> u32 \<Rightarrow> capreq list \<Rightarrow>
   (nat \<times> pkg list \<times> pkg list option) \<times> ('s, 'h) pkgdb \<Rightarrow> (nat \<times> pkg list \<times> pkg list option) \<times> ('s, 'h) pkgdb" where
  "obsoletes_loop E P M ldflags [] st = st"
| "obsoletes_loop E P M ldflags (cnfl # cs) ((n, dbpkgs, ex), db) =
     (if \<not> capreq_is_obsl cnfl then obsoletes_loop E P M ldflags cs ((n, dbpkgs, ex), db)
      else let ((n1, dbpkgs1, ex1), db1) = get_obsoletedby_cap E P M db True dbpkgs cnfl ex ldflags;
               ((n2, dbpkgs2, ex2), db2) = (if have_rpm_4_1 M
                  then get_obsoletedby_cap E P M db1 False dbpkgs1 cnfl ex1 ldflags else ((0, dbpkgs1, ex1), db1))
           in obsoletes_loop E P M ldflags cs ((n + n1 + n2, dbpkgs2, ex2), db2))"

abbreviation PKGDB_GETF_OBSOLETEDBY_NEVR :: u32 where "PKGDB_GETF_OBSOLETEDBY_NEVR \<equiv> 1"
abbreviation PKGDB_GETF_OBSOLETEDBY_OBSL :: u32 where "PKGDB_GETF_OBSOLETEDBY_OBSL \<equiv> 2"
abbreviation PKGDB_GETF_OBSOLETEDBY_REV :: u32 where "PKGDB_GETF_OBSOLETEDBY_REV \<equiv> 1024"

text \<open>\<open>None\<close> is the failed assertion on the flags, or a capability that could not be made.\<close>

definition pkgdb_q_obsoletedby_pkg ::
  "penv \<Rightarrow> psenv \<Rightarrow> ('s, 'h) pm_module \<Rightarrow> ('s, 'h) pkgdb \<Rightarrow> pkg list \<Rightarrow> pkg \<Rightarrow> u32 \<Rightarrow> pkg list option \<Rightarrow> u32 \<Rightarrow>
   ((nat \<times> pkg list \<times> pkg list option) \<times> ('s, 'h) pkgdb) option" where
  "pkgdb_q_obsoletedby_pkg E P M db dbpkgs p fl ex ldflags =
     (if fl AND PKGDB_GETF_OBSOLETEDBY_NEVR = 0 then None
      else map_option (\<lambda>st. if fl AND PKGDB_GETF_OBSOLETEDBY_OBSL = 0 then st
               else obsoletes_loop E P M ldflags (case cnfls p of None \<Rightarrow> [] | Some cs \<Rightarrow> cs) st)
             (get_obsoletedby_pkg_nevr E P M db dbpkgs p ex ldflags (fl AND PKGDB_GETF_OBSOLETEDBY_REV \<noteq> 0)))"

section \<open>Who requires a capability\<close>

definition capreq_isdir :: "capreq \<Rightarrow> bool" where
  "capreq_isdir cr \<longleftrightarrow> cr_flags cr AND 64 \<noteq> 0"

text \<open>A package that satisfies the capability itself does not count.\<close>

fun what_requires_loop ::
  "penv \<Rightarrow> psenv \<Rightarrow> dirix \<Rightarrow> ('s, 'h) pm_module \<Rightarrow> capreq \<Rightarrow> u32 \<Rightarrow> pkg list \<Rightarrow> pkg list option \<Rightarrow> nat \<Rightarrow>
   'h pm_dbrec list \<Rightarrow> nat \<times> pkg list \<times> pkg list option" where
  "what_requires_loop E P D M cap ldflags dbpkgs ex n [] = (n, dbpkgs, ex)"
| "what_requires_loop E P D M cap ldflags dbpkgs ex n (r # rs) =
     (let (skip, ex') = excl_has P ex (db_recno r) in
      if skip then what_requires_loop E P D M cap ldflags dbpkgs ex' n rs
      else let (has, dbpkgs') = dbpkg_array_has P dbpkgs (db_recno r) in
           if has then what_requires_loop E P D M cap ldflags dbpkgs' ex' n rs
           else case load_pkg E M r ldflags of
                  None \<Rightarrow> what_requires_loop E P D M cap ldflags dbpkgs' ex' n rs
                | Some p \<Rightarrow>
                    if pkg_satisfies_req E P D p cap True
                    then what_requires_loop E P D M cap ldflags dbpkgs' ex' n rs
                    else what_requires_loop E P D M cap ldflags (isort pkg_cmp_recno (dbpkgs' @ [p])) ex' (n + 1) rs)"

definition q_what_requires ::
  "penv \<Rightarrow> psenv \<Rightarrow> dirix \<Rightarrow> ('s, 'h) pm_module \<Rightarrow> ('s, 'h) pkgdb \<Rightarrow> pkg list \<Rightarrow> pkgdb_it_tag \<Rightarrow> capreq \<Rightarrow>
   pkg list option \<Rightarrow> u32 \<Rightarrow> (nat \<times> pkg list \<times> pkg list option) \<times> ('s, 'h) pkgdb" where
  "q_what_requires E P D M db dbpkgs tag cap ex ldflags =
     (let (recs, db') = pkgdb_it M db tag (cr_name cap)
      in (what_requires_loop E P D M cap ldflags dbpkgs ex 0 recs, db'))"

definition pkgdb_q_what_requires ::
  "penv \<Rightarrow> psenv \<Rightarrow> dirix \<Rightarrow> ('s, 'h) pm_module \<Rightarrow> ('s, 'h) pkgdb \<Rightarrow> pkg list \<Rightarrow> capreq \<Rightarrow>
   pkg list option \<Rightarrow> u32 \<Rightarrow> (nat \<times> pkg list \<times> pkg list option) \<times> ('s, 'h) pkgdb" where
  "pkgdb_q_what_requires E P D M db dbpkgs cap ex ldflags =
     (let ((n, dbpkgs1, ex1), db1) = q_what_requires E P D M db dbpkgs PMTAG_REQ cap ex ldflags in
      if n = 0 \<and> capreq_isdir cap
      then q_what_requires E P D M db1 dbpkgs1 PMTAG_DIRNAME cap ex1 ldflags
      else ((n, dbpkgs1, ex1), db1))"

text \<open>Whether a record not excluded can be loaded.\<close>

fun is_required_loop ::
  "penv \<Rightarrow> psenv \<Rightarrow> ('s, 'h) pm_module \<Rightarrow> u32 \<Rightarrow> pkg list option \<Rightarrow> 'h pm_dbrec list \<Rightarrow> bool \<times> pkg list option" where
  "is_required_loop E P M ldflags ex [] = (False, ex)"
| "is_required_loop E P M ldflags ex (r # rs) =
     (let (skip, ex') = excl_has P ex (db_recno r) in
      if \<not> skip \<and> load_pkg E M r ldflags \<noteq> None then (True, ex')
      else is_required_loop E P M ldflags ex' rs)"

definition q_is_required ::
  "penv \<Rightarrow> psenv \<Rightarrow> ('s, 'h) pm_module \<Rightarrow> ('s, 'h) pkgdb \<Rightarrow> pkgdb_it_tag \<Rightarrow> capreq \<Rightarrow> pkg list option \<Rightarrow>
   (bool \<times> pkg list option) \<times> ('s, 'h) pkgdb" where
  "q_is_required E P M db tag cap ex =
     (let (recs, db') = pkgdb_it M db tag (cr_name cap)
      in (is_required_loop E P M (if capreq_is_file cap then PKG_LDCAPS OR PKG_LDFL_DEPDIRS else PKG_LDCAPS) ex recs, db'))"

definition pkgdb_q_is_required ::
  "penv \<Rightarrow> psenv \<Rightarrow> ('s, 'h) pm_module \<Rightarrow> ('s, 'h) pkgdb \<Rightarrow> capreq \<Rightarrow> pkg list option \<Rightarrow>
   (bool \<times> pkg list option) \<times> ('s, 'h) pkgdb" where
  "pkgdb_q_is_required E P M db cap ex =
     (let ((b, ex1), db1) = q_is_required E P M db PMTAG_REQ cap ex in
      if b then ((True, ex1), db1) else q_is_required E P M db1 PMTAG_DIRNAME cap ex1)"

section \<open>The arrays of packages\<close>

text \<open>Record numbers are those of a database of less than two thousand million records.\<close>

definition recnos_ok :: "pkg set \<Rightarrow> bool" where
  "recnos_ok S \<longleftrightarrow> (\<forall>p \<in> S. nonneg32 (recno p))"

context ps_env
begin

lemma recno_order: "recnos_ok S \<Longrightarrow> cmp_order S pkg_cmp_recno"
  unfolding pkg_cmp_recno_def by (rule cmp_order_on [OF cmp_order_i32_diff]) (simp add: recnos_ok_def)

lemma dbpkg_array_has:
  assumes "recnos_ok (set pkgs)" "nonneg32 r"
  obtains pkgs' where "dbpkg_array_has P pkgs r = (r \<in> recno ` set pkgs, pkgs')" "mset pkgs' = mset pkgs"
proof -
  let ?pkgs = "if sorted_cmp pkg_cmp_recno pkgs then pkgs else pk_sort P pkg_cmp_recno pkgs"
  have m: "mset ?pkgs = mset pkgs" using sorted_arrays.sort_mset [OF pk_arrays] by simp
  then have s: "set ?pkgs = set pkgs" by (metis set_mset_mset)
  obtain q0 :: pkg where q0: "recno q0 = r" by (metis pkg.select_convs(23))
  have ord: "cmp_order (insert q0 (set pkgs)) pkg_cmp_recno"
    using assms q0 by (intro recno_order) (simp add: recnos_ok_def)
  have "sorted_cmp pkg_cmp_recno ?pkgs"
    using sorted_arrays.sort_sorted [OF pk_arrays recno_order [OF assms(1)]] by simp
  then have "key_sorted (\<lambda>q. pkg_cmp_recno q q0) ?pkgs"
    using s by (intro sorted_key_sorted [OF ord]) auto
  then have k: "key_sorted (\<lambda>q. i32_diff (recno q) r) ?pkgs" by (simp add: pkg_cmp_recno_def q0)
  have "pk_bsearch P (\<lambda>q. i32_diff (recno q) r) ?pkgs \<noteq> - 1 \<longleftrightarrow> r \<in> recno ` set pkgs"
  proof (cases rule: sorted_arrays.search_cases [OF pk_arrays k])
    case 1
    then have "\<forall>q \<in> set pkgs. recno q \<noteq> r" using s by (metis i32_diff_self)
    then show ?thesis using 1 by auto
  next
    case (2 i)
    then have "recno (?pkgs ! i) = r" by (simp add: i32_diff_eq_0)
    moreover have "?pkgs ! i \<in> set pkgs" using 2(2) nth_mem s by blast
    ultimately show ?thesis using 2(1) by force
  qed
  then show thesis using that [of ?pkgs] m by (simp add: dbpkg_array_has_def Let_def)
qed

end

text \<open>The record numbers that are excluded; searching leaves the array the same but for its order.\<close>

definition excluded_recnos :: "pkg list option \<Rightarrow> u32 set" where
  "excluded_recnos ex = (case ex of None \<Rightarrow> {} | Some pkgs \<Rightarrow> recno ` set pkgs)"

definition ex_ok :: "pkg list option \<Rightarrow> bool" where
  "ex_ok ex \<longleftrightarrow> (\<forall>pkgs. ex = Some pkgs \<longrightarrow> recnos_ok (set pkgs))"

lemma same_array:
  assumes "map_option mset ex' = map_option mset ex"
  shows "excluded_recnos ex' = excluded_recnos ex" "ex_ok ex' \<longleftrightarrow> ex_ok ex"
proof -
  have "map_option set ex' = map_option set ex"
    using arg_cong [OF assms, of "map_option set_mset"] by (simp add: option.map_comp comp_def)
  moreover have "excluded_recnos e = (case map_option set e of None \<Rightarrow> {} | Some S \<Rightarrow> recno ` S)"
    "ex_ok e \<longleftrightarrow> (case map_option set e of None \<Rightarrow> True | Some S \<Rightarrow> recnos_ok S)" for e
    by (cases e; simp add: excluded_recnos_def ex_ok_def)+
  ultimately show "excluded_recnos ex' = excluded_recnos ex" "ex_ok ex' \<longleftrightarrow> ex_ok ex" by presburger+
qed

definition recs_ok :: "'h pm_dbrec set \<Rightarrow> bool" where
  "recs_ok S \<longleftrightarrow> (\<forall>r \<in> S. nonneg32 (db_recno r))"

lemma recs_ok_simps [simp]: "recs_ok {}" "recs_ok (insert r S) \<longleftrightarrow> nonneg32 (db_recno r) \<and> recs_ok S"
  by (auto simp: recs_ok_def)

lemma selfcap_fields [simp]:
  "recno (pkg_add_selfcap E p) = recno p" "reqs (pkg_add_selfcap E p) = reqs p" "name (pkg_add_selfcap E p) = name p"
  "nvr (pkg_add_selfcap E p) = nvr p" "pfl (pkg_add_selfcap E p) = pfl p"
  by (simp_all add: pkg_add_selfcap_def Let_def split: prod.splits option.splits)

lemma load_pkg_recno: "load_pkg E M r fl = Some p \<Longrightarrow> recno p = db_recno r"
  by (auto simp: load_pkg_def Let_def)

context ps_env
begin

lemma excl_has:
  assumes "ex_ok ex" "nonneg32 r"
  obtains ex' where "excl_has P ex r = (r \<in> excluded_recnos ex, ex')" "map_option mset ex' = map_option mset ex"
proof (cases ex)
  case None
  then show thesis using that [of None] by (simp add: excl_has_def excluded_recnos_def)
next
  case (Some pkgs)
  then obtain pkgs' where "dbpkg_array_has P pkgs r = (r \<in> recno ` set pkgs, pkgs')" "mset pkgs' = mset pkgs"
    using dbpkg_array_has [of pkgs r] assms by (auto simp: ex_ok_def)
  then show thesis using that [of "Some pkgs'"] Some by (simp add: excl_has_def excluded_recnos_def)
qed

lemma db_match_loop:
  assumes "ex_ok ex" "recs_ok (set recs)"
  shows "\<exists>ex'. map_option mset ex' = map_option mset ex \<and>
    db_match_loop E P M cap fl ex recs =
      (\<exists>r \<in> set recs. db_recno r \<notin> excluded_recnos ex \<and> (capreq_is_file cap \<or> header_cap_match_req E M (db_hdr r) cap fl \<noteq> 0),
       ex')"
  using assms
proof (induction recs arbitrary: ex)
  case (Cons r recs)
  have r: "nonneg32 (db_recno r)" and rs: "recs_ok (set recs)" using Cons.prems(2) by simp_all
  obtain ex1 where ex1: "excl_has P ex (db_recno r) = (db_recno r \<in> excluded_recnos ex, ex1)"
    "map_option mset ex1 = map_option mset ex"
    using excl_has [OF Cons.prems(1) r] by blast
  note s = same_array [OF ex1(2)]
  obtain ex2 where "map_option mset ex2 = map_option mset ex1" "db_match_loop E P M cap fl ex1 recs =
      (\<exists>r \<in> set recs. db_recno r \<notin> excluded_recnos ex1 \<and> (capreq_is_file cap \<or> header_cap_match_req E M (db_hdr r) cap fl \<noteq> 0),
       ex2)"
    using Cons.IH [of ex1] Cons.prems(1) s(2) rs by blast
  then show ?case using ex1 s(1) by auto
qed simp

text \<open>What the queries for requiring packages find: the loaded packages, by record number.\<close>

lemma isort_recno_set: "set (isort pkg_cmp_recno xs) = set xs"
  by simp

lemma what_requires_loop:
  fixes M :: "('s, 'h) pm_module"
  assumes "ex_ok ex" "recs_ok (set recs)" "recnos_ok (set dbpkgs)"
    and "what_requires_loop E P D M cap fl dbpkgs ex n recs = (n', dbpkgs', ex')"
  defines "new \<equiv> {p. \<exists>r \<in> set recs. db_recno r \<notin> excluded_recnos ex \<and> load_pkg E M r fl = Some p \<and>
      \<not> pkg_satisfies_req E P D p cap True}"
  shows "map_option mset ex' = map_option mset ex" "recnos_ok (set dbpkgs')" "set dbpkgs \<subseteq> set dbpkgs'"
    "set dbpkgs' \<subseteq> set dbpkgs \<union> new" "\<forall>p \<in> new. recno p \<in> recno ` set dbpkgs'"
proof -
  have "map_option mset ex' = map_option mset ex \<and> recnos_ok (set dbpkgs') \<and> set dbpkgs \<subseteq> set dbpkgs' \<and>
    set dbpkgs' \<subseteq> set dbpkgs \<union> new \<and> (\<forall>p \<in> new. recno p \<in> recno ` set dbpkgs')"
    unfolding new_def using assms(1-4)
  proof (induction recs arbitrary: ex dbpkgs n)
    case (Cons r recs)
    have r: "nonneg32 (db_recno r)" and rs: "recs_ok (set recs)" using Cons.prems(2) by simp_all
    obtain ex1 where ex1: "excl_has P ex (db_recno r) = (db_recno r \<in> excluded_recnos ex, ex1)"
      "map_option mset ex1 = map_option mset ex"
      using excl_has [OF Cons.prems(1) r] by blast
    note s = same_array [OF ex1(2)]
    have ok1: "ex_ok ex1" using s(2) Cons.prems(1) by simp
    obtain a where a: "dbpkg_array_has P dbpkgs (db_recno r) = (db_recno r \<in> recno ` set dbpkgs, a)" "mset a = mset dbpkgs"
      using dbpkg_array_has [OF Cons.prems(3) r] by blast
    have sa: "set a = set dbpkgs" using a(2) by (metis set_mset_mset)
    then have oka: "recnos_ok (set a)" using Cons.prems(3) by simp
    consider (skip) "db_recno r \<in> excluded_recnos ex" | (has) "db_recno r \<notin> excluded_recnos ex" "db_recno r \<in> recno ` set dbpkgs"
      | (none) "db_recno r \<notin> excluded_recnos ex" "db_recno r \<notin> recno ` set dbpkgs"
          "\<forall>p. load_pkg E M r fl = Some p \<longrightarrow> pkg_satisfies_req E P D p cap True"
      | (new) p where "db_recno r \<notin> excluded_recnos ex" "db_recno r \<notin> recno ` set dbpkgs"
          "load_pkg E M r fl = Some p" "\<not> pkg_satisfies_req E P D p cap True"
      by blast
    then show ?case
    proof cases
      case skip
      then show ?thesis using Cons.IH [OF ok1 rs Cons.prems(3)] Cons.prems(4) ex1 s(1) by auto
    next
      case has
      then have "what_requires_loop E P D M cap fl a ex1 n recs = (n', dbpkgs', ex')"
        using Cons.prems(4) ex1 a by simp
      moreover have "recno p \<in> recno ` set dbpkgs" if "load_pkg E M r fl = Some p" for p
        using has(2) load_pkg_recno [OF that] by simp
      ultimately show ?thesis using Cons.IH [OF ok1 rs oka] ex1(2) s(1) sa by fastforce
    next
      case none
      then have "what_requires_loop E P D M cap fl a ex1 n recs = (n', dbpkgs', ex')"
        using Cons.prems(4) ex1 a by (simp split: option.splits)
      from Cons.IH [OF ok1 rs oka this] show ?thesis using ex1(2) s(1) sa none(3) by fastforce
    next
      case new
      let ?b = "isort pkg_cmp_recno (a @ [p])"
      have b: "set ?b = insert p (set dbpkgs)" using sa by simp
      have okb: "recnos_ok (set ?b)" using oka sa b r load_pkg_recno [OF new(3)] by (simp add: recnos_ok_def)
      have "what_requires_loop E P D M cap fl ?b ex1 (n + 1) recs = (n', dbpkgs', ex')"
        using Cons.prems(4) ex1 a new by simp
      from Cons.IH [OF ok1 rs okb this] show ?thesis using ex1(2) s(1) b new(1,3,4) by auto
    qed
  qed simp
  then show "map_option mset ex' = map_option mset ex" "recnos_ok (set dbpkgs')" "set dbpkgs \<subseteq> set dbpkgs'"
    "set dbpkgs' \<subseteq> set dbpkgs \<union> new" "\<forall>p \<in> new. recno p \<in> recno ` set dbpkgs'" by simp_all
qed

end

section \<open>What a module promises\<close>

abbreviation uninst_LDFLAGS :: u32 where "uninst_LDFLAGS \<equiv> PKG_LDCAPS OR PKG_LDREQS OR PKG_LDFL_WHOLE"

text \<open>
  The contract of a module, as far as the queries above rely on it: iterating changes nothing that
  is installed (\<open>held\<close>), yields installed records only, and by the name of a capability or
  requirement all of them, for names the module indexes (\<open>plain\<close>); record numbers are different;
  headers load, with the capabilities and requirements that are read from them separately. \<open>good\<close>
  are the states of the module after opening.
\<close>

locale pm_db = ps_env E P for E :: penv and P :: psenv +
  fixes M :: "('s, 'h) pm_module"
    and good :: "'s \<Rightarrow> bool"
    and held :: "'s \<Rightarrow> 'h pm_dbrec set"
    and plain :: "string \<Rightarrow> bool"
  assumes it_keeps: "good s \<Longrightarrow> pm_it_init M s tag v = (rs, s') \<Longrightarrow> good s' \<and> held s' = held s \<and> set rs \<subseteq> held s"
    and it_cap: "good s \<Longrightarrow> pm_it_init M s PMTAG_CAP v = (rs, s') \<Longrightarrow> plain v \<Longrightarrow> r \<in> held s \<Longrightarrow>
      hdr_ld_capreqs M (db_hdr r) PMCAP_CAP = Some cs \<Longrightarrow> v \<in> cr_name ` set cs \<Longrightarrow> r \<in> set rs"
    and it_req: "good s \<Longrightarrow> pm_it_init M s PMTAG_REQ v = (rs, s') \<Longrightarrow> plain v \<Longrightarrow> r \<in> held s \<Longrightarrow>
      load_pkg E M r uninst_LDFLAGS = Some p \<Longrightarrow> reqs p = Some cs \<Longrightarrow> q \<in> set cs \<Longrightarrow> \<not> capreq_is_rpmlib q \<Longrightarrow>
      cr_name q = v \<Longrightarrow> r \<in> set rs"
    and held_ok: "good s \<Longrightarrow> finite (held s) \<and> recs_ok (held s) \<and> inj_on db_recno (held s)"
    and loads: "good s \<Longrightarrow> r \<in> held s \<Longrightarrow> \<exists>p. load_pkg E M r uninst_LDFLAGS = Some p"
    and reads_caps: "good s \<Longrightarrow> r \<in> held s \<Longrightarrow> load_pkg E M r uninst_LDFLAGS = Some p \<Longrightarrow>
      \<exists>cs. hdr_ld_capreqs M (db_hdr r) PMCAP_CAP = Some cs \<and> (\<forall>c \<in> set cs. provides_name (cr_name c) p)"

definition db_ok :: "('s \<Rightarrow> bool) \<Rightarrow> ('s, 'h) pkgdb \<Rightarrow> bool" where
  "db_ok good db \<longleftrightarrow> good (dbh db) \<and> db_filter db = None"

text \<open>The installed packages as the code loads them.\<close>

definition loaded :: "penv \<Rightarrow> ('s, 'h) pm_module \<Rightarrow> 'h pm_dbrec set \<Rightarrow> pkg set" where
  "loaded E M S = {p. \<exists>r \<in> S. load_pkg E M r uninst_LDFLAGS = Some p}"

context pm_env
begin

lemma caps_scan_name: "caps_scan E req fl b cs \<Longrightarrow> \<exists>c \<in> set cs. cr_name c = cr_name req"
  by (induction cs arbitrary: b) (auto dest: cap_xmatch_req_name split: if_splits)

lemma header_cap_match_name:
  assumes "hdr_ld_capreqs M h PMCAP_CAP = Some cs" "header_cap_match_req E M h req fl \<noteq> 0"
  shows "cr_name req \<in> cr_name ` set cs"
proof -
  let ?cs = "cr_sort E (capreq_cmp_name_evr E) cs"
  obtain n cs' where f: "capreq_arr_find E ?cs (cr_name req) = (n, cs')" by fastforce
  have "set cs' = set cs"
    using arr_sorted_set f sorted_arrays.set_nsort [OF cr_arrays] by (auto simp: capreq_arr_find_def Let_def)
  moreover have "caps_scan E req fl True (drop (nat n) cs')"
    using assms f by (auto simp: header_cap_match_req_def pkg_caps_match_req_def Let_def split: if_splits)
  ultimately show ?thesis using caps_scan_name set_drop_subset by (metis image_eqI subsetD)
qed

end

context pm_db
begin

lemma installed:
  assumes "db_ok good db"
  shows "recs_ok (held (dbh db))" "recnos_ok (loaded E M (held (dbh db)))" "inj_on recno (loaded E M (held (dbh db)))"
    "finite (loaded E M (held (dbh db)))"
proof -
  have g: "good (dbh db)" using assms by (simp add: db_ok_def)
  note h = held_ok [OF g]
  show "recs_ok (held (dbh db))" using h by simp
  show "recnos_ok (loaded E M (held (dbh db)))"
    using h load_pkg_recno by (fastforce simp: recnos_ok_def loaded_def recs_ok_def)
  show "inj_on recno (loaded E M (held (dbh db)))"
  proof (rule inj_onI)
    fix p q
    assume "p \<in> loaded E M (held (dbh db))" "q \<in> loaded E M (held (dbh db))" and e: "recno p = recno q"
    then obtain r r' where r: "r \<in> held (dbh db)" "load_pkg E M r uninst_LDFLAGS = Some p"
      "r' \<in> held (dbh db)" "load_pkg E M r' uninst_LDFLAGS = Some q" by (auto simp: loaded_def)
    then have "db_recno r = db_recno r'" using e load_pkg_recno by metis
    then have "r = r'" using h r by (meson inj_onD)
    then show "p = q" using r by simp
  qed
  have "loaded E M (held (dbh db)) \<subseteq> (\<lambda>r. the (load_pkg E M r uninst_LDFLAGS)) ` held (dbh db)"
    by (force simp: loaded_def)
  then show "finite (loaded E M (held (dbh db)))" using h finite_surj by blast
qed

lemma pkgdb_it:
  assumes "db_ok good db" "pkgdb_it M db tag v = (recs, db')"
  shows "db_ok good db'" "held (dbh db') = held (dbh db)" "set recs \<subseteq> held (dbh db)" "recs_ok (set recs)"
    "pm_it_init M (dbh db) tag v = (recs, dbh db')"
proof -
  have g: "good (dbh db)" "db_filter db = None" using assms by (simp_all add: db_ok_def)
  obtain s where s: "pm_it_init M (dbh db) tag v = (recs, s)" "db' = db\<lparr>dbh := s\<rparr>"
    using assms(2) g(2) by (auto simp: pkgdb_it_def split: prod.splits)
  then show "db_ok good db'" "held (dbh db') = held (dbh db)" "set recs \<subseteq> held (dbh db)"
    "pm_it_init M (dbh db) tag v = (recs, dbh db')"
    using it_keeps [OF g(1) s(1)] g by (simp_all add: db_ok_def)
  then show "recs_ok (set recs)" using held_ok [OF g(1)] by (auto simp: recs_ok_def)
qed

lemma db_match:
  assumes "db_ok good db" "ex_ok ex" "db_match E P M db tag cap ex fl = ((b, ex'), db')"
  shows "db_ok good db'" "held (dbh db') = held (dbh db)" "map_option mset ex' = map_option mset ex"
    "\<not> capreq_is_file cap \<Longrightarrow> b \<Longrightarrow> \<exists>r \<in> held (dbh db). db_recno r \<notin> excluded_recnos ex \<and>
       header_cap_match_req E M (db_hdr r) cap fl \<noteq> 0"
    "tag = PMTAG_CAP \<Longrightarrow> plain (cr_name cap) \<Longrightarrow> r \<in> held (dbh db) \<Longrightarrow> db_recno r \<notin> excluded_recnos ex \<Longrightarrow>
       header_cap_match_req E M (db_hdr r) cap fl \<noteq> 0 \<Longrightarrow> b"
proof -
  obtain recs where it: "pkgdb_it M db tag (cr_name cap) = (recs, db')"
    "db_match_loop E P M cap fl ex recs = (b, ex')"
    using assms(3) by (auto simp: db_match_def split: prod.splits)
  note k = pkgdb_it [OF assms(1) it(1)]
  show "db_ok good db'" "held (dbh db') = held (dbh db)" by (fact k)+
  have m: "map_option mset ex' = map_option mset ex" "b \<longleftrightarrow> (\<exists>r \<in> set recs. db_recno r \<notin> excluded_recnos ex \<and>
      (capreq_is_file cap \<or> header_cap_match_req E M (db_hdr r) cap fl \<noteq> 0))"
    using db_match_loop [OF assms(2) k(4), of M cap fl] it(2) by auto
  show "map_option mset ex' = map_option mset ex" by (fact m)
  show "\<exists>r \<in> held (dbh db). db_recno r \<notin> excluded_recnos ex \<and> header_cap_match_req E M (db_hdr r) cap fl \<noteq> 0"
    if "\<not> capreq_is_file cap" b
    using that m(2) k(3) by blast
  fix r
  assume a: "tag = PMTAG_CAP" "plain (cr_name cap)" "r \<in> held (dbh db)" "db_recno r \<notin> excluded_recnos ex"
    "header_cap_match_req E M (db_hdr r) cap fl \<noteq> 0"
  have g: "good (dbh db)" using assms(1) by (simp add: db_ok_def)
  obtain cs where cs: "hdr_ld_capreqs M (db_hdr r) PMCAP_CAP = Some cs"
    using loads [OF g a(3)] reads_caps [OF g a(3)] by blast
  have "pm_it_init M (dbh db) PMTAG_CAP (cr_name cap) = (recs, dbh db')" using k(5) a(1) by simp
  from it_cap [OF g this a(2,3) cs header_cap_match_name [OF cs a(5)]] have "r \<in> set recs" .
  then show b using a(4,5) m(2) by blast
qed

text \<open>A requirement on a name is matched by exactly the installed packages whose capabilities match.\<close>

lemma match_req:
  assumes "db_ok good db" "ex_ok ex" "pkgdb_match_req E P M db req fl ex = ((b, ex'), db')"
  shows "db_ok good db'" "held (dbh db') = held (dbh db)" "map_option mset ex' = map_option mset ex"
    "\<not> capreq_is_file req \<Longrightarrow> plain (cr_name req) \<Longrightarrow> b \<longleftrightarrow> (\<exists>r \<in> held (dbh db). db_recno r \<notin> excluded_recnos ex \<and>
       header_cap_match_req E M (db_hdr r) req fl \<noteq> 0)"
proof -
  obtain b1 ex1 db1 where s1: "(if capreq_is_file req then ((False, ex), db)
      else db_match E P M db PMTAG_NAME req ex fl) = ((b1, ex1), db1)" by (metis prod.exhaust)
  have k1: "db_ok good db1" "held (dbh db1) = held (dbh db)" "map_option mset ex1 = map_option mset ex"
    using s1 assms(1,2) db_match [OF assms(1,2)] by (auto split: if_splits)
  have e1: "ex_ok ex1" "excluded_recnos ex1 = excluded_recnos ex" using same_array [OF k1(3)] assms(2) by simp_all
  obtain b2 ex2 db2 where s2: "db_match E P M db1 PMTAG_CAP req ex1 fl = ((b2, ex2), db2)" by (metis prod.exhaust)
  note k2 = db_match [OF k1(1) e1(1) s2]
  have e2: "ex_ok ex2" using same_array [OF k2(3)] e1 by simp
  obtain b3 ex3 db3 where s3: "db_match E P M db2 PMTAG_FILE req ex2 fl = ((b3, ex3), db3)" by (metis prod.exhaust)
  note k3 = db_match [OF k2(1) e2 s3]
  have r: "((b, ex'), db') = (if b1 then ((True, ex1), db1) else if b2 then ((True, ex2), db2)
      else if capreq_is_file req then ((b3, ex3), db3) else ((False, ex2), db2))"
    using assms(3) s1 s2 s3 by (auto simp: pkgdb_match_req_def Let_def split: if_splits)
  then show "db_ok good db'" "held (dbh db') = held (dbh db)" "map_option mset ex' = map_option mset ex"
    using k1 k2(1,2,3) k3(1,2,3) by (auto split: if_splits)
  assume nf: "\<not> capreq_is_file req" and pl: "plain (cr_name req)"
  have "db_match E P M db PMTAG_NAME req ex fl = ((b1, ex1), db1)" using s1 nf by simp
  from db_match(4) [OF assms(1,2) this nf]
  have "b1 \<Longrightarrow> \<exists>r \<in> held (dbh db). db_recno r \<notin> excluded_recnos ex \<and> header_cap_match_req E M (db_hdr r) req fl \<noteq> 0" .
  moreover have "b2 \<longleftrightarrow> (\<exists>r \<in> held (dbh db). db_recno r \<notin> excluded_recnos ex \<and> header_cap_match_req E M (db_hdr r) req fl \<noteq> 0)"
    using k2(4) [OF nf] k2(5) [OF refl pl] k1(2) e1(2) by auto
  moreover have "b \<longleftrightarrow> b1 \<or> b2" using r nf by (auto split: if_splits)
  ultimately show "b \<longleftrightarrow> (\<exists>r \<in> held (dbh db). db_recno r \<notin> excluded_recnos ex \<and> header_cap_match_req E M (db_hdr r) req fl \<noteq> 0)"
    by blast
qed

text \<open>What requires a capability: the installed packages with a requirement of its name.\<close>

lemma q_what_requires:
  assumes "db_ok good db" "ex_ok ex" "recnos_ok (set dbpkgs)"
    and "q_what_requires E P D M db dbpkgs tag cap ex uninst_LDFLAGS = ((n, dbpkgs', ex'), db')"
  shows "db_ok good db'" "held (dbh db') = held (dbh db)" "map_option mset ex' = map_option mset ex"
    "set dbpkgs \<subseteq> set dbpkgs'" "recnos_ok (set dbpkgs')"
    "set dbpkgs' \<subseteq> set dbpkgs \<union> {p \<in> loaded E M (held (dbh db)). recno p \<notin> excluded_recnos ex}"
    "tag = PMTAG_REQ \<Longrightarrow> plain (cr_name cap) \<Longrightarrow> p \<in> loaded E M (held (dbh db)) \<Longrightarrow> recno p \<notin> excluded_recnos ex \<Longrightarrow>
       reqs p = Some rs \<Longrightarrow> q \<in> set rs \<Longrightarrow> \<not> capreq_is_rpmlib q \<Longrightarrow> cr_name q = cr_name cap \<Longrightarrow>
       \<not> pkg_satisfies_req E P D p cap True \<Longrightarrow> recno p \<in> recno ` set dbpkgs'"
proof -
  obtain recs where it: "pkgdb_it M db tag (cr_name cap) = (recs, db')"
    "what_requires_loop E P D M cap uninst_LDFLAGS dbpkgs ex 0 recs = (n, dbpkgs', ex')"
    using assms(4) by (auto simp: q_what_requires_def split: prod.splits)
  note k = pkgdb_it [OF assms(1) it(1)]
  note l = what_requires_loop [OF assms(2) k(4) assms(3) it(2)]
  show "db_ok good db'" "held (dbh db') = held (dbh db)" by (fact k)+
  show "map_option mset ex' = map_option mset ex" "recnos_ok (set dbpkgs')" "set dbpkgs \<subseteq> set dbpkgs'" by (fact l)+
  show "set dbpkgs' \<subseteq> set dbpkgs \<union> {p \<in> loaded E M (held (dbh db)). recno p \<notin> excluded_recnos ex}"
    using l(4) k(3) load_pkg_recno by (fastforce simp: loaded_def)
  fix p rs q
  assume a: "tag = PMTAG_REQ" "plain (cr_name cap)" "p \<in> loaded E M (held (dbh db))" "recno p \<notin> excluded_recnos ex"
    "reqs p = Some rs" "q \<in> set rs" "\<not> capreq_is_rpmlib q" "cr_name q = cr_name cap" "\<not> pkg_satisfies_req E P D p cap True"
  have g: "good (dbh db)" using assms(1) by (simp add: db_ok_def)
  obtain r where r: "r \<in> held (dbh db)" "load_pkg E M r uninst_LDFLAGS = Some p" using a(3) by (auto simp: loaded_def)
  have "pm_it_init M (dbh db) PMTAG_REQ (cr_name cap) = (recs, dbh db')" using k(5) a(1) by simp
  from it_req [OF g this a(2) r a(5-8)] have "r \<in> set recs" .
  moreover have "db_recno r \<notin> excluded_recnos ex" using a(4) load_pkg_recno [OF r(2)] by simp
  ultimately have "\<exists>r \<in> set recs. db_recno r \<notin> excluded_recnos ex \<and> load_pkg E M r uninst_LDFLAGS = Some p \<and>
      \<not> pkg_satisfies_req E P D p cap True"
    using r(2) a(9) by (intro bexI [of _ r] conjI)
  then show "recno p \<in> recno ` set dbpkgs'" by (intro bspec [OF l(5)] CollectI)
qed

lemma what_requires:
  assumes "db_ok good db" "ex_ok ex" "recnos_ok (set dbpkgs)"
    and "pkgdb_q_what_requires E P D M db dbpkgs cap ex uninst_LDFLAGS = ((n, dbpkgs', ex'), db')"
  shows "db_ok good db'" "held (dbh db') = held (dbh db)" "map_option mset ex' = map_option mset ex"
    "set dbpkgs \<subseteq> set dbpkgs'" "recnos_ok (set dbpkgs')"
    "set dbpkgs' \<subseteq> set dbpkgs \<union> {p \<in> loaded E M (held (dbh db)). recno p \<notin> excluded_recnos ex}"
    "plain (cr_name cap) \<Longrightarrow> p \<in> loaded E M (held (dbh db)) \<Longrightarrow> recno p \<notin> excluded_recnos ex \<Longrightarrow>
       reqs p = Some rs \<Longrightarrow> q \<in> set rs \<Longrightarrow> \<not> capreq_is_rpmlib q \<Longrightarrow> cr_name q = cr_name cap \<Longrightarrow>
       \<not> pkg_satisfies_req E P D p cap True \<Longrightarrow> recno p \<in> recno ` set dbpkgs'"
proof -
  obtain n1 d1 e1 db1 where q1: "q_what_requires E P D M db dbpkgs PMTAG_REQ cap ex uninst_LDFLAGS = ((n1, d1, e1), db1)"
    by (metis prod.exhaust)
  note k1 = q_what_requires [OF assms(1-3) q1]
  note s1 = same_array [OF k1(3)]
  have ok1: "ex_ok e1" using s1 assms(2) by simp
  obtain n2 d2 e2 db2 where q2: "q_what_requires E P D M db1 d1 PMTAG_DIRNAME cap e1 uninst_LDFLAGS = ((n2, d2, e2), db2)"
    by (metis prod.exhaust)
  note k2 = q_what_requires [OF k1(1) ok1 k1(5) q2]
  have c: "((n, dbpkgs', ex'), db') = ((n1, d1, e1), db1) \<or> ((n, dbpkgs', ex'), db') = ((n2, d2, e2), db2)"
    using assms(4) q1 q2 by (auto simp: pkgdb_q_what_requires_def split: if_splits)
  then show "db_ok good db'" "held (dbh db') = held (dbh db)" "map_option mset ex' = map_option mset ex"
    "recnos_ok (set dbpkgs')"
    using k1(1-3,5) k2(1-3,5) by auto
  have sub: "set d1 \<subseteq> set dbpkgs'" using c k2(4) by auto
  then show "set dbpkgs \<subseteq> set dbpkgs'" using k1(4) by blast
  show "set dbpkgs' \<subseteq> set dbpkgs \<union> {p \<in> loaded E M (held (dbh db)). recno p \<notin> excluded_recnos ex}"
  proof -
    have "set dbpkgs' = set d1 \<or> set dbpkgs' = set d2" using c by auto
    then show ?thesis using k1(6) k2(6) unfolding s1(1) k1(2) by blast
  qed
  show "recno p \<in> recno ` set dbpkgs'" if "plain (cr_name cap)" "p \<in> loaded E M (held (dbh db))"
    "recno p \<notin> excluded_recnos ex" "reqs p = Some rs" "q \<in> set rs" "\<not> capreq_is_rpmlib q" "cr_name q = cr_name cap"
    "\<not> pkg_satisfies_req E P D p cap True"
    using k1(7) [OF refl that] sub by blast
qed

end

end
