(* ===== verification/Pset.thy ===== *)
theory Pset
  imports Pkgdb Pkgset_State
begin

text \<open>
  The package set as a database of installed packages: the module pset of pm/pset/pset.c, for
  searches over pkgset.c. A header is a package of the set, its record number a serial number.
\<close>

section \<open>State\<close>

abbreviation IMMUTABLE_REMOTESRC :: u32 where "IMMUTABLE_REMOTESRC \<equiv> 1"
abbreviation IMMUTABLE_MULTISRC :: u32 where "IMMUTABLE_MULTISRC \<equiv> 2"

text \<open>
  \<open>struct pm_psetdb\<close> with the flags of the module; \<open>pdb_dir\<close> are the packages of the one package
  directory that is written back, with its mark of a change.
\<close>

record pm_psetdb =
  pdb_ps :: pkgset
  pdb_dir :: "pkg list"
  pdb_changed :: bool
  pkgs_added :: "pkg list"
  paths_added :: "string list"
  paths_removed :: "string list"
  pdb_recno :: u32
  pdb_flags :: u32
  pdb_ts :: bool

text \<open>Opening numbers the packages that have been loaded.\<close>

fun pset_number :: "u32 \<Rightarrow> pkg list \<Rightarrow> pkg list" where
  "pset_number n [] = []"
| "pset_number n (p # ps) = p\<lparr>recno := n\<rparr> # pset_number (n + 1) ps"

definition pm_pset_opendb :: "u32 \<Rightarrow> pkg list \<Rightarrow> pkgset option \<Rightarrow> pm_psetdb option \<Rightarrow> pm_psetdb option" where
  "pm_pset_opendb fl dir src db =
     (case db of
        Some d \<Rightarrow> Some d
      | None \<Rightarrow> map_option (\<lambda>ps.
          \<lparr>pdb_ps = ps\<lparr>ps_pkgs := pset_number 1 (ps_pkgs ps)\<rparr>, pdb_dir = dir, pdb_changed = False, pkgs_added = [],
           paths_added = [], paths_removed = [], pdb_recno = 1 + word_of_nat (length (ps_pkgs ps)), pdb_flags = fl,
           pdb_ts = False\<rparr>) src)"

section \<open>Iterators and headers\<close>

fun pset_tag :: "pkgdb_it_tag \<Rightarrow> search_tag" where
  "pset_tag PMTAG_RECNO = ST_RECNO"
| "pset_tag PMTAG_NAME = ST_NAME"
| "pset_tag PMTAG_FILE = ST_FILE"
| "pset_tag PMTAG_DIRNAME = ST_FILE"
| "pset_tag PMTAG_CAP = ST_CAP"
| "pset_tag PMTAG_REQ = ST_REQ"
| "pset_tag PMTAG_CNFL = ST_CNFL"
| "pset_tag PMTAG_OBSL = ST_OBSL"

definition pset_rec :: "pkg \<Rightarrow> pkg pm_dbrec" where
  "pset_rec p = \<lparr>db_recno = recno p, db_hdr = p\<rparr>"

definition psetdb_it ::
  "penv \<Rightarrow> psenv \<Rightarrow> arch_registry \<Rightarrow> pm_psetdb \<Rightarrow> pkgdb_it_tag \<Rightarrow> string \<Rightarrow> pkg pm_dbrec list \<times> pm_psetdb" where
  "psetdb_it E P R db tag arg =
     (let (r, ps) = pkgset_search E P R (pdb_ps db) (pset_tag tag) (Some arg)
      in (map pset_rec (case r of None \<Rightarrow> [] | Some pkgs \<Rightarrow> pkgs), db\<lparr>pdb_ps := ps\<rparr>))"

text \<open>Clones of the capabilities of a kind; \<open>None\<close> stands also for a clone that cannot be made.\<close>

fun clone_all :: "capreq list \<Rightarrow> capreq list option" where
  "clone_all [] = Some []"
| "clone_all (c # cs) =
     (case capreq_clone False c of
        Inr (Some d) \<Rightarrow> map_option ((#) d) (clone_all cs)
      | _ \<Rightarrow> None)"

definition pm_pset_ldhdr_capreqs :: "pkg \<Rightarrow> capreq_type \<Rightarrow> capreq list option" where
  "pm_pset_ldhdr_capreqs p ty =
     Option.bind (case ty of PMCAP_CAP \<Rightarrow> caps p | PMCAP_REQ \<Rightarrow> reqs p | PMCAP_CNFL \<Rightarrow> cnfls p | PMCAP_OBSL \<Rightarrow> cnfls p)
       (\<lambda>crs. clone_all (case ty of
          PMCAP_CNFL \<Rightarrow> filter (\<lambda>c. \<not> capreq_is_obsl c) crs | PMCAP_OBSL \<Rightarrow> filter capreq_is_obsl crs | _ \<Rightarrow> crs))"

definition pm_pset_hdr_nevr :: "pkg \<Rightarrow> (string \<times> u32 \<times> string \<times> string) option" where
  "pm_pset_hdr_nevr p = Some (name p, epoch p, ver p, rel p)"

text \<open>The module; committing a transaction copies and removes files, which is not modelled.\<close>

definition pset_module ::
  "penv \<Rightarrow> psenv \<Rightarrow> arch_registry \<Rightarrow> u32 \<Rightarrow> pkg list \<Rightarrow> pkgset option \<Rightarrow> bool \<Rightarrow> (pm_psetdb, pkg) pm_module" where
  "pset_module E P R fl dir src rpm41 =
     \<lparr>pm_dbopen = (\<lambda>db mode. pm_pset_opendb fl dir src db), pm_dbclose = (\<lambda>db. db),
      pm_dbtxbegin = (\<lambda>db. db\<lparr>pdb_ts := True\<rparr>), pm_dbtxcommit = (\<lambda>db. db\<lparr>pdb_ts := False\<rparr>),
      pm_it_init = psetdb_it E P R, hdr_nevr = pm_pset_hdr_nevr, hdr_ld = (\<lambda>p ldflags. Some p),
      hdr_ld_capreqs = pm_pset_ldhdr_capreqs, have_rpm_4_1 = rpm41\<rparr>"

section \<open>Installing and removing\<close>

definition is_immutable :: "pm_psetdb \<Rightarrow> bool" where
  "is_immutable db \<longleftrightarrow> pdb_flags db AND (IMMUTABLE_REMOTESRC OR IMMUTABLE_MULTISRC) \<noteq> 0"

definition dir_find :: "penv \<Rightarrow> psenv \<Rightarrow> arch_registry \<Rightarrow> pkg list \<Rightarrow> pkg \<Rightarrow> int \<times> pkg list" where
  "dir_find E P R pkgs p = ps_find E P R (pkgset_new\<lparr>ps_pkgs := pkgs\<rparr>) p"

definition pkgdir_add_package ::
  "penv \<Rightarrow> psenv \<Rightarrow> arch_registry \<Rightarrow> pkg list \<times> bool \<Rightarrow> pkg \<Rightarrow> bool \<times> pkg list \<times> bool" where
  "pkgdir_add_package E P R dir p =
     (let (i, pkgs) = dir_find E P R (fst dir) p in
      if i \<noteq> - 1 then (False, pkgs, snd dir)
      else (True, isort (pkg_cmp_name_evr_rev E R) (pkgs @ [p\<lparr>recno := 0\<rparr>]), True))"

definition pkgdir_remove_package ::
  "penv \<Rightarrow> psenv \<Rightarrow> arch_registry \<Rightarrow> pkg list \<times> bool \<Rightarrow> pkg \<Rightarrow> bool \<times> pkg list \<times> bool" where
  "pkgdir_remove_package E P R dir p =
     (let (i, pkgs) = dir_find E P R (fst dir) p in
      if i < 0 then (False, pkgs, snd dir)
      else (True, take (nat i) pkgs @ drop (nat i + 1) pkgs, True))"

text \<open>
  \<open>path\<close> is the path of a package in its directory, where it has one. A package that is not in the
  directory, or not to be removed from the set, ends the program (\<open>None\<close>).
\<close>

fun pset_remove_loop ::
  "penv \<Rightarrow> psenv \<Rightarrow> arch_registry \<Rightarrow> (pkg \<Rightarrow> string option) \<Rightarrow> pkg list \<Rightarrow> pm_psetdb \<Rightarrow> pm_psetdb option" where
  "pset_remove_loop E P R path [] db = Some db"
| "pset_remove_loop E P R path (p # ps) db =
     (case path p of
        None \<Rightarrow> pset_remove_loop E P R path ps db
      | Some s \<Rightarrow>
          let (i, pkgs) = dir_find E P R (pdb_dir db) p in
          if i = - 1 then None
          else let tmp = (pkgs ! nat i)\<lparr>recno := 0\<rparr> in
               Option.bind (pkgset_remove_package E P R (pdb_ps db) tmp) (\<lambda>(_, ps').
                 let (_, dir, ch) = pkgdir_remove_package E P R (pkgs, pdb_changed db) tmp
                 in pset_remove_loop E P R path ps
                      (db\<lparr>pdb_ps := ps', pdb_dir := dir, pdb_changed := ch, paths_removed := paths_removed db @ [s]\<rparr>)))"

definition pm_pset_packages_uninstall ::
  "penv \<Rightarrow> psenv \<Rightarrow> arch_registry \<Rightarrow> (pkg \<Rightarrow> string option) \<Rightarrow> bool \<Rightarrow> pkg list \<Rightarrow> pm_psetdb \<Rightarrow> (bool \<times> pm_psetdb) option" where
  "pm_pset_packages_uninstall E P R path rpmtest pkgs db =
     (if rpmtest then Some (True, db)
      else if is_immutable db then Some (False, db)
      else map_option (Pair True) (pset_remove_loop E P R path pkgs db))"

text \<open>
  \<open>localpath\<close> is the path of a downloaded package, \<open>link\<close> the copy of it that waits for the commit,
  where it can be made.
\<close>

fun pset_install_loop ::
  "penv \<Rightarrow> psenv \<Rightarrow> arch_registry \<Rightarrow> (pkg \<Rightarrow> string option) \<Rightarrow> (string \<Rightarrow> string option) \<Rightarrow> bool \<Rightarrow> pkg list \<Rightarrow>
   pm_psetdb \<Rightarrow> bool \<times> pm_psetdb" where
  "pset_install_loop E P R localpath link justdb [] db = (True, db)"
| "pset_install_loop E P R localpath link justdb (p # ps) db =
     (case localpath p of
        None \<Rightarrow> pset_install_loop E P R localpath link justdb ps db
      | Some s \<Rightarrow>
          let q = p\<lparr>recno := pdb_recno db\<rparr>;
              (_, ps') = pkgset_add_package E P R (pdb_ps db) q;
              (_, dir, ch) = pkgdir_add_package E P R (pdb_dir db, pdb_changed db) q;
              db1 = db\<lparr>pdb_ps := ps', pdb_dir := map (\<lambda>d. if addr d = addr p then d\<lparr>recno := pdb_recno db\<rparr> else d) dir,
                       pdb_changed := ch, pdb_recno := pdb_recno db + 1, pkgs_added := pkgs_added db @ [q]\<rparr>
          in case (if justdb then Some s else link s) of
               None \<Rightarrow> (False, db1)
             | Some s' \<Rightarrow> pset_install_loop E P R localpath link justdb ps (db1\<lparr>paths_added := paths_added db1 @ [s']\<rparr>))"

definition pm_pset_packages_install ::
  "penv \<Rightarrow> psenv \<Rightarrow> arch_registry \<Rightarrow> (pkg \<Rightarrow> string option) \<Rightarrow> (pkg \<Rightarrow> string option) \<Rightarrow> (string \<Rightarrow> string option) \<Rightarrow>
   bool \<Rightarrow> bool \<Rightarrow> pkg list \<Rightarrow> pkg list \<Rightarrow> pm_psetdb \<Rightarrow> (bool \<times> pm_psetdb) option" where
  "pm_pset_packages_install E P R path localpath link rpmtest justdb pkgs toremove db =
     (if rpmtest then Some (True, db)
      else if is_immutable db then Some (False, db)
      else map_option (\<lambda>(_, db'). pset_install_loop E P R localpath link justdb pkgs db')
             (pm_pset_packages_uninstall E P R path rpmtest toremove db))"

section \<open>Sets whose indexes are built\<close>

text \<open>The names a package stands under in the indexes of requirements, obsoletes and conflicts.\<close>

definition reqs_of :: "pkg \<Rightarrow> capreq list" where
  "reqs_of p = filter (\<lambda>r. \<not> capreq_is_rpmlib r) (case reqs p of None \<Rightarrow> [] | Some rs \<Rightarrow> rs)"

definition obsls_of :: "pkg \<Rightarrow> capreq list" where
  "obsls_of p = filter capreq_is_obsl (case cnfls p of None \<Rightarrow> [] | Some cs \<Rightarrow> cs)"

definition cnfls_of :: "pkg \<Rightarrow> capreq list" where
  "cnfls_of p = filter (\<lambda>c. \<not> capreq_is_obsl c) (case cnfls p of None \<Rightarrow> [] | Some cs \<Rightarrow> cs)"

definition kind_exact :: "(pkg \<Rightarrow> capreq list) \<Rightarrow> pkg set \<Rightarrow> capreq_idx \<Rightarrow> bool" where
  "kind_exact f S ix \<longleftrightarrow> idx_ok ix \<and> idx_flags ix = CAPREQ_IDX_REQ \<and>
     (\<forall>nm. set (idx_pkgs ix nm) = {p \<in> S. indexable_cap nm \<and> nm \<in> cr_name ` set (f p)})"

text \<open>Both kinds of indexes built, over the packages of the set and nothing else.\<close>

definition ps_ready :: "penv \<Rightarrow> psenv \<Rightarrow> pkgset \<Rightarrow> bool" where
  "ps_ready E P ps \<longleftrightarrow> ps_good E ps \<and> pkgs_held P (set (ps_pkgs ps)) ps \<and>
     (\<exists>ix. req_idx ps = Some ix \<and> kind_exact reqs_of (set (ps_pkgs ps)) ix) \<and>
     (\<exists>ix. obs_idx ps = Some ix \<and> kind_exact obsls_of (set (ps_pkgs ps)) ix) \<and>
     (\<exists>ix. cnfl_idx ps = Some ix \<and> kind_exact cnfls_of (set (ps_pkgs ps)) ix)"

text \<open>Indexing by requirement.\<close>

abbreviation index_names :: "(pkg \<Rightarrow> capreq list) \<Rightarrow> capreq_idx \<Rightarrow> pkg list \<Rightarrow> capreq_idx" where
  "index_names f ix pkgs \<equiv> foldl (\<lambda>ix p. foldl (\<lambda>ix c. capreq_idx_add ix (cr_name c) p) ix (f p)) ix pkgs"

lemma index_reqs_fold:
  "req_idx (foldl (\<lambda>ps p. index_package_reqs p ps) ps pkgs) = map_option (\<lambda>ix. index_names reqs_of ix pkgs) (req_idx ps)"
  "obs_idx (foldl (\<lambda>ps p. index_package_reqs p ps) ps pkgs) = map_option (\<lambda>ix. index_names obsls_of ix pkgs) (obs_idx ps)"
  "cnfl_idx (foldl (\<lambda>ps p. index_package_reqs p ps) ps pkgs) = map_option (\<lambda>ix. index_names cnfls_of ix pkgs) (cnfl_idx ps)"
  "file_idx (foldl (\<lambda>ps p. index_package_reqs p ps) ps pkgs) = file_idx ps"
  "req_cache (foldl (\<lambda>ps p. index_package_reqs p ps) ps pkgs) = req_cache ps"
  by (induction pkgs arbitrary: ps)
     (simp_all add: index_package_reqs_def Let_def option.map_comp comp_def reqs_of_def obsls_of_def cnfls_of_def option.map_ident)

lemma index_one_names:
  assumes "idx_ok ix" "idx_flags ix = CAPREQ_IDX_REQ" "small_addr p"
  shows "idx_ok (foldl (\<lambda>ix c. capreq_idx_add ix (cr_name c) p) ix cs) \<and>
    idx_flags (foldl (\<lambda>ix c. capreq_idx_add ix (cr_name c) p) ix cs) = CAPREQ_IDX_REQ \<and>
    set (idx_pkgs (foldl (\<lambda>ix c. capreq_idx_add ix (cr_name c) p) ix cs) nm) =
      set (idx_pkgs ix nm) \<union> (if indexable_cap nm \<and> nm \<in> cr_name ` set cs then {p} else {})"
  using assms
proof (induction cs arbitrary: ix)
  case (Cons c cs)
  let ?ix = "capreq_idx_add ix (cr_name c) p"
  have sk: "skipped ix (cr_name c) \<longleftrightarrow> \<not> indexable_cap (cr_name c)" using Cons.prems(2) by (simp add: skipped_def)
  show ?case
  proof (cases "indexable_cap (cr_name c)")
    case False
    then have "?ix = ix" using sk by (intro idx_add_skipped) simp
    then show ?thesis using Cons.IH [OF Cons.prems] False by auto
  next
    case True
    then have s: "\<not> skipped ix (cr_name c)" using sk by simp
    have "set (idx_pkgs ?ix nm) = set (idx_pkgs ix nm) \<union> (if nm = cr_name c then {p} else {})"
      using idx_add(2) [OF Cons.prems(1,3) s] idx_add_other [of nm "cr_name c"] Cons.prems(2)
      by (cases "nm = cr_name c") auto
    then show ?thesis
      using Cons.IH [OF idx_add(1) [OF Cons.prems(1,3) s]] Cons.prems(2,3) True by auto
  qed
qed simp

lemma index_names:
  assumes "kind_exact f S ix" "\<forall>p \<in> set pkgs. small_addr p"
  shows "kind_exact f (S \<union> set pkgs) (index_names f ix pkgs)"
  using assms
proof (induction pkgs arbitrary: S ix)
  case (Cons p pkgs)
  have ix: "idx_ok ix" "idx_flags ix = CAPREQ_IDX_REQ" "small_addr p"
    "\<And>nm. set (idx_pkgs ix nm) = {p \<in> S. indexable_cap nm \<and> nm \<in> cr_name ` set (f p)}"
    using Cons.prems by (auto simp: kind_exact_def)
  have "kind_exact f (insert p S) (foldl (\<lambda>ix c. capreq_idx_add ix (cr_name c) p) ix (f p))"
    unfolding kind_exact_def using index_one_names [OF ix(1-3), of "f p"] ix(4) by auto
  from Cons.IH [OF this] show ?case using Cons.prems(2) by simp
qed simp

lemma kind_exact_init: "kind_exact f {} (capreq_idx_init CAPREQ_IDX_REQ)"
  by (simp add: kind_exact_def idx_ok_init) (simp add: capreq_idx_init_def)


lemma index_caps_reqs [simp]: "req_idx (foldl (\<lambda>ps p. index_package_caps p ps) ps pkgs) = req_idx ps"
  by (induction pkgs arbitrary: ps) (simp_all add: index_package_caps_def)

text \<open>Building both indexes makes a set of distinct packages ready.\<close>

lemma prepared_reqs [simp]:
  "reqs (sort_pkg_caps E (pkg_add_selfcap E p)) = reqs p" "cnfls (sort_pkg_caps E (pkg_add_selfcap E p)) = cnfls p"
  by (simp_all add: sort_pkg_caps_def pkg_add_selfcap_def Let_def split: prod.splits option.splits)

lemma indexes_ready:
  assumes "pkgs_ok E (ps_pkgs ps)" "cap_idx ps = None" "req_idx ps = None" "req_cache ps = None"
    and "\<forall>d. set (dirindex_get P d) \<subseteq> set (ps_pkgs (pkgset_index_caps E ps))"
  shows "ps_ready E P (pkgset_index_reqs (pkgset_index_caps E ps))"
proof -
  let ?ps = "pkgset_index_caps E ps"
  have g: "ps_good E ?ps" using index_caps_good [of E ps] assms(1,2) by (simp add: ps_good_def)
  have h: "pkgs_held P (set (ps_pkgs ?ps)) ?ps"
    using assms by (intro index_caps_held) (auto simp: pkgs_ok_def)
  have small: "\<forall>p \<in> set (ps_pkgs ?ps). small_addr p" using g by (simp add: ps_good_def pkgs_ok_def)
  have r: "req_idx ?ps = None"
    using assms(2,3) by (simp add: pkgset_index_caps_def Let_def)
  note k = index_names [OF kind_exact_init small, unfolded Un_empty_left]
  have "ps_good E (pkgset_index_reqs ?ps)" using g good_same [of "pkgset_index_reqs ?ps" ?ps E] by simp
  moreover have "pkgs_held P (set (ps_pkgs ?ps)) (pkgset_index_reqs ?ps)"
    using h by (simp add: pkgs_held_def pkgset_index_reqs_def r index_reqs_fold del: index_caps_caches)
      (use h index_reqs_same(2) [of ?ps] in \<open>simp add: pkgs_held_def pkgset_index_reqs_def r\<close>)
  moreover have "req_idx (pkgset_index_reqs ?ps) = Some (index_names reqs_of (capreq_idx_init CAPREQ_IDX_REQ) (ps_pkgs ?ps))"
    "obs_idx (pkgset_index_reqs ?ps) = Some (index_names obsls_of (capreq_idx_init CAPREQ_IDX_REQ) (ps_pkgs ?ps))"
    "cnfl_idx (pkgset_index_reqs ?ps) = Some (index_names cnfls_of (capreq_idx_init CAPREQ_IDX_REQ) (ps_pkgs ?ps))"
    by (simp_all add: pkgset_index_reqs_def r index_reqs_fold)
  ultimately show ?thesis using k unfolding ps_ready_def index_reqs_same by simp
qed

section \<open>Searching a ready set\<close>

definition searched :: "penv \<Rightarrow> psenv \<Rightarrow> pkgset \<Rightarrow> pkg list \<times> pkgset \<Rightarrow> bool" where
  "searched E P ps r \<longleftrightarrow> ps_ready E P (snd r) \<and> set (ps_pkgs (snd r)) = set (ps_pkgs ps) \<and> set (fst r) \<subseteq> set (ps_pkgs ps)"

lemma look_kind:
  assumes "kind_exact f S i" "look (Some i) nm = (r, ix)"
  shows "set r = {p \<in> S. indexable_cap nm \<and> nm \<in> cr_name ` set (f p)}" "\<exists>i'. ix = Some i' \<and> kind_exact f S i'"
proof -
  have i: "idx_ok i" "idx_flags i = CAPREQ_IDX_REQ"
    "\<And>nm. set (idx_pkgs i nm) = {p \<in> S. indexable_cap nm \<and> nm \<in> cr_name ` set (f p)}"
    using assms(1) by (auto simp: kind_exact_def)
  obtain o1 i' where l: "capreq_idx_lookup i nm = (o1, i')" by fastforce
  have o1: "o1 = (if idx_pkgs i nm = [] then None else Some (idx_pkgs i nm))" "idx_ok i'" "idx_pkgs i' = idx_pkgs i"
    using idx_lookup [OF i(1), of nm] l by simp_all
  have "idx_flags i' = CAPREQ_IDX_REQ"
    using l i(2) by (auto simp: capreq_idx_lookup_def Let_def split: option.splits if_splits)
  moreover have "r = idx_pkgs i nm" "ix = Some i'" using assms(2) l o1(1) by (auto simp: look_def split: if_splits)
  ultimately show "set r = {p \<in> S. indexable_cap nm \<and> nm \<in> cr_name ` set (f p)}" "\<exists>i'. ix = Some i' \<and> kind_exact f S i'"
    using i o1 by (simp_all add: kind_exact_def)
qed


lemma ready_ids:
  "ps_ready E P ps \<Longrightarrow> pkgset_index_caps E ps = ps" "ps_ready E P ps \<Longrightarrow> pkgset_index_reqs ps = ps"
  by (auto simp: ps_ready_def pkgs_held_def pkgset_index_caps_def pkgset_index_reqs_def)

lemma find_capreq_cap:
  assumes "ps_ready E P ps" "find_capreq E ps ST_CAP nm = (r, ps')"
  shows "searched E P ps (r, ps')" "nm \<noteq> ''elf(buildid)'' \<Longrightarrow> set r = {p \<in> set (ps_pkgs ps). provides_name nm p}"
proof -
  obtain ix where l: "look (cap_idx ps) nm = (r, ix)" "ps' = ps\<lparr>cap_idx := ix\<rparr>"
    using assms by (auto simp: find_capreq_def ready_ids split: prod.splits)
  have "ps_good E ps'" using assms(1) good_look [OF _ l(1), of E] l(2) by (simp add: ps_ready_def)
  moreover have "set r \<subseteq> set (ps_pkgs ps)" "pkgs_held P (set (ps_pkgs ps)) ps'"
    using look_held [OF _ l(1)] assms(1) l(2) by (auto simp: ps_ready_def)
  ultimately show "searched E P ps (r, ps')" using assms(1) l(2) by (simp add: searched_def ps_ready_def)
  have "indexed ps" using assms(1) by (intro good_indexed) (auto simp: ps_ready_def pkgs_held_def)
  then show "set r = {p \<in> set (ps_pkgs ps). provides_name nm p}" if "nm \<noteq> ''elf(buildid)''"
    by (rule look_indexed(1) [OF _ that l(1)])
qed

lemma find_capreq_kinds:
  assumes "ps_ready E P ps" "tag \<noteq> ST_CAP" "find_capreq E ps tag nm = (r, ps')"
  shows "searched E P ps (r, ps')"
    "tag = ST_REQ \<Longrightarrow> set r = {p \<in> set (ps_pkgs ps). indexable_cap nm \<and> nm \<in> cr_name ` set (reqs_of p)}"
proof -
  obtain i j k where ix: "req_idx ps = Some i" "kind_exact reqs_of (set (ps_pkgs ps)) i"
    "obs_idx ps = Some j" "kind_exact obsls_of (set (ps_pkgs ps)) j"
    "cnfl_idx ps = Some k" "kind_exact cnfls_of (set (ps_pkgs ps)) k"
    using assms(1) by (auto simp: ps_ready_def)
  have good: "ps_good E (ps\<lparr>req_idx := a, obs_idx := b, cnfl_idx := c\<rparr>)" for a b c
    using assms(1) good_same [of "ps\<lparr>req_idx := a, obs_idx := b, cnfl_idx := c\<rparr>" ps E] by (simp add: ps_ready_def)
  have held: "pkgs_held P A (ps\<lparr>req_idx := a, obs_idx := b, cnfl_idx := c\<rparr>) = pkgs_held P A ps" for A a b c
    by (simp add: pkgs_held_def)
  consider (req) ix' where "tag = ST_REQ" "look (Some i) nm = (r, ix')" "ps' = ps\<lparr>req_idx := ix'\<rparr>"
    | (obs) ix' where "tag = ST_OBSL" "look (Some j) nm = (r, ix')" "ps' = ps\<lparr>obs_idx := ix'\<rparr>"
    | (cnfl) ix' where "tag \<noteq> ST_REQ" "look (Some k) nm = (r, ix')" "ps' = ps\<lparr>cnfl_idx := ix'\<rparr>"
    using assms ix by (auto simp: find_capreq_def ready_ids Let_def split: prod.splits if_splits)
  then have "searched E P ps (r, ps') \<and>
      (tag = ST_REQ \<longrightarrow> set r = {p \<in> set (ps_pkgs ps). indexable_cap nm \<and> nm \<in> cr_name ` set (reqs_of p)})"
  proof cases
    case req
    note l = look_kind [OF ix(2) req(2)]
    have e: "ps' = ps\<lparr>req_idx := ix', obs_idx := obs_idx ps, cnfl_idx := cnfl_idx ps\<rparr>" using req(3) by simp
    have "searched E P ps (r, ps')"
      using l ix assms(1) good held unfolding e by (auto simp: searched_def ps_ready_def)
    then show ?thesis using l(1) by simp
  next
    case obs
    note l = look_kind [OF ix(4) obs(2)]
    have e: "ps' = ps\<lparr>req_idx := req_idx ps, obs_idx := ix', cnfl_idx := cnfl_idx ps\<rparr>" using obs(3) by simp
    have "searched E P ps (r, ps')"
      using l ix assms(1) good held unfolding e by (auto simp: searched_def ps_ready_def)
    then show ?thesis using obs(1) by simp
  next
    case cnfl
    note l = look_kind [OF ix(6) cnfl(2)]
    have e: "ps' = ps\<lparr>req_idx := req_idx ps, obs_idx := obs_idx ps, cnfl_idx := ix'\<rparr>" using cnfl(3) by simp
    have "searched E P ps (r, ps')"
      using l ix assms(1) good held unfolding e by (auto simp: searched_def ps_ready_def)
    then show ?thesis using cnfl(1) by simp
  qed
  then show "searched E P ps (r, ps')"
    "tag = ST_REQ \<Longrightarrow> set r = {p \<in> set (ps_pkgs ps). indexable_cap nm \<and> nm \<in> cr_name ` set (reqs_of p)}" by blast+
qed

context ps_env
begin

lemma ready_sorted:
  assumes "ps_ready E P ps"
  shows "ps_ready E P (ps_sorted E P R ps)" "set (ps_pkgs (ps_sorted E P R ps)) = set (ps_pkgs ps)"
proof -
  show s: "set (ps_pkgs (ps_sorted E P R ps)) = set (ps_pkgs ps)"
    using sorted_arrays.set_nsort [OF pk_arrays] by (simp add: ps_sorted_def)
  have "pkgs_held P A (ps_sorted E P R ps) = pkgs_held P A ps" for A by (simp add: pkgs_held_def ps_sorted_def)
  moreover have "ps_good E (ps_sorted E P R ps)" using assms by (intro sorted_good) (simp add: ps_ready_def)
  ultimately show "ps_ready E P (ps_sorted E P R ps)"
    using assms s by (simp add: ps_ready_def) (simp add: ps_sorted_def)
qed

lemma search_file_ready:
  assumes "ps_ready E P ps" "search_file E P R ps v = (r, ps')"
  shows "searched E P ps (r, ps')"
proof (cases "v = [] \<or> hd v \<noteq> CHR ''/''")
  case True
  then have "r = []" "ps' = ps" using assms by (auto simp: search_file_def ready_ids)
  then show ?thesis using assms(1) by (simp add: searched_def)
next
  case False
  obtain buf fi where f: "file_index_lookup P (file_idx ps) v 1024 = (buf, fi)" by fastforce
  have h: "pkgs_held P (set (ps_pkgs ps)) ps" using assms(1) by (simp add: ps_ready_def)
  note l = file_lookup_held [OF h f]
  have r: "r = (if buf \<noteq> [] then buf else do_search_provdir E P R (ps\<lparr>file_idx := fi\<rparr>) v)" "ps' = ps\<lparr>file_idx := fi\<rparr>"
    using assms False f by (auto simp: search_file_def ready_ids Let_def split: if_splits)
  have "set (do_search_provdir E P R ps1 v) \<subseteq> set (ps_pkgs ps)" for ps1
    using h by (auto simp: do_search_provdir_def pkgs_held_def)
  then show ?thesis using r l assms(1) by (simp add: searched_def ps_ready_def)
qed

lemma find_package_ready:
  assumes "ps_ready E P ps" "find_package E P R ps v = (r, ps')"
  shows "searched E P ps (r, ps')"
proof -
  have "r = [] \<or> (\<exists>f n. r = takeWhile f (drop n (ps_pkgs (ps_sorted E P R ps))))" "ps' = ps_sorted E P R ps"
    using assms(2) by (auto simp: find_package_def Let_def split: if_splits)
  moreover have "set (takeWhile f (drop n xs)) \<subseteq> set xs" for f n and xs :: "pkg list"
    by (meson in_set_dropD set_takeWhileD subsetI)
  ultimately have "set r \<subseteq> set (ps_pkgs (ps_sorted E P R ps))" "ps' = ps_sorted E P R ps" by (metis empty_set empty_subsetI)+
  then show ?thesis using ready_sorted [OF assms(1), of R] by (simp add: searched_def)
qed

text \<open>
  A search answers packages of the set and keeps the set ready; by a capability it answers all that
  provide it, by a requirement all that have it and are indexed.
\<close>

lemma search_ready:
  assumes "ps_ready E P ps" "tag \<noteq> ST_PROVIDES" "pkgset_search E P R ps tag (Some v) = (r, ps')"
  shows "searched E P ps (case r of None \<Rightarrow> [] | Some l \<Rightarrow> l, ps')"
    "tag = ST_CAP \<Longrightarrow> v \<noteq> ''elf(buildid)'' \<Longrightarrow> p \<in> set (ps_pkgs ps) \<Longrightarrow> provides_name v p \<Longrightarrow> \<exists>l. r = Some l \<and> p \<in> set l"
    "tag = ST_REQ \<Longrightarrow> p \<in> set (ps_pkgs ps) \<Longrightarrow> indexable_cap v \<Longrightarrow> v \<in> cr_name ` set (reqs_of p) \<Longrightarrow>
       \<exists>l. r = Some l \<and> p \<in> set l"
proof -
  let ?ps = "ps_sorted E P R ps"
  note rs = ready_sorted [OF assms(1), of R]
  obtain l ps1 where l: "(case tag of ST_RECNO \<Rightarrow> ([], ?ps) | ST_NAME \<Rightarrow> find_package E P R ?ps v
      | ST_FILE \<Rightarrow> search_file E P R ?ps v | _ \<Rightarrow> find_capreq E ?ps tag v) = (l, ps1)" by fastforce
  have r: "r = (if l = [] then None else Some l)" "ps' = ps1"
    using assms(2,3) l by (cases tag; simp add: pkgset_search_def Let_def)+
  have rl: "(case r of None \<Rightarrow> [] | Some l \<Rightarrow> l) = l" using r(1) by simp
  have "searched E P ?ps (l, ps1)"
  proof (cases tag)
    case ST_RECNO
    then show ?thesis using l rs(1) by (auto simp: searched_def)
  next
    case ST_NAME
    then show ?thesis using l find_package_ready [OF rs(1)] by simp
  next
    case ST_FILE
    then show ?thesis using l search_file_ready [OF rs(1)] by simp
  next
    case ST_CAP
    then show ?thesis using l find_capreq_cap(1) [OF rs(1)] by simp
  next
    case ST_PROVIDES
    then show ?thesis using assms(2) by simp
  qed (use l find_capreq_kinds(1) [OF rs(1), of tag v l ps1] in simp_all)
  then show "searched E P ps (case r of None \<Rightarrow> [] | Some l \<Rightarrow> l, ps')"
    unfolding rl r(2) using rs(2) by (simp add: searched_def)
  show "\<exists>l. r = Some l \<and> p \<in> set l" if "tag = ST_CAP" "v \<noteq> ''elf(buildid)''" "p \<in> set (ps_pkgs ps)" "provides_name v p"
    using find_capreq_cap(2) [OF rs(1), of v l ps1] l that rs(2) r(1) by auto
  show "\<exists>l. r = Some l \<and> p \<in> set l"
    if "tag = ST_REQ" "p \<in> set (ps_pkgs ps)" "indexable_cap v" "v \<in> cr_name ` set (reqs_of p)"
    using find_capreq_kinds(2) [OF rs(1), of ST_REQ v l ps1] l that rs(2) r(1) by auto
qed

end

section \<open>The contract of the module\<close>

text \<open>
  The states the contract speaks of: indexes built, packages numbered and with the capability of
  their own name, whose capabilities can be cloned. Loading marks the package in the set itself as
  one of the database (PKG\_DBPKG), which no search reads.
\<close>

definition pset_good :: "penv \<Rightarrow> psenv \<Rightarrow> pm_psetdb \<Rightarrow> bool" where
  "pset_good E P db \<longleftrightarrow> ps_ready E P (pdb_ps db) \<and> inj_on recno (set (ps_pkgs (pdb_ps db))) \<and>
     (\<forall>p \<in> set (ps_pkgs (pdb_ps db)). nonneg32 (recno p) \<and> flags p AND PKG_HAS_SELFCAP \<noteq> 0 \<and>
        (\<exists>cs cs'. caps p = Some cs \<and> clone_all cs = Some cs' \<and> map cr_name cs' = map cr_name cs))"

definition pset_held :: "pm_psetdb \<Rightarrow> pkg pm_dbrec set" where
  "pset_held db = pset_rec ` set (ps_pkgs (pdb_ps db))"

definition pset_plain :: "string \<Rightarrow> bool" where
  "pset_plain v \<longleftrightarrow> v \<noteq> ''elf(buildid)'' \<and> indexable_cap v"

lemma load_pset:
  assumes "flags p AND PKG_HAS_SELFCAP \<noteq> 0"
  shows "load_pkg E (pset_module E P R fl dir src rpm41) (pset_rec p) l = Some (p\<lparr>flags := flags p OR PKG_DBPKG\<rparr>)"
proof -
  have "pkg_add_selfcap E p = p" using assms by (simp add: pkg_add_selfcap_def)
  then show ?thesis by (simp add: load_pkg_def pset_module_def pset_rec_def)
qed

context ps_env
begin

lemma psetdb_it_ready:
  assumes good: "pset_good E P s" and it: "pm_it_init (pset_module E P R fl dir src rpm41) s tag v = (rs, s')"
  shows "pset_good E P s' \<and> pset_held s' = pset_held s \<and> set rs \<subseteq> pset_held s"
    "tag = PMTAG_CAP \<Longrightarrow> v \<noteq> ''elf(buildid)'' \<Longrightarrow> p \<in> set (ps_pkgs (pdb_ps s)) \<Longrightarrow> provides_name v p \<Longrightarrow> pset_rec p \<in> set rs"
    "tag = PMTAG_REQ \<Longrightarrow> p \<in> set (ps_pkgs (pdb_ps s)) \<Longrightarrow> indexable_cap v \<Longrightarrow> v \<in> cr_name ` set (reqs_of p) \<Longrightarrow>
       pset_rec p \<in> set rs"
proof -
  have ready: "ps_ready E P (pdb_ps s)" using good by (simp add: pset_good_def)
  obtain r ps' where r: "pkgset_search E P R (pdb_ps s) (pset_tag tag) (Some v) = (r, ps')" by fastforce
  have rs: "rs = map pset_rec (case r of None \<Rightarrow> [] | Some l \<Rightarrow> l)" "s' = s\<lparr>pdb_ps := ps'\<rparr>"
    using it r by (simp_all add: pset_module_def psetdb_it_def)
  have t: "pset_tag tag \<noteq> ST_PROVIDES" by (cases tag) simp_all
  note sr = search_ready [OF ready t r]
  then show "pset_good E P s' \<and> pset_held s' = pset_held s \<and> set rs \<subseteq> pset_held s"
    using good rs by (simp add: searched_def pset_good_def pset_held_def image_mono)
  show "pset_rec p \<in> set rs" if "tag = PMTAG_CAP" "v \<noteq> ''elf(buildid)''" "p \<in> set (ps_pkgs (pdb_ps s))" "provides_name v p"
    using sr(2) [of p] that rs(1) by auto
  show "pset_rec p \<in> set rs" if "tag = PMTAG_REQ" "p \<in> set (ps_pkgs (pdb_ps s))" "indexable_cap v" "v \<in> cr_name ` set (reqs_of p)"
    using sr(3) [of p] that rs(1) by auto
qed

lemma pset_pm_db:
  "pm_db E P (pset_module E P R fl dir src rpm41) (pset_good E P) pset_held pset_plain"
proof (unfold_locales, goal_cases)
  case (1 s tag v rs s')
  then show ?case using psetdb_it_ready(1) by blast
next
  case (2 s v rs s' r cs)
  obtain p where p: "p \<in> set (ps_pkgs (pdb_ps s))" "r = pset_rec p" using 2(4) by (auto simp: pset_held_def)
  obtain cs0 where c: "caps p = Some cs0" "clone_all cs0 = Some cs" "map cr_name cs = map cr_name cs0"
    using 2(1,5) p by (fastforce simp: pset_good_def pset_module_def pm_pset_ldhdr_capreqs_def pset_rec_def)
  have "cr_name ` set cs = cr_name ` set cs0" using arg_cong [OF c(3), of set] by simp
  then have "provides_name v p" using 2(6) c(1) by (auto simp: provides_name_def)
  then show ?case using psetdb_it_ready(2) [OF 2(1,2)] 2(3) p by (simp add: pset_plain_def)
next
  case (3 s v rs s' r p cs q)
  obtain p0 where p: "p0 \<in> set (ps_pkgs (pdb_ps s))" "r = pset_rec p0" using 3(4) by (auto simp: pset_held_def)
  then have "p = p0\<lparr>flags := flags p0 OR PKG_DBPKG\<rparr>" using 3(1,5) load_pset by (auto simp: pset_good_def)
  then have "v \<in> cr_name ` set (reqs_of p0)" using 3(6-9) by (auto simp: reqs_of_def)
  then show ?case using psetdb_it_ready(3) [OF 3(1,2)] 3(3) p by (simp add: pset_plain_def)
next
  case (4 s)
  have "inj_on db_recno (pset_rec ` set (ps_pkgs (pdb_ps s)))"
    using 4 by (auto simp: pset_good_def pset_rec_def inj_on_def)
  then show ?case using 4 by (auto simp: pset_held_def recs_ok_def pset_good_def pset_rec_def)
next
  case (5 s r)
  then show ?case using load_pset by (fastforce simp: pset_held_def pset_good_def)
next
  case (6 s r p)
  obtain p0 where p: "p0 \<in> set (ps_pkgs (pdb_ps s))" "r = pset_rec p0" using 6(2) by (auto simp: pset_held_def)
  then obtain cs cs' where c: "caps p0 = Some cs" "clone_all cs = Some cs'" "map cr_name cs' = map cr_name cs"
    "flags p0 AND PKG_HAS_SELFCAP \<noteq> 0" using 6(1) by (auto simp: pset_good_def)
  have "cr_name ` set cs' = cr_name ` set cs" using arg_cong [OF c(3), of set] by simp
  moreover have "caps p = Some cs" using load_pset [OF c(4)] 6(3) p(2) c(1) by auto
  moreover have "\<exists>c' \<in> set cs. cr_name c' = cr_name c" if "c \<in> set cs'" for c
    using calculation(1) that by (metis imageE imageI)
  ultimately show ?case using c p(2) by (auto simp: pset_module_def pm_pset_ldhdr_capreqs_def pset_rec_def provides_name_def)
qed

end

sublocale ps_env \<subseteq> pset: pm_db E P "pset_module E P R fl dir src rpm41" "pset_good E P" pset_held pset_plain
  for R fl dir src rpm41
  by (rule pset_pm_db)

section \<open>Concrete databases\<close>

text \<open>Packages opened as a database, with both kinds of indexes built.\<close>

definition ref_installed :: "pkg list \<Rightarrow> pm_psetdb" where
  "ref_installed pkgs =
     (let db = the (pm_pset_opendb 0 [] (Some (pkgset_new\<lparr>ps_pkgs := pkgs\<rparr>)) None)
      in db\<lparr>pdb_ps := pkgset_index_reqs (pkgset_index_caps ref_env (pdb_ps db))\<rparr>)"

abbreviation ref_module :: "(pm_psetdb, pkg) pm_module" where
  "ref_module \<equiv> pset_module ref_env ref_psenv arch_registry_init 0 [] None False"

abbreviation ref_db :: "pkg list \<Rightarrow> (pm_psetdb, pkg) pkgdb" where
  "ref_db pkgs \<equiv> \<lparr>dbh = ref_installed pkgs, db_filter = None\<rparr>"

definition ref_installed_ok :: "pkg list \<Rightarrow> bool" where
  "ref_installed_ok pkgs \<longleftrightarrow>
     (let qs = ps_pkgs (pdb_ps (ref_installed pkgs)) in
      distinct (map recno qs) \<and>
      list_all (\<lambda>p. nonneg32 (recno p) \<and> flags p AND PKG_HAS_SELFCAP \<noteq> 0 \<and>
        (case caps p of None \<Rightarrow> False | Some cs \<Rightarrow>
           (case clone_all cs of None \<Rightarrow> False | Some cs' \<Rightarrow> map cr_name cs' = map cr_name cs))) qs \<and>
      distinct (map addr pkgs) \<and>
      list_all (\<lambda>p. list_all (\<lambda>q. pkg_cmp_name_evr ref_env p q = 0 \<longrightarrow> addr p = addr q) pkgs) pkgs)"

lemma pset_number_set: "p \<in> set (pset_number n pkgs) \<Longrightarrow> \<exists>q \<in> set pkgs. \<exists>k. p = q\<lparr>recno := k\<rparr>"
  by (induction n pkgs rule: pset_number.induct) auto

lemma pset_number_addr [simp]: "map addr (pset_number n pkgs) = map addr pkgs"
  by (induction n pkgs rule: pset_number.induct) auto

lemma ref_installed_good:
  assumes "ref_installed_ok pkgs" "\<forall>p \<in> set pkgs. small_addr p \<and> nonneg32 (epoch p)"
  shows "pset_good ref_env ref_psenv (ref_installed pkgs)"
proof -
  let ?qs = "pset_number 1 pkgs" and ?ps = "pdb_ps (ref_installed pkgs)"
  have d: "distinct (map addr ?qs)"
    and c: "\<And>p q. p \<in> set pkgs \<Longrightarrow> q \<in> set pkgs \<Longrightarrow> pkg_cmp_name_evr ref_env p q = 0 \<Longrightarrow> addr p = addr q"
    using assms(1) by (auto simp: ref_installed_ok_def Let_def list_all_iff)
  have "p = q" if pq: "p \<in> set ?qs" "q \<in> set ?qs" "pkg_cmp_name_evr ref_env p q = 0" for p q
  proof -
    obtain p0 q0 where k: "p0 \<in> set pkgs" "q0 \<in> set pkgs" "addr p = addr p0" "addr q = addr q0"
      "pkg_cmp_name_evr ref_env p q = pkg_cmp_name_evr ref_env p0 q0"
      using pset_number_set [OF pq(1)] pset_number_set [OF pq(2)]
      by (auto simp: pkg_cmp_name_evr_def pkg_cmp_name_def pkg_cmp_evr_def Let_def)
    then have "addr p = addr q" using c pq(3) by simp
    then show ?thesis using d pq(1,2) unfolding distinct_map inj_on_def by blast
  qed
  moreover have "small_addr p \<and> nonneg32 (epoch p)" if "p \<in> set ?qs" for p
    using pset_number_set [OF that] assms(2) by (auto simp: small_addr_def)
  ultimately have ok: "pkgs_ok ref_env ?qs" using d unfolding pkgs_ok_def by blast
  have eq: "?ps = pkgset_index_reqs (pkgset_index_caps ref_env (pkgset_new\<lparr>ps_pkgs := ?qs\<rparr>))"
    by (simp add: ref_installed_def pm_pset_opendb_def Let_def)
  have "ps_ready ref_env ref_psenv ?ps"
    unfolding eq by (rule indexes_ready) (simp_all add: ok, simp_all add: pkgset_new_def ref_psenv_def)
  moreover have "nonneg32 (recno p) \<and> flags p AND PKG_HAS_SELFCAP \<noteq> 0 \<and>
      (\<exists>cs cs'. caps p = Some cs \<and> clone_all cs = Some cs' \<and> map cr_name cs' = map cr_name cs)"
    if "p \<in> set (ps_pkgs ?ps)" for p
  proof -
    have "(case caps p of None \<Rightarrow> False | Some cs \<Rightarrow>
        (case clone_all cs of None \<Rightarrow> False | Some cs' \<Rightarrow> map cr_name cs' = map cr_name cs))"
      "nonneg32 (recno p) \<and> flags p AND PKG_HAS_SELFCAP \<noteq> 0"
      using assms(1) that unfolding ref_installed_ok_def Let_def list_all_iff by blast+
    then show ?thesis by (auto split: option.splits)
  qed
  moreover have "inj_on recno (set (ps_pkgs ?ps))"
    using assms(1) unfolding ref_installed_ok_def Let_def distinct_map by blast
  ultimately show ?thesis unfolding pset_good_def by blast
qed

lemma ref_installed_two: "ref_installed_ok [ref_pkg 3 ''app'' [] [ref_cap ''lib''], ref_pkg 4 ''lib'' [] []]"
  by code_simp

section \<open>Properties\<close>

text \<open>C37: A package set with its indexes built keeps the contract of a database of installed packages:
  iterating yields its packages only and leaves them as they are, by a capability or a requirement
  all of them, under different record numbers, and every package can be loaded.\<close>

theorem pset_module_keeps_contract:
  assumes "ps_env E P"
  shows "pm_db E P (pset_module E P R fl dir src rpm41) (pset_good E P) pset_held pset_plain"
  by (rule ps_env.pset_pm_db [OF assms])

theorem pset_module_keeps_contract_witness:
  "pm_db ref_env ref_psenv ref_module (pset_good ref_env ref_psenv) pset_held pset_plain \<and>
    pset_good ref_env ref_psenv (ref_installed [ref_pkg 3 ''app'' [] [ref_cap ''lib''], ref_pkg 4 ''lib'' [] []])"
proof
  show "pm_db ref_env ref_psenv ref_module (pset_good ref_env ref_psenv) pset_held pset_plain"
    by (rule pset_module_keeps_contract [OF ref_ps.ps_env_axioms])
  show "pset_good ref_env ref_psenv (ref_installed [ref_pkg 3 ''app'' [] [ref_cap ''lib''], ref_pkg 4 ''lib'' [] []])"
    by (rule ref_installed_good [OF ref_installed_two]) (simp add: small_addr_def nonneg32_def)
qed

text \<open>C38: Asking the database for a requirement on a name answers whether an installed package, not
  excluded by its record number, has capabilities that match it; nothing installed changes, and the
  array of excluded packages but for its order.\<close>

theorem pkgdb_match_req_exact:
  assumes "pm_db E P M good held plain" and "db_ok good db" and "ex_ok ex"
    and "pkgdb_match_req E P M db req fl ex = ((b, ex'), db')" and "\<not> capreq_is_file req" and "plain (cr_name req)"
  shows "(b \<longleftrightarrow> (\<exists>r \<in> held (dbh db). db_recno r \<notin> excluded_recnos ex \<and>
      header_cap_match_req E M (db_hdr r) req fl \<noteq> 0)) \<and>
    held (dbh db') = held (dbh db) \<and> map_option mset ex' = map_option mset ex"
  using pm_db.match_req [OF assms(1-4)] assms(5,6) by blast

theorem pkgdb_match_req_exact_witness:
  defines "app \<equiv> ref_pkg 3 ''app'' [] [ref_cap ''lib'']" and "lib \<equiv> ref_pkg 4 ''lib'' [] []"
  shows "\<exists>db' ex'. pkgdb_match_req ref_env ref_psenv ref_module (ref_db [app, lib]) (ref_cap ''lib'') 0 (Some [app\<lparr>recno := 1\<rparr>]) =
      ((True, ex'), db') \<and> pset_held (dbh db') = pset_held (ref_installed [app, lib]) \<and>
    (\<exists>db' ex'. pkgdb_match_req ref_env ref_psenv ref_module (ref_db [app, lib]) (ref_cap ''lib'') 0 (Some [lib\<lparr>recno := 2\<rparr>]) =
      ((False, ex'), db'))"
proof -
  let ?q = "pkgdb_match_req ref_env ref_psenv ref_module (ref_db [app, lib]) (ref_cap ''lib'') 0"
  let ?db = "ref_db [app, lib]"
  have m: "pm_db ref_env ref_psenv ref_module (pset_good ref_env ref_psenv) pset_held pset_plain"
    by (rule ref_ps.pset_pm_db)
  have "pset_good ref_env ref_psenv (ref_installed [app, lib])"
    unfolding app_def lib_def by (rule ref_installed_good [OF ref_installed_two]) (simp add: small_addr_def nonneg32_def)
  then have db: "db_ok (pset_good ref_env ref_psenv) ?db" by (simp add: db_ok_def)
  have req: "\<not> capreq_is_file (ref_cap ''lib'')" "pset_plain (cr_name (ref_cap ''lib''))" by code_simp+
  have "list_ex (\<lambda>p. recno p \<noteq> 1 \<and> header_cap_match_req ref_env ref_module p (ref_cap ''lib'') 0 \<noteq> 0)
      (ps_pkgs (pdb_ps (ref_installed [app, lib])))"
    "list_all (\<lambda>p. recno p \<noteq> 2 \<longrightarrow> header_cap_match_req ref_env ref_module p (ref_cap ''lib'') 0 = 0)
      (ps_pkgs (pdb_ps (ref_installed [app, lib])))"
    unfolding app_def lib_def by code_simp+
  then have has: "\<exists>r \<in> pset_held (dbh ?db). db_recno r \<notin> {1} \<and> header_cap_match_req ref_env ref_module (db_hdr r) (ref_cap ''lib'') 0 \<noteq> 0"
    and none: "\<not> (\<exists>r \<in> pset_held (dbh ?db). db_recno r \<notin> {2} \<and> header_cap_match_req ref_env ref_module (db_hdr r) (ref_cap ''lib'') 0 \<noteq> 0)"
    by (auto simp: list_ex_iff list_all_iff pset_held_def pset_rec_def)
  have ex: "ex_ok (Some [p])" if "nonneg32 (recno p)" for p using that by (simp add: ex_ok_def recnos_ok_def)
  obtain b1 ex1 db1 b2 ex2 db2 where q: "?q (Some [app\<lparr>recno := 1\<rparr>]) = ((b1, ex1), db1)"
    "?q (Some [lib\<lparr>recno := 2\<rparr>]) = ((b2, ex2), db2)" by (metis prod.exhaust)
  have ok: "ex_ok (Some [app\<lparr>recno := 1\<rparr>])" "ex_ok (Some [lib\<lparr>recno := 2\<rparr>])" by (rule ex, simp add: nonneg32_def)+
  note k = pkgdb_match_req_exact [OF m db ok(1) q(1) req] pkgdb_match_req_exact [OF m db ok(2) q(2) req]
  have "excluded_recnos (Some [app\<lparr>recno := 1\<rparr>]) = {1}" "excluded_recnos (Some [lib\<lparr>recno := 2\<rparr>]) = {2}"
    by (simp_all add: excluded_recnos_def)
  then have "b1" "\<not> b2" using k has none by simp_all
  then show ?thesis using q k(1) by auto
qed

end
