(* ===== verification/Uninstall.thy ===== *)
theory Uninstall
  imports Pset
begin

text \<open>
  Uninstallation: uninstall.c over the database of installed packages. The packages to remove
  are those the arguments name and, when dependencies are followed, those left without something
  they require.
\<close>

section \<open>The state\<close>

abbreviation DBPKG_REV_ORPHANED :: u32 where "DBPKG_REV_ORPHANED \<equiv> 524288"

text \<open>The switches of the transaction that matter here.\<close>

record un_ops =
  op_follow :: bool
  op_greedy :: bool
  op_autodirdep :: bool
  op_caplookup :: bool
  uninstall_greedy_deep :: int

text \<open>
  \<open>struct uninstall_ctx\<close>: the packages to remove, the marks of the walk and, as \<open>ts_pms\<close>, the
  marks of the transaction. Its \<open>strict\<close> is 1 from the beginning on. No signal arrives and
  \<open>nerr_fatal\<close>, which nothing sets, stays 0.
\<close>

record ('s, 'h) uninstall_ctx =
  u_db :: "('s, 'h) pkgdb"
  unpkgs :: "pkg list"
  u_pms :: pmark_set
  ts_pms :: pmark_set
  ndep :: nat
  nerr_dep :: nat

abbreviation uctx_strict :: u32 where "uctx_strict \<equiv> 1"

definition uninstall_ctx_new :: "('s, 'h) pkgdb \<Rightarrow> pmark_set \<Rightarrow> ('s, 'h) uninstall_ctx" where
  "uninstall_ctx_new db pms =
     \<lparr>u_db = db, unpkgs = [], u_pms = pkgmark_set_new None 0, ts_pms = pms, ndep = 0, nerr_dep = 0\<rparr>"

text \<open>The capabilities a package is asked for: its name, those it provides, its paths.\<close>

definition pkg_asked :: "pkg \<Rightarrow> capreq list" where
  "pkg_asked p = capreq_new_name_a (name p) # (case caps p of None \<Rightarrow> [] | Some cs \<Rightarrow> cs) @
     (case pfl p of None \<Rightarrow> [] | Some fl \<Rightarrow> map (capreq_new_name_a \<circ> fst) (pkgfl_paths fl))"

text \<open>The database and the excluded array after a query.\<close>

definition un_query :: "('s, 'h) uninstall_ctx \<Rightarrow> pkg list option \<Rightarrow> ('s, 'h) pkgdb \<Rightarrow> ('s, 'h) uninstall_ctx" where
  "un_query u ex db = u\<lparr>u_db := db, unpkgs := (case ex of None \<Rightarrow> unpkgs u | Some pkgs \<Rightarrow> pkgs)\<rparr>"

fun orphaned_loop ::
  "penv \<Rightarrow> psenv \<Rightarrow> dirix \<Rightarrow> ('s, 'h) pm_module \<Rightarrow> capreq list \<Rightarrow> pkg list \<Rightarrow> ('s, 'h) uninstall_ctx \<Rightarrow>
   pkg list \<times> ('s, 'h) uninstall_ctx" where
  "orphaned_loop E P D M [] orphans u = (orphans, u)"
| "orphaned_loop E P D M (cap # cs) orphans u =
     (let ((n, orphans', ex), db) =
        pkgdb_q_what_requires E P D M (u_db u) orphans cap (Some (unpkgs u)) uninst_LDFLAGS
      in orphaned_loop E P D M cs orphans' (un_query u ex db))"

definition get_orphanedby_pkg ::
  "penv \<Rightarrow> psenv \<Rightarrow> dirix \<Rightarrow> ('s, 'h) pm_module \<Rightarrow> ('s, 'h) uninstall_ctx \<Rightarrow> pkg \<Rightarrow>
   pkg list option \<times> ('s, 'h) uninstall_ctx" where
  "get_orphanedby_pkg E P D M u p =
     (let (orphans, u') = orphaned_loop E P D M (pkg_asked p) [] u in (if orphans = [] then None else Some orphans, u'))"

section \<open>Greedy removal\<close>

text \<open>The copy of the array that is excluded here is dropped afterwards.\<close>

fun leave_loop ::
  "penv \<Rightarrow> psenv \<Rightarrow> ('s, 'h) pm_module \<Rightarrow> capreq list \<Rightarrow> pkg list option \<Rightarrow> ('s, 'h) pkgdb \<Rightarrow> bool \<times> ('s, 'h) pkgdb" where
  "leave_loop E P M [] ex db = (False, db)"
| "leave_loop E P M (cap # cs) ex db =
     (let ((b, ex'), db') = pkgdb_q_is_required E P M db cap ex in
      if b then (True, db') else leave_loop E P M cs ex' db')"

definition pkg_leave_orphans ::
  "penv \<Rightarrow> psenv \<Rightarrow> ('s, 'h) pm_module \<Rightarrow> ('s, 'h) uninstall_ctx \<Rightarrow> pkg \<Rightarrow> bool \<times> ('s, 'h) uninstall_ctx" where
  "pkg_leave_orphans E P M u p =
     (let (b, db) = leave_loop E P M (pkg_asked p) (Some (unpkgs u @ [p])) (u_db u) in (b, u\<lparr>u_db := db\<rparr>))"

text \<open>The packages found for a requirement, together with those found for the ones before.\<close>

fun rev_pkgs_loop ::
  "(pkg \<Rightarrow> ('s, 'h) uninstall_ctx \<Rightarrow> ('s, 'h) uninstall_ctx) \<Rightarrow> penv \<Rightarrow> psenv \<Rightarrow> ('s, 'h) pm_module \<Rightarrow> pkg list \<Rightarrow>
   ('s, 'h) uninstall_ctx \<Rightarrow> ('s, 'h) uninstall_ctx" where
  "rev_pkgs_loop deeper E P M [] u = u"
| "rev_pkgs_loop deeper E P M (q # qs) u =
     (if pkgmark_isset (u_pms u) q DBPKG_REV_ORPHANED then rev_pkgs_loop deeper E P M qs u
      else let (orphans, u1) = pkg_leave_orphans E P M u q in
           if orphans then rev_pkgs_loop deeper E P M qs u1
           else rev_pkgs_loop deeper E P M qs
                  (deeper q (u1\<lparr>u_pms := pkgmark_set (u_pms u1) q True DBPKG_REV_ORPHANED,
                     ts_pms := pkg_dep_mark (ts_pms u1) q, unpkgs := unpkgs u1 @ [q], ndep := ndep u1 + 1\<rparr>)))"

fun rev_reqs_loop ::
  "(pkg \<Rightarrow> ('s, 'h) uninstall_ctx \<Rightarrow> ('s, 'h) uninstall_ctx) \<Rightarrow> penv \<Rightarrow> psenv \<Rightarrow> ('s, 'h) pm_module \<Rightarrow> pkg list option \<Rightarrow>
   capreq list \<Rightarrow> ('s, 'h) uninstall_ctx \<Rightarrow> ('s, 'h) uninstall_ctx" where
  "rev_reqs_loop deeper E P M dbpkgs [] u = u"
| "rev_reqs_loop deeper E P M dbpkgs (req # rs) u =
     (let ((n1, d1, ex1), db1) = pkgdb_search E P M (u_db u) (Some dbpkgs) PMTAG_NAME (cr_name req) (Some (unpkgs u)) uninst_LDFLAGS;
          u1 = un_query u ex1 db1;
          ((n2, d2, ex2), db2) = pkgdb_search E P M (u_db u1) d1 PMTAG_CAP (cr_name req) (Some (unpkgs u1)) uninst_LDFLAGS;
          u2 = un_query u1 ex2 db2
      in case d2 of
           Some (Some qs) \<Rightarrow> rev_reqs_loop deeper E P M (Some qs) rs (rev_pkgs_loop deeper E P M qs u2)
         | _ \<Rightarrow> rev_reqs_loop deeper E P M None rs u2)"

text \<open>\<open>left\<close> is \<open>rev_orphans_deep - deep\<close>.\<close>

primrec process_pkg_rev_orphans ::
  "penv \<Rightarrow> psenv \<Rightarrow> ('s, 'h) pm_module \<Rightarrow> nat \<Rightarrow> pkg \<Rightarrow> ('s, 'h) uninstall_ctx \<Rightarrow> ('s, 'h) uninstall_ctx" where
  "process_pkg_rev_orphans E P M 0 = (\<lambda>p u.
     case reqs p of None \<Rightarrow> u | Some rs \<Rightarrow> rev_reqs_loop (\<lambda>_ u. u) E P M None rs u)"
| "process_pkg_rev_orphans E P M (Suc left) = (\<lambda>p u.
     case reqs p of None \<Rightarrow> u | Some rs \<Rightarrow> rev_reqs_loop (process_pkg_rev_orphans E P M left) E P M None rs u)"

section \<open>Following dependencies\<close>

text \<open>
  The requirements of an installed package after \<open>requirer\<close> has been marked: what nothing that stays
  satisfies marks the package, unless nothing that goes satisfied it either. \<open>process\<close> is the
  recursive call; \<open>None\<close> is that it runs out of fuel.
\<close>

fun process_reqs_loop ::
  "(pkg \<Rightarrow> ('s, 'h) uninstall_ctx \<Rightarrow> ('s, 'h) uninstall_ctx option) \<Rightarrow> penv \<Rightarrow> psenv \<Rightarrow> dirix \<Rightarrow> ('s, 'h) pm_module \<Rightarrow>
   un_ops \<Rightarrow> pkg \<Rightarrow> pkg \<Rightarrow> capreq list \<Rightarrow> ('s, 'h) uninstall_ctx \<Rightarrow> ('s, 'h) uninstall_ctx option" where
  "process_reqs_loop process E P D M ops p requirer [] u = Some u"
| "process_reqs_loop process E P D M ops p requirer (req # rs) u =
     (if capreq_is_rpmlib req \<or> pkg_satisfies_req E P D p req True
      then process_reqs_loop process E P D M ops p requirer rs u
      else
        let ((b, ex), db) = pkgdb_match_req E P M (u_db u) req uctx_strict (Some (unpkgs u)); u1 = un_query u ex db in
        if b then process_reqs_loop process E P D M ops p requirer rs u1
        else if \<not> op_follow ops
        then process_reqs_loop process E P D M ops p requirer rs (u1\<lparr>nerr_dep := nerr_dep u1 + 1\<rparr>)
        else if pkg_is_marked (ts_pms u1) p then process_reqs_loop process E P D M ops p requirer rs u1
        else case (if pkg_satisfies_req E P D requirer req (uctx_strict \<noteq> 0) then Some requirer
                   else find (\<lambda>q. pkg_satisfies_req E P D q req (uctx_strict \<noteq> 0)) (unpkgs u1)) of
               None \<Rightarrow> process_reqs_loop process E P D M ops p requirer rs u1
             | Some bypkg \<Rightarrow>
                 Option.bind
                   (process p (u1\<lparr>ndep := ndep u1 + 1, ts_pms := pkg_dep_mark (ts_pms u1) p, unpkgs := unpkgs u1 @ [p]\<rparr>))
                   (process_reqs_loop process E P D M ops p requirer rs))"

definition process_pkg_reqs ::
  "(pkg \<Rightarrow> ('s, 'h) uninstall_ctx \<Rightarrow> ('s, 'h) uninstall_ctx option) \<Rightarrow> penv \<Rightarrow> psenv \<Rightarrow> dirix \<Rightarrow> ('s, 'h) pm_module \<Rightarrow>
   un_ops \<Rightarrow> pkg \<Rightarrow> pkg \<Rightarrow> ('s, 'h) uninstall_ctx \<Rightarrow> ('s, 'h) uninstall_ctx option" where
  "process_pkg_reqs process E P D M ops p requirer u =
     (if pkg_is_marked (ts_pms u) p then Some u
      else process_reqs_loop process E P D M ops p requirer
             (map fst (pkg_req_iter D p [] (if op_autodirdep ops then PKG_ITER_REQIN OR PKG_ITER_REQDIR else PKG_ITER_REQIN))) u)"

fun each_orphan ::
  "(pkg \<Rightarrow> ('s, 'h) uninstall_ctx \<Rightarrow> ('s, 'h) uninstall_ctx option) \<Rightarrow> pkg list \<Rightarrow> ('s, 'h) uninstall_ctx \<Rightarrow>
   ('s, 'h) uninstall_ctx option" where
  "each_orphan f [] u = Some u"
| "each_orphan f (p # ps) u = Option.bind (f p u) (each_orphan f ps)"

text \<open>The fuel bounds the depth of the recursion; one more than the packages installed is enough.\<close>

primrec process_package ::
  "penv \<Rightarrow> psenv \<Rightarrow> dirix \<Rightarrow> ('s, 'h) pm_module \<Rightarrow> un_ops \<Rightarrow> nat \<Rightarrow> pkg \<Rightarrow> ('s, 'h) uninstall_ctx \<Rightarrow>
   ('s, 'h) uninstall_ctx option" where
  "process_package E P D M ops 0 = (\<lambda>p u. None)"
| "process_package E P D M ops (Suc n) = (\<lambda>p u.
     if pkgmark_isset (u_pms u) p PKGMARK_GRAY then Some u
     else
       let u1 = u\<lparr>u_pms := pkgmark_set (u_pms u) p True PKGMARK_GRAY\<rparr>;
           u2 = (if op_greedy ops then process_pkg_rev_orphans E P M (nat (uninstall_greedy_deep ops - 1)) p u1 else u1);
           (pkgorphans, u3) = get_orphanedby_pkg E P D M u2 p
       in case pkgorphans of
            None \<Rightarrow> Some u3
          | Some os \<Rightarrow>
              map_option (\<lambda>u4. u4\<lparr>u_pms := pkgmark_set (u_pms u4) p True PKGMARK_BLACK\<rparr>)
                (each_orphan (\<lambda>q. process_pkg_reqs (process_package E P D M ops n) E P D M ops q p)
                   (filter (\<lambda>q. \<not> pkg_is_marked (ts_pms u3) q) os) u3))"

definition do_process ::
  "penv \<Rightarrow> psenv \<Rightarrow> dirix \<Rightarrow> ('s, 'h) pm_module \<Rightarrow> un_ops \<Rightarrow> nat \<Rightarrow> ('s, 'h) uninstall_ctx \<Rightarrow>
   ('s, 'h) uninstall_ctx option" where
  "do_process E P D M ops n u =
     (let u1 = u\<lparr>ts_pms := foldl pkg_hand_mark (ts_pms u) (unpkgs u)\<rparr> in
      if \<not> op_follow ops then Some u1
      else each_orphan (process_package E P D M ops n) (unpkgs u1) u1)"

section \<open>Which packages the arguments name\<close>

text \<open>The packages found by capability of which \<open>matched\<close> holds.\<close>

definition un_matched :: "penv \<Rightarrow> arch_registry \<Rightarrow> un_ops \<Rightarrow> capreq \<Rightarrow> string option \<Rightarrow> pkg \<Rightarrow> bool" where
  "un_matched E R ops cr arch p =
     (if \<not> capreq_versioned cr then strcmp (name p) (cr_name cr) = 0
      else (if op_caplookup ops then fst (pkg_xmatch_req E p cr MA_PROMOTE_REQEPOCH)
            else strcmp (name p) (cr_name cr) = 0 \<and> pkg_evr_match_req E p cr MA_PROMOTE_REQEPOCH) \<and>
           (case arch of None \<Rightarrow> True
            | Some a \<Rightarrow> a = (case pkg_arch R p of None \<Rightarrow> ''none'' | Some b \<Rightarrow> b)))"

definition do_resolve_package ::
  "penv \<Rightarrow> psenv \<Rightarrow> arch_registry \<Rightarrow> ('s, 'h) pm_module \<Rightarrow> un_ops \<Rightarrow> ('s, 'h) uninstall_ctx \<Rightarrow> capreq \<Rightarrow> string option \<Rightarrow>
   nat \<times> ('s, 'h) uninstall_ctx" where
  "do_resolve_package E P R M ops u cr arch =
     (let ((n, d, ex), db) = pkgdb_search E P M (u_db u) (Some None) PMTAG_CAP (cr_name cr) None uninst_LDFLAGS;
          ms = filter (un_matched E R ops cr arch) (case d of Some (Some qs) \<Rightarrow> qs | _ \<Rightarrow> [])
      in (length ms, u\<lparr>u_db := db, unpkgs := unpkgs u @ ms\<rparr>))"

text \<open>
  The mask is cut at a last \<open>#\<close>, also for the caller. \<open>None\<close> is the failed assertion when the
  version does not parse.
\<close>

definition resolve_package ::
  "penv \<Rightarrow> psenv \<Rightarrow> arch_registry \<Rightarrow> ('s, 'h) pm_module \<Rightarrow> un_ops \<Rightarrow> ('s, 'h) uninstall_ctx \<Rightarrow> string \<Rightarrow> string option \<Rightarrow>
   (bool \<times> string \<times> ('s, 'h) uninstall_ctx) option" where
  "resolve_package E P R M ops u pat arch =
     (if CHR ''#'' \<notin> set pat \<or> after_chr pat CHR ''#'' = []
      then let pat' = before_chr pat CHR ''#''; (n, u') = do_resolve_package E P R M ops u (capreq_new_name_a pat') arch
           in Some (n \<noteq> 0, pat', u')
      else case poldek_util_parse_evr (after_chr pat CHR ''#'') of
             None \<Rightarrow> None
           | Some (e, v, r) \<Rightarrow>
               map_option (\<lambda>cr. let (n, u') = do_resolve_package E P R M ops u cr arch in (n \<noteq> 0, pat, u'))
                 (capreq_new False (before_chr pat CHR ''#'') e (Some v) r REL_EQ 0))"

definition evr_mask :: "psenv \<Rightarrow> string \<Rightarrow> u32 \<Rightarrow> string \<Rightarrow> string \<Rightarrow> string" where
  "evr_mask P nm e v r =
     nsnprintf P 256 (nm @ ''#'' @ (if e \<noteq> 0 then dec_int (sint e) @ '':'' else []) @ v @ ''-'' @ r)"

text \<open>
  As name, as name and version, as name, version and release, the last also with an architecture
  behind the release.
\<close>

definition resolve_mask ::
  "penv \<Rightarrow> psenv \<Rightarrow> arch_registry \<Rightarrow> ('s, 'h) pm_module \<Rightarrow> un_ops \<Rightarrow> ('s, 'h) uninstall_ctx \<Rightarrow> string \<Rightarrow>
   (bool \<times> ('s, 'h) uninstall_ctx) option" where
  "resolve_mask E P R M ops u pat0 =
     Option.bind (resolve_package E P R M ops u pat0 None) (\<lambda>(b1, pat, u1).
       if b1 then Some (True, u1)
       else if CHR ''-'' \<notin> set pat then Some (False, u1)
       else Option.bind (resolve_package E P R M ops u1
              (before_rchr pat CHR ''-'' @ CHR ''#'' # after_rchr pat CHR ''-'') None) (\<lambda>(b2, _, u2).
         if b2 then Some (True, u2)
         else case poldek_util_parse_nevr pat of
                None \<Rightarrow> Some (False, u2)
              | Some (nm, e, v, ro) \<Rightarrow>
                  let r = (case ro of None \<Rightarrow> [] | Some r \<Rightarrow> r) in
                  Option.bind (resolve_package E P R M ops u2 (evr_mask P nm e v r) None) (\<lambda>(b3, _, u3).
                    if b3 \<or> CHR ''.'' \<notin> set r then Some (b3, u3)
                    else map_option (\<lambda>(b4, _, u4). (b4, u4))
                           (resolve_package E P R M ops u3 (evr_mask P nm e v (before_rchr r CHR ''.''))
                              (Some (after_rchr r CHR ''.''))))))"

fun resolve_packages ::
  "penv \<Rightarrow> psenv \<Rightarrow> arch_registry \<Rightarrow> ('s, 'h) pm_module \<Rightarrow> un_ops \<Rightarrow> string list \<Rightarrow> ('s, 'h) uninstall_ctx \<Rightarrow>
   (nat \<times> ('s, 'h) uninstall_ctx) option" where
  "resolve_packages E P R M ops [] u = Some (0, u)"
| "resolve_packages E P R M ops (pat # pats) u =
     Option.bind (resolve_mask E P R M ops u pat) (\<lambda>(b, u1).
       map_option (\<lambda>(nerr, u2). (if b then nerr else nerr + 1, u2)) (resolve_packages E P R M ops pats u1))"

section \<open>The whole operation\<close>

text \<open>\<open>n_array_uniq\<close>: sorted by record number, one of each.\<close>

definition unpkgs_uniq :: "psenv \<Rightarrow> pkg list \<Rightarrow> pkg list" where
  "unpkgs_uniq P pkgs = uniq_from pkg_cmp_recno (pk_sort P pkg_cmp_recno pkgs)"

definition reorder_packages ::
  "penv \<Rightarrow> psenv \<Rightarrow> arch_registry \<Rightarrow> pkg_flags \<Rightarrow> pkg list \<Rightarrow> pkg list option" where
  "reorder_packages E P R fl pkgs =
     (let ps = foldl (\<lambda>ps p. snd (pkgset_add_package E P R ps p)) pkgset_new pkgs
      in map_option (\<lambda>v. rev (ordered v)) (pkgset_order E P R ps fl (ps_pkgs ps) PKGORDER_UNINSTALL))"

text \<open>
  What is resolved, followed and handed in order to the package manager; nothing is when a pat
  names no package.
\<close>

definition uninstall_packages ::
  "penv \<Rightarrow> psenv \<Rightarrow> arch_registry \<Rightarrow> dirix \<Rightarrow> ('s, 'h) pm_module \<Rightarrow> un_ops \<Rightarrow> nat \<Rightarrow> pkg_flags \<Rightarrow>
   ('s, 'h) pkgdb \<Rightarrow> pmark_set \<Rightarrow> string list \<Rightarrow> (pkg list option \<times> ('s, 'h) uninstall_ctx) option" where
  "uninstall_packages E P R D M ops n fl db pms pats =
     Option.bind (resolve_packages E P R M ops pats (uninstall_ctx_new db pms)) (\<lambda>(nerr, u1).
       if nerr \<noteq> 0 then Some (None, u1)
       else let u2 = u1\<lparr>unpkgs := unpkgs_uniq P (unpkgs u1)\<rparr> in
            if unpkgs u2 = [] then Some (None, u2)
            else Option.bind (do_process E P D M ops n u2) (\<lambda>u3.
              map_option (\<lambda>pkgs. (Some pkgs, u3)) (reorder_packages E P R fl (unpkgs u3))))"

section \<open>What is marked and what is started\<close>

lemma or_and_nonzero: "(a OR b) AND c \<noteq> 0 \<longleftrightarrow> a AND c \<noteq> 0 \<or> b AND c \<noteq> (0 :: u32)"
  by (simp add: bit.conj_disj_distrib2 or_eq_0_iff)

lemma isset_set:
  "pkgmark_isset (pkgmark_set pms p True fl) q fl' \<longleftrightarrow>
     package_id pms q = package_id pms p \<and> fl AND fl' \<noteq> 0 \<or> pkgmark_isset pms q fl'"
  by (auto simp: isset_mark mark_of_def [of "pkgmark_set pms p True fl"] set_ht or_and_nonzero mark_of_def
      split: option.splits)

definition by_nvr :: "pmark_set \<Rightarrow> bool" where
  "by_nvr pms \<longleftrightarrow> pms_flags pms AND PKGMARK_SET_IDNEVR \<noteq> 0"

lemma by_nvr_simps [simp]:
  "by_nvr pms \<Longrightarrow> package_id pms p = nvr p" "by_nvr (pkgmark_set pms p b fl) \<longleftrightarrow> by_nvr pms"
  "by_nvr (pkgmark_set_new ps 0)"
  by (simp_all add: by_nvr_def package_id_def pkgmark_set_new_def)

text \<open>A package names a capability when it has that name or provides it.\<close>

definition names :: "pkg \<Rightarrow> string \<Rightarrow> bool" where
  "names p nm \<longleftrightarrow> name p = nm \<or> provides_name nm p"

lemma names_asked: "names p nm \<Longrightarrow> \<exists>c \<in> set (pkg_asked p). cr_name c = nm"
  by (auto simp: names_def provides_name_def pkg_asked_def capreq_new_name_a_def)

definition started :: "('s, 'h) uninstall_ctx \<Rightarrow> pkg set" where
  "started u = {p. pkgmark_isset (u_pms u) p PKGMARK_GRAY}"

text \<open>What stays satisfies a requirement, or nothing that goes did.\<close>

definition remains ::
  "penv \<Rightarrow> ('s, 'h) pm_module \<Rightarrow> 'h pm_dbrec set \<Rightarrow> pkg set \<Rightarrow> capreq \<Rightarrow> bool" where
  "remains E M H U req \<longleftrightarrow> (\<exists>r \<in> H. db_recno r \<notin> recno ` U \<and> header_cap_match_req E M (db_hdr r) req uctx_strict \<noteq> 0)"

definition unharmed ::
  "penv \<Rightarrow> psenv \<Rightarrow> dirix \<Rightarrow> ('s, 'h) pm_module \<Rightarrow> 'h pm_dbrec set \<Rightarrow> pkg set \<Rightarrow> capreq \<Rightarrow> bool" where
  "unharmed E P D M H U req \<longleftrightarrow> remains E M H U req \<or> (\<forall>v \<in> U. \<not> pkg_satisfies_req E P D v req True)"

text \<open>The requirements on names that the walk looks at and that the package does not meet itself.\<close>

definition follows :: "(string \<Rightarrow> bool) \<Rightarrow> pkg \<Rightarrow> capreq \<Rightarrow> bool" where
  "follows plain p req \<longleftrightarrow> (\<exists>rs. reqs p = Some rs \<and> req \<in> set rs) \<and>
     (capreq_is_prereq req \<or> \<not> capreq_is_prereq_un req) \<and> \<not> capreq_is_rpmlib req \<and> \<not> capreq_is_file req \<and>
     plain (cr_name req) \<and> \<not> names p (cr_name req)"

text \<open>A reason to remove a package with others.\<close>

definition walked :: "dirix \<Rightarrow> un_ops \<Rightarrow> pkg \<Rightarrow> capreq list" where
  "walked D ops p = map fst (pkg_req_iter D p [] (if op_autodirdep ops then PKG_ITER_REQIN OR PKG_ITER_REQDIR else PKG_ITER_REQIN))"

definition needed ::
  "penv \<Rightarrow> psenv \<Rightarrow> dirix \<Rightarrow> ('s, 'h) pm_module \<Rightarrow> un_ops \<Rightarrow> (string \<Rightarrow> bool) \<Rightarrow> 'h pm_dbrec set \<Rightarrow> pkg set \<Rightarrow> pkg \<Rightarrow> bool" where
  "needed E P D M ops plain H U p \<longleftrightarrow> (\<exists>req \<in> set (walked D ops p).
     \<not> pkg_satisfies_req E P D p req True \<and> (\<exists>v \<in> U. pkg_satisfies_req E P D v req True) \<and>
     (\<not> capreq_is_file req \<longrightarrow> plain (cr_name req) \<longrightarrow> \<not> remains E M H U req))"

lemma remains_mono: "U \<subseteq> U' \<Longrightarrow> remains E M H U' req \<Longrightarrow> remains E M H U req"
  by (auto simp: remains_def)

lemma needed_mono: "U \<subseteq> U' \<Longrightarrow> needed E P D M ops plain H U p \<Longrightarrow> needed E P D M ops plain H U' p"
  using remains_mono unfolding needed_def by blast

lemma follows_walked:
  assumes "follows plain p req"
  shows "req \<in> set (walked D ops p)"
proof -
  obtain rs where rs: "reqs p = Some rs" "req \<in> set rs" "capreq_is_prereq req \<or> \<not> capreq_is_prereq_un req"
    using assms by (auto simp: follows_def)
  then show ?thesis by (cases "op_autodirdep ops") (auto simp: walked_def pkg_req_iter_def Let_def)
qed

text \<open>The invariant of the walk: what is marked is what goes, and only that is started.\<close>

definition un_inv ::
  "penv \<Rightarrow> ('s, 'h) pm_module \<Rightarrow> ('s \<Rightarrow> bool) \<Rightarrow> ('s \<Rightarrow> 'h pm_dbrec set) \<Rightarrow> 'h pm_dbrec set \<Rightarrow>
   ('s, 'h) uninstall_ctx \<Rightarrow> bool" where
  "un_inv E M good held H u \<longleftrightarrow> db_ok good (u_db u) \<and> held (dbh (u_db u)) = H \<and>
     set (unpkgs u) \<subseteq> loaded E M H \<and> by_nvr (ts_pms u) \<and> by_nvr (u_pms u) \<and>
     (\<forall>p \<in> loaded E M H. pkg_is_marked (ts_pms u) p \<longleftrightarrow> p \<in> set (unpkgs u)) \<and>
     (\<forall>p \<in> loaded E M H. p \<in> started u \<longrightarrow> p \<in> set (unpkgs u))"

text \<open>What a stretch of the walk achieves.\<close>

definition un_rel ::
  "penv \<Rightarrow> psenv \<Rightarrow> dirix \<Rightarrow> ('s, 'h) pm_module \<Rightarrow> un_ops \<Rightarrow> ('s \<Rightarrow> bool) \<Rightarrow> ('s \<Rightarrow> 'h pm_dbrec set) \<Rightarrow>
   (string \<Rightarrow> bool) \<Rightarrow> 'h pm_dbrec set \<Rightarrow> ('s, 'h) uninstall_ctx \<Rightarrow> ('s, 'h) uninstall_ctx \<Rightarrow> bool" where
  "un_rel E P D M ops good held plain H u u' \<longleftrightarrow> un_inv E M good held H u' \<and>
     set (unpkgs u) \<subseteq> set (unpkgs u') \<and> started u \<subseteq> started u' \<and> set (unpkgs u') - set (unpkgs u) \<subseteq> started u' \<and>
     (\<forall>p \<in> set (unpkgs u') - set (unpkgs u). needed E P D M ops plain H (set (unpkgs u')) p) \<and>
     (\<forall>p \<in> loaded E M H - set (unpkgs u'). \<forall>req. follows plain p req \<longrightarrow>
        (\<exists>v \<in> loaded E M H. v \<in> started u' - started u \<and> names v (cr_name req)) \<longrightarrow>
        unharmed E P D M H (set (unpkgs u')) req)"

lemma un_rel_covers:
  assumes "un_rel E P D M ops good held plain H u u'" "p \<in> loaded E M H" "p \<notin> set (unpkgs u')" "follows plain p req"
    and "v \<in> loaded E M H" "v \<in> started u'" "v \<notin> started u" "names v (cr_name req)"
  shows "unharmed E P D M H (set (unpkgs u')) req"
  using assms unfolding un_rel_def by blast

context pm_db
begin

lemma satisfies_names:
  assumes "\<not> capreq_is_file c" "pkg_satisfies_req E P D p c b"
  shows "names p (cr_name c)"
proof (cases "name p = cr_name c")
  case False
  then have m: "fst (pkg_caps_match_req E p c (if b then 0 else MA_PROMOTE_VERSION))"
    using assms by (auto simp: pkg_satisfies_req_def pkg_match_req_def Let_def)
  then obtain cs n cs' where cs: "caps p = Some cs" "capreq_arr_find E cs (cr_name c) = (n, cs')"
    "caps_scan E c (if b then 0 else MA_PROMOTE_VERSION) True (drop (nat n) cs')"
    by (auto simp: pkg_caps_match_req_def Let_def split: option.splits if_splits prod.splits)
  have "set cs' = set cs"
    using arr_sorted_set cs(2) by (auto simp: capreq_arr_find_def Let_def)
  then have "\<exists>c' \<in> set cs. cr_name c' = cr_name c"
    using caps_scan_name [OF cs(3)] set_drop_subset by fastforce
  then show ?thesis using cs(1) by (auto simp: names_def provides_name_def)
qed (simp add: names_def)

text \<open>Nothing is harmed by removing packages that do not name a requirement.\<close>

lemma unharmed_grow:
  assumes "good s" "held s = H" "U \<subseteq> U'" "U' \<subseteq> loaded E M H" "\<not> capreq_is_file req"
    and "\<forall>v \<in> U' - U. \<not> names v (cr_name req)" "unharmed E P D M H U req"
  shows "unharmed E P D M H U' req"
proof (cases "remains E M H U req")
  case True
  then obtain r where r: "r \<in> H" "db_recno r \<notin> recno ` U" "header_cap_match_req E M (db_hdr r) req uctx_strict \<noteq> 0"
    by (auto simp: remains_def)
  obtain p where p: "load_pkg E M r uninst_LDFLAGS = Some p" using loads [OF assms(1)] r(1) assms(2) by blast
  obtain cs where cs: "hdr_ld_capreqs M (db_hdr r) PMCAP_CAP = Some cs" "\<forall>c \<in> set cs. provides_name (cr_name c) p"
    using reads_caps [OF assms(1) _ p] r(1) assms(2) by blast
  then have n: "names p (cr_name req)" using header_cap_match_name [OF cs(1) r(3)] by (auto simp: names_def)
  have "db_recno r \<notin> recno ` U'"
  proof
    assume "db_recno r \<in> recno ` U'"
    then obtain q where q: "q \<in> U'" "recno q = recno p" using load_pkg_recno [OF p] by auto
    have inj: "inj_on db_recno H" using held_ok [OF assms(1)] assms(2) by simp
    obtain r' where r': "r' \<in> H" "load_pkg E M r' uninst_LDFLAGS = Some q" using q(1) assms(4) by (auto simp: loaded_def)
    then have "r' = r" using inj_onD [OF inj, of r' r] r(1) q(2) load_pkg_recno [OF p] load_pkg_recno [OF r'(2)] by simp
    then have "q = p" using r'(2) p by simp
    moreover have "p \<notin> U" using r(2) load_pkg_recno [OF p] by (metis image_eqI)
    ultimately show False using q(1) n assms(6) by blast
  qed
  then show ?thesis using r by (auto simp: unharmed_def remains_def)
next
  case False
  then have "\<forall>v \<in> U. \<not> pkg_satisfies_req E P D v req True" using assms(7) by (simp add: unharmed_def)
  moreover have "\<forall>v \<in> U' - U. \<not> pkg_satisfies_req E P D v req True" using assms(5,6) satisfies_names by blast
  ultimately show ?thesis by (auto simp: unharmed_def)
qed

lemma un_rel_refl: "un_inv E M good held H u \<Longrightarrow> un_rel E P D M ops good held plain H u u"
  by (simp add: un_rel_def)

lemma un_rel_trans:
  assumes "un_inv E M good held H u"
    and a: "un_rel E P D M ops good held plain H u u1" and b: "un_rel E P D M ops good held plain H u1 u2"
  shows "un_rel E P D M ops good held plain H u u2"
proof -
  let ?L = "loaded E M H"
  have i: "un_inv E M good held H u1" "un_inv E M good held H u2" using a b by (simp_all add: un_rel_def)
  have U: "set (unpkgs u) \<subseteq> set (unpkgs u1)" "set (unpkgs u1) \<subseteq> set (unpkgs u2)" "set (unpkgs u2) \<subseteq> ?L"
    and S: "started u \<subseteq> started u1" "started u1 \<subseteq> started u2"
    using a b i by (auto simp: un_rel_def un_inv_def)
  have g: "good (dbh (u_db u1))" "held (dbh (u_db u1)) = H" using i by (simp_all add: un_inv_def db_ok_def)
  have "needed E P D M ops plain H (set (unpkgs u2)) p" if "p \<in> set (unpkgs u2) - set (unpkgs u)" for p
  proof (cases "p \<in> set (unpkgs u1)")
    case True
    then have "needed E P D M ops plain H (set (unpkgs u1)) p" using a that by (auto simp: un_rel_def)
    then show ?thesis using needed_mono U by blast
  qed (use b that in \<open>auto simp: un_rel_def\<close>)
  moreover have "unharmed E P D M H (set (unpkgs u2)) req"
    if p: "p \<in> ?L - set (unpkgs u2)" "follows plain p req" and v: "v \<in> ?L" "v \<in> started u2 - started u" "names v (cr_name req)"
    for p req v
  proof (cases "\<exists>w \<in> ?L. w \<in> started u2 - started u1 \<and> names w (cr_name req)")
    case True
    then show ?thesis using un_rel_covers [OF b] p by blast
  next
    case False
    then have "v \<in> started u1 - started u" using v by blast
    then have h: "unharmed E P D M H (set (unpkgs u1)) req" using un_rel_covers [OF a] p v U by blast
    have "w \<in> started u2 - started u1" if "w \<in> set (unpkgs u2) - set (unpkgs u1)" for w
    proof -
      have "w \<in> ?L" using that U by blast
      then show ?thesis using that b i by (auto simp: un_rel_def un_inv_def)
    qed
    then have "\<forall>w \<in> set (unpkgs u2) - set (unpkgs u1). \<not> names w (cr_name req)" using False U by blast
    then show ?thesis using unharmed_grow [OF g U(2,3) _ _ h] p(2) by (simp add: follows_def)
  qed
  ultimately show ?thesis using a b U S by (auto simp: un_rel_def)
qed

end

section \<open>The walk keeps dependencies\<close>

context pm_db
begin

lemma un_rel_keeps:
  assumes "un_inv E M good held H u" "un_rel E P D M ops good held plain H u u'" "p \<in> loaded E M H"
    "p \<notin> set (unpkgs u')" "follows plain p req" "unharmed E P D M H (set (unpkgs u)) req"
  shows "unharmed E P D M H (set (unpkgs u')) req"
proof (cases "\<exists>w \<in> set (unpkgs u') - set (unpkgs u). names w (cr_name req)")
  case True
  have i: "un_inv E M good held H u'" using assms(2) by (simp add: un_rel_def)
  obtain w where w: "w \<in> set (unpkgs u')" "w \<notin> set (unpkgs u)" "names w (cr_name req)" using True by blast
  then have "w \<in> loaded E M H" "w \<in> started u'" using i assms(2) by (auto simp: un_inv_def un_rel_def)
  moreover from this have "w \<notin> started u" using w(2) assms(1) by (auto simp: un_inv_def)
  ultimately show ?thesis using un_rel_covers [OF assms(2-5)] w(3) by blast
next
  case False
  have g: "good (dbh (u_db u))" "held (dbh (u_db u)) = H" using assms(1) by (simp_all add: un_inv_def db_ok_def)
  have U: "set (unpkgs u) \<subseteq> set (unpkgs u')" "set (unpkgs u') \<subseteq> loaded E M H"
    using assms(2) by (auto simp: un_rel_def un_inv_def)
  have "\<not> capreq_is_file req" using assms(5) by (simp add: follows_def)
  then show ?thesis using unharmed_grow [OF g U _ _ assms(6)] False by blast
qed

text \<open>A query changes the database and the order of the array only.\<close>

lemma query_inv:
  assumes "un_inv E M good held H u" "db_ok good db" "held (dbh db) = H" "map_option mset ex = Some (mset (unpkgs u))"
  shows "un_inv E M good held H (un_query u ex db)" "set (unpkgs (un_query u ex db)) = set (unpkgs u)"
    "u_pms (un_query u ex db) = u_pms u" "ts_pms (un_query u ex db) = ts_pms u"
proof -
  obtain pkgs where "ex = Some pkgs" "mset pkgs = mset (unpkgs u)" using assms(4) by (cases ex) auto
  then have q: "unpkgs (un_query u ex db) = pkgs" "set pkgs = set (unpkgs u)"
    by (auto simp: un_query_def) (metis set_mset_mset)+
  then show s: "set (unpkgs (un_query u ex db)) = set (unpkgs u)" by simp
  show p: "u_pms (un_query u ex db) = u_pms u" "ts_pms (un_query u ex db) = ts_pms u" by (simp_all add: un_query_def)
  have "u_db (un_query u ex db) = db" by (simp add: un_query_def)
  then show "un_inv E M good held H (un_query u ex db)"
    using assms(1-3) s p by (simp add: un_inv_def started_def)
qed

lemma inv_ex:
  assumes "un_inv E M good held H u"
  shows "db_ok good (u_db u)" "ex_ok (Some (unpkgs u))" "held (dbh (u_db u)) = H"
    "excluded_recnos (Some (unpkgs u)) = recno ` set (unpkgs u)"
proof -
  show d: "db_ok good (u_db u)" "held (dbh (u_db u)) = H" using assms by (simp_all add: un_inv_def)
  have "set (unpkgs u) \<subseteq> loaded E M H" using assms by (simp add: un_inv_def)
  then show "ex_ok (Some (unpkgs u))" using installed(2) [OF d(1)] d(2) by (auto simp: ex_ok_def recnos_ok_def)
  show "excluded_recnos (Some (unpkgs u)) = recno ` set (unpkgs u)" by (simp add: excluded_recnos_def)
qed

lemma orphaned_loop:
  assumes "un_inv E M good held H u" "set orphans \<subseteq> loaded E M H - set (unpkgs u)"
    and "orphaned_loop E P D M cs orphans u = (os, u')"
  shows "un_inv E M good held H u' \<and> set (unpkgs u') = set (unpkgs u) \<and> u_pms u' = u_pms u \<and> ts_pms u' = ts_pms u \<and>
    set orphans \<subseteq> set os \<and> set os \<subseteq> loaded E M H - set (unpkgs u) \<and>
    (\<forall>q \<in> loaded E M H - set (unpkgs u). \<forall>req. follows plain q req \<longrightarrow> cr_name req \<in> cr_name ` set cs \<longrightarrow> q \<in> set os)"
  using assms
proof (induction cs arbitrary: orphans u)
  case (Cons c cs)
  note x = inv_ex [OF Cons.prems(1)]
  let ?L = "loaded E M H"
  have L: "recnos_ok ?L" "inj_on recno ?L" using installed [OF x(1)] x(3) by simp_all
  have ro: "recnos_ok (set orphans)" using L(1) Cons.prems(2) by (auto simp: recnos_ok_def)
  obtain n os1 ex db where q: "pkgdb_q_what_requires E P D M (u_db u) orphans c (Some (unpkgs u)) uninst_LDFLAGS =
      ((n, os1, ex), db)" by (metis prod.exhaust)
  note w = what_requires [OF x(1,2) ro q, unfolded x(3,4)]
  let ?u = "un_query u ex db"
  have ex: "map_option mset ex = Some (mset (unpkgs u))" using w(3) by simp
  note i = query_inv [OF Cons.prems(1) w(1,2) ex]
  have U: "recno q \<in> recno ` set (unpkgs u) \<longleftrightarrow> q \<in> set (unpkgs u)" if "q \<in> ?L" for q
  proof -
    have "set (unpkgs u) \<subseteq> ?L" using Cons.prems(1) by (simp add: un_inv_def)
    then show ?thesis using that inj_on_image_mem_iff [OF L(2)] by blast
  qed
  have sub: "set os1 \<subseteq> ?L - set (unpkgs u)" using w(6) Cons.prems(2) U by auto
  have "orphaned_loop E P D M cs os1 ?u = (os, u')" using Cons.prems(3) q by simp
  from Cons.IH [OF i(1) _ this] sub i
  have IH: "un_inv E M good held H u' \<and> set (unpkgs u') = set (unpkgs u) \<and> u_pms u' = u_pms u \<and> ts_pms u' = ts_pms u \<and>
    set os1 \<subseteq> set os \<and> set os \<subseteq> ?L - set (unpkgs u) \<and>
    (\<forall>q \<in> ?L - set (unpkgs u). \<forall>req. follows plain q req \<longrightarrow> cr_name req \<in> cr_name ` set cs \<longrightarrow> q \<in> set os)"
    by simp
  have "q \<in> set os1" if q: "q \<in> ?L - set (unpkgs u)" "follows plain q req" "cr_name req = cr_name c" for q req
  proof -
    obtain rs where rs: "reqs q = Some rs" "req \<in> set rs" "\<not> capreq_is_rpmlib req" "\<not> capreq_is_file req"
      "plain (cr_name c)" "\<not> names q (cr_name c)" using q(2,3) by (auto simp: follows_def)
    have "\<not> capreq_is_file c" using rs(4) q(3) by (simp add: capreq_is_file_def)
    then have "\<not> pkg_satisfies_req E P D q c True" using satisfies_names rs(6) by blast
    moreover have "q \<in> ?L" "recno q \<notin> recno ` set (unpkgs u)" using q(1) U by auto
    ultimately have "recno q \<in> recno ` set os1" using w(7) [OF rs(5) _ _ rs(1-3) q(3)] by blast
    then show ?thesis using inj_on_image_mem_iff [OF L(2)] sub q(1) by blast
  qed
  then show ?case using IH w(4) by auto
qed simp

lemma orphanedby:
  assumes "un_inv E M good held H u" "get_orphanedby_pkg E P D M u p = (r, u')"
  shows "un_inv E M good held H u'" "set (unpkgs u') = set (unpkgs u)" "u_pms u' = u_pms u" "ts_pms u' = ts_pms u"
    "\<And>os. r = Some os \<Longrightarrow> set os \<subseteq> loaded E M H - set (unpkgs u)"
    "\<And>q req. q \<in> loaded E M H \<Longrightarrow> q \<notin> set (unpkgs u) \<Longrightarrow> follows plain q req \<Longrightarrow> names p (cr_name req) \<Longrightarrow>
       \<exists>os. r = Some os \<and> q \<in> set os"
proof -
  obtain os where o: "orphaned_loop E P D M (pkg_asked p) [] u = (os, u')" "r = (if os = [] then None else Some os)"
    using assms(2) by (auto simp: get_orphanedby_pkg_def split: prod.splits)
  note l = orphaned_loop [OF assms(1) _ o(1), simplified]
  show "un_inv E M good held H u'" "set (unpkgs u') = set (unpkgs u)" "u_pms u' = u_pms u" "ts_pms u' = ts_pms u"
    using l by simp_all
  show "set os' \<subseteq> loaded E M H - set (unpkgs u)" if "r = Some os'" for os' using l o(2) that by (auto split: if_splits)
  fix q req
  assume q: "q \<in> loaded E M H" "q \<notin> set (unpkgs u)" "follows plain q req" "names p (cr_name req)"
  then have "cr_name req \<in> cr_name ` set (pkg_asked p)" using names_asked [OF q(4)] by (metis image_eqI)
  then have "q \<in> set os" using l q by blast
  then show "\<exists>os. r = Some os \<and> q \<in> set os" using o(2) by auto
qed

end

text \<open>What the recursive call is assumed to do, for fuel \<open>n\<close>.\<close>

definition un_visits ::
  "penv \<Rightarrow> psenv \<Rightarrow> dirix \<Rightarrow> ('s, 'h) pm_module \<Rightarrow> un_ops \<Rightarrow> ('s \<Rightarrow> bool) \<Rightarrow> ('s \<Rightarrow> 'h pm_dbrec set) \<Rightarrow>
   (string \<Rightarrow> bool) \<Rightarrow> 'h pm_dbrec set \<Rightarrow> nat \<Rightarrow>
   (pkg \<Rightarrow> ('s, 'h) uninstall_ctx \<Rightarrow> ('s, 'h) uninstall_ctx option) \<Rightarrow> bool" where
  "un_visits E P D M ops good held plain H n process \<longleftrightarrow> (\<forall>p u. un_inv E M good held H u \<longrightarrow> p \<in> set (unpkgs u) \<longrightarrow>
     card (loaded E M H - set (unpkgs u)) < n \<longrightarrow>
     (\<exists>u'. process p u = Some u' \<and> un_rel E P D M ops good held plain H u u' \<and> p \<in> started u'))"


lemma un_visitsD:
  assumes "un_visits E P D M ops good held plain H n process" "un_inv E M good held H u" "p \<in> set (unpkgs u)"
    "card (loaded E M H - set (unpkgs u)) < n"
  obtains u' where "process p u = Some u'" "un_rel E P D M ops good held plain H u u'" "p \<in> started u'"
  using assms unfolding un_visits_def by blast

context pm_db
begin

lemma un_rel_same:
  assumes "un_inv E M good held H u'" "set (unpkgs u') = set (unpkgs u)" "u_pms u' = u_pms u"
  shows "un_rel E P D M ops good held plain H u u'"
  using assms by (simp add: un_rel_def started_def)

text \<open>Marking a package and visiting it, where something that goes satisfied what it lacks.\<close>

lemma push_rel:
  assumes u: "un_inv E M good held H u" and nvr: "inj_on nvr (loaded E M H)" and p: "p \<in> loaded E M H" "p \<notin> set (unpkgs u)"
    and need: "needed E P D M ops plain H (set (unpkgs u)) p"
  defines "u1 \<equiv> u\<lparr>ndep := ndep u + 1, ts_pms := pkg_dep_mark (ts_pms u) p, unpkgs := unpkgs u @ [p]\<rparr>"
  shows "un_inv E M good held H u1"
    and "un_rel E P D M ops good held plain H u1 u2 \<Longrightarrow> p \<in> started u2 \<Longrightarrow> un_rel E P D M ops good held plain H u u2"
proof -
  have m: "pkg_is_marked (ts_pms u1) q \<longleftrightarrow> q = p \<or> q \<in> set (unpkgs u)" if "q \<in> loaded E M H" for q
  proof -
    have "nvr q = nvr p \<longleftrightarrow> q = p" using nvr p(1) that by (auto dest: inj_onD)
    then show ?thesis using u that by (simp add: un_inv_def u1_def isset_set)
  qed
  show i: "un_inv E M good held H u1" using u p m by (auto simp: un_inv_def u1_def started_def)
  assume r: "un_rel E P D M ops good held plain H u1 u2" and s: "p \<in> started u2"
  have U1: "set (unpkgs u1) = insert p (set (unpkgs u))" "started u1 = started u" by (simp_all add: u1_def started_def)
  have "needed E P D M ops plain H (set (unpkgs u2)) q" if "q \<in> set (unpkgs u2) - set (unpkgs u)" for q
  proof (cases "q = p")
    case True
    then show ?thesis using needed_mono [OF _ need] r U1 by (auto simp: un_rel_def)
  qed (use r U1 that in \<open>auto simp: un_rel_def\<close>)
  then show "un_rel E P D M ops good held plain H u u2" using r s U1 by (auto simp: un_rel_def)
qed

lemma left_finite:
  assumes "un_inv E M good held H u"
  shows "finite (loaded E M H - X)"
  using installed(4) [of "u_db u"] assms by (simp add: un_inv_def)

lemma un_rel_left:
  assumes "un_inv E M good held H u" "un_rel E P D M ops good held plain H u u'"
  shows "card (loaded E M H - set (unpkgs u')) \<le> card (loaded E M H - set (unpkgs u))"
  using assms(2) left_finite [OF assms(1)] by (intro card_mono) (auto simp: un_rel_def)

lemma process_reqs_loop:
  assumes follow: "op_follow ops" and nvr: "inj_on nvr (loaded E M H)"
    and visits: "un_visits E P D M ops good held plain H n process" and p: "p \<in> loaded E M H"
  shows "un_inv E M good held H u \<Longrightarrow> requirer \<in> set (unpkgs u) \<Longrightarrow> card (loaded E M H - set (unpkgs u)) < Suc n \<Longrightarrow>
    set rs \<subseteq> set (walked D ops p) \<Longrightarrow>
    \<exists>u'. process_reqs_loop process E P D M ops p requirer rs u = Some u' \<and> un_rel E P D M ops good held plain H u u' \<and>
      (p \<notin> set (unpkgs u') \<longrightarrow> (\<forall>req \<in> set rs. follows plain p req \<longrightarrow> unharmed E P D M H (set (unpkgs u')) req))"
proof (induction rs arbitrary: u)
  case Nil
  then show ?case using un_rel_refl by simp
next
  case (Cons req rs)
  let ?L = "loaded E M H" and ?rel = "un_rel E P D M ops good held plain H"
  text \<open>Going on in a state \<open>u1\<close> in which the first requirement is dealt with.\<close>
  have go: "\<exists>u'. process_reqs_loop process E P D M ops p requirer rs u1 = Some u' \<and> ?rel u u' \<and>
      (p \<notin> set (unpkgs u') \<longrightarrow> (\<forall>req \<in> set (req # rs). follows plain p req \<longrightarrow> unharmed E P D M H (set (unpkgs u')) req))"
    if r: "?rel u u1" and h: "p \<notin> set (unpkgs u1) \<Longrightarrow> follows plain p req \<Longrightarrow> unharmed E P D M H (set (unpkgs u1)) req" for u1
  proof -
    have i: "un_inv E M good held H u1" "requirer \<in> set (unpkgs u1)" using r Cons.prems(2) by (auto simp: un_rel_def)
    have "card (?L - set (unpkgs u1)) < Suc n" using un_rel_left [OF Cons.prems(1) r] Cons.prems(3) by simp
    from Cons.IH [OF i this] Cons.prems(4)
    obtain u' where u': "process_reqs_loop process E P D M ops p requirer rs u1 = Some u'" "?rel u1 u'"
      "p \<notin> set (unpkgs u') \<longrightarrow> (\<forall>req \<in> set rs. follows plain p req \<longrightarrow> unharmed E P D M H (set (unpkgs u')) req)"
      by auto
    have "unharmed E P D M H (set (unpkgs u')) req" if "p \<notin> set (unpkgs u')" "follows plain p req"
    proof -
      have "p \<notin> set (unpkgs u1)" using that(1) u'(2) by (auto simp: un_rel_def)
      from un_rel_keeps [OF i(1) u'(2) p that h [OF this that(2)]] show ?thesis .
    qed
    then show ?thesis using u' un_rel_trans [OF Cons.prems(1) r u'(2)] by auto
  qed
  show ?case
  proof (cases "capreq_is_rpmlib req \<or> pkg_satisfies_req E P D p req True")
    case True
    have "\<not> follows plain p req" using True satisfies_names by (auto simp: follows_def)
    then show ?thesis using go [OF un_rel_refl [OF Cons.prems(1)]] True by simp
  next
    case self: False
    note x = inv_ex [OF Cons.prems(1)]
    obtain b ex db where m: "pkgdb_match_req E P M (u_db u) req uctx_strict (Some (unpkgs u)) = ((b, ex), db)"
      by (metis prod.exhaust)
    note w = match_req [OF x(1,2) m, unfolded x(3,4)]
    let ?u1 = "un_query u ex db"
    have "map_option mset ex = Some (mset (unpkgs u))" using w(3) by simp
    note i = query_inv [OF Cons.prems(1) w(1,2) this]
    have r1: "?rel u ?u1" by (rule un_rel_same) (simp_all add: i)
    have rem: "b \<longleftrightarrow> remains E M H (set (unpkgs ?u1)) req" if "\<not> capreq_is_file req" "plain (cr_name req)"
      using w(4) [OF that] i(2) by (simp add: remains_def)
    have marked: "pkg_is_marked (ts_pms ?u1) p \<longleftrightarrow> p \<in> set (unpkgs ?u1)" using i(1) p by (simp add: un_inv_def)
    define by' where "by' = (if pkg_satisfies_req E P D requirer req (uctx_strict \<noteq> 0) then Some requirer
        else find (\<lambda>q. pkg_satisfies_req E P D q req (uctx_strict \<noteq> 0)) (unpkgs ?u1))"
    have loop: "process_reqs_loop process E P D M ops p requirer (req # rs) u =
        (if b \<or> p \<in> set (unpkgs ?u1) \<or> by' = None then process_reqs_loop process E P D M ops p requirer rs ?u1
         else Option.bind (process p (?u1\<lparr>ndep := ndep ?u1 + 1, ts_pms := pkg_dep_mark (ts_pms ?u1) p, unpkgs := unpkgs ?u1 @ [p]\<rparr>))
           (process_reqs_loop process E P D M ops p requirer rs))"
      using self m follow marked by (simp add: by'_def Let_def split: option.split)
    show ?thesis
    proof (cases "b \<or> p \<in> set (unpkgs ?u1) \<or> by' = None")
      case True
      have "unharmed E P D M H (set (unpkgs ?u1)) req" if "p \<notin> set (unpkgs ?u1)" "follows plain p req"
      proof (cases b)
        case True
        then show ?thesis using rem that(2) by (simp add: unharmed_def follows_def)
      next
        case False
        then have "by' = None" using True that(1) by simp
        then show ?thesis by (auto simp: by'_def unharmed_def find_None_iff split: if_splits)
      qed
      then show ?thesis using go [OF r1] loop True by simp
    next
      case False
      have sat: "\<exists>v \<in> set (unpkgs ?u1). pkg_satisfies_req E P D v req True"
      proof (rule ccontr)
        assume "\<not> ?thesis"
        then have "by' = None" using Cons.prems(2) i(2) by (auto simp: by'_def find_None_iff)
        then show False using False by simp
      qed
      have need: "needed E P D M ops plain H (set (unpkgs ?u1)) p"
        using sat self rem False Cons.prems(4) by (auto simp: needed_def)
      let ?u2 = "?u1\<lparr>ndep := ndep ?u1 + 1, ts_pms := pkg_dep_mark (ts_pms ?u1) p, unpkgs := unpkgs ?u1 @ [p]\<rparr>"
      have p1: "p \<notin> set (unpkgs ?u1)" using False by simp
      note push = push_rel [OF i(1) nvr p p1 need]
      have "card (?L - set (unpkgs ?u2)) < card (?L - set (unpkgs ?u1))"
        using p p1 left_finite [OF i(1)] by (intro psubset_card_mono) auto
      then have "card (?L - set (unpkgs ?u2)) < n" using Cons.prems(3) i(2) by simp
      moreover have "p \<in> set (unpkgs ?u2)" by simp
      ultimately obtain u3 where u3: "process p ?u2 = Some u3" "?rel ?u2 u3" "p \<in> started u3"
        using un_visitsD [OF visits push(1)] by blast
      have r: "?rel u u3" using un_rel_trans [OF Cons.prems(1) r1] push(2) [OF u3(2,3)] by blast
      have "p \<in> set (unpkgs u3)" using u3(2) by (auto simp: un_rel_def)
      then show ?thesis using go [OF r] loop False u3(1) by simp
    qed
  qed
qed

end

context pm_db
begin

lemma process_pkg_reqs:
  assumes "op_follow ops" "inj_on nvr (loaded E M H)" "un_visits E P D M ops good held plain H n process"
    and p: "p \<in> loaded E M H" and u: "un_inv E M good held H u" "requirer \<in> set (unpkgs u)"
    "card (loaded E M H - set (unpkgs u)) < Suc n"
  shows "\<exists>u'. process_pkg_reqs process E P D M ops p requirer u = Some u' \<and> un_rel E P D M ops good held plain H u u' \<and>
    (p \<notin> set (unpkgs u') \<longrightarrow> (\<forall>req. follows plain p req \<longrightarrow> unharmed E P D M H (set (unpkgs u')) req))"
proof (cases "p \<in> set (unpkgs u)")
  case True
  then have "pkg_is_marked (ts_pms u) p" using u p by (simp add: un_inv_def)
  then show ?thesis using True un_rel_refl [OF u(1)] by (simp add: process_pkg_reqs_def)
next
  case False
  then have "\<not> pkg_is_marked (ts_pms u) p" using u p by (simp add: un_inv_def)
  then have "process_pkg_reqs process E P D M ops p requirer u =
      process_reqs_loop process E P D M ops p requirer (walked D ops p) u"
    by (simp add: process_pkg_reqs_def walked_def)
  then show ?thesis
    using process_reqs_loop [OF assms(1-4) u order.refl] follows_walked by fastforce
qed

lemma each_orphan:
  assumes "op_follow ops" "inj_on nvr (loaded E M H)" "un_visits E P D M ops good held plain H n process"
  shows "set os \<subseteq> loaded E M H \<Longrightarrow> un_inv E M good held H u \<Longrightarrow> requirer \<in> set (unpkgs u) \<Longrightarrow>
    card (loaded E M H - set (unpkgs u)) < Suc n \<Longrightarrow>
    \<exists>u'. each_orphan (\<lambda>q. process_pkg_reqs process E P D M ops q requirer) os u = Some u' \<and>
      un_rel E P D M ops good held plain H u u' \<and>
      (\<forall>p \<in> set os. p \<notin> set (unpkgs u') \<longrightarrow> (\<forall>req. follows plain p req \<longrightarrow> unharmed E P D M H (set (unpkgs u')) req))"
proof (induction os arbitrary: u)
  case Nil
  then show ?case using un_rel_refl by simp
next
  case (Cons p os)
  have p: "p \<in> loaded E M H" using Cons.prems(1) by simp
  obtain u1 where u1: "process_pkg_reqs process E P D M ops p requirer u = Some u1"
    "un_rel E P D M ops good held plain H u u1"
    "p \<notin> set (unpkgs u1) \<longrightarrow> (\<forall>req. follows plain p req \<longrightarrow> unharmed E P D M H (set (unpkgs u1)) req)"
    using process_pkg_reqs [OF assms p Cons.prems(2-4)] by blast
  have i: "un_inv E M good held H u1" "requirer \<in> set (unpkgs u1)" using u1(2) Cons.prems(3) by (auto simp: un_rel_def)
  have "card (loaded E M H - set (unpkgs u1)) < Suc n" using un_rel_left [OF Cons.prems(2) u1(2)] Cons.prems(4) by simp
  then obtain u' where u': "each_orphan (\<lambda>q. process_pkg_reqs process E P D M ops q requirer) os u1 = Some u'"
    "un_rel E P D M ops good held plain H u1 u'"
    "\<forall>p \<in> set os. p \<notin> set (unpkgs u') \<longrightarrow> (\<forall>req. follows plain p req \<longrightarrow> unharmed E P D M H (set (unpkgs u')) req)"
    using Cons.IH [OF _ i] Cons.prems(1) by auto
  have "unharmed E P D M H (set (unpkgs u')) req" if "p \<notin> set (unpkgs u')" "follows plain p req" for req
  proof -
    have "p \<notin> set (unpkgs u1)" using that(1) u'(2) by (auto simp: un_rel_def)
    then show ?thesis using un_rel_keeps [OF i(1) u'(2) p that] u1(3) that(2) by blast
  qed
  then show ?case using u' u1 un_rel_trans [OF Cons.prems(2) u1(2) u'(2)] by auto
qed

lemma black_same:
  assumes "by_nvr (u_pms u)"
  shows "started (u\<lparr>u_pms := pkgmark_set (u_pms u) p True PKGMARK_BLACK\<rparr>) = started u"
  using assms by (auto simp: started_def isset_set)

lemma black_rel:
  assumes "un_rel E P D M ops good held plain H u u'"
  shows "un_rel E P D M ops good held plain H u (u'\<lparr>u_pms := pkgmark_set (u_pms u') p True PKGMARK_BLACK\<rparr>)"
proof -
  have "by_nvr (u_pms u')" using assms by (simp add: un_rel_def un_inv_def)
  note b = black_same [OF this]
  then show ?thesis using assms by (simp add: un_rel_def un_inv_def b)
qed

lemma gray_inv:
  assumes "un_inv E M good held H u" "inj_on nvr (loaded E M H)" "p \<in> set (unpkgs u)"
  defines "u1 \<equiv> u\<lparr>u_pms := pkgmark_set (u_pms u) p True PKGMARK_GRAY\<rparr>"
  shows "un_inv E M good held H u1" "p \<in> started u1" "started u \<subseteq> started u1"
    "\<And>v. v \<in> loaded E M H \<Longrightarrow> v \<in> started u1 \<Longrightarrow> v \<notin> started u \<Longrightarrow> v = p"
proof -
  have p: "p \<in> loaded E M H" "by_nvr (u_pms u)" using assms(1,3) by (auto simp: un_inv_def)
  have s: "v \<in> started u1 \<longleftrightarrow> nvr v = nvr p \<or> v \<in> started u" for v using p(2) by (simp add: started_def u1_def isset_set)
  then show "p \<in> started u1" "started u \<subseteq> started u1" by auto
  show one: "v = p" if "v \<in> loaded E M H" "v \<in> started u1" "v \<notin> started u" for v
    using that s [of v] assms(2) p(1) by (auto dest: inj_onD)
  then show "un_inv E M good held H u1" using assms(1,3) by (auto simp: un_inv_def u1_def)
qed

lemma process_package:
  assumes follow: "op_follow ops" "\<not> op_greedy ops" and nvr: "inj_on nvr (loaded E M H)"
  shows "un_visits E P D M ops good held plain H n (process_package E P D M ops n)"
proof (induction n)
  case 0
  then show ?case by (simp add: un_visits_def)
next
  case (Suc n)
  let ?L = "loaded E M H" and ?rel = "un_rel E P D M ops good held plain H"
  show ?case
    unfolding un_visits_def
  proof (intro allI impI)
    fix p u
    assume u: "un_inv E M good held H u" "p \<in> set (unpkgs u)" "card (?L - set (unpkgs u)) < Suc n"
    show "\<exists>u'. process_package E P D M ops (Suc n) p u = Some u' \<and> ?rel u u' \<and> p \<in> started u'"
    proof (cases "p \<in> started u")
      case True
      then show ?thesis using un_rel_refl [OF u(1)] by (simp add: started_def)
    next
      case False
      define u1 where "u1 = u\<lparr>u_pms := pkgmark_set (u_pms u) p True PKGMARK_GRAY\<rparr>"
      note g = gray_inv [OF u(1) nvr u(2), folded u1_def]
      have U1: "set (unpkgs u1) = set (unpkgs u)" by (simp add: u1_def)
      obtain r u3 where o: "get_orphanedby_pkg E P D M u1 p = (r, u3)" by fastforce
      note k = orphanedby [OF g(1) o, unfolded U1]
      have S3: "started u3 = started u1" using k(3) by (simp add: started_def)
      have run: "process_package E P D M ops (Suc n) p u = (case r of None \<Rightarrow> Some u3
        | Some os \<Rightarrow> map_option (\<lambda>u4. u4\<lparr>u_pms := pkgmark_set (u_pms u4) p True PKGMARK_BLACK\<rparr>)
            (each_orphan (\<lambda>q. process_pkg_reqs (process_package E P D M ops n) E P D M ops q p)
              (filter (\<lambda>q. \<not> pkg_is_marked (ts_pms u3) q) os) u3))"
        using False follow(2) o by (simp add: started_def u1_def Let_def)
      text \<open>What follows from the state after the orphans have been gone through.\<close>
      have fin: "?rel u u4" if r4: "?rel u3 u4" and h: "\<And>q req. q \<in> ?L \<Longrightarrow> q \<notin> set (unpkgs u4) \<Longrightarrow>
          follows plain q req \<Longrightarrow> names p (cr_name req) \<Longrightarrow> unharmed E P D M H (set (unpkgs u4)) req" for u4
      proof -
        have "unharmed E P D M H (set (unpkgs u4)) req"
          if q: "q \<in> ?L - set (unpkgs u4)" "follows plain q req" and v: "v \<in> ?L" "v \<in> started u4 - started u" "names v (cr_name req)"
          for q req v
        proof (cases "v \<in> started u3")
          case True
          then have "v = p" using g(4) v S3 by blast
          then show ?thesis using h q v(3) by blast
        next
          case False
          then show ?thesis using un_rel_covers [OF r4] q v by blast
        qed
        then show ?thesis using r4 k(2) S3 g(3) by (auto simp: un_rel_def)
      qed
      show ?thesis
      proof (cases r)
        case None
        have "?rel u u3" by (rule fin [OF un_rel_refl [OF k(1)]]) (use k(2,6) None in auto)
        then show ?thesis using run None g(2) S3 by simp
      next
        case (Some os)
        let ?os = "filter (\<lambda>q. \<not> pkg_is_marked (ts_pms u3) q) os"
        have os: "set ?os \<subseteq> ?L" using k(5) [OF Some] by auto
        have "p \<in> set (unpkgs u3)" "card (?L - set (unpkgs u3)) < Suc n" using u k(2) by simp_all
        from each_orphan [OF follow(1) nvr Suc.IH os k(1) this]
        obtain u4 where u4: "each_orphan (\<lambda>q. process_pkg_reqs (process_package E P D M ops n) E P D M ops q p) ?os u3 = Some u4"
          "?rel u3 u4" "\<forall>q \<in> set ?os. q \<notin> set (unpkgs u4) \<longrightarrow> (\<forall>req. follows plain q req \<longrightarrow>
             unharmed E P D M H (set (unpkgs u4)) req)" by blast
        have "?rel u u4"
        proof (rule fin [OF u4(2)])
          fix q req
          assume q: "q \<in> ?L" "q \<notin> set (unpkgs u4)" "follows plain q req" "names p (cr_name req)"
          then have q3: "q \<notin> set (unpkgs u)" using u4(2) k(2) by (auto simp: un_rel_def)
          then have "q \<in> set os" using k(6) [OF q(1) _ q(3,4)] Some by simp
          moreover have "\<not> pkg_is_marked (ts_pms u3) q" using k(1,2) q(1) q3 by (simp add: un_inv_def)
          ultimately show "unharmed E P D M H (set (unpkgs u4)) req" using u4(3) q(2,3) by simp
        qed
        then have "?rel u (u4\<lparr>u_pms := pkgmark_set (u_pms u4) p True PKGMARK_BLACK\<rparr>)" by (rule black_rel)
        moreover have "by_nvr (u_pms u4)" using u4(2) by (simp add: un_rel_def un_inv_def)
        moreover have "p \<in> started u4" using u4(2) g(2) S3 by (auto simp: un_rel_def)
        ultimately show ?thesis using run Some u4(1) by (simp add: black_same)
      qed
    qed
  qed
qed

end

context pm_db
begin

lemma hand_marks_isset:
  "by_nvr pms \<Longrightarrow> by_nvr (foldl pkg_hand_mark pms ps) \<and>
     (pkg_is_marked (foldl pkg_hand_mark pms ps) q \<longleftrightarrow> nvr q \<in> nvr ` set ps \<or> pkg_is_marked pms q)"
  by (induction ps arbitrary: pms) (auto simp: isset_set)

lemma each_package:
  assumes "un_visits E P D M ops good held plain H n process"
  shows "un_inv E M good held H u \<Longrightarrow> set ps \<subseteq> set (unpkgs u) \<Longrightarrow> card (loaded E M H - set (unpkgs u)) < n \<Longrightarrow>
    \<exists>u'. each_orphan process ps u = Some u' \<and> un_rel E P D M ops good held plain H u u' \<and> set ps \<subseteq> started u'"
proof (induction ps arbitrary: u)
  case Nil
  then show ?case using un_rel_refl by simp
next
  case (Cons p ps)
  obtain u1 where u1: "process p u = Some u1" "un_rel E P D M ops good held plain H u u1" "p \<in> started u1"
    using un_visitsD [OF assms Cons.prems(1) _ Cons.prems(3), of p] Cons.prems(2) by auto
  have i: "un_inv E M good held H u1" "set ps \<subseteq> set (unpkgs u1)" using u1(2) Cons.prems(2) by (auto simp: un_rel_def)
  have "card (loaded E M H - set (unpkgs u1)) < n" using un_rel_left [OF Cons.prems(1) u1(2)] Cons.prems(3) by simp
  from Cons.IH [OF i this]
  obtain u' where u': "each_orphan process ps u1 = Some u'" "un_rel E P D M ops good held plain H u1 u'" "set ps \<subseteq> started u'"
    by blast
  have "p \<in> started u'" using u1(3) u'(2) by (auto simp: un_rel_def)
  then show ?case using u1(1) u' un_rel_trans [OF Cons.prems(1) u1(2) u'(2)] by auto
qed

lemma do_process_rel:
  assumes follow: "op_follow ops" "\<not> op_greedy ops" and db: "db_ok good db"
    and nvr: "inj_on nvr (loaded E M (held (dbh db)))" and pkgs: "set pkgs \<subseteq> loaded E M (held (dbh db))"
    and pms: "by_nvr pms" "pms_ht pms = []" and n: "card (loaded E M (held (dbh db))) < n"
  defines "H \<equiv> held (dbh db)"
  shows "\<exists>u u'. do_process E P D M ops n ((uninstall_ctx_new db pms)\<lparr>unpkgs := pkgs\<rparr>) = Some u' \<and>
    un_rel E P D M ops good held plain H u u' \<and> set (unpkgs u) = set pkgs \<and> started u = {} \<and>
    set pkgs \<subseteq> started u'"
proof -
  define u where "u = (uninstall_ctx_new db pms)\<lparr>unpkgs := pkgs, ts_pms := foldl pkg_hand_mark pms pkgs\<rparr>"
  have none: "\<not> pkgmark_isset pms q fl" for q fl using pms(2) by (simp add: pkgmark_isset_def)
  have s: "started u = {}" by (simp add: u_def started_def uninstall_ctx_new_def pkgmark_isset_def pkgmark_set_new_def)
  have "pkg_is_marked (ts_pms u) q \<longleftrightarrow> q \<in> set pkgs" if "q \<in> loaded E M H" for q
    using hand_marks_isset [OF pms(1), of pkgs q] none inj_on_image_mem_iff [OF nvr, of q "set pkgs"] that pkgs
    by (simp add: u_def H_def)
  then have i: "un_inv E M good held H u"
    using db pkgs s hand_marks_isset [OF pms(1), of pkgs] by (simp add: un_inv_def u_def uninstall_ctx_new_def H_def)
  have fin: "finite (loaded E M H)" using installed(4) [OF db] by (simp add: H_def)
  have "card (loaded E M H - set (unpkgs u)) < n" using n card_mono [OF fin, of "loaded E M H - set (unpkgs u)"] by (simp add: H_def)
  from each_package [OF process_package [OF follow nvr [folded H_def]] i order.refl this]
  obtain u' where "each_orphan (process_package E P D M ops n) (unpkgs u) u = Some u'"
    "un_rel E P D M ops good held plain H u u'" "set (unpkgs u) \<subseteq> started u'" by blast
  moreover have "do_process E P D M ops n ((uninstall_ctx_new db pms)\<lparr>unpkgs := pkgs\<rparr>) =
      each_orphan (process_package E P D M ops n) (unpkgs u) u"
    using follow by (simp add: do_process_def u_def uninstall_ctx_new_def)
  moreover have "unpkgs u = pkgs" by (simp add: u_def)
  ultimately show ?thesis using s by auto
qed

end

text \<open>The packages of a concrete database as they are loaded.\<close>

definition ref_loaded :: "pkg list \<Rightarrow> pkg list" where
  "ref_loaded pkgs = map (\<lambda>p. p\<lparr>flags := flags p OR PKG_DBPKG\<rparr>) (ps_pkgs (pdb_ps (ref_installed pkgs)))"

lemma ref_loaded:
  assumes "pset_good ref_env ref_psenv (ref_installed pkgs)"
  shows "loaded ref_env ref_module (pset_held (ref_installed pkgs)) = set (ref_loaded pkgs)"
proof -
  have "load_pkg ref_env ref_module (pset_rec p) uninst_LDFLAGS = Some (p\<lparr>flags := flags p OR PKG_DBPKG\<rparr>)"
    if "p \<in> set (ps_pkgs (pdb_ps (ref_installed pkgs)))" for p
    using that assms by (intro load_pset) (auto simp: pset_good_def)
  then show ?thesis by (auto simp: loaded_def pset_held_def ref_loaded_def)
qed

definition ref_two :: "pkg list" where
  "ref_two = [ref_pkg 3 ''app'' [] [ref_cap ''lib''], ref_pkg 4 ''lib'' [] []]"

abbreviation ref_ops :: un_ops where
  "ref_ops \<equiv> \<lparr>op_follow = True, op_greedy = False, op_autodirdep = False, op_caplookup = False, uninstall_greedy_deep = 0\<rparr>"

lemma ref_two:
  "pm_db ref_env ref_psenv ref_module (pset_good ref_env ref_psenv) pset_held pset_plain"
  "pset_good ref_env ref_psenv (ref_installed ref_two)" "db_ok (pset_good ref_env ref_psenv) (ref_db ref_two)"
  "inj_on nvr (loaded ref_env ref_module (pset_held (dbh (ref_db ref_two))))"
  "card (loaded ref_env ref_module (pset_held (dbh (ref_db ref_two)))) < 3"
proof -
  show "pm_db ref_env ref_psenv ref_module (pset_good ref_env ref_psenv) pset_held pset_plain"
    by (rule ref_ps.pset_pm_db)
  show g: "pset_good ref_env ref_psenv (ref_installed ref_two)"
    unfolding ref_two_def by (rule ref_installed_good [OF ref_installed_two]) (simp add: small_addr_def nonneg32_def)
  then show "db_ok (pset_good ref_env ref_psenv) (ref_db ref_two)" by (simp add: db_ok_def)
  have "distinct (map nvr (ref_loaded ref_two))" "length (ref_loaded ref_two) = 2" by code_simp+
  then show "inj_on nvr (loaded ref_env ref_module (pset_held (dbh (ref_db ref_two))))"
    "card (loaded ref_env ref_module (pset_held (dbh (ref_db ref_two)))) < 3"
    using ref_loaded [OF g] card_length [of "ref_loaded ref_two"] by (simp_all add: distinct_map)
qed

lemma needed_walked: "needed E P D M ops plain H U p \<Longrightarrow> walked D ops p \<noteq> []"
  by (auto simp: needed_def)

section \<open>Properties\<close>

text \<open>C8: Following dependencies always ends and breaks none: of every package that stays, each
  requirement on a name that something removed satisfied, and that the package does not meet
  itself, is still matched by a package that stays, under the matching the code uses.\<close>

theorem uninstall_breaks_nothing:
  assumes "pm_db E P M good held plain" and "op_follow ops" and "\<not> op_greedy ops" and "db_ok good db"
    and "inj_on nvr (loaded E M (held (dbh db)))" and "set pkgs \<subseteq> loaded E M (held (dbh db))"
    and "by_nvr pms" and "pms_ht pms = []" and "card (loaded E M (held (dbh db))) < n"
  shows "\<exists>u. do_process E P D M ops n ((uninstall_ctx_new db pms)\<lparr>unpkgs := pkgs\<rparr>) = Some u \<and> set pkgs \<subseteq> set (unpkgs u) \<and>
    (\<forall>p \<in> loaded E M (held (dbh db)) - set (unpkgs u). \<forall>req. follows plain p req \<longrightarrow>
       (\<exists>v \<in> set (unpkgs u). pkg_satisfies_req E P D v req True) \<longrightarrow>
       remains E M (held (dbh db)) (set (unpkgs u)) req)"
proof -
  obtain u u' where u: "do_process E P D M ops n ((uninstall_ctx_new db pms)\<lparr>unpkgs := pkgs\<rparr>) = Some u'"
    "un_rel E P D M ops good held plain (held (dbh db)) u u'" "set (unpkgs u) = set pkgs" "started u = {}" "set pkgs \<subseteq> started u'"
    using pm_db.do_process_rel [OF assms] by blast
  have U: "set (unpkgs u') \<subseteq> loaded E M (held (dbh db))" "set (unpkgs u') \<subseteq> started u'" "set pkgs \<subseteq> set (unpkgs u')"
    using u(2,3,5) by (auto simp: un_rel_def un_inv_def)
  have "remains E M (held (dbh db)) (set (unpkgs u')) req"
    if "p \<in> loaded E M (held (dbh db))" "p \<notin> set (unpkgs u')" "follows plain p req"
      "v \<in> set (unpkgs u')" "pkg_satisfies_req E P D v req True" for p req v
  proof -
    have "names v (cr_name req)"
      using pm_db.satisfies_names [OF assms(1) _ that(5)] that(3) by (simp add: follows_def)
    then have "unharmed E P D M (held (dbh db)) (set (unpkgs u')) req"
      using un_rel_covers [OF u(2) that(1-3)] that(4) U u(4) by blast
    then show ?thesis using that(4,5) by (auto simp: unharmed_def)
  qed
  then show ?thesis using u(1) U(3) by blast
qed

theorem uninstall_breaks_nothing_witness:
  "\<exists>u. do_process ref_env ref_psenv no_dirix ref_module ref_ops 3
      ((uninstall_ctx_new (ref_db ref_two) (pkgmark_set_new None 0))\<lparr>unpkgs := filter (\<lambda>p. name p = ''lib'') (ref_loaded ref_two)\<rparr>) =
      Some u \<and> set (ref_loaded ref_two) \<subseteq> set (unpkgs u)"
proof -
  let ?lib = "filter (\<lambda>p. name p = ''lib'') (ref_loaded ref_two)" and ?H = "pset_held (dbh (ref_db ref_two))"
  have l: "loaded ref_env ref_module ?H = set (ref_loaded ref_two)" using ref_loaded [OF ref_two(2)] by simp
  have p: "by_nvr (pkgmark_set_new None 0)" "pms_ht (pkgmark_set_new None 0) = []"
    by (simp_all add: pkgmark_set_new_def by_nvr_def)
  have ops: "op_follow ref_ops" "\<not> op_greedy ref_ops" by simp_all
  have "set ?lib \<subseteq> loaded ref_env ref_module ?H" unfolding l by auto
  from uninstall_breaks_nothing [OF ref_two(1) ops ref_two(3,4) this p ref_two(5), of no_dirix, unfolded l]
  obtain u where u: "do_process ref_env ref_psenv no_dirix ref_module ref_ops 3
      ((uninstall_ctx_new (ref_db ref_two) (pkgmark_set_new None 0))\<lparr>unpkgs := ?lib\<rparr>) = Some u" "set ?lib \<subseteq> set (unpkgs u)"
    and stays: "\<forall>p \<in> set (ref_loaded ref_two) - set (unpkgs u). \<forall>req. follows pset_plain p req \<longrightarrow>
      (\<exists>v \<in> set (unpkgs u). pkg_satisfies_req ref_env ref_psenv no_dirix v req True) \<longrightarrow>
      remains ref_env ref_module ?H (set (unpkgs u)) req"
    by blast
  have lib: "list_all (\<lambda>v. pkg_satisfies_req ref_env ref_psenv no_dirix v (ref_cap ''lib'') True \<and> recno v = 2) ?lib"
    "?lib \<noteq> []" by code_simp+
  have "list_all (\<lambda>p. recno p \<noteq> 2 \<longrightarrow> header_cap_match_req ref_env ref_module p (ref_cap ''lib'') uctx_strict = 0)
      (ps_pkgs (pdb_ps (ref_installed ref_two)))" by code_simp
  moreover have "2 \<in> recno ` set (unpkgs u)" using lib u(2) by (cases ?lib) force+
  ultimately have "\<not> remains ref_env ref_module ?H (set (unpkgs u)) (ref_cap ''lib'')"
    by (auto simp: remains_def pset_held_def pset_rec_def list_all_iff)
  moreover have "list_all (\<lambda>p. name p = ''lib'' \<or> (case reqs p of None \<Rightarrow> False | Some rs \<Rightarrow> rs = [ref_cap ''lib'']) \<and>
      \<not> capreq_is_prereq_un (ref_cap ''lib'') \<and> \<not> capreq_is_rpmlib (ref_cap ''lib'') \<and> \<not> capreq_is_file (ref_cap ''lib'') \<and>
      pset_plain ''lib'' \<and> cr_name (ref_cap ''lib'') = ''lib'' \<and> \<not> provides_name ''lib'' p) (ref_loaded ref_two)"
    by code_simp
  then have "follows pset_plain p (ref_cap ''lib'')" if "p \<in> set (ref_loaded ref_two)" "name p \<noteq> ''lib''" for p
    using that by (fastforce simp: follows_def names_def list_all_iff split: option.splits)
  moreover obtain v where "v \<in> set (unpkgs u)" "pkg_satisfies_req ref_env ref_psenv no_dirix v (ref_cap ''lib'') True"
    using lib u(2) by (cases ?lib) auto
  ultimately have "set (ref_loaded ref_two) \<subseteq> set (unpkgs u)" using u(2) stays by fastforce
  then show ?thesis using u(1) by blast
qed



end
