(* ===== verification/Iset.thy ===== *)
theory Iset
  imports Uninstall
begin

text \<open>
  install3/iset.c: the sets of packages to install and to remove. A set keeps its packages in two
  arrays, one by name and one by record number, marks on them, and a cache of the requirements
  that it has been found to provide.
\<close>

section \<open>The set\<close>

abbreviation PKGMARK_ISET :: u32 where "PKGMARK_ISET \<equiv> 1048576"

record iset =
  is_pkgs :: "pkg list"
  is_by_recno :: "pkg list"
  capcache :: "string \<Rightarrow> pkg option"
  is_pms :: pmark_set

definition iset_markf :: "iset \<Rightarrow> pkg \<Rightarrow> u32 \<Rightarrow> iset" where
  "iset_markf is p fl = is\<lparr>is_pms := pkgmark_set (is_pms is) p True fl\<rparr>"

definition iset_ismarkedf :: "iset \<Rightarrow> pkg \<Rightarrow> u32 \<Rightarrow> bool" where
  "iset_ismarkedf is p fl = pkgmark_isset (is_pms is) p fl"

definition iset_new :: iset where
  "iset_new = \<lparr>is_pkgs = [], is_by_recno = [], capcache = (\<lambda>_. None), is_pms = pkgmark_set_new None 0\<rparr>"

definition iset_add :: "iset \<Rightarrow> pkg \<Rightarrow> u32 \<Rightarrow> iset" where
  "iset_add is p fl =
     iset_markf (is\<lparr>is_pkgs := is_pkgs is @ [p], is_by_recno := is_by_recno is @ [p]\<rparr>) p (fl OR PKGMARK_ISET)"

definition iset_has_pkg :: "iset \<Rightarrow> pkg \<Rightarrow> bool" where
  "iset_has_pkg is p = iset_ismarkedf is p PKGMARK_ISET"

text \<open>
  The search sorts the array. \<open>None\<close> is a failed assertion: the package found is not one of the
  same name and version, or a mark remains. The array by record number is made anew.
\<close>

definition iset_remove :: "penv \<Rightarrow> psenv \<Rightarrow> arch_registry \<Rightarrow> iset \<Rightarrow> pkg \<Rightarrow> (bool \<times> iset) option" where
  "iset_remove E P R is p =
     (if \<not> iset_ismarkedf is p PKGMARK_ISET then Some (False, is)
      else
        let is1 = is\<lparr>capcache := (\<lambda>_. None), is_pms := pkgmark_set (is_pms is) p False PKGMARK_ISET\<rparr>;
            (i, pkgs) = dir_find E P R (is_pkgs is1) p;
            pkgs' = take (nat i) pkgs @ drop (nat i + 1) pkgs;
            is2 = (if 0 \<le> i then is1\<lparr>is_pkgs := pkgs', is_by_recno := pkgs'\<rparr> else is1\<lparr>is_pkgs := pkgs\<rparr>)
        in n_assert (0 \<le> i \<longrightarrow> pkg_cmp_name_evr E (pkgs ! nat i) p = 0 \<and>
               (conf_MULTILIB E \<longrightarrow> pkg_cmp_arch R (pkgs ! nat i) p = 0))
             (n_assert (\<not> iset_has_pkg is2 p) (Some (True, is2))))"

definition iset_sorted :: "penv \<Rightarrow> psenv \<Rightarrow> arch_registry \<Rightarrow> iset \<Rightarrow> iset" where
  "iset_sorted E P R is = is\<lparr>is_pkgs := pk_sort P (pkg_cmp_name_evr_rev E R) (is_pkgs is)\<rparr>"

text \<open>From the first package of the name on.\<close>

fun kind_scan :: "penv \<Rightarrow> pkg \<Rightarrow> pkg list \<Rightarrow> pkg option" where
  "kind_scan E p [] = None"
| "kind_scan E p (q # qs) =
     (if pkg_is_kind_of E q p then Some q else if name q \<noteq> name p then None else kind_scan E p qs)"

definition iset_has_kind_of_pkg :: "penv \<Rightarrow> psenv \<Rightarrow> arch_registry \<Rightarrow> iset \<Rightarrow> pkg \<Rightarrow> pkg option \<times> iset" where
  "iset_has_kind_of_pkg E P R is p =
     (let is' = iset_sorted E P R is;
          i = pk_bsearch P (\<lambda>q. pkg_cmp_name q p) (is_pkgs is')
      in (if i < 0 then None else kind_scan E p (drop (nat i) (is_pkgs is')), is'))"

section \<open>What the set provides\<close>

definition PATH_MAX :: nat where "PATH_MAX = 4096"

text \<open>The directory and the base name of a file; \<open>None\<close> is the failed assertion on the directory.\<close>

definition iset_path :: "psenv \<Rightarrow> capreq \<Rightarrow> (string \<times> string) option" where
  "iset_path P cap =
     (let (dir, bname) = basedirnam P (take (PATH_MAX - 1) (cr_name cap))
      in map_option (\<lambda>d. let d1 = (if d = [] then ''/'' else d) in
           (if hd d1 = CHR ''/'' \<and> tl d1 \<noteq> [] then tl d1 else d1, bname)) dir)"

definition cap_key :: "psenv \<Rightarrow> capreq \<Rightarrow> string" where
  "cap_key P cap = (if \<not> capreq_has_ver cap then cr_name cap else capreq_snprintf (nsnprintf P) 256 cap)"

text \<open>Whether a package of the set has the path \<open>dn\<close> or matches.\<close>

definition pkg_provides :: "penv \<Rightarrow> dirix \<Rightarrow> (string \<times> string) option \<Rightarrow> capreq \<Rightarrow> pkg \<Rightarrow> bool" where
  "pkg_provides E D dn cap p \<longleftrightarrow>
     (case dn of None \<Rightarrow> False | Some (d, b) \<Rightarrow> pkg_has_path D p d b) \<or> fst (pkg_match_req E p cap True)"

definition iset_provides :: "penv \<Rightarrow> psenv \<Rightarrow> dirix \<Rightarrow> iset \<Rightarrow> capreq \<Rightarrow> (bool \<times> iset) option" where
  "iset_provides E P D is cap =
     (if capcache is (cap_key P cap) \<noteq> None then Some (True, is)
      else
        let is_file = capreq_is_file cap; dn = (if is_file then iset_path P cap else None) in
        n_assert (is_file \<longrightarrow> dn \<noteq> None)
          (case find (pkg_provides E D dn cap) (is_pkgs is) of
             None \<Rightarrow> Some (False, is)
           | Some p \<Rightarrow> Some (True, is\<lparr>capcache := (capcache is)(cap_key P cap \<mapsto> p)\<rparr>)))"

fun provides_score :: "penv \<Rightarrow> psenv \<Rightarrow> dirix \<Rightarrow> iset \<Rightarrow> int \<Rightarrow> capreq list \<Rightarrow> (int \<times> iset) option" where
  "provides_score E P D is n [] = Some (n, is)"
| "provides_score E P D is n (req # rs) =
     Option.bind (iset_provides E P D is req)
       (\<lambda>(b, is'). provides_score E P D is' (if b then n + 1 + (if capreq_versioned req then 2 else 0) else n) rs)"

text \<open>How many requirements of a package the set provides; the package must have some.\<close>

definition iset_reqs_score ::
  "penv \<Rightarrow> psenv \<Rightarrow> dirix \<Rightarrow> iset \<Rightarrow> pkg \<Rightarrow> (int \<times> iset) option" where
  "iset_reqs_score E P D is p =
     n_assert (reqs p \<noteq> None)
       (provides_score E P D is 0 (map fst (pkg_req_iter D p [] (PKG_ITER_REQIN OR PKG_ITER_REQDIR))))"

end
