(* ===== verification/I3ctx.thy ===== *)
theory I3ctx
  imports Iset Booldep
begin

text \<open>
  The installation engine, first part: its state (install3/ictx.c, ictx.h), the questions asked of
  the database, the available packages and the two sets, the choice among candidates
  (install3/misc.c) and the marking of packages (install3/mark.c).
\<close>

section \<open>Operations on a state\<close>

text \<open>
  An operation returns a value and the state after it, or does not return: the program has ended
  (a failed assertion, a null pointer, a fatal error), or the fuel of a recursion is used up.
\<close>

datatype i3fault = Ended | OutOfFuel

type_synonym ('c, 'a) op = "'c \<Rightarrow> i3fault + 'a \<times> 'c"

definition ret :: "'a \<Rightarrow> ('c, 'a) op" where
  "ret x = (\<lambda>c. Inr (x, c))"

definition seq :: "('c, 'a) op \<Rightarrow> ('a \<Rightarrow> ('c, 'b) op) \<Rightarrow> ('c, 'b) op" where
  "seq m f = (\<lambda>c. case m c of Inl e \<Rightarrow> Inl e | Inr (x, c') \<Rightarrow> f x c')"

definition die :: "('c, 'a) op" where
  "die = (\<lambda>c. Inl Ended)"

definition asrt :: "bool \<Rightarrow> ('c, 'a) op \<Rightarrow> ('c, 'a) op" where
  "asrt b m = (if b then m else die)"

definition rd :: "('c \<Rightarrow> 'a) \<Rightarrow> ('c, 'a) op" where
  "rd f = (\<lambda>c. Inr (f c, c))"

definition upd :: "('c \<Rightarrow> 'c) \<Rightarrow> ('c, unit) op" where
  "upd f = (\<lambda>c. Inr ((), f c))"

text \<open>A part of the state is asked and replaced; the answer may be that the program ends.\<close>

definition ask :: "('c \<Rightarrow> 'a \<times> 'c) \<Rightarrow> ('c, 'a) op" where
  "ask f = (\<lambda>c. Inr (f c))"

definition ask_opt :: "('c \<Rightarrow> ('a \<times> 'c) option) \<Rightarrow> ('c, 'a) op" where
  "ask_opt f = (\<lambda>c. case f c of None \<Rightarrow> Inl Ended | Some r \<Rightarrow> Inr r)"

definition need :: "'a option \<Rightarrow> ('a \<Rightarrow> ('c, 'b) op) \<Rightarrow> ('c, 'b) op" where
  "need v f = (case v of None \<Rightarrow> die | Some x \<Rightarrow> f x)"

fun each :: "('a \<Rightarrow> ('c, unit) op) \<Rightarrow> 'a list \<Rightarrow> ('c, unit) op" where
  "each f [] = ret ()"
| "each f (x # xs) = seq (f x) (\<lambda>_. each f xs)"

text \<open>A loop that collects a number.\<close>

fun tally :: "('a \<Rightarrow> ('c, int) op) \<Rightarrow> int \<Rightarrow> 'a list \<Rightarrow> ('c, int) op" where
  "tally f n [] = ret n"
| "tally f n (x # xs) = seq (f x) (\<lambda>k. tally f (n + k) xs)"

fun visit :: "('a \<Rightarrow> ('c, 'b) op) \<Rightarrow> 'a list \<Rightarrow> ('c, 'b list) op" where
  "visit f [] = ret []"
| "visit f (x # xs) = seq (f x) (\<lambda>y. seq (visit f xs) (\<lambda>ys. ret (y # ys)))"

section \<open>The surroundings of a run\<close>

text \<open>
  The environments of the other parts with the module of the package manager; the flags and the
  switches of the transaction; what is not kept in a package record here (suggestions, whether it
  is on hold); the architecture and colour in a header; the user's answers, the \<open>n\<close>-th question
  getting the \<open>n\<close>-th answer; trurl's splitting of a text and whether freeing a null array is
  allowed; the switches for testing.
\<close>

record ('s, 'h) i3env =
  iE :: penv
  iP :: psenv
  iR :: arch_registry
  iD :: dirix
  iM :: "('s, 'h) pm_module"
  ts_upgrade :: bool
  ts_downgrade :: bool
  ts_reinstall :: bool
  ts_upgradedist :: bool
  o_freshen :: bool
  o_force :: bool
  o_multiinst :: bool
  o_hold :: bool
  o_follow :: bool
  o_greedy :: bool
  o_obsoletes :: bool
  o_conflicts :: bool
  o_mercy :: bool
  o_allowdups :: bool
  o_suggests :: bool
  o_askuser :: bool
  o_multilib :: bool
  sugs_of :: "pkg \<Rightarrow> capreq list option"
  pkg_held :: "pkg \<Rightarrow> bool"
  hdr_arch_color :: "'h \<Rightarrow> string option \<times> u32"
  ask_equiv :: "nat \<Rightarrow> pkg option \<Rightarrow> string \<Rightarrow> pkg list \<Rightarrow> pkg \<Rightarrow> int"
  ask_suggests :: "nat \<Rightarrow> pkg \<Rightarrow> capreq list \<Rightarrow> int \<times> capreq list"
  str_tokl :: "string \<Rightarrow> string list"
  null_free_ok :: bool
  testing_mode :: bool
  test_multilib_crash :: "string option"
  test_with_suggests :: "string option"

section \<open>The state\<close>

abbreviation I3ERR_CLASS_DEP :: u32 where "I3ERR_CLASS_DEP \<equiv> 1"
abbreviation I3ERR_CLASS_CNFL :: u32 where "I3ERR_CLASS_CNFL \<equiv> 2"
abbreviation I3ERR_NOTFOUND :: u32 where "I3ERR_NOTFOUND \<equiv> 32 OR I3ERR_CLASS_DEP"
abbreviation I3ERR_REQUIREDBY :: u32 where "I3ERR_REQUIREDBY \<equiv> 64 OR I3ERR_CLASS_DEP"
abbreviation I3ERR_CONFLICT :: u32 where "I3ERR_CONFLICT \<equiv> 128 OR I3ERR_CLASS_CNFL"
abbreviation I3ERR_DBCONFLICT :: u32 where "I3ERR_DBCONFLICT \<equiv> 256 OR I3ERR_CLASS_CNFL"

text \<open>An error, less its message.\<close>

record i3err =
  err_pkg :: pkg
  err_code :: u32

datatype i3_byflag = I3PKGBY_HAND | I3PKGBY_REQ | I3PKGBY_ORPHAN | I3PKGBY_GREEDY

abbreviation I3PKG_CROSSROAD :: u32 where "I3PKG_CROSSROAD \<equiv> 1"
abbreviation I3PKG_CROSSROAD_INDIR :: u32 where "I3PKG_CROSSROAD_INDIR \<equiv> 2"
abbreviation I3PKG_BACKTRACKABLE :: u32 where "I3PKG_BACKTRACKABLE \<equiv> I3PKG_CROSSROAD OR I3PKG_CROSSROAD_INDIR"

text \<open>A package under processing; \<open>i3_markedby\<close> are the addresses of the ones it has marked.\<close>

record i3pkg =
  i3_flags :: u32
  i3_pkg :: pkg
  i3_by :: "(pkg \<times> capreq \<times> i3_byflag) option"
  i3_obsoletedby :: "pkg list"
  i3_markedby :: "nat list"

text \<open>
  \<open>struct i3ctx\<close> with the parts of the transaction it changes. The \<open>i3pkg\<close>s live in \<open>i3heap\<close>, their
  addresses are positions there; the stack has its top first. \<open>signal_in\<close> is how many more times
  \<open>sigint_reached\<close> answers no, \<open>asked\<close> counts the questions to the user.
\<close>

record ('s, 'h) i3ctx =
  c_db :: "('s, 'h) pkgdb"
  c_ps :: pkgset
  ts_marks :: pmark_set
  i3heap :: "i3pkg list"
  i3stack :: "nat list"
  inset :: iset
  unset :: iset
  processed :: pmark_set
  multi_obsoleted :: "string \<Rightarrow> pkg list option"
  i3errors :: "(string \<times> i3err list) list"
  i3abort :: bool
  signal_in :: "nat option"
  asked :: nat

definition i3ctx_init :: "('s, 'h) pkgdb \<Rightarrow> pkgset \<Rightarrow> pmark_set \<Rightarrow> nat option \<Rightarrow> ('s, 'h) i3ctx" where
  "i3ctx_init db ps pms sig =
     \<lparr>c_db = db, c_ps = ps, ts_marks = pms, i3heap = [], i3stack = [], inset = iset_new, unset = iset_new,
      processed = pkgmark_set_new None PKGMARK_SET_IDPTR, multi_obsoleted = (\<lambda>_. None), i3errors = [],
      i3abort = False, signal_in = sig, asked = 0\<rparr>"

definition i3ctx_reset :: "('s, 'h) i3ctx \<Rightarrow> ('s, 'h) i3ctx" where
  "i3ctx_reset c = c\<lparr>i3stack := [], inset := iset_new, unset := iset_new,
     processed := pkgmark_set_new None PKGMARK_SET_IDPTR, multi_obsoleted := (\<lambda>_. None), i3errors := [],
     i3abort := False\<rparr>"

definition ma_flags_of :: "('s, 'h) i3env \<Rightarrow> u32" where
  "ma_flags_of e = (if o_mercy e then MA_PROMOTE_VERSION else 0)"

definition sigint_reached :: "(('s, 'h) i3ctx, bool) op" where
  "sigint_reached = ask (\<lambda>c. (signal_in c = Some 0, c\<lparr>signal_in := map_option (\<lambda>n. n - 1) (signal_in c)\<rparr>))"

definition i3_stop_processing :: "bool \<Rightarrow> (('s, 'h) i3ctx, unit) op" where
  "i3_stop_processing stop = upd (\<lambda>c. c\<lparr>i3abort := stop\<rparr>)"

text \<open>\<open>i3_return_zero_if_stoppped\<close> and its like: \<open>m\<close> unless the run is to stop.\<close>

definition stopped :: "(('s, 'h) i3ctx, bool) op" where
  "stopped = seq sigint_reached (\<lambda>b. if b then ret True else rd i3abort)"

definition i3_error :: "pkg \<Rightarrow> u32 \<Rightarrow> (('s, 'h) i3ctx, unit) op" where
  "i3_error p code = upd (\<lambda>c. c\<lparr>i3errors := AList.update (nvr p)
     ((case map_of (i3errors c) (nvr p) of None \<Rightarrow> [] | Some es \<Rightarrow> es) @ [\<lparr>err_pkg = p, err_code = code\<rparr>]) (i3errors c)\<rparr>)"

definition i3_forget_error :: "pkg \<Rightarrow> (('s, 'h) i3ctx, unit) op" where
  "i3_forget_error p = upd (\<lambda>c. c\<lparr>i3errors := AList.delete (nvr p) (i3errors c)\<rparr>)"

definition i3_get_nerrors :: "('s, 'h) i3ctx \<Rightarrow> u32 \<Rightarrow> nat" where
  "i3_get_nerrors c cls = length (filter (\<lambda>e. err_code e AND cls \<noteq> 0) (concat (map snd (i3errors c))))"

definition i3pkg_new :: "pkg \<Rightarrow> u32 \<Rightarrow> (pkg \<times> capreq \<times> i3_byflag) option \<Rightarrow> (('s, 'h) i3ctx, nat) op" where
  "i3pkg_new p fl by = ask (\<lambda>c. (length (i3heap c),
     c\<lparr>i3heap := i3heap c @ [\<lparr>i3_flags = fl, i3_pkg = p, i3_by = by, i3_obsoletedby = [], i3_markedby = []\<rparr>]\<rparr>))"

definition i3at :: "nat \<Rightarrow> ('s, 'h) i3ctx \<Rightarrow> i3pkg" where
  "i3at a c = i3heap c ! a"

definition i3upd :: "nat \<Rightarrow> (i3pkg \<Rightarrow> i3pkg) \<Rightarrow> (('s, 'h) i3ctx, unit) op" where
  "i3upd a f = upd (\<lambda>c. c\<lparr>i3heap := (i3heap c)[a := f (i3heap c ! a)]\<rparr>)"

abbreviation i3_is_marked :: "('s, 'h) i3ctx \<Rightarrow> pkg \<Rightarrow> bool" where
  "i3_is_marked c p \<equiv> iset_has_pkg (inset c) p"

abbreviation i3_is_hand_marked :: "('s, 'h) i3ctx \<Rightarrow> pkg \<Rightarrow> bool" where
  "i3_is_hand_marked c p \<equiv> iset_ismarkedf (inset c) p PKGMARK_MARK"

abbreviation i3_is_marked_for_removal :: "('s, 'h) i3ctx \<Rightarrow> pkg \<Rightarrow> bool" where
  "i3_is_marked_for_removal c p \<equiv> iset_has_pkg (unset c) p"

abbreviation marked_i :: "('s, 'h) i3ctx \<Rightarrow> pkg \<Rightarrow> bool" where
  "marked_i c p \<equiv> pkgmark_isset (ts_marks c) p PKGMARK_INTERNAL"

abbreviation is_black :: "('s, 'h) i3ctx \<Rightarrow> pkg \<Rightarrow> bool" where
  "is_black c p \<equiv> pkgmark_isset (processed c) p PKGMARK_BLACK"

abbreviation is_gray :: "('s, 'h) i3ctx \<Rightarrow> pkg \<Rightarrow> bool" where
  "is_gray c p \<equiv> pkgmark_isset (processed c) p PKGMARK_GRAY"

section \<open>What is installed\<close>



text \<open>Reading and changing the database, the available packages and the sets.\<close>

definition db_search ::
  "('s, 'h) i3env \<Rightarrow> pkgdb_it_tag \<Rightarrow> string \<Rightarrow> u32 \<Rightarrow> (('s, 'h) i3ctx, nat \<times> pkg list option) op" where
  "db_search e tag v ldflags = ask (\<lambda>c.
     let ((n, d, ex), db) = pkgdb_search (iE e) (iP e) (iM e) (c_db c) (Some None) tag v None ldflags
     in ((n, the d), c\<lparr>c_db := db\<rparr>))"

definition db_search_staying ::
  "('s, 'h) i3env \<Rightarrow> pkgdb_it_tag \<Rightarrow> string \<Rightarrow> u32 \<Rightarrow> (('s, 'h) i3ctx, pkg list option) op" where
  "db_search_staying e tag v ldflags = ask (\<lambda>c.
     let ((n, d, ex), db) = pkgdb_search (iE e) (iP e) (iM e) (c_db c) (Some None) tag v (Some (is_by_recno (unset c))) ldflags
     in (the d, c\<lparr>c_db := db, unset := (unset c)\<lparr>is_by_recno := the ex\<rparr>\<rparr>))"

definition ps_search :: "('s, 'h) i3env \<Rightarrow> search_tag \<Rightarrow> string \<Rightarrow> (('s, 'h) i3ctx, pkg list option) op" where
  "ps_search e tag v = ask (\<lambda>c.
     let (r, ps) = pkgset_search (iE e) (iP e) (iR e) (c_ps c) tag (Some v) in (r, c\<lparr>c_ps := ps\<rparr>))"

definition find_match ::
  "('s, 'h) i3env \<Rightarrow> pkg \<Rightarrow> capreq \<Rightarrow> (('s, 'h) i3ctx, bool \<times> pkg list) op" where
  "find_match e p req = ask (\<lambda>c.
     let (r, ps) = pkgset_find_match_packages (iE e) (iP e) (iR e) (c_ps c) (Some p) req True in (r, c\<lparr>c_ps := ps\<rparr>))"

definition inset_provides :: "('s, 'h) i3env \<Rightarrow> capreq \<Rightarrow> (('s, 'h) i3ctx, bool) op" where
  "inset_provides e req = ask_opt (\<lambda>c.
     map_option (\<lambda>(b, is). (b, c\<lparr>inset := is\<rparr>)) (iset_provides (iE e) (iP e) (iD e) (inset c) req))"

definition unset_provides :: "('s, 'h) i3env \<Rightarrow> capreq \<Rightarrow> (('s, 'h) i3ctx, bool) op" where
  "unset_provides e req = ask_opt (\<lambda>c.
     map_option (\<lambda>(b, is). (b, c\<lparr>unset := is\<rparr>)) (iset_provides (iE e) (iP e) (iD e) (unset c) req))"

definition unset_has_kind :: "('s, 'h) i3env \<Rightarrow> pkg \<Rightarrow> (('s, 'h) i3ctx, pkg option) op" where
  "unset_has_kind e p = ask (\<lambda>c.
     let (r, is) = iset_has_kind_of_pkg (iE e) (iP e) (iR e) (unset c) p in (r, c\<lparr>unset := is\<rparr>))"

definition i3_pkgdb_match_req :: "('s, 'h) i3env \<Rightarrow> capreq \<Rightarrow> (('s, 'h) i3ctx, bool) op" where
  "i3_pkgdb_match_req e req = ask (\<lambda>c.
     let ((b, ex), db) = pkgdb_match_req (iE e) (iP e) (iM e) (c_db c) req (ma_flags_of e OR MA_PROMOTE_CAPEPOCH)
           (Some (is_by_recno (unset c)))
     in (b, c\<lparr>c_db := db, unset := (unset c)\<lparr>is_by_recno := the ex\<rparr>\<rparr>))"

text \<open>The installed packages of the name that count in multilib mode; \<open>None\<close> is a missing architecture.\<close>

fun same_kind :: "('s, 'h) i3env \<Rightarrow> pkg \<Rightarrow> bool \<Rightarrow> pkg list \<Rightarrow> pkg list option" where
  "same_kind e p freshen [] = Some []"
| "same_kind e p freshen (d # ds) =
     (if \<not> pkg_is_kind_of (iE e) d p then same_kind e p freshen ds
      else if \<not> freshen then map_option (Cons d) (same_kind e p freshen ds)
      else Option.bind (pkg_is_arch_compat (iR e) d p)
             (\<lambda>b. if b then map_option (Cons d) (same_kind e p freshen ds) else same_kind e p freshen ds))"

text \<open>The number of them, and how the package compares with the newest; 0 when there is none.\<close>

definition i3_is_pkg_installed :: "('s, 'h) i3env \<Rightarrow> pkg \<Rightarrow> (('s, 'h) i3ctx, nat \<times> int) op" where
  "i3_is_pkg_installed e p =
     (let freshen = (o_freshen e \<or> ts_upgrade e \<or> ts_downgrade e \<or> ts_upgradedist e) in
      seq (db_search e PMTAG_NAME (name p) 0) (\<lambda>(n, d).
        if n = 0 then asrt (d = None) (ret (0, 0))
        else need (if conf_MULTILIB (iE e) then same_kind e p freshen (the d) else d) (\<lambda>dbpkgs.
          if dbpkgs = [] then ret (0, 0)
          else let newest = (if length dbpkgs > 1 then last (pk_sort (iP e) (pkg_cmp_evr (iE e)) dbpkgs) else hd dbpkgs)
               in ret (length dbpkgs, pkg_cmp_evr (iE e) p newest))))"

text \<open>0 is not installable, 1 installable, - 1 something wrong.\<close>

definition i3_is_pkg_installable :: "('s, 'h) i3env \<Rightarrow> pkg \<Rightarrow> bool \<Rightarrow> (('s, 'h) i3ctx, int) op" where
  "i3_is_pkg_installable e p is_hand_marked =
     seq (i3_is_pkg_installed e p) (\<lambda>(npkgs, cmprc).
       if npkgs = 0 then ret (if is_hand_marked \<and> o_freshen e then 0 else 1)
       else if cmprc \<noteq> 0 \<and> is_hand_marked \<and> npkgs > 1 \<and> ts_upgrade e \<and> \<not> o_force e
       then ret (if o_multiinst e then 1 else - 1)
       else let installable =
                  (if cmprc \<le> 0 \<and> \<not> o_force e \<and> (ts_upgrade e \<or> cmprc = 0)
                   then if cmprc = 0 \<and> ts_reinstall e then 1
                        else if cmprc < 0 \<and> ts_downgrade e then 1
                        else if \<not> is_hand_marked then - 1
                        else 0
                   else 1)
            in ret (if installable > 0 \<and> ts_upgrade e \<and> o_hold e \<and> pkg_held e p then 0 else installable))"

section \<open>Marking\<close>

text \<open>Whether another package of the name and architecture is marked (and satisfies \<open>req\<close>).\<close>

definition i3_is_other_version_marked ::
  "('s, 'h) i3env \<Rightarrow> pkg \<Rightarrow> capreq option \<Rightarrow> (('s, 'h) i3ctx, bool) op" where
  "i3_is_other_version_marked e p req = ask (\<lambda>c.
     let ps = ps_sorted (iE e) (iP e) (iR e) (c_ps c);
         i = pk_bsearch (iP e) (\<lambda>q. pkg_cmp_name q p) (ps_pkgs ps);
         same = takeWhile (\<lambda>q. pkg_cmp_name q p = 0 \<and> pkg_cmp_arch (iR e) q p = 0) (drop (nat i) (ps_pkgs ps))
     in (0 \<le> i \<and> list_ex (\<lambda>q. addr q \<noteq> addr p \<and> i3_is_marked c q \<and>
             (case req of None \<Rightarrow> True | Some r \<Rightarrow> pkg_satisfies_req (iE e) (iP e) (iD e) q r False)) same,
         c\<lparr>c_ps := ps\<rparr>))"

definition i3_unmark_package :: "('s, 'h) i3env \<Rightarrow> pkg \<Rightarrow> (('s, 'h) i3ctx, unit) op" where
  "i3_unmark_package e p =
     seq (upd (\<lambda>c. if iset_ismarkedf (inset c) p PKGMARK_INTERNAL
                    then c\<lparr>ts_marks := pkgmark_set (ts_marks c) p True PKGMARK_INTERNAL\<rparr> else c)) (\<lambda>_.
     seq (ask_opt (\<lambda>c. map_option (\<lambda>(b, is). (b, c\<lparr>inset := is\<rparr>)) (iset_remove (iE e) (iP e) (iR e) (inset c) p))) (\<lambda>b.
       asrt b (ret ())))"

text \<open>A package that is not installable ends the run; the mark the user's choice left moves to the set.\<close>

definition i3_mark_package :: "('s, 'h) i3env \<Rightarrow> pkg \<Rightarrow> u32 \<Rightarrow> (('s, 'h) i3ctx, bool) op" where
  "i3_mark_package e p mark =
     seq (rd (\<lambda>c. i3_is_marked c p)) (\<lambda>m. asrt (\<not> m)
       (seq (rd (\<lambda>c. marked_i c p)) (\<lambda>mi.
        seq (i3_is_pkg_installable e p mi) (\<lambda>rc.
          if rc \<le> 0 then seq (i3_stop_processing True) (\<lambda>_. ret False)
          else seq (upd (\<lambda>c. if mi
                 then c\<lparr>ts_marks := pkgmark_set (ts_marks c) p False PKGMARK_INTERNAL,
                        inset := iset_add (inset c) p (mark OR PKGMARK_INTERNAL)\<rparr>
                 else c\<lparr>inset := iset_add (inset c) p mark\<rparr>)) (\<lambda>_. ret True)))))"

text \<open>
  The packages of the same name prefix are marked by hand. The length of the name is tested for the
  package given, not for the one at hand, so the test never stops the loop.
\<close>

fun namegroup_loop :: "('s, 'h) i3env \<Rightarrow> pkg \<Rightarrow> string \<Rightarrow> pkg list \<Rightarrow> nat \<Rightarrow> (('s, 'h) i3ctx, nat) op" where
  "namegroup_loop e p prefix [] n = ret n"
| "namegroup_loop e p prefix (q # qs) n =
     (if length (name p) < length prefix \<or> strncmp (name q) prefix (length prefix) \<noteq> 0 then ret n
      else seq (rd (\<lambda>c. marked_i c q \<and> \<not> i3_is_marked c q)) (\<lambda>b.
        if b then seq (i3_mark_package e q PKGMARK_MARK) (\<lambda>_. namegroup_loop e p prefix qs (n + 1))
        else namegroup_loop e p prefix qs n))"

definition i3_mark_namegroup :: "('s, 'h) i3env \<Rightarrow> pkg \<Rightarrow> (('s, 'h) i3ctx, nat) op" where
  "i3_mark_namegroup e p =
     seq (ask (\<lambda>c. let ps = ps_sorted (iE e) (iP e) (iR e) (c_ps c) in (ps_pkgs ps, c\<lparr>c_ps := ps\<rparr>))) (\<lambda>pkgs.
       let prefix = before_chr (nsnprintf (iP e) 512 (name p)) CHR ''-'';
           n = pk_bsearch (iP e) (\<lambda>q. strncmp (name q) prefix (length prefix)) pkgs
       in if n < 0 then ret 0 else namegroup_loop e p prefix (drop (nat n) pkgs) 0)"

section \<open>Choosing among candidates\<close>

text \<open>Where a requirement could be met: 3 the packages to install, 2 the installed, 1 the available.\<close>

definition req_satisfiable :: "('s, 'h) i3env \<Rightarrow> pkg \<Rightarrow> capreq \<Rightarrow> (('s, 'h) i3ctx, int) op" where
  "req_satisfiable e p req =
     seq (inset_provides e req) (\<lambda>b1. if b1 then ret 3
     else seq (i3_pkgdb_match_req e req) (\<lambda>b2. if b2 then ret 2
     else seq (find_match e p req) (\<lambda>(b3, _). ret (if b3 then 1 else 0))))"

definition all_reqs :: "('s, 'h) i3env \<Rightarrow> pkg \<Rightarrow> u32 \<Rightarrow> capreq list" where
  "all_reqs e p itflags = map fst (pkg_req_iter (iD e) p (case sugs_of e p of None \<Rightarrow> [] | Some ss \<Rightarrow> ss) itflags)"

definition satisfiability_score :: "('s, 'h) i3env \<Rightarrow> pkg \<Rightarrow> pkg \<Rightarrow> (('s, 'h) i3ctx, int) op" where
  "satisfiability_score e marker p =
     (let itflags = PKG_ITER_REQIN OR PKG_ITER_REQDIR OR PKG_ITER_REQSUG;
          rs = all_reqs e marker itflags;
          nyes = length (filter (\<lambda>r. pkg_satisfies_req (iE e) (iP e) (iD e) p r True) rs)
      in asrt (reqs marker \<noteq> None)
        (seq (tally (\<lambda>r. seq (req_satisfiable e p r) (\<lambda>k. ret (if k = 0 then 1 else 0))) 0 (all_reqs e p itflags))
          (\<lambda>nunmet. ret (if nyes > 2 \<and> nyes = length rs then 3
             else if nunmet > 0 then - 1 else if nyes > 1 then 2 else 0))))"

record candidate_score =
  cs_score :: int
  cs_satscore :: int
  cs_conflicts :: int
  cs_prefix_evr :: int
  cs_color :: int
  cs_arch :: int
  cs_upgrade :: bool
  cs_oth :: bool

definition no_score :: candidate_score where
  "no_score = \<lparr>cs_score = 0, cs_satscore = 0, cs_conflicts = 0, cs_prefix_evr = 0, cs_color = 0, cs_arch = 0,
     cs_upgrade = False, cs_oth = False\<rparr>"

definition prefix_evr_score :: "penv \<Rightarrow> pkg \<Rightarrow> pkg \<Rightarrow> int" where
  "prefix_evr_score E marker p =
     (if \<not> pkg_eq_name_prefix marker p then 0
      else if pkg_cmp_evr E marker p = 0 then 3 else if pkg_cmp_ver E marker p = 0 then 2 else 1)"

text \<open>The scores by colour and by architecture; \<open>None\<close> is a missing architecture.\<close>

definition color_scores :: "penv \<Rightarrow> arch_registry \<Rightarrow> pkg \<Rightarrow> pkg \<Rightarrow> (int \<times> int) option" where
  "color_scores E R marker p =
     (if \<not> conf_MULTILIB E then Some (0, 0)
      else
        let k = (if pkg_is_colored_like E p marker \<noteq> 0 then 2 else if pkg_cmp_arch R p marker = 0 then 1 else 0)
        in Option.bind (pkg_is_arch_compat R p marker) (\<lambda>compat.
           map_option (\<lambda>noarch. (k + (if compat then 100 else 0), if noarch then pkg_arch_score R p else 0))
             (pkg_is_noarch R marker)))"

definition i3_get_package_conflicted_pkgs :: "('s, 'h) i3env \<Rightarrow> pkg \<Rightarrow> (('s, 'h) i3ctx, reqpkg list option) op" where
  "i3_get_package_conflicted_pkgs e p =
     (if cnfls p = None then ret None
      else ask (\<lambda>c. let (r, ps) = pkgset_get_conflicted_packages (iE e) (iP e) (iR e) (c_ps c) p in (r, c\<lparr>c_ps := ps\<rparr>)))"

definition count_conflicts :: "('s, 'h) i3env \<Rightarrow> pkg \<Rightarrow> (('s, 'h) i3ctx, int) op" where
  "count_conflicts e p =
     seq (i3_get_package_conflicted_pkgs e p) (\<lambda>r.
       rd (\<lambda>c. int (length (filter (\<lambda>cp. i3_is_marked c (rp_pkg cp)) (rp_list r)))))"

text \<open>The score of a candidate for what \<open>marker\<close> requires, which is never null.\<close>

definition score_candidate :: "('s, 'h) i3env \<Rightarrow> pkg \<Rightarrow> pkg \<Rightarrow> (('s, 'h) i3ctx, candidate_score) op" where
  "score_candidate e marker p =
     seq (rd (\<lambda>c. is_black c p)) (\<lambda>black.
       if black then ret (no_score\<lparr>cs_score := - 999\<rparr>)
       else need (color_scores (iE e) (iR e) marker p) (\<lambda>(col, arch).
         seq (satisfiability_score e marker p) (\<lambda>sat.
         seq (i3_is_pkg_installed e p) (\<lambda>(n, cmprc).
         seq (if n > 0 \<and> cmprc > 0 then seq (unset_has_kind e p) (\<lambda>k. ret (k = None)) else ret False) (\<lambda>up.
         seq (count_conflicts e p) (\<lambda>ncnfl.
         seq (i3_is_other_version_marked e p None) (\<lambda>om.
           let pre = prefix_evr_score (iE e) marker p;
               oth = (om \<or> testing_mode e \<and> test_multilib_crash e = Some (nvr p))
           in ret \<lparr>cs_score = sat - 5 * ncnfl + pre + col + (if up then 5 else 0) + (if oth then - 10 else 0),
                   cs_satscore = sat, cs_conflicts = ncnfl, cs_prefix_evr = pre, cs_color = col, cs_arch = arch,
                   cs_upgrade = up, cs_oth = oth\<rparr>)))))))"

definition INT_MAX :: int where "INT_MAX = 2147483647"

text \<open>The number of packages that are the one before in another version, counting the first.\<close>

fun count_same :: "arch_registry \<Rightarrow> pkg list \<Rightarrow> nat" where
  "count_same R (p # q # ps) = (if pkg_cmp_name q p = 0 \<and> pkg_cmp_arch R q p = 0 then 1 else 0) + count_same R (q # ps)"
| "count_same R _ = 1"

text \<open>The first position with a value above all before it, starting from position 0 with \<open>best\<close>.\<close>

fun best_at :: "nat \<Rightarrow> nat \<Rightarrow> int \<Rightarrow> int list \<Rightarrow> nat \<times> int" where
  "best_at i i_best best [] = (i_best, best)"
| "best_at i i_best best (x # xs) = (if x > best then best_at (i + 1) i x xs else best_at (i + 1) i_best best xs)"

text \<open>The last position of a package.\<close>

definition position_of :: "pkg \<Rightarrow> pkg list \<Rightarrow> nat option" where
  "position_of p ps =
     (case filter (\<lambda>i. addr (ps ! i) = addr p) [0..<length ps] of [] \<Rightarrow> None | js \<Rightarrow> Some (last js))"

text \<open>The candidates that are left when the bad ones are dropped, and the position of the best.\<close>

definition trim_candidates :: "candidate_score list \<Rightarrow> pkg list \<Rightarrow> nat \<Rightarrow> nat \<times> pkg list" where
  "trim_candidates scores cands i_best =
     (let sats = map cs_satscore scores; cns = map cs_conflicts scores;
          trim_sat = (foldl min INT_MAX sats < 0 \<and> 0 \<le> foldl max (hd sats) sats);
          trim_cnfl = (foldl max 0 cns > 0 \<and> foldl min INT_MAX cns = 0);
          copy = map snd (filter (\<lambda>(sc, p). \<not> (trim_sat \<and> cs_satscore sc < 0) \<and> \<not> (trim_cnfl \<and> cs_conflicts sc > 0))
                   (zip scores cands))
      in if \<not> trim_sat \<and> \<not> trim_cnfl \<or> copy = [] then (i_best, cands)
         else (case position_of (cands ! i_best) copy of None \<Rightarrow> (0, copy) | Some i \<Rightarrow> (i, copy)))"

text \<open>
  The position of the best candidate, and the candidates that are left. The lowest score by
  architecture adds a point.
\<close>

definition do_select_best_pkg :: "('s, 'h) i3env \<Rightarrow> pkg \<Rightarrow> pkg list \<Rightarrow> (('s, 'h) i3ctx, nat \<times> pkg list) op" where
  "do_select_best_pkg e marker cands =
     asrt (cands \<noteq> [])
       (if length cands = 1 then ret (0, cands)
        else seq (visit (score_candidate e marker) cands) (\<lambda>scores.
          let min_arch = foldl min INT_MAX (map cs_arch scores);
              final = map (\<lambda>sc. cs_score sc + (if cs_arch sc = min_arch then 1 else 0)) scores;
              (i_best, _) = best_at 0 0 (cs_score (hd scores)) final;
              (i_best_sat, _) = best_at 0 0 (cs_satscore (hd scores)) (map cs_satscore scores);
              best = cands ! i_best
          in if count_same (iR e) cands = length cands \<and>
                (pkg_cmp_ver (iE e) best marker = 0 \<or> i_best = i_best_sat)
             then ret (0, [best])
             else ret (trim_candidates scores cands i_best)))"

text \<open>
  The position is that in the array of the candidates that are not black and are coloured like
  \<open>marker\<close>, after the bad ones of them have been dropped.
\<close>

definition i3_select_best_pkg :: "('s, 'h) i3env \<Rightarrow> pkg \<Rightarrow> pkg list \<Rightarrow> (('s, 'h) i3ctx, int) op" where
  "i3_select_best_pkg e marker cands =
     seq (rd (\<lambda>c. filter (\<lambda>p. \<not> is_black c p \<and> pkg_is_colored_like (iE e) p marker \<noteq> 0) cands)) (\<lambda>tmp.
       if tmp = [] then ret (- 1)
       else seq (do_select_best_pkg e marker tmp) (\<lambda>(i, _). ret (int i)))"

text \<open>
  Whether a requirement can be met, the package to mark for it (none when one is marked already),
  and the candidates when there are several.
\<close>

definition i3_find_req ::
  "('s, 'h) i3env \<Rightarrow> pkg \<Rightarrow> capreq \<Rightarrow> (('s, 'h) i3ctx, bool \<times> pkg option \<times> pkg list) op" where
  "i3_find_req e p req =
     seq (find_match e p req) (\<lambda>(found, sus).
       if \<not> found \<or> sus = [] then ret (found, None, [])
       else seq (rd (\<lambda>c. filter (\<lambda>q. \<not> is_black c q)
                  (if ts_reinstall e then sus
                   else filter (\<lambda>q. \<not> (i3_is_marked_for_removal c q \<and> \<not> i3_is_marked c q)) sus))) (\<lambda>sus1.
         if sus1 = [] then ret (False, None, [])
         else seq (rd (\<lambda>c. list_ex (i3_is_marked c) sus1)) (\<lambda>any_is_marked.
           let several = (\<lambda>qs. if length qs > 1 then qs else []) in
           if any_is_marked then ret (True, None, several sus1)
           else seq (do_select_best_pkg e p sus1) (\<lambda>(i, sus2).
             let best = sus2 ! i in
             seq (i3_is_other_version_marked e best None) (\<lambda>om.
               ret (if om then (False, None, several sus2) else (True, Some best, several sus2)))))))"

text \<open>The user's choice, or the hint; no package when the user gives up.\<close>

definition i3_choose_equiv ::
  "('s, 'h) i3env \<Rightarrow> pkg option \<Rightarrow> string \<Rightarrow> pkg list \<Rightarrow> pkg option \<Rightarrow> (('s, 'h) i3ctx, pkg option) op" where
  "i3_choose_equiv e p cap pkgs hint0 =
     asrt (pkgs \<noteq> [])
       (let hint = (case hint0 of None \<Rightarrow> hd pkgs | Some h \<Rightarrow> h);
            sorted = pk_sort (iP e) (pkg_cmp_name_evr_rev (iE e) (iR e)) pkgs;
            uniq = (if o_multilib e then uniq_from (pkg_cmp_name_evr (iE e)) sorted else sorted)
        in if testing_mode e \<or> \<not> o_askuser e \<or> length uniq \<noteq> length sorted then ret (Some hint)
           else seq (ask (\<lambda>c. (ask_equiv e (asked c) p cap uniq hint, c\<lparr>asked := asked c + 1\<rparr>))) (\<lambda>n.
             if n = - 1 then ret None
             else asrt (0 \<le> n \<and> nat n < length uniq) (ret (Some (uniq ! nat n)))))"

end
