(* ===== verification/I3.thy ===== *)
theory I3
  imports I3ctx
begin

text \<open>
  The installation engine, second part: what processing a package does about its requirements
  (install3/requirements.c), about what it obsoletes (install3/obsoletes.c), about conflicts
  (install3/conflicts.c), and the recursion with its backtracking (install3/process.c). The
  operations take the recursive call as their first argument, \<open>proc\<close>.
\<close>

section \<open>Going through requirements\<close>

definition capreq_stra :: "('s, 'h) i3env \<Rightarrow> capreq \<Rightarrow> string" where
  "capreq_stra e cr = (if capreq_versioned cr then capreq_snprintf (nsnprintf (iP e)) 512 cr else cr_name cr)"

definition req_cost_cb :: "('s, 'h) i3env \<Rightarrow> pkg \<Rightarrow> capreq \<Rightarrow> (('s, 'h) i3ctx, int \<times> pkg list option) op" where
  "req_cost_cb e p req =
     seq (find_match e p req) (\<lambda>(_, ps).
     let provs = (if ps = [] then None else Some ps) in
     seq (inset_provides e req) (\<lambda>b1. if b1 then ret (0, provs)
     else seq (i3_pkgdb_match_req e req) (\<lambda>b2. if b2 then ret (0, provs)
     else seq (find_match e p req) (\<lambda>(b3, _). ret (if b3 then 1 else - 1, provs)))))"

text \<open>
  The evaluation of a rich dependency asks its questions in the state it begins in: they build
  indexes, fill caches and sort arrays, and no answer depends on those. \<open>i3_prov_remove\<close> is trurl's removal from an
  array.
\<close>

definition i3_prov_remove :: "('s, 'h) i3env \<Rightarrow> pkg list \<Rightarrow> pkg \<Rightarrow> pkg list" where
  "i3_prov_remove e ps p = filter (\<lambda>q. pkg_cmp_name_evr_rev (iE e) (iR e) q p \<noteq> 0) ps"

definition eval_ctx :: "('s, 'h) i3env \<Rightarrow> pkg \<Rightarrow> ('s, 'h) i3ctx \<Rightarrow> bctx" where
  "eval_ctx e p c =
     \<lparr>req_cost = Some (\<lambda>req. case req_cost_cb e p req c of Inl _ \<Rightarrow> (- 1, None) | Inr (r, _) \<Rightarrow> r),
      prov_bsearch = (\<lambda>ps q. fst (dir_find (iE e) (iP e) (iR e) ps q) \<noteq> - 1),
      prov_remove = i3_prov_remove e\<rparr>"

definition eval_boolreq :: "('s, 'h) i3env \<Rightarrow> pkg \<Rightarrow> capreq \<Rightarrow> (('s, 'h) i3ctx, capreq list option) op" where
  "eval_boolreq e p req =
     (let expr = (if testing_mode e \<and> cr_name req \<noteq> [] \<and> hd (cr_name req) = CHR ''_''
                  then map (\<lambda>ch. if ch = CHR ''_'' then CHR '' '' else ch) (drop 2 (cr_name req)) else cr_name req)
      in case booldep_parse expr of
           Inl Refused \<Rightarrow> ret None
         | Inl Asserted \<Rightarrow> die
         | Inr (nd, _) \<Rightarrow>
             ask_opt (\<lambda>c. case booldep_eval (eval_ctx e p c) nd of Inl _ \<Rightarrow> None | Inr rs \<Rightarrow> Some (rs, c)))"

definition req_is_boolean :: "('s, 'h) i3env \<Rightarrow> capreq \<Rightarrow> bool" where
  "req_is_boolean e req \<longleftrightarrow> capreq_is_boolean req \<or> testing_mode e \<and> take 2 (cr_name req) = ''__''"

text \<open>What \<open>i3_req_iter_get\<close> yields for one requirement, itself where it cannot be evaluated.\<close>

definition i3_req_iter_get :: "('s, 'h) i3env \<Rightarrow> pkg \<Rightarrow> capreq \<Rightarrow> (('s, 'h) i3ctx, capreq list) op" where
  "i3_req_iter_get e p req =
     (if req_is_boolean e req
      then seq (eval_boolreq e p req) (\<lambda>bs. ret (case bs of None \<Rightarrow> [req] | Some rs \<Rightarrow> rs))
      else ret [req])"

section \<open>Requirements of a package to install\<close>

type_synonym ('s, 'h) proc = "nat \<Rightarrow> (('s, 'h) i3ctx, int) op"

definition set_crossroad :: "nat \<Rightarrow> pkg list \<Rightarrow> (('s, 'h) i3ctx, unit) op" where
  "set_crossroad a cands = upd (\<lambda>c. c\<lparr>i3heap := (i3heap c)[a := (i3at a c)\<lparr>i3_flags :=
     (let fl = i3_flags (i3at a c) AND NOT I3PKG_CROSSROAD in
      if length (filter (\<lambda>q. \<not> is_black c q) cands) > 1 then fl OR I3PKG_CROSSROAD else fl)\<rparr>]\<rparr>)"

text \<open>1 is met or marked, 0 an error, - 1 that the package marked for it had to be given up.\<close>

definition i3_process_req ::
  "('s, 'h) proc \<Rightarrow> ('s, 'h) i3env \<Rightarrow> nat \<Rightarrow> capreq \<Rightarrow> (('s, 'h) i3ctx, int) op" where
  "i3_process_req proc e a req =
     seq (rd (\<lambda>c. i3_pkg (i3at a c))) (\<lambda>p.
     if capreq_is_rpmlib req \<and> pm_satisfies (iP e) req then ret 1
     else seq (i3_pkgdb_match_req e req) (\<lambda>b. if b then ret 1
     else seq (i3_find_req e p req) (\<lambda>(found, tomark, cands).
       case tomark of
         None \<Rightarrow> if found then ret 1 else seq (i3_error p I3ERR_NOTFOUND) (\<lambda>_. ret 0)
       | Some t \<Rightarrow>
           if \<not> o_follow e then seq (i3_error p I3ERR_NOTFOUND) (\<lambda>_. ret 0)
           else seq (if o_askuser e \<and> cands \<noteq> [] then i3_choose_equiv e (Some p) (capreq_stra e req) cands (Some t)
                     else ret (Some t)) (\<lambda>choice.
             case choice of
               None \<Rightarrow> seq (i3_stop_processing True) (\<lambda>_. ret 0)
             | Some q \<Rightarrow>
                 seq (set_crossroad a cands) (\<lambda>_.
                 seq (rd (\<lambda>c. i3_flags (i3at a c))) (\<lambda>fl.
                 seq (i3pkg_new q (if fl AND I3PKG_BACKTRACKABLE \<noteq> 0 then I3PKG_CROSSROAD_INDIR else 0)
                        (Some (p, req, I3PKGBY_REQ))) proc))))))"

text \<open>
  The requirements one by one: the number not met, whether one was given up, and whether the loop
  has been left.
\<close>

fun try_reqs ::
  "('s, 'h) proc \<Rightarrow> ('s, 'h) i3env \<Rightarrow> nat \<Rightarrow> nat \<times> bool \<Rightarrow> capreq list \<Rightarrow> (('s, 'h) i3ctx, (nat \<times> bool) \<times> bool) op" where
  "try_reqs proc e a st [] = ret (st, False)"
| "try_reqs proc e a (nerr, backtrack) (r # rs) =
     seq (i3_process_req proc e a r) (\<lambda>rc.
       if rc > 0 then try_reqs proc e a (nerr, backtrack) rs
       else if rc = 0 then try_reqs proc e a (nerr + 1, backtrack) rs
       else seq (rd (\<lambda>c. i3_flags (i3at a c))) (\<lambda>fl.
         if fl AND I3PKG_BACKTRACKABLE \<noteq> 0 then ret ((nerr + 1, True), True)
         else try_reqs proc e a (nerr + 1, True) rs))"

fun iter_reqs ::
  "('s, 'h) proc \<Rightarrow> ('s, 'h) i3env \<Rightarrow> nat \<Rightarrow> pkg \<Rightarrow> nat \<times> bool \<Rightarrow> capreq list \<Rightarrow> (('s, 'h) i3ctx, nat \<times> bool) op" where
  "iter_reqs proc e a p st [] = ret st"
| "iter_reqs proc e a p st (r # rs) =
     seq (i3_req_iter_get e p r) (\<lambda>bs.
     seq (try_reqs proc e a st bs) (\<lambda>(st', left). if left then ret st' else iter_reqs proc e a p st' rs))"

text \<open>The suggestions worth asking for.\<close>

fun pick_suggests ::
  "('s, 'h) i3env \<Rightarrow> pkg \<Rightarrow> pkg option \<Rightarrow> string option \<Rightarrow> capreq list \<Rightarrow> (('s, 'h) i3ctx, capreq list) op" where
  "pick_suggests e p oldpkg auto [] = ret []"
| "pick_suggests e p oldpkg auto (r # rs) =
     seq (if capreq_is_boolean r then ret False
          else seq (inset_provides e r) (\<lambda>b1. if b1 then ret False
          else seq (i3_pkgdb_match_req e r) (\<lambda>b2. if b2 then ret False
          else if (case Option.bind oldpkg (sugs_of e) of None \<Rightarrow> False
                   | Some ss \<Rightarrow> fst (capreq_arr_contains (iE e) ss (cr_name r))) then ret False
          else seq (i3_find_req e p r) (\<lambda>(found, tomark, _).
            ret (found \<and> tomark \<noteq> None \<and>
                 (case auto of None \<Rightarrow> True | Some w \<Rightarrow> w = ''all'' \<or> w = cr_name r))))))
       (\<lambda>keep. seq (pick_suggests e p oldpkg auto rs) (\<lambda>ss. ret (if keep then r # ss else ss)))"

definition with_suggests :: "('s, 'h) i3env \<Rightarrow> pkg \<Rightarrow> (('s, 'h) i3ctx, capreq list) op" where
  "with_suggests e p =
     (let auto = (if testing_mode e then test_with_suggests e else None) in
      case sugs_of e p of
        None \<Rightarrow> ret []
      | Some ss \<Rightarrow>
          if auto = None \<and> \<not> o_askuser e then ret []
          else seq (rd (\<lambda>c. i3_get_nerrors c (I3ERR_CLASS_DEP OR I3ERR_CLASS_CNFL))) (\<lambda>nerr.
            if nerr > 0 then ret []
            else seq (unset_has_kind e p) (\<lambda>oldpkg.
            seq (pick_suggests e p oldpkg auto (cr_sort (iE e) (capreq_cmp_name_evr (iE e)) ss)) (\<lambda>suggests.
              if suggests = [] \<or> auto \<noteq> None then ret suggests
              else seq (ask (\<lambda>c. (ask_suggests e (asked c) p suggests, c\<lparr>asked := asked c + 1\<rparr>))) (\<lambda>(answer, choices).
                if answer = 0 then ret []
                else if answer = - 1 \<or> answer = 1 then ret suggests
                else asrt (answer = 2) (ret choices))))))"

text \<open>
  All requirements, then the suggestions. Having given up a package at a crossroad the whole is
  tried again; the fuel bounds the retries.
\<close>

primrec i3_process_pkg_requirements ::
  "('s, 'h) proc \<Rightarrow> ('s, 'h) i3env \<Rightarrow> nat \<Rightarrow> nat \<Rightarrow> (('s, 'h) i3ctx, bool) op" where
  "i3_process_pkg_requirements proc e 0 a = (\<lambda>c. Inl OutOfFuel)"
| "i3_process_pkg_requirements proc e (Suc k) a =
     seq (rd (\<lambda>c. i3_pkg (i3at a c))) (\<lambda>p. asrt (reqs p \<noteq> None)
      (seq stopped (\<lambda>stop. if stop then ret False
       else seq (iter_reqs proc e a p (0, False) (map fst (pkg_req_iter (iD e) p [] PKG_ITER_REQIN))) (\<lambda>(nerr, bt).
       seq (if o_suggests e \<and> o_follow e \<and> nerr = 0
            then seq (with_suggests e p) (\<lambda>ss. seq (try_reqs proc e a (nerr, bt) ss) (\<lambda>(st, _). ret st))
            else ret (nerr, bt)) (\<lambda>(nerr', bt').
       seq (rd (\<lambda>c. i3_flags (i3at a c))) (\<lambda>fl.
         if bt' \<and> fl AND I3PKG_CROSSROAD \<noteq> 0 then i3_process_pkg_requirements proc e k a
         else ret (nerr' = 0)))))))"

section \<open>Orphans: installed packages that lose what they require\<close>

definition filter_out_olders :: "('s, 'h) i3env \<Rightarrow> pkg list \<Rightarrow> pkg \<Rightarrow> pkg list" where
  "filter_out_olders e pkgs p =
     filter (\<lambda>q. if ts_downgrade e then pkg_cmp_evr (iE e) q p < 0 else pkg_cmp_evr (iE e) q p > 0) pkgs"

definition req_score :: "('s, 'h) i3env \<Rightarrow> pkg \<Rightarrow> (('s, 'h) i3ctx, int) op" where
  "req_score e p =
     seq (ask_opt (\<lambda>c. map_option (\<lambda>(n, is). (n, c\<lparr>inset := is\<rparr>)) (iset_reqs_score (iE e) (iP e) (iD e) (inset c) p))) (\<lambda>iscore.
     seq (ask_opt (\<lambda>c. map_option (\<lambda>(n, is). (n, c\<lparr>unset := is\<rparr>)) (iset_reqs_score (iE e) (iP e) (iD e) (unset c) p))) (\<lambda>uscore.
       ret (iscore - uscore)))"

definition choose_successor :: "('s, 'h) i3env \<Rightarrow> pkg list \<Rightarrow> (('s, 'h) i3ctx, pkg option) op" where
  "choose_successor e cands =
     seq (visit (req_score e) cands) (\<lambda>scores. ret (Some (cands ! fst (best_at 0 0 0 scores))))"

text \<open>The score of a candidate in multilib mode, after \<open>rscore\<close>; \<open>None\<close> is a missing architecture.\<close>

definition multilib_score :: "('s, 'h) i3env \<Rightarrow> pkg \<Rightarrow> pkg \<Rightarrow> int option" where
  "multilib_score e p q =
     (let kind = pkg_is_kind_of (iE e) q p;
          plus = (if color p = 0 \<and> color q = 0 then 1 + (if kind then 2 else 0)
                  else if color p = 0 then (if kind then 1 else 0)
                  else if pkg_is_colored_like (iE e) q p \<noteq> 0 then 2 else 0)
      in if \<not> kind then Some plus
         else map_option (\<lambda>compat. (if compat then 100 else 0) + plus) (pkg_is_arch_compat (iR e) q p))"

definition choose_successor_MULTILIB :: "('s, 'h) i3env \<Rightarrow> pkg \<Rightarrow> pkg list \<Rightarrow> (('s, 'h) i3ctx, pkg option) op" where
  "choose_successor_MULTILIB e p cands =
     seq (visit (\<lambda>q. need (multilib_score e p q) (\<lambda>k. seq (req_score e q) (\<lambda>r. ret (k + r)))) cands) (\<lambda>scores.
       let (i, max_score) = best_at 0 0 0 scores;
           selected = (if max_score = 0 then None else Some (cands ! i))
       in if \<exists>q \<in> set cands. color p \<noteq> 0 \<or> color q \<noteq> 0 then ret selected
          else asrt (max_score > 0)
            (if \<exists>v \<in> set scores. v \<noteq> hd scores then ret selected
             else let arch = map (\<lambda>q. - pkg_arch_score (iR e) q) cands
                  in ret (if \<forall>v \<in> set arch. v \<le> - INT_MAX then selected
                          else Some (cands ! fst (best_at 0 0 (- INT_MAX) arch)))))"

definition select_successor :: "('s, 'h) i3env \<Rightarrow> pkg \<Rightarrow> (('s, 'h) i3ctx, pkg option) op" where
  "select_successor e p =
     seq (ps_search e ST_NAME (name p)) (\<lambda>r.
       let cands = filter_out_olders e (case r of None \<Rightarrow> [] | Some qs \<Rightarrow> qs) p
       in if cands = [] then ret None
          else if conf_MULTILIB (iE e) then choose_successor_MULTILIB e p cands
          else choose_successor e cands)"

text \<open>Obsoletes and Provides of one name together mean that it is replaced.\<close>

fun replacemeant :: "penv \<Rightarrow> pkg \<Rightarrow> capreq list \<Rightarrow> string option" where
  "replacemeant E p [] = None"
| "replacemeant E p (cnfl # cs) =
     (if capreq_versioned cnfl \<or> \<not> capreq_is_obsl cnfl then replacemeant E p cs
      else if fst (pkg_caps_match_req E p cnfl 0) then Some (cr_name cnfl)
      else replacemeant E p cs)"

definition get_replacemeant_capname :: "penv \<Rightarrow> pkg \<Rightarrow> string option" where
  "get_replacemeant_capname E p = replacemeant E p (case cnfls p of None \<Rightarrow> [] | Some cs \<Rightarrow> cs)"

definition are_equivalents :: "penv \<Rightarrow> pkg \<Rightarrow> pkg \<Rightarrow> bool" where
  "are_equivalents E p1 p2 \<longleftrightarrow> cnfls p1 \<noteq> None \<and> cnfls p2 \<noteq> None \<and>
     get_replacemeant_capname E p1 \<noteq> None \<and> get_replacemeant_capname E p1 = get_replacemeant_capname E p2"

text \<open>The position chosen is one in the filtered candidates, the package is taken from all of them.\<close>

definition find_successor_by :: "('s, 'h) i3env \<Rightarrow> pkg \<Rightarrow> search_tag \<Rightarrow> (('s, 'h) i3ctx, pkg option) op" where
  "find_successor_by e p tag =
     seq (ps_search e tag (name p)) (\<lambda>r.
       let pkgs = filter (\<lambda>q. pkg_cmp_name p q \<noteq> 0 \<and> \<not> are_equivalents (iE e) p q)
                    (case r of None \<Rightarrow> [] | Some qs \<Rightarrow> qs)
       in if pkgs = [] then ret None
          else seq (i3_select_best_pkg e p pkgs) (\<lambda>i. ret (if i = - 1 then None else Some (pkgs ! nat i))))"

text \<open>The successor, and whether it was found by Obsoletes.\<close>

definition find_successor :: "('s, 'h) i3env \<Rightarrow> pkg \<Rightarrow> (('s, 'h) i3ctx, (pkg \<times> bool) option) op" where
  "find_successor e p =
     seq (select_successor e p) (\<lambda>s1. case s1 of
       Some q \<Rightarrow> ret (Some (q, False))
     | None \<Rightarrow>
         if \<not> o_obsoletes e then ret None
         else seq (find_successor_by e p ST_CAP) (\<lambda>s2. case s2 of
           Some q \<Rightarrow> ret (Some (q, False))
         | None \<Rightarrow> seq (find_successor_by e p ST_OBSL) (\<lambda>s3. ret (map_option (\<lambda>q. (q, True)) s3))))"

definition try_to_upgrade_orphan ::
  "('s, 'h) proc \<Rightarrow> ('s, 'h) i3env \<Rightarrow> pkg \<Rightarrow> capreq \<Rightarrow> (('s, 'h) i3ctx, bool) op" where
  "try_to_upgrade_orphan proc e p req =
     seq (find_successor e p) (\<lambda>succ. case succ of
       None \<Rightarrow> ret False
     | Some (q, by_obsoletes) \<Rightarrow>
         seq (rd (\<lambda>c. i3_is_marked c q \<or> marked_i c q)) (\<lambda>m.
           if \<not> m \<and> pkg_requires_cap (iE e) q req \<noteq> None then ret False
           else seq (i3pkg_new q 0 (Some (p, req, I3PKGBY_GREEDY))) (\<lambda>a. seq (proc a) (\<lambda>_. ret True))))"

definition process_orphan_req ::
  "('s, 'h) proc \<Rightarrow> ('s, 'h) i3env \<Rightarrow> pkg \<Rightarrow> capreq \<Rightarrow> (('s, 'h) i3ctx, unit) op" where
  "process_orphan_req proc e p req =
     seq (unset_provides e req) (\<lambda>own. if \<not> own then ret ()
     else seq (i3_find_req e p req) (\<lambda>(found, tomark, cands). if found \<and> tomark = None then ret ()
     else seq (i3_pkgdb_match_req e req) (\<lambda>b. if b then ret ()
     else seq (if tomark = None \<or> o_greedy e then try_to_upgrade_orphan proc e p req else ret False) (\<lambda>up. if up then ret ()
     else seq (case tomark of None \<Rightarrow> ret None | Some t \<Rightarrow> unset_has_kind e t) (\<lambda>toremove.
       case tomark of
         None \<Rightarrow> i3_error p I3ERR_REQUIREDBY
       | Some t \<Rightarrow>
           if toremove \<noteq> None then seq (i3_stop_processing True) (\<lambda>_. i3_error p I3ERR_REQUIREDBY)
           else if \<not> o_follow e then i3_error p I3ERR_REQUIREDBY
           else seq (if o_askuser e \<and> cands \<noteq> [] then i3_choose_equiv e (Some p) (capreq_stra e req) cands (Some t)
                     else ret (Some t)) (\<lambda>choice.
             case choice of
               None \<Rightarrow> i3_stop_processing True
             | Some q \<Rightarrow> seq (i3pkg_new q 0 (Some (p, req, I3PKGBY_ORPHAN))) (\<lambda>a. seq (proc a) (\<lambda>_. ret ()))))))))"

fun orphan_reqs ::
  "('s, 'h) proc \<Rightarrow> ('s, 'h) i3env \<Rightarrow> pkg \<Rightarrow> capreq list \<Rightarrow> (('s, 'h) i3ctx, unit) op" where
  "orphan_reqs proc e p [] = ret ()"
| "orphan_reqs proc e p (req # rs) =
     (if capreq_is_prereq_un req \<or> capreq_is_rpmlib req then orphan_reqs proc e p rs
      else seq (rd (\<lambda>c. i3_is_marked_for_removal c p)) (\<lambda>gone. if gone then ret ()
      else seq (process_orphan_req proc e p req) (\<lambda>_.
           seq stopped (\<lambda>stop. if stop then ret () else orphan_reqs proc e p rs))))"

definition i3_process_orphan_requirements ::
  "('s, 'h) proc \<Rightarrow> ('s, 'h) i3env \<Rightarrow> pkg \<Rightarrow> capreq list \<Rightarrow> (('s, 'h) i3ctx, unit) op" where
  "i3_process_orphan_requirements proc e p rs =
     seq stopped (\<lambda>stop. if stop then ret () else asrt (reqs p \<noteq> None) (orphan_reqs proc e p rs))"

definition i3_process_orphan ::
  "('s, 'h) proc \<Rightarrow> ('s, 'h) i3env \<Rightarrow> pkg \<times> capreq list \<Rightarrow> (('s, 'h) i3ctx, unit) op" where
  "i3_process_orphan proc e orph =
     seq stopped (\<lambda>stop. if stop then ret () else i3_process_orphan_requirements proc e (fst orph) (snd orph))"

section \<open>What a package obsoletes\<close>

text \<open>\<open>fnmatch\<close>, with the constructs that occur in the patterns below.\<close>

fun fnmatch :: "string \<Rightarrow> string \<Rightarrow> bool" where
  "fnmatch [] s \<longleftrightarrow> s = []"
| "fnmatch (c # pat) s \<longleftrightarrow>
     (if c = CHR ''*'' then fnmatch pat s \<or> (case s of [] \<Rightarrow> False | _ # s' \<Rightarrow> fnmatch (c # pat) s')
      else if c = CHR ''['' \<and> length pat \<ge> 4 \<and> pat ! 1 = CHR ''-'' \<and> pat ! 3 = CHR '']''
      then (case s of [] \<Rightarrow> False
            | d # s' \<Rightarrow> of_char (pat ! 0) \<le> (of_char d :: nat) \<and> (of_char d :: nat) \<le> of_char (pat ! 2) \<and> fnmatch (drop 4 pat) s')
      else (case s of [] \<Rightarrow> False | d # s' \<Rightarrow> c = d \<and> fnmatch pat s'))"

definition is_requireable_cap :: "string \<Rightarrow> bool" where
  "is_requireable_cap cap \<longleftrightarrow> \<not> fnmatch ''elf(buildid)*'' cap"

definition is_requireable_path :: "string \<Rightarrow> bool" where
  "is_requireable_path path \<longleftrightarrow> \<not> list_ex (\<lambda>pat. fnmatch pat path)
     [''/usr/share/doc/*/*'', ''/usr/share/doc/*'', ''/usr/share/man/*.[0-9]'', ''/usr/src/examples/*'',
      ''/usr/lib/.build-id'', ''/usr/lib/.build-id/*'', ''*.desktop'', ''*.mo'', ''*.gz'', ''*.bz2'', ''*.pdf'',
      ''*.txt'', ''*.png'', ''*.gif'', ''*.jpg'', ''*.c'', ''*.h'', ''*.pc'', ''*.pm'', ''*.py'', ''*.rb'', ''*.txt'']"

text \<open>The requirements of an installed package that the given capabilities met; none is no orphan.\<close>

definition orphan_new :: "penv \<Rightarrow> pkg \<Rightarrow> capreq list \<Rightarrow> (pkg \<times> capreq list) option" where
  "orphan_new E p cs =
     (let rs = List.map_filter (pkg_requires_cap E p) cs in if rs = [] then None else Some (p, rs))"

definition toin_provides :: "('s, 'h) i3env \<Rightarrow> pkg \<Rightarrow> capreq \<Rightarrow> (('s, 'h) i3ctx, bool) op" where
  "toin_provides e p cap = seq (i3_find_req e p cap) (\<lambda>(found, tomark, _). ret (found \<and> tomark = None))"

fun orphaned_by :: "('s, 'h) i3env \<Rightarrow> pkg list \<Rightarrow> capreq list \<Rightarrow> (('s, 'h) i3ctx, pkg list) op" where
  "orphaned_by e orphaned [] = ret orphaned"
| "orphaned_by e orphaned (cap # cs) =
     seq (ask (\<lambda>c. let ((n, d, ex), db) = pkgdb_q_what_requires (iE e) (iP e) (iD e) (iM e) (c_db c) orphaned cap
                          (Some (is_by_recno (unset c))) (PKG_LDREQS)
                    in (d, c\<lparr>c_db := db, unset := (unset c)\<lparr>is_by_recno := the ex\<rparr>\<rparr>)))
       (\<lambda>orphaned'. orphaned_by e orphaned' cs)"

definition get_orphaned :: "('s, 'h) i3env \<Rightarrow> capreq list \<Rightarrow> (('s, 'h) i3ctx, pkg list) op" where
  "get_orphaned e cs = seq sigint_reached (\<lambda>b. if b then ret [] else orphaned_by e [] cs)"

text \<open>The filter of the database while obsoleted packages are looked for in multilib mode.\<close>

definition obs_filter :: "('s, 'h) i3env \<Rightarrow> pkg \<Rightarrow> 'h pm_dbrec \<Rightarrow> bool" where
  "obs_filter e p r =
     (case hdr_nevr (iM e) (db_hdr r) of
        None \<Rightarrow> False
      | Some (nm, ep, v, rl) \<Rightarrow>
          let dbpkg = (nevr_pkg nm ep v rl)\<lparr>color := snd (hdr_arch_color e (db_hdr r))\<rparr>
          in \<not> conf_MULTILIB (iE e) \<or> pkg_is_colored_like (iE e) dbpkg p \<noteq> 0 \<or> color dbpkg = 0 \<or> color p = 0)"

abbreviation PKG_LDWHOLE_FLDEPDIRS :: u32 where "PKG_LDWHOLE_FLDEPDIRS \<equiv> 15"

definition get_obsoletedby_pkg :: "('s, 'h) i3env \<Rightarrow> pkg \<Rightarrow> (('s, 'h) i3ctx, pkg list) op" where
  "get_obsoletedby_pkg e p =
     (let getflags = PKGDB_GETF_OBSOLETEDBY_NEVR OR (if o_obsoletes e then PKGDB_GETF_OBSOLETEDBY_OBSL else 0) OR
            (if ts_downgrade e then PKGDB_GETF_OBSOLETEDBY_REV else 0)
      in ask_opt (\<lambda>c.
           let db = (if conf_MULTILIB (iE e) then (c_db c)\<lparr>db_filter := Some (obs_filter e p)\<rparr> else c_db c)
           in map_option (\<lambda>((n, d, ex), db').
                (d, c\<lparr>c_db := (if conf_MULTILIB (iE e) then db'\<lparr>db_filter := None\<rparr> else db'),
                      unset := (unset c)\<lparr>is_by_recno := the ex\<rparr>\<rparr>))
                (pkgdb_q_obsoletedby_pkg (iE e) (iP e) (iM e) db [] p getflags (Some (is_by_recno (unset c)))
                   PKG_LDWHOLE_FLDEPDIRS)))"

definition atoi :: "string \<Rightarrow> int" where
  "atoi s = sint (word_of_int (fst (strtol10 s)) :: 32 word)"

definition ver_distance :: "('s, 'h) i3env \<Rightarrow> pkg \<Rightarrow> pkg \<Rightarrow> int" where
  "ver_distance e p1 p2 =
     (let s1 = str_tokl e (ver p1); s2 = str_tokl e (ver p2); n = length s1
      in if n \<noteq> length s2 then (int n + int (length s2)) * 1000
         else sum_list (map (\<lambda>i. \<bar>atoi (s1 ! i) - atoi (s2 ! i)\<bar> * int (n - i)) [0..<n]))"

text \<open>
  Of several installed instances of the package only the one of the nearest version is replaced;
  the others are kept. \<open>obs\<close> are at least two packages of the name.
\<close>

definition handle_multiinsts :: "('s, 'h) i3env \<Rightarrow> pkg \<Rightarrow> pkg list \<Rightarrow> (('s, 'h) i3ctx, pkg list) op" where
  "handle_multiinsts e p obs =
     asrt (length obs > 1)
       (if \<exists>d \<in> set obs. pkg_cmp_name p d \<noteq> 0 then ret obs
        else let min_i = fst (best_at 0 0 (- INT_MAX) (map (\<lambda>d. - ver_distance e p d) obs));
                 gone = obs ! min_i;
                 keeps = gone # (take min_i obs @ drop (min_i + 1) obs)
             in seq (upd (\<lambda>c. c\<lparr>multi_obsoleted := (multi_obsoleted c)(nvr p \<mapsto> keeps)\<rparr>)) (\<lambda>_. ret [gone]))"

definition process_multiinsts :: "('s, 'h) i3env \<Rightarrow> pkg \<Rightarrow> pkg list \<Rightarrow> (('s, 'h) i3ctx, pkg list) op" where
  "process_multiinsts e p obs =
     (let ninstances = length (filter (\<lambda>d. pkg_cmp_name p d = 0) obs)
      in if ninstances < 2 \<or> ninstances \<noteq> length obs then ret obs else handle_multiinsts e p obs)"

text \<open>The capabilities of a package to remove that neither its successor nor the set provides.\<close>

fun lost_caps :: "('s, 'h) i3env \<Rightarrow> pkg \<Rightarrow> capreq list \<Rightarrow> (('s, 'h) i3ctx, capreq list) op" where
  "lost_caps e p [] = ret []"
| "lost_caps e p (cap # cs) =
     (if \<not> is_requireable_cap (cr_name cap) \<or> capreq_is_file cap \<and> \<not> is_requireable_path (cr_name cap) \<or>
         pkg_satisfies_req (iE e) (iP e) (iD e) p cap True
      then lost_caps e p cs
      else seq (toin_provides e p cap) (\<lambda>b. if b then lost_caps e p cs
      else case capreq_clone False cap of
             Inr (Some cap') \<Rightarrow> seq (lost_caps e p cs) (\<lambda>ls. ret (cap' # ls))
           | _ \<Rightarrow> die))"

fun remove_obsoleted :: "('s, 'h) i3env \<Rightarrow> nat \<Rightarrow> pkg \<Rightarrow> pkg list \<Rightarrow> (('s, 'h) i3ctx, capreq list) op" where
  "remove_obsoleted e a p [] = ret []"
| "remove_obsoleted e a p (d # ds) =
     seq (rd (\<lambda>c. iset_has_pkg (unset c) d)) (\<lambda>twice. asrt (\<not> twice)
       (seq (i3upd a (\<lambda>x. x\<lparr>i3_obsoletedby := i3_obsoletedby x @ [d]\<rparr>)) (\<lambda>_.
        seq (upd (\<lambda>c. c\<lparr>unset := iset_add (unset c) d PKGMARK_DEP\<rparr>)) (\<lambda>_.
        seq (lost_caps e p (pkg_cap_iter d)) (\<lambda>ls.
        seq (remove_obsoleted e a p ds) (\<lambda>ms. ret (ls @ ms)))))))"

definition i3_process_pkg_obsoletes ::
  "('s, 'h) proc \<Rightarrow> ('s, 'h) i3env \<Rightarrow> nat \<Rightarrow> (('s, 'h) i3ctx, unit) op" where
  "i3_process_pkg_obsoletes proc e a =
     (if \<not> ts_upgrade e then ret ()
      else seq sigint_reached (\<lambda>b. if b then ret ()
      else seq (rd (\<lambda>c. i3_pkg (i3at a c))) (\<lambda>p.
      seq (get_obsoletedby_pkg e p) (\<lambda>obs0.
      seq (if length obs0 > 1 then process_multiinsts e p obs0 else ret obs0) (\<lambda>obs.
      seq (remove_obsoleted e a p obs) (\<lambda>lost.
        if lost = [] then ret ()
        else let caps = cr_uniq (iE e) (capreq_cmp_name_evr (iE e)) (cr_sort (iE e) (capreq_cmp_name_evr (iE e)) lost)
             in seq (get_orphaned e caps) (\<lambda>orphaned.
                each (i3_process_orphan proc e) (List.map_filter (\<lambda>p. orphan_new (iE e) p caps) orphaned))))))))"

section \<open>Conflicts\<close>

text \<open>
  The macro reverses the relation of \<open>cnfl\<close>, whatever it is applied to, so that doing it twice
  does not restore it.
\<close>

definition capreq_revrel :: "capreq \<Rightarrow> capreq \<Rightarrow> capreq" where
  "capreq_revrel cnfl cr =
     cr\<lparr>cr_relflags := (if cr_relflags cr \<noteq> 0 then NOT (cr_relflags cnfl) AND REL_ALL else cr_relflags cr)\<rparr>"

definition still_conflicts :: "penv \<Rightarrow> pkg \<Rightarrow> capreq \<Rightarrow> bool" where
  "still_conflicts E q cnfl \<longleftrightarrow>
     (case cnfls q of None \<Rightarrow> False
      | Some cs \<Rightarrow> cr_bsearch E (\<lambda>c. capreq_cmp_name_evr E c cnfl) (capreq_arr_sorted E cs) \<noteq> - 1)"

text \<open>Found, and the package unless it is marked already.\<close>

definition not_marked_yet :: "pkg option \<Rightarrow> (('s, 'h) i3ctx, bool \<times> pkg option) op" where
  "not_marked_yet r =
     rd (\<lambda>c. case r of None \<Rightarrow> (False, None) | Some q \<Rightarrow> if i3_is_marked c q then (True, None) else (True, Some q))"

definition find_direct_replacement ::
  "('s, 'h) i3env \<Rightarrow> pkg \<Rightarrow> capreq \<Rightarrow> (('s, 'h) i3ctx, bool \<times> pkg option) op" where
  "find_direct_replacement e p cnfl =
     seq (ps_search e ST_NAME (name p)) (\<lambda>r.
       asrt (r \<noteq> None \<or> null_free_ok e)
         (not_marked_yet (find (\<lambda>q. pkg_is_kind_of (iE e) q p \<and> \<not> still_conflicts (iE e) q cnfl \<and> pkg_cmp_evr (iE e) q p > 0)
            (case r of None \<Rightarrow> [] | Some qs \<Rightarrow> qs))))"

definition find_indirect_replacement ::
  "('s, 'h) i3env \<Rightarrow> pkg \<Rightarrow> capreq \<Rightarrow> (('s, 'h) i3ctx, bool \<times> pkg option) op" where
  "find_indirect_replacement e p cnfl =
     seq (ps_search e ST_OBSL (name p)) (\<lambda>r.
       not_marked_yet (find (\<lambda>q. pkg_is_kind_of (iE e) q p \<and> \<not> still_conflicts (iE e) q cnfl \<and>
            pkg_caps_obsoletes_pkg_caps (iE e) q p \<and> pkg_cmp_name_evr (iE e) q p > 0)
          (case r of None \<Rightarrow> [] | Some qs \<Rightarrow> qs)))"

text \<open>Upgrading or replacing the installed package \<open>d\<close>; whether that settles the conflict.\<close>

definition resolve_conflict ::
  "('s, 'h) proc \<Rightarrow> ('s, 'h) i3env \<Rightarrow> pkg \<Rightarrow> capreq \<Rightarrow> pkg \<Rightarrow> (('s, 'h) i3ctx, bool) op" where
  "resolve_conflict proc e p cnfl d =
     (if \<not> o_follow e \<or> \<not> capreq_versioned cnfl then ret False
      else case capreq_clone False cnfl of
        Inr (Some clone) \<Rightarrow>
          let req = capreq_revrel cnfl clone in
          seq (find_direct_replacement e d cnfl) (\<lambda>(direct, t1).
          seq (if direct then ret (True, t1, True, req)
               else seq (i3_find_req e p req) (\<lambda>(found, t2, cands).
                 let req2 = capreq_revrel cnfl req in
                 if \<not> found then seq (find_indirect_replacement e d cnfl) (\<lambda>(f3, t3). ret (f3, t3, True, req2))
                 else if t2 \<noteq> None \<and> o_askuser e \<and> length cands > 1
                 then seq (i3_choose_equiv e (Some p) (capreq_stra e req2) cands t2) (\<lambda>choice.
                   case choice of None \<Rightarrow> seq (i3_stop_processing True) (\<lambda>_. ret (False, None, False, req2))
                   | Some q \<Rightarrow> ret (True, Some q, False, req2))
                 else ret (True, t2, False, req2))) (\<lambda>(found, tomark, by_replacement, req').
            case (found, tomark) of
              (False, _) \<Rightarrow> ret False
            | (True, None) \<Rightarrow> ret True
            | (True, Some q) \<Rightarrow>
                if by_replacement \<or> pkg_obsoletes_pkg (iE e) q d
                then seq (i3pkg_new q 0 (Some (p, req', I3PKGBY_REQ))) (\<lambda>a. seq (proc a) (\<lambda>_. ret True))
                else ret False))
      | _ \<Rightarrow> die)"

text \<open>Whether \<open>p\<close> and \<open>d\<close> conflict over \<open>cnfl\<close> for good, which is an error.\<close>

definition settle_conflict ::
  "('s, 'h) proc \<Rightarrow> ('s, 'h) i3env \<Rightarrow> pkg \<Rightarrow> capreq \<Rightarrow> pkg \<Rightarrow> (('s, 'h) i3ctx, int) op" where
  "settle_conflict proc e p cnfl d =
     seq (resolve_conflict proc e p cnfl d) (\<lambda>b. if b then ret 0 else seq (i3_error p I3ERR_DBCONFLICT) (\<lambda>_. ret 1))"

definition find_db_conflicts_cnfl_with_db ::
  "('s, 'h) proc \<Rightarrow> ('s, 'h) i3env \<Rightarrow> pkg \<Rightarrow> capreq \<Rightarrow> (('s, 'h) i3ctx, int) op" where
  "find_db_conflicts_cnfl_with_db proc e p cnfl =
     seq (db_search_staying e PMTAG_CAP (cr_name cnfl) PKG_LDWHOLE_FLDEPDIRS) (\<lambda>r.
       let ds = (case r of None \<Rightarrow> [] | Some ds \<Rightarrow> ds);
           disarmed = (if o_allowdups e \<and> length ds > 1
                       then map name (filter (\<lambda>d. \<not> fst (pkg_match_req (iE e) d cnfl True)) ds) else [])
       in tally (\<lambda>d. if name d \<in> set disarmed \<or> pkg_is_colored_like (iE e) p d = 0 \<or>
                        \<not> fst (pkg_match_req (iE e) d cnfl True) then ret 0
                     else settle_conflict proc e p cnfl d) 0 ds)"

definition find_db_conflicts_dbcnfl_with_cap ::
  "('s, 'h) proc \<Rightarrow> ('s, 'h) i3env \<Rightarrow> pkg \<Rightarrow> capreq \<Rightarrow> (('s, 'h) i3ctx, int) op" where
  "find_db_conflicts_dbcnfl_with_cap proc e p cap =
     seq (db_search_staying e PMTAG_CNFL (cr_name cap) PKG_LDWHOLE_FLDEPDIRS) (\<lambda>r.
       tally (\<lambda>d. need (cnfls d)
           (tally (\<lambda>cnfl. if cap_match_req (iE e) cap cnfl True then settle_conflict proc e p cnfl d else ret 0) 0)) 0
         (case r of None \<Rightarrow> [] | Some ds \<Rightarrow> ds))"

text \<open>
  Conflicts with packages to be installed, of the capabilities with installed packages' conflicts,
  and of the conflicts with installed packages. A package of an indexed set has its own capability
  already.
\<close>

definition i3_process_pkg_conflicts ::
  "('s, 'h) proc \<Rightarrow> ('s, 'h) i3env \<Rightarrow> nat \<Rightarrow> (('s, 'h) i3ctx, unit) op" where
  "i3_process_pkg_conflicts proc e a =
     (if \<not> o_conflicts e then ret ()
      else seq (rd (\<lambda>c. i3_pkg (i3at a c))) (\<lambda>p.
      seq (i3_get_package_conflicted_pkgs e p) (\<lambda>r.
      seq (each (\<lambda>cp. asrt (rp_flags cp AND REQPKG_CONFLICT \<noteq> 0)
             (seq (rd (\<lambda>c. i3_is_marked c (rp_pkg cp))) (\<lambda>m. if m then i3_error p I3ERR_CONFLICT else ret ()))) (rp_list r)) (\<lambda>_.
      seq (each (\<lambda>cap. if o_mercy e \<and> capreq_is_bastard cap then ret ()
             else seq (find_db_conflicts_dbcnfl_with_cap proc e p cap) (\<lambda>_. ret ()))
           (case caps (pkg_add_selfcap (iE e) p) of None \<Rightarrow> [] | Some cs \<Rightarrow> cs)) (\<lambda>_.
      each (\<lambda>cnfl. if capreq_is_obsl cnfl then ret ()
             else seq (find_db_conflicts_cnfl_with_db proc e p cnfl) (\<lambda>_. ret ()))
        (case cnfls p of None \<Rightarrow> [] | Some cs \<Rightarrow> cs))))))"

section \<open>Processing a package\<close>

definition iset_remove_op ::
  "('s, 'h) i3env \<Rightarrow> (('s, 'h) i3ctx \<Rightarrow> iset) \<Rightarrow> (iset \<Rightarrow> ('s, 'h) i3ctx \<Rightarrow> ('s, 'h) i3ctx) \<Rightarrow> pkg \<Rightarrow>
   (('s, 'h) i3ctx, unit) op" where
  "iset_remove_op e get put p =
     ask_opt (\<lambda>c. map_option (\<lambda>(b, is). ((), put is c)) (iset_remove (iE e) (iP e) (iR e) (get c) p))"

text \<open>
  Unmarking a package and what it has marked, restoring what it obsoletes. Packages marked by hand
  stay. The fuel bounds the depth; a package has marked only ones made later.
\<close>

primrec rollback_package :: "('s, 'h) i3env \<Rightarrow> nat \<Rightarrow> nat \<Rightarrow> (('s, 'h) i3ctx, unit) op" where
  "rollback_package e 0 = (\<lambda>a c. Inl OutOfFuel)"
| "rollback_package e (Suc n) = (\<lambda>a.
     seq (rd (i3at a)) (\<lambda>x. let p = i3_pkg x in
     seq (rd (\<lambda>c. i3_is_hand_marked c p)) (\<lambda>hand. if hand then ret ()
     else seq (iset_remove_op e inset (\<lambda>is c. c\<lparr>inset := is\<rparr>) p) (\<lambda>_.
     seq (i3_forget_error p) (\<lambda>_.
     seq (each (\<lambda>d. seq (iset_remove_op e unset (\<lambda>is c. c\<lparr>unset := is\<rparr>) d) (\<lambda>_. i3_forget_error d)) (i3_obsoletedby x)) (\<lambda>_.
     seq (upd (\<lambda>c. c\<lparr>processed := pkgmark_set (processed c) p False PKGMARK_GRAY\<rparr>)) (\<lambda>_.
     each (rollback_package e n) (i3_markedby x))))))))"

definition push_i3pkg :: "nat \<Rightarrow> (('s, 'h) i3ctx, unit) op" where
  "push_i3pkg a = upd (\<lambda>c. c\<lparr>i3stack := a # i3stack c,
     i3heap := (case i3stack c of [] \<Rightarrow> i3heap c
                | m # _ \<Rightarrow> (i3heap c)[m := (i3heap c ! m)\<lparr>i3_markedby := i3_markedby (i3heap c ! m) @ [a]\<rparr>])\<rparr>)"

definition pop_i3pkg :: "(('s, 'h) i3ctx, unit) op" where
  "pop_i3pkg = upd (\<lambda>c. c\<lparr>i3stack := tl (i3stack c)\<rparr>)"

text \<open>\<open>k\<close> is the fuel of the retries.\<close>

definition do_process_package ::
  "('s, 'h) proc \<Rightarrow> ('s, 'h) i3env \<Rightarrow> nat \<Rightarrow> nat \<Rightarrow> u32 \<Rightarrow> (('s, 'h) i3ctx, int) op" where
  "do_process_package proc e k a markflag =
     seq (rd (\<lambda>c. i3_pkg (i3at a c))) (\<lambda>p.
     seq (rd (\<lambda>c. is_gray c p)) (\<lambda>gray. asrt (\<not> gray)
     (seq (upd (\<lambda>c. c\<lparr>processed := pkgmark_set (processed c) p True PKGMARK_GRAY\<rparr>)) (\<lambda>_.
      seq (if markflag \<noteq> 0 then i3_mark_package e p markflag else ret True) (\<lambda>ok. if \<not> ok then ret 0
      else seq (push_i3pkg a) (\<lambda>_.
      seq (i3_process_pkg_obsoletes proc e a) (\<lambda>_.
      seq (if reqs p \<noteq> None then i3_process_pkg_requirements proc e k a else ret True) (\<lambda>met.
      seq (if met then ret False
           else seq (upd (\<lambda>c. c\<lparr>processed := pkgmark_set (processed c) p True PKGMARK_BLACK\<rparr>)) (\<lambda>_.
             rd (\<lambda>c. i3_flags (i3at a c) AND I3PKG_BACKTRACKABLE \<noteq> 0))) (\<lambda>giveup.
      if giveup
      then seq (rd (\<lambda>c. length (i3heap c))) (\<lambda>n. seq (rollback_package e (Suc n) a) (\<lambda>_. seq pop_i3pkg (\<lambda>_. ret (- 1))))
      else seq (i3_process_pkg_conflicts proc e a) (\<lambda>_. seq pop_i3pkg (\<lambda>_. ret 1)))))))))))"

text \<open>The recursion; the fuel bounds its depth.\<close>

primrec i3_process_package :: "('s, 'h) i3env \<Rightarrow> nat \<Rightarrow> nat \<Rightarrow> ('s, 'h) proc" where
  "i3_process_package e k 0 = (\<lambda>a c. Inl OutOfFuel)"
| "i3_process_package e k (Suc n) = (\<lambda>a.
     seq stopped (\<lambda>stop. if stop then ret 0
     else seq (rd (\<lambda>c. i3_pkg (i3at a c))) (\<lambda>p.
     seq (rd (\<lambda>c. is_gray c p)) (\<lambda>gray. if gray then ret 1
     else seq (rd (\<lambda>c. if i3_is_marked c p then 0 else if marked_i c p then PKGMARK_MARK else PKGMARK_DEP)) (\<lambda>markflag.
     seq (do_process_package (i3_process_package e k n) e k a markflag) (\<lambda>rc.
     seq (rd (\<lambda>c. i3_is_marked c p)) (\<lambda>still. asrt (rc = - 1 \<longrightarrow> \<not> still) (ret rc))))))))"

definition i3_install_package :: "('s, 'h) i3env \<Rightarrow> nat \<Rightarrow> nat \<Rightarrow> pkg \<Rightarrow> (('s, 'h) i3ctx, bool) op" where
  "i3_install_package e k n p =
     seq stopped (\<lambda>stop. if stop then ret False
     else seq (rd (\<lambda>c. is_gray c p)) (\<lambda>gray. if gray then ret True
     else seq (rd (\<lambda>c. i3_is_hand_marked c p)) (\<lambda>hand. asrt hand
       (seq (i3pkg_new p 0 None) (\<lambda>a.
        seq (do_process_package (i3_process_package e k n) e k a 0) (\<lambda>rc. ret (rc = 1)))))))"

end
