(* ===== verification/I3wp.thy ===== *)
theory I3wp
  imports I3
begin

text \<open>
  The installation engine, third part: reasoning about its operations. \<open>wp m Q\<close> is the condition
  under which \<open>m\<close> does not run out of fuel and its answer and the state after it, if it returns, are in \<open>Q\<close>.
  The questions the engine asks change no more than indexes, caches and the order of arrays.
\<close>

section \<open>Operations that return\<close>

definition wp :: "('c, 'a) op \<Rightarrow> ('a \<Rightarrow> 'c \<Rightarrow> bool) \<Rightarrow> 'c \<Rightarrow> bool" where
  "wp m Q c \<longleftrightarrow> (case m c of Inl f \<Rightarrow> f = Ended | Inr (x, c') \<Rightarrow> Q x c')"

lemma wp_ret [simp]: "wp (ret x) Q c = Q x c"
  by (simp add: wp_def ret_def)

lemma wp_seq [simp]: "wp (seq m f) Q c = wp m (\<lambda>x. wp (f x) Q) c"
  by (simp add: wp_def seq_def split: sum.split prod.split)

lemma wp_die [simp]: "wp die Q c"
  by (simp add: wp_def die_def)

lemma wp_asrt [simp]: "wp (asrt b m) Q c = (b \<longrightarrow> wp m Q c)"
  by (simp add: asrt_def)

lemma wp_rd [simp]: "wp (rd g) Q c = Q (g c) c"
  by (simp add: wp_def rd_def)

lemma wp_upd [simp]: "wp (upd u) Q c = Q () (u c)"
  by (simp add: wp_def upd_def)

lemma wp_ask [simp]: "wp (ask h) Q c = Q (fst (h c)) (snd (h c))"
  by (simp add: wp_def ask_def split: prod.split)

lemma wp_ask_opt [simp]: "wp (ask_opt h) Q c = (\<forall>x c'. h c = Some (x, c') \<longrightarrow> Q x c')"
  by (auto simp: wp_def ask_opt_def split: option.split)

lemma wp_need [simp]: "wp (need v f) Q c = (\<forall>x. v = Some x \<longrightarrow> wp (f x) Q c)"
  by (simp add: need_def split: option.split)

lemma wp_seq_fun: "wp (seq m f) Q = wp m (\<lambda>x. wp (f x) Q)"
  by (rule ext) simp

lemma wp_ret_fun: "wp (ret x) Q = Q x"
  by (rule ext) simp

lemma wp_upd_fun: "wp (upd u) Q = (\<lambda>c. Q () (u c))"
  by (rule ext) simp

lemma wp_mono: "wp m Q c \<Longrightarrow> (\<And>x c'. Q x c' \<Longrightarrow> Q' x c') \<Longrightarrow> wp m Q' c"
  by (auto simp: wp_def split: sum.splits)

lemma wp_conj: "wp m Q c \<Longrightarrow> wp m Q' c \<Longrightarrow> wp m (\<lambda>x c'. Q x c' \<and> Q' x c') c"
  by (auto simp: wp_def split: sum.splits)

lemma wp_result: "wp m Q c \<Longrightarrow> m c = Inr (x, c') \<Longrightarrow> Q x c'"
  by (simp add: wp_def)

lemma wp_fuel: "wp m Q c \<Longrightarrow> m c \<noteq> Inl OutOfFuel"
  by (auto simp: wp_def)

section \<open>Questions to the available packages\<close>

context ps_env
begin

lemma psreq_sus_ready:
  assumes "ps_ready E P ps" "psreq_sus E P R ps req = (sus, ps')"
  shows "ps_ready E P ps'" "set (ps_pkgs ps') = set (ps_pkgs ps)" "set sus \<subseteq> set (ps_pkgs ps)"
proof -
  have h: "pkgs_held P (set (ps_pkgs ps)) ps" "ps_good E ps" using assms(1) by (simp_all add: ps_ready_def)
  note s = psreq_sus_held [OF h(1) assms(2)] psreq_sus_good [OF h(2) assms(2)]
  obtain r ix buf fi where l: "look (cap_idx ps) (cr_name req) = (r, ix)"
    "file_index_lookup P (file_idx (ps\<lparr>cap_idx := ix\<rparr>)) (cr_name req) 1024 = (buf, fi)" by fastforce
  have "ps' = ps\<lparr>cap_idx := ix\<rparr> \<or> ps' = ps\<lparr>cap_idx := ix, file_idx := fi\<rparr>"
    using assms(2) l by (auto simp: psreq_sus_def ready_ids [OF assms(1)] Let_def split: if_splits option.splits)
  then have "ps_pkgs ps' = ps_pkgs ps" "req_idx ps' = req_idx ps" "obs_idx ps' = obs_idx ps" "cnfl_idx ps' = cnfl_idx ps"
    by auto
  then show "ps_ready E P ps'" "set (ps_pkgs ps') = set (ps_pkgs ps)" "set sus \<subseteq> set (ps_pkgs ps)"
    using assms(1) s by (simp_all add: ps_ready_def)
qed

lemma find_match_ready:
  assumes "ps_ready E P ps" "pkgset_find_match_packages E P R ps q req strict = ((f, ms), ps')"
  shows "ps_ready E P ps'" "set (ps_pkgs ps') = set (ps_pkgs ps)" "set ms \<subseteq> set (ps_pkgs ps)"
proof -
  obtain sus ps1 where s: "psreq_sus E P R ps req = (sus, ps1)" by fastforce
  obtain g ns where m: "pkgset_find_match_packages E P R ps q req strict = ((g, ns), ps1)" "set ns \<subseteq> set sus"
    using find_match_sub [OF s] by blast
  then show "ps_ready E P ps'" "set (ps_pkgs ps') = set (ps_pkgs ps)" "set ms \<subseteq> set (ps_pkgs ps)"
    using psreq_sus_ready [OF assms(1) s] assms(2) by auto
qed

lemma conflicted_ready:
  assumes "ps_ready E P ps" "pkgset_get_conflicted_packages E P R ps p = (r, ps')"
  shows "ps_ready E P ps'" "set (ps_pkgs ps') = set (ps_pkgs ps)"
proof -
  have one: "ps_ready E P (snd (get_conflicted E P R ps1 p cnfl re)) \<and>
      ps_pkgs (snd (get_conflicted E P R ps1 p cnfl re)) = ps_pkgs ps1" if g: "ps_ready E P ps1" for ps1 cnfl re
  proof -
    obtain l ix where l: "look (cap_idx ps1) (cr_name cnfl) = (l, ix)" by fastforce
    have h: "pkgs_held P (set (ps_pkgs ps1)) ps1" "ps_good E ps1" using g by (simp_all add: ps_ready_def)
    have "ps_good E (ps1\<lparr>cap_idx := ix\<rparr>)" by (rule good_look [OF h(2) l])
    then have "ps_ready E P (ps1\<lparr>cap_idx := ix\<rparr>)" using g look_held [OF h(1) l] by (simp add: ps_ready_def)
    then show ?thesis using l by (simp add: get_conflicted_def Let_def ready_ids [OF g])
  qed
  have "ps_ready E P (snd (foldl (\<lambda>(re, ps) cnfl. get_conflicted E P R ps p cnfl re) x cs)) \<and>
      ps_pkgs (snd (foldl (\<lambda>(re, ps) cnfl. get_conflicted E P R ps p cnfl re) x cs)) = ps_pkgs (snd x)"
    if "ps_ready E P (snd x)" for x cs
    using that
  proof (induction cs arbitrary: x)
    case (Cons c cs)
    have "ps_ready E P (snd (get_conflicted E P R (snd x) p c (fst x)))"
      "ps_pkgs (snd (get_conflicted E P R (snd x) p c (fst x))) = ps_pkgs (snd x)"
      using one [OF Cons.prems] by auto
    then show ?case using Cons.IH [of "get_conflicted E P R (snd x) p c (fst x)"] by (simp add: case_prod_beta)
  qed simp
  from this [of "(None, ps)"] show "ps_ready E P ps'" "set (ps_pkgs ps') = set (ps_pkgs ps)"
    using assms by (auto simp: pkgset_get_conflicted_packages_def split: option.splits) (metis snd_conv)+
qed

end

section \<open>Questions to the database\<close>

text \<open>Searching leaves the array of excluded packages the same but for its order.\<close>

context ps_env
begin

lemma array_has_same: "set (snd (dbpkg_array_has P pkgs r)) = set pkgs" "mset (snd (dbpkg_array_has P pkgs r)) = mset pkgs"
  using sorted_arrays.set_nsort [OF pk_arrays] sorted_arrays.sort_mset [OF pk_arrays]
  by (auto simp: dbpkg_array_has_def Let_def)

lemma excl_same: "excl_has P ex r = (b, ex') \<Longrightarrow> map_option mset ex' = map_option mset ex"
  using array_has_same(2) [of "case ex of None \<Rightarrow> [] | Some pkgs \<Rightarrow> pkgs" r]
  by (auto simp: excl_has_def Let_def split: option.splits prod.splits)

lemma search_loop_same:
  "search_loop E P M fl d ex n recs = (n', d', ex') \<Longrightarrow> map_option mset ex' = map_option mset ex"
proof (induction recs arbitrary: d ex n)
  case (Cons r recs)
  obtain b ex1 where e: "excl_has P ex (db_recno r) = (b, ex1)" by fastforce
  have "\<exists>d1 n1. search_loop E P M fl d1 ex1 n1 recs = (n', d', ex')"
    using Cons.prems e by (auto simp: Let_def split: if_splits option.splits prod.splits)
  then show ?case using Cons.IH excl_same [OF e] by metis
qed simp

lemma what_requires_loop_same:
  "what_requires_loop E P D M cap fl d ex n recs = (n', d', ex') \<Longrightarrow> map_option mset ex' = map_option mset ex"
proof (induction recs arbitrary: d ex n)
  case (Cons r recs)
  obtain b ex1 where e: "excl_has P ex (db_recno r) = (b, ex1)" by fastforce
  have "\<exists>d1 n1. what_requires_loop E P D M cap fl d1 ex1 n1 recs = (n', d', ex')"
    using Cons.prems e by (auto simp: Let_def split: if_splits option.splits prod.splits)
  then show ?case using Cons.IH excl_same [OF e] by metis
qed simp

lemma obsoletedby_loop_same:
  "obsoletedby_loop E P M add fl d ex n recs = (n', d', ex') \<Longrightarrow>
     map_option mset ex' = map_option mset ex \<and>
     set d' \<subseteq> set d \<union> {p. \<exists>r \<in> set recs. load_pkg E M r fl = Some p}"
proof (induction recs arbitrary: d ex n)
  case (Cons r recs)
  obtain b ex1 where e: "excl_has P ex (db_recno r) = (b, ex1)" by fastforce
  obtain h d1 where h: "dbpkg_array_has P d (db_recno r) = (h, d1)" by fastforce
  have d1: "set d1 = set d" using array_has_same(1) [of d "db_recno r"] h by simp
  have s: "set (pk_sort P pkg_cmp_recno (d1 @ [p])) = insert p (set d)" for p
    using sorted_arrays.set_nsort [OF pk_arrays] d1 by simp
  have "\<exists>d2 n2. obsoletedby_loop E P M add fl d2 ex1 n2 recs = (n', d', ex') \<and>
      set d2 \<subseteq> set d \<union> {p. load_pkg E M r fl = Some p}"
    using Cons.prems e h d1 s by (auto simp: Let_def split: if_splits option.splits)
  then obtain d2 n2 where 2: "obsoletedby_loop E P M add fl d2 ex1 n2 recs = (n', d', ex')"
    "set d2 \<subseteq> set d \<union> {p. load_pkg E M r fl = Some p}" by blast
  show ?case using Cons.IH [OF 2(1)] 2(2) excl_same [OF e] by auto
qed simp

end

context pm_db
begin

text \<open>The database after a question, under a filter or not.\<close>

definition kept :: "('s, 'h) pkgdb \<Rightarrow> ('s, 'h) pkgdb \<Rightarrow> bool" where
  "kept db db' \<longleftrightarrow> good (dbh db') \<and> held (dbh db') = held (dbh db) \<and> db_filter db' = db_filter db"

lemma it_kept:
  assumes "good (dbh db)" "pkgdb_it M db tag v = (recs, db')"
  shows "kept db db'" "set recs \<subseteq> held (dbh db)"
proof -
  obtain rs s where s: "pm_it_init M (dbh db) tag v = (rs, s)" by fastforce
  have "set recs \<subseteq> set rs" "db' = db\<lparr>dbh := s\<rparr>"
    using assms(2) s by (auto simp: pkgdb_it_def split: option.splits)
  then show "kept db db'" "set recs \<subseteq> held (dbh db)"
    using it_keeps [OF assms(1) s] by (auto simp: kept_def)
qed

lemma search_kept:
  assumes "good (dbh db)" "pkgdb_search E P M db d tag v ex fl = ((n, d', ex'), db')"
  shows "kept db db'" "map_option mset ex' = map_option mset ex"
proof -
  obtain recs where r: "pkgdb_it M db tag v = (recs, db')" "search_loop E P M fl d ex 0 recs = (n, d', ex')"
    using assms(2) by (auto simp: pkgdb_search_def split: prod.splits)
  then show "kept db db'" "map_option mset ex' = map_option mset ex"
    using it_kept [OF assms(1) r(1)] search_loop_same by simp_all
qed

lemma what_requires_kept:
  assumes "good (dbh db)" "pkgdb_q_what_requires E P D M db d cap ex fl = ((n, d', ex'), db')"
  shows "kept db db'" "map_option mset ex' = map_option mset ex"
proof -
  have q: "kept db0 db1 \<and> map_option mset ex1 = map_option mset ex0"
    if g: "good (dbh db0)" and w: "q_what_requires E P D M db0 d0 tag cap ex0 fl = ((n1, d1, ex1), db1)" for db0 d0 tag ex0 n1 d1 ex1 db1
  proof -
    obtain recs where r: "pkgdb_it M db0 tag (cr_name cap) = (recs, db1)"
      "what_requires_loop E P D M cap fl d0 ex0 0 recs = (n1, d1, ex1)"
      using w by (auto simp: q_what_requires_def split: prod.splits)
    then show ?thesis using it_kept [OF g r(1)] what_requires_loop_same by simp
  qed
  obtain n1 d1 e1 db1 where 1: "q_what_requires E P D M db d PMTAG_REQ cap ex fl = ((n1, d1, e1), db1)" by (metis prod.exhaust)
  obtain n2 d2 e2 db2 where 2: "q_what_requires E P D M db1 d1 PMTAG_DIRNAME cap e1 fl = ((n2, d2, e2), db2)" by (metis prod.exhaust)
  have "kept db db1" "map_option mset e1 = map_option mset ex" using q [OF assms(1) 1] by auto
  moreover have "kept db1 db2" "map_option mset e2 = map_option mset e1"
    using q [OF _ 2] calculation by (auto simp: kept_def)
  moreover have "(ex', db') = (e1, db1) \<or> (ex', db') = (e2, db2)"
    using assms(2) 1 2 by (auto simp: pkgdb_q_what_requires_def split: if_splits)
  ultimately show "kept db db'" "map_option mset ex' = map_option mset ex" by (auto simp: kept_def)
qed

text \<open>What a package obsoletes are installed packages.\<close>

lemma obsoletedby_kept:
  assumes "good (dbh db)" "pkgdb_q_obsoletedby_pkg E P M db [] p fl ex ldfl = Some ((n, d', ex'), db')"
  shows "kept db db'" "map_option mset ex' = map_option mset ex" "recno ` set d' \<subseteq> db_recno ` held (dbh db)"
proof -
  define ok where "ok = (\<lambda>st :: (nat \<times> pkg list \<times> pkg list option) \<times> ('s, 'h) pkgdb.
    kept db (snd st) \<and> map_option mset (snd (snd (fst st))) = map_option mset ex \<and>
    recno ` set (fst (snd (fst st))) \<subseteq> db_recno ` held (dbh db))"
  have one: "ok (get_obsoletedby_cap E P M db0 by_name d0 cap ex0 ldfl)" if "ok ((n0, d0, ex0), db0)" for db0 by_name d0 cap ex0 n0
  proof -
    obtain recs db1 where r: "pkgdb_it M db0 (if by_name then PMTAG_NAME else PMTAG_CAP) (cr_name cap) = (recs, db1)" by fastforce
    obtain n1 d1 ex1 where l: "obsoletedby_loop E P M (\<lambda>h. if by_name then header_evr_match_req E M h cap
        else header_cap_match_req E M h cap MA_PROMOTE_VERSION) ldfl d0 ex0 0 recs = (n1, d1, ex1)" by (metis prod.exhaust)
    have g: "good (dbh db0)" "held (dbh db0) = held (dbh db)" "db_filter db0 = db_filter db"
      using that by (auto simp: ok_def kept_def)
    have "recno q \<in> db_recno ` held (dbh db)" if q: "q \<in> set d1" for q
    proof (cases "q \<in> set d0")
      case True
      then show ?thesis using \<open>ok ((n0, d0, ex0), db0)\<close> by (auto simp: ok_def)
    next
      case False
      then obtain rc where "rc \<in> set recs" "load_pkg E M rc ldfl = Some q" using obsoletedby_loop_same [OF l] q by blast
      then show ?thesis using it_kept(2) [OF g(1) r] load_pkg_recno g(2) by fastforce
    qed
    then show ?thesis
      using r l it_kept(1) [OF g(1) r] obsoletedby_loop_same [OF l] that g
      by (auto simp: ok_def get_obsoletedby_cap_def kept_def)
  qed
  have loop: "ok (obsoletes_loop E P M ldfl cs st)" if "ok st" for cs st
    using that
  proof (induction cs arbitrary: st)
    case Nil
    then show ?case by (cases st) simp
  next
    case (Cons c cs)
    obtain n0 d0 e0 db0 where st: "st = ((n0, d0, e0), db0)" by (metis prod.exhaust)
    obtain n1 d1 e1 db1 where 1: "get_obsoletedby_cap E P M db0 True d0 c e0 ldfl = ((n1, d1, e1), db1)" by (metis prod.exhaust)
    have ok1: "ok ((n1, d1, e1), db1)" using one [of n0 d0 e0 db0 True c] Cons.prems st 1 by simp
    obtain n2 d2 e2 db2 where 2: "(if have_rpm_4_1 M then get_obsoletedby_cap E P M db1 False d1 c e1 ldfl
        else ((0, d1, e1), db1)) = ((n2, d2, e2), db2)" by (metis prod.exhaust)
    have "ok ((n2, d2, e2), db2)"
    proof (cases "have_rpm_4_1 M")
      case True
      then show ?thesis using one [OF ok1, of False c] 2 by simp
    next
      case False
      then show ?thesis using ok1 2 by (simp add: ok_def)
    qed
    then have "ok ((n0 + n1 + n2, d2, e2), db2)" by (simp add: ok_def)
    then show ?case using Cons.IH Cons.prems st 1 2 by (simp add: Let_def)
  qed
  have "ok ((0, [], ex), db)" using assms(1) by (simp add: ok_def kept_def)
  note start = one [OF this, of True]
  have nevr: "fl AND PKGDB_GETF_OBSOLETEDBY_NEVR \<noteq> 0"
    using assms(2) by (cases "fl AND PKGDB_GETF_OBSOLETEDBY_NEVR = 0") (simp_all add: pkgdb_q_obsoletedby_pkg_def)
  obtain st where st: "get_obsoletedby_pkg_nevr E P M db [] p ex ldfl (fl AND PKGDB_GETF_OBSOLETEDBY_REV \<noteq> 0) = Some st"
    "((n, d', ex'), db') = (if fl AND PKGDB_GETF_OBSOLETEDBY_OBSL = 0 then st
       else obsoletes_loop E P M ldfl (case cnfls p of None \<Rightarrow> [] | Some cs \<Rightarrow> cs) st)"
    using assms(2) nevr unfolding pkgdb_q_obsoletedby_pkg_def by (auto simp del: obsoletes_loop.simps)
  obtain cap where "st = get_obsoletedby_cap E P M db True [] cap ex ldfl"
    using st(1) unfolding get_obsoletedby_pkg_nevr_def by blast
  then have "ok st" using start by simp
  then have "ok ((n, d', ex'), db')" using loop [of st] st(2) by simp
  then show "kept db db'" "map_option mset ex' = map_option mset ex" "recno ` set d' \<subseteq> db_recno ` held (dbh db)"
    by (simp_all add: ok_def)
qed

end

end
