(* ===== verification/I3quiet.thy ===== *)
theory I3quiet
  imports I3wp
begin

text \<open>
  The installation engine, fourth part: what its questions leave unchanged. \<open>quiet\<close> says that two
  states differ by indexes, caches, the order of arrays and the counters of questions only.
\<close>

locale i3_world = pm_db "iE e" "iP e" "iM e" good held plain
  for e :: "('s, 'h) i3env" and good held plain +
  fixes U :: "pkg set" and H :: "'h pm_dbrec set"

section \<open>States that differ in nothing that matters\<close>

context i3_world
begin

text \<open>The available packages are \<open>U\<close>, the installed ones \<open>H\<close>, both can be asked.\<close>

definition ready :: "('s, 'h) i3ctx \<Rightarrow> bool" where
  "ready c \<longleftrightarrow> ps_ready (iE e) (iP e) (c_ps c) \<and> set (ps_pkgs (c_ps c)) = U \<and>
     db_ok good (c_db c) \<and> held (dbh (c_db c)) = H \<and>
     recnos_ok (set (is_pkgs (unset c))) \<and> recnos_ok (set (is_by_recno (unset c)))"

definition quiet :: "('s, 'h) i3ctx \<Rightarrow> ('s, 'h) i3ctx \<Rightarrow> bool" where
  "quiet c c' \<longleftrightarrow> i3heap c' = i3heap c \<and> i3stack c' = i3stack c \<and> processed c' = processed c \<and>
     ts_marks c' = ts_marks c \<and> i3errors c' = i3errors c \<and> i3abort c' = i3abort c \<and>
     (signal_in c = Some 0 \<longrightarrow> signal_in c' = Some 0) \<and>
     is_pms (inset c') = is_pms (inset c) \<and> is_pms (unset c') = is_pms (unset c) \<and>
     set (is_pkgs (inset c')) = set (is_pkgs (inset c))"

lemma quiet_refl [simp]: "quiet c c"
  by (simp add: quiet_def)

lemma quiet_trans: "quiet c c' \<Longrightarrow> quiet c' c'' \<Longrightarrow> quiet c c''"
  by (simp add: quiet_def)

lemma quiet_same:
  assumes "quiet c c'"
  shows "i3heap c' = i3heap c" "i3stack c' = i3stack c" "processed c' = processed c" "ts_marks c' = ts_marks c"
    "iset_has_pkg (inset c') p = iset_has_pkg (inset c) p" "iset_has_pkg (unset c') p = iset_has_pkg (unset c) p"
    "i3at a c' = i3at a c" "set (is_pkgs (inset c')) = set (is_pkgs (inset c))"
  using assms by (simp_all add: quiet_def iset_has_pkg_def iset_ismarkedf_def i3at_def)

text \<open>An operation that asks only, with what is known of its answer in the state it is asked in.\<close>

definition asks :: "(('s, 'h) i3ctx, 'a) op \<Rightarrow> (('s, 'h) i3ctx \<Rightarrow> 'a \<Rightarrow> bool) \<Rightarrow> bool" where
  "asks m R \<longleftrightarrow> (\<forall>c. ready c \<longrightarrow> wp m (\<lambda>x c'. ready c' \<and> quiet c c' \<and> R c x) c)"

abbreviation calm :: "(('s, 'h) i3ctx, 'a) op \<Rightarrow> bool" where
  "calm m \<equiv> asks m (\<lambda>_ _. True)"

lemma asksI: "(\<And>c. ready c \<Longrightarrow> wp m (\<lambda>x c'. ready c' \<and> quiet c c' \<and> R c x) c) \<Longrightarrow> asks m R"
  by (simp add: asks_def)

lemma asks_wp:
  assumes "asks m R" "ready c" "\<And>x c'. ready c' \<Longrightarrow> quiet c c' \<Longrightarrow> R c x \<Longrightarrow> Q x c'"
  shows "wp m Q c"
proof -
  have "wp m (\<lambda>x c'. ready c' \<and> quiet c c' \<and> R c x) c" using assms(1,2) by (simp add: asks_def)
  then show ?thesis by (rule wp_mono) (use assms(3) in blast)
qed

lemma asks_weaken: "asks m R \<Longrightarrow> (\<And>c x. R c x \<Longrightarrow> S c x) \<Longrightarrow> asks m S"
  by (rule asksI, erule asks_wp) auto

lemma asks_calm: "asks m R \<Longrightarrow> calm m"
  by (erule asks_weaken) simp

lemma asks_seq:
  assumes "asks m R" "\<And>x. asks (f x) (S x)"
    and "\<And>c c' x y. R c x \<Longrightarrow> quiet c c' \<Longrightarrow> S x c' y \<Longrightarrow> T c y"
  shows "asks (seq m f) T"
proof (rule asksI)
  fix c assume c: "ready c"
  show "wp (seq m f) (\<lambda>x c'. ready c' \<and> quiet c c' \<and> T c x) c"
    unfolding wp_seq
  proof (rule asks_wp [OF assms(1) c])
    fix x c' assume x: "ready c'" "quiet c c'" "R c x"
    show "wp (f x) (\<lambda>x c'. ready c' \<and> quiet c c' \<and> T c x) c'"
      by (rule asks_wp [OF assms(2) x(1)]) (use x assms(3) quiet_trans in blast)
  qed
qed

text \<open>When nothing is claimed of the first answer but that it is a possible one.\<close>

lemma asks_bind: "asks m R \<Longrightarrow> (\<And>c x. R c x \<Longrightarrow> asks (f x) (\<lambda>_. S)) \<Longrightarrow> asks (seq m f) (\<lambda>_. S)"
proof (rule asksI)
  fix c assume a: "asks m R" "\<And>c x. R c x \<Longrightarrow> asks (f x) (\<lambda>_. S)" "ready c"
  show "wp (seq m f) (\<lambda>x c'. ready c' \<and> quiet c c' \<and> S x) c"
    unfolding wp_seq
  proof (rule asks_wp [OF a(1,3)])
    fix x c' assume x: "ready c'" "quiet c c'" "R c x"
    show "wp (f x) (\<lambda>x c'. ready c' \<and> quiet c c' \<and> S x) c'"
      by (rule asks_wp [OF a(2) [OF x(3)] x(1)]) (use x quiet_trans in blast)
  qed
qed

lemma calm_seq: "calm m \<Longrightarrow> (\<And>x. calm (f x)) \<Longrightarrow> calm (seq m f)"
  by (rule asks_bind [where R = "\<lambda>_ _. True" and S = "\<lambda>_. True"])

lemma asks_then: "calm m \<Longrightarrow> (\<And>x. asks (f x) (\<lambda>_. S)) \<Longrightarrow> asks (seq m f) (\<lambda>_. S)"
  by (rule asks_bind [where R = "\<lambda>_ _. True"])

lemma asks_ret: "(\<And>c. R c x) \<Longrightarrow> asks (ret x) R"
  by (simp add: asks_def)

lemma asks_die: "asks die R"
  by (simp add: asks_def)

lemma asks_asrt: "(b \<Longrightarrow> asks m R) \<Longrightarrow> asks (asrt b m) R"
  by (simp add: asks_def)

lemma asks_need: "(\<And>x. v = Some x \<Longrightarrow> asks (f x) R) \<Longrightarrow> asks (need v f) R"
  by (simp add: asks_def)

lemma asks_rd: "asks (rd f) (\<lambda>c x. x = f c)"
  by (simp add: asks_def)

lemma calm_rd: "calm (rd f)"
  by (simp add: asks_def)

lemma asks_if: "(b \<Longrightarrow> asks m R) \<Longrightarrow> (\<not> b \<Longrightarrow> asks n R) \<Longrightarrow> asks (if b then m else n) R"
  by simp

lemma calm_each: "(\<And>x. calm (f x)) \<Longrightarrow> calm (each f xs)"
  by (induction xs) (auto intro: calm_seq asks_ret)

lemma calm_tally: "(\<And>x. calm (f x)) \<Longrightarrow> calm (tally f n xs)"
  by (induction xs arbitrary: n) (auto intro: calm_seq asks_ret)

lemma asks_visit: "(\<And>x. calm (f x)) \<Longrightarrow> asks (visit f xs) (\<lambda>_ ys. length ys = length xs)"
proof (induction xs)
  case (Cons x xs)
  show ?case
    by (simp, rule asks_then [OF Cons.prems], rule asks_bind [OF Cons.IH [OF Cons.prems]]) (auto intro: asks_ret)
qed (simp add: asks_ret)

lemma calm_visit: "(\<And>x. calm (f x)) \<Longrightarrow> calm (visit f xs)"
  by (rule asks_calm) (rule asks_visit)

text \<open>What a question has to leave: its part of the state.\<close>

lemma asks_ask:
  assumes "\<And>c. ready c \<Longrightarrow> ready (snd (h c)) \<and> quiet c (snd (h c)) \<and> R c (fst (h c))"
  shows "asks (ask h) R"
  using assms by (simp add: asks_def)

lemma asks_ask_opt:
  assumes "\<And>c x c'. ready c \<Longrightarrow> h c = Some (x, c') \<Longrightarrow> ready c' \<and> quiet c c' \<and> R c x"
  shows "asks (ask_opt h) R"
  using assms by (simp add: asks_def)

lemma asks_split: "(\<And>a b. p = (a, b) \<Longrightarrow> asks (f a b) R) \<Longrightarrow> asks (case p of (a, b) \<Rightarrow> f a b) R"
  by (cases p) simp

lemma asks_option: "(v = None \<Longrightarrow> asks m R) \<Longrightarrow> (\<And>x. v = Some x \<Longrightarrow> asks (f x) R) \<Longrightarrow>
    asks (case v of None \<Rightarrow> m | Some x \<Rightarrow> f x) R"
  by (cases v) simp_all

lemma asks_let: "asks (f x) R \<Longrightarrow> asks (let y = x in f y) R"
  by simp

end

section \<open>The single questions\<close>

context i3_world
begin

lemma ready_db:
  assumes "ready c" "kept (c_db c) db"
  shows "ready (c\<lparr>c_db := db\<rparr>)"
  using assms by (auto simp: ready_def kept_def db_ok_def)

lemma ready_staying:
  assumes "ready c" "kept (c_db c) db" "map_option mset ex = map_option mset (Some (is_by_recno (unset c)))"
  shows "ready (c\<lparr>c_db := db, unset := (unset c)\<lparr>is_by_recno := the ex\<rparr>\<rparr>)"
proof -
  obtain xs where "ex = Some xs" "mset xs = mset (is_by_recno (unset c))" using assms(3) by auto
  then have "set (the ex) = set (is_by_recno (unset c))" by (metis option.sel set_mset_mset)
  then show ?thesis using assms(1,2) by (auto simp: ready_def kept_def db_ok_def)
qed

lemma ready_ps:
  assumes "ready c" "ps_ready (iE e) (iP e) ps" "set (ps_pkgs ps) = set (ps_pkgs (c_ps c))"
  shows "ready (c\<lparr>c_ps := ps\<rparr>)"
  using assms by (simp add: ready_def)

lemma ready_parts:
  assumes "ready c"
  shows "ps_ready (iE e) (iP e) (c_ps c)" "set (ps_pkgs (c_ps c)) = U" "good (dbh (c_db c))" "held (dbh (c_db c)) = H"
    "db_ok good (c_db c)"
  using assms by (auto simp: ready_def db_ok_def)

lemma calm_db_search: "calm (db_search e tag v fl)"
proof (unfold db_search_def, rule asks_ask)
  fix c assume c: "ready c"
  obtain n d ex db where s: "pkgdb_search (iE e) (iP e) (iM e) (c_db c) (Some None) tag v None fl = ((n, d, ex), db)"
    by (metis prod.exhaust)
  show "ready (snd (let ((n, d, ex), db) = pkgdb_search (iE e) (iP e) (iM e) (c_db c) (Some None) tag v None fl
        in ((n, the d), c\<lparr>c_db := db\<rparr>))) \<and>
      quiet c (snd (let ((n, d, ex), db) = pkgdb_search (iE e) (iP e) (iM e) (c_db c) (Some None) tag v None fl
        in ((n, the d), c\<lparr>c_db := db\<rparr>))) \<and> True"
    using ready_db [OF c search_kept(1) [OF ready_parts(3) [OF c] s]] by (simp add: s quiet_def)
qed

lemma calm_db_search_staying: "calm (db_search_staying e tag v fl)"
proof (unfold db_search_staying_def, rule asks_ask)
  fix c assume c: "ready c"
  let ?q = "pkgdb_search (iE e) (iP e) (iM e) (c_db c) (Some None) tag v (Some (is_by_recno (unset c))) fl"
  obtain n d ex db where s: "?q = ((n, d, ex), db)" by (metis prod.exhaust)
  show "ready (snd (let ((n, d, ex), db) = ?q in (the d, c\<lparr>c_db := db, unset := (unset c)\<lparr>is_by_recno := the ex\<rparr>\<rparr>))) \<and>
      quiet c (snd (let ((n, d, ex), db) = ?q in (the d, c\<lparr>c_db := db, unset := (unset c)\<lparr>is_by_recno := the ex\<rparr>\<rparr>))) \<and> True"
    using ready_staying [OF c search_kept [OF ready_parts(3) [OF c] s]] by (simp add: s quiet_def)
qed

lemma asks_ps_search:
  assumes "tag \<noteq> ST_PROVIDES"
  shows "asks (ps_search e tag v) (\<lambda>_ r. set (case r of None \<Rightarrow> [] | Some l \<Rightarrow> l) \<subseteq> U)"
proof (unfold ps_search_def, rule asks_ask)
  fix c assume c: "ready c"
  obtain r ps where s: "pkgset_search (iE e) (iP e) (iR e) (c_ps c) tag (Some v) = (r, ps)" by fastforce
  have "searched (iE e) (iP e) (c_ps c) (case r of None \<Rightarrow> [] | Some l \<Rightarrow> l, ps)"
    by (rule search_ready(1) [OF ready_parts(1) [OF c] assms s])
  then show "ready (snd (let (r, ps) = pkgset_search (iE e) (iP e) (iR e) (c_ps c) tag (Some v) in (r, c\<lparr>c_ps := ps\<rparr>))) \<and>
      quiet c (snd (let (r, ps) = pkgset_search (iE e) (iP e) (iR e) (c_ps c) tag (Some v) in (r, c\<lparr>c_ps := ps\<rparr>))) \<and>
      set (case fst (let (r, ps) = pkgset_search (iE e) (iP e) (iR e) (c_ps c) tag (Some v) in (r, c\<lparr>c_ps := ps\<rparr>)) of
        None \<Rightarrow> [] | Some l \<Rightarrow> l) \<subseteq> U"
    using ready_ps [OF c, of ps] ready_parts(2) [OF c] by (simp add: s searched_def quiet_def)
qed

text \<open>The packages that satisfy a requirement on a name are the ones of the set that do.\<close>

definition plain_req :: "capreq \<Rightarrow> bool" where
  "plain_req req \<longleftrightarrow> \<not> capreq_is_file req \<and> \<not> capreq_is_rpmlib req \<and> cr_name req \<noteq> ''elf(buildid)'' \<and>
     plain (cr_name req)"

definition fits :: "capreq \<Rightarrow> pkg \<Rightarrow> bool" where
  "fits req q \<longleftrightarrow> provides_name (cr_name req) q \<and> fits_req (iE e) req True q"

lemma asks_find_match:
  "asks (find_match e p req) (\<lambda>_ (found, ms). set ms \<subseteq> U \<and> (plain_req req \<longrightarrow>
     (\<forall>q \<in> set ms. fits req q) \<and>
     (found \<and> ms = [] \<longrightarrow> (\<exists>q \<in> U. fits req q \<and> addr q = addr p) \<or> pm_satisfies (iP e) req)))"
proof (unfold find_match_def, rule asks_ask)
  fix c assume c: "ready c"
  obtain f ms ps where s: "pkgset_find_match_packages (iE e) (iP e) (iR e) (c_ps c) (Some p) req True = ((f, ms), ps)"
    by (metis prod.exhaust)
  note k = find_match_ready [OF ready_parts(1) [OF c] s]
  have ix: "indexed (c_ps c)"
    using ready_parts(1) [OF c] by (auto simp: ps_ready_def pkgs_held_def intro!: good_indexed)
  have "(\<forall>q \<in> set ms. fits req q) \<and>
     (f \<and> ms = [] \<longrightarrow> (\<exists>q \<in> U. fits req q \<and> addr q = addr p) \<or> pm_satisfies (iP e) req)" if "plain_req req"
    using Pkgset_Req.find_match(1,2) [OF ix _ _ _ s] that ready_parts(2) [OF c]
    by (auto simp: plain_req_def fits_def split: if_splits)
  then show "ready (snd (let (r, ps) = pkgset_find_match_packages (iE e) (iP e) (iR e) (c_ps c) (Some p) req True
        in (r, c\<lparr>c_ps := ps\<rparr>))) \<and>
      quiet c (snd (let (r, ps) = pkgset_find_match_packages (iE e) (iP e) (iR e) (c_ps c) (Some p) req True
        in (r, c\<lparr>c_ps := ps\<rparr>))) \<and>
      (case fst (let (r, ps) = pkgset_find_match_packages (iE e) (iP e) (iR e) (c_ps c) (Some p) req True
        in (r, c\<lparr>c_ps := ps\<rparr>)) of (found, ms) \<Rightarrow> set ms \<subseteq> U \<and> (plain_req req \<longrightarrow> (\<forall>q \<in> set ms. fits req q) \<and>
     (found \<and> ms = [] \<longrightarrow> (\<exists>q \<in> U. fits req q \<and> addr q = addr p) \<or> pm_satisfies (iP e) req)))"
    using ready_ps [OF c k(1,2)] k(3) ready_parts(2) [OF c] by (simp add: s quiet_def)
qed

lemma provides_pms:
  "iset_provides E P D is cap = Some (b, is') \<Longrightarrow> is_pms is' = is_pms is \<and> is_pkgs is' = is_pkgs is \<and> is_by_recno is' = is_by_recno is"
  by (auto simp: iset_provides_def Let_def n_assert_def split: if_splits option.splits)

lemma score_pms:
  "provides_score E P D is n rs = Some (k, is') \<Longrightarrow> is_pms is' = is_pms is \<and> is_pkgs is' = is_pkgs is \<and> is_by_recno is' = is_by_recno is"
proof (induction rs arbitrary: n "is")
  case (Cons r rs)
  then obtain b is1 where "iset_provides E P D is r = Some (b, is1)"
    "\<exists>n. provides_score E P D is1 n rs = Some (k, is')" by (auto simp: bind_eq_Some_conv)
  then show ?case using Cons.IH provides_pms by metis
qed simp

lemma same_inset:
  "ready c \<Longrightarrow> is_pms is' = is_pms (inset c) \<Longrightarrow> set (is_pkgs is') = set (is_pkgs (inset c)) \<Longrightarrow>
   ready (c\<lparr>inset := is'\<rparr>) \<and> quiet c (c\<lparr>inset := is'\<rparr>)"
  by (simp add: ready_def quiet_def)

lemma same_unset:
  "ready c \<Longrightarrow> is_pms is' = is_pms (unset c) \<Longrightarrow> set (is_pkgs is') = set (is_pkgs (unset c)) \<Longrightarrow>
   set (is_by_recno is') = set (is_by_recno (unset c)) \<Longrightarrow> ready (c\<lparr>unset := is'\<rparr>) \<and> quiet c (c\<lparr>unset := is'\<rparr>)"
  by (simp add: ready_def quiet_def)

lemma calm_inset_provides: "calm (inset_provides e req)"
  unfolding inset_provides_def by (rule asks_ask_opt) (auto dest!: provides_pms simp: same_inset)

lemma calm_unset_provides: "calm (unset_provides e req)"
  unfolding unset_provides_def by (rule asks_ask_opt) (auto dest!: provides_pms simp: same_unset)

lemma calm_unset_has_kind: "calm (unset_has_kind e p)"
  unfolding unset_has_kind_def
  by (rule asks_ask)
    (simp add: iset_has_kind_of_pkg_def iset_sorted_def Let_def same_unset sorted_arrays.set_nsort [OF pk_arrays])

lemma calm_req_score: "calm (req_score e p)"
  unfolding req_score_def
  by (intro calm_seq asks_ask_opt asks_ret)
    (auto simp: iset_reqs_score_def n_assert_def same_inset same_unset dest!: score_pms split: if_splits)

text \<open>A requirement the database satisfies is one an installed package matches.\<close>

definition in_db :: "capreq \<Rightarrow> bool" where
  "in_db req \<longleftrightarrow> (\<exists>r \<in> H. header_cap_match_req (iE e) (iM e) (db_hdr r) req (ma_flags_of e OR MA_PROMOTE_CAPEPOCH) \<noteq> 0)"

lemma asks_db_match: "asks (i3_pkgdb_match_req e req) (\<lambda>_ b. b \<and> plain_req req \<longrightarrow> in_db req)"
proof (unfold i3_pkgdb_match_req_def, rule asks_ask)
  fix c assume c: "ready c"
  let ?q = "pkgdb_match_req (iE e) (iP e) (iM e) (c_db c) req (ma_flags_of e OR MA_PROMOTE_CAPEPOCH) (Some (is_by_recno (unset c)))"
  obtain b ex db where s: "?q = ((b, ex), db)" by (metis prod.exhaust)
  have ex: "ex_ok (Some (is_by_recno (unset c)))" using c by (simp add: ready_def ex_ok_def)
  note k = match_req [OF ready_parts(5) [OF c] ex s]
  have "kept (c_db c) db" using k(1,2) ready_parts(5) [OF c] by (simp add: kept_def db_ok_def)
  then show "ready (snd (let ((b, ex), db) = ?q in (b, c\<lparr>c_db := db, unset := (unset c)\<lparr>is_by_recno := the ex\<rparr>\<rparr>))) \<and>
      quiet c (snd (let ((b, ex), db) = ?q in (b, c\<lparr>c_db := db, unset := (unset c)\<lparr>is_by_recno := the ex\<rparr>\<rparr>))) \<and>
      (fst (let ((b, ex), db) = ?q in (b, c\<lparr>c_db := db, unset := (unset c)\<lparr>is_by_recno := the ex\<rparr>\<rparr>)) \<and> plain_req req \<longrightarrow> in_db req)"
    using ready_staying [OF c _ k(3)] k(4) ready_parts(4) [OF c] by (auto simp: s quiet_def plain_req_def in_db_def)
qed

lemma calm_db_match: "calm (i3_pkgdb_match_req e req)"
  by (rule asks_calm) (rule asks_db_match)

lemma calm_find_match: "calm (find_match e p req)"
  by (rule asks_calm) (rule asks_find_match)

lemma calm_ps_search: "tag \<noteq> ST_PROVIDES \<Longrightarrow> calm (ps_search e tag v)"
  by (rule asks_calm) (rule asks_ps_search)

lemma calm_other_version: "calm (i3_is_other_version_marked e p req)"
  unfolding i3_is_other_version_marked_def
proof (rule asks_ask)
  fix c assume c: "ready c"
  have "ready (c\<lparr>c_ps := ps_sorted (iE e) (iP e) (iR e) (c_ps c)\<rparr>)"
    by (rule ready_ps [OF c ready_sorted [OF ready_parts(1) [OF c]]])
  then show "ready (snd (let ps = ps_sorted (iE e) (iP e) (iR e) (c_ps c);
         i = pk_bsearch (iP e) (\<lambda>q. pkg_cmp_name q p) (ps_pkgs ps);
         same = takeWhile (\<lambda>q. pkg_cmp_name q p = 0 \<and> pkg_cmp_arch (iR e) q p = 0) (drop (nat i) (ps_pkgs ps))
     in (0 \<le> i \<and> list_ex (\<lambda>q. addr q \<noteq> addr p \<and> i3_is_marked c q \<and>
             (case req of None \<Rightarrow> True | Some r \<Rightarrow> pkg_satisfies_req (iE e) (iP e) (iD e) q r False)) same,
         c\<lparr>c_ps := ps\<rparr>))) \<and>
     quiet c (snd (let ps = ps_sorted (iE e) (iP e) (iR e) (c_ps c);
         i = pk_bsearch (iP e) (\<lambda>q. pkg_cmp_name q p) (ps_pkgs ps);
         same = takeWhile (\<lambda>q. pkg_cmp_name q p = 0 \<and> pkg_cmp_arch (iR e) q p = 0) (drop (nat i) (ps_pkgs ps))
     in (0 \<le> i \<and> list_ex (\<lambda>q. addr q \<noteq> addr p \<and> i3_is_marked c q \<and>
             (case req of None \<Rightarrow> True | Some r \<Rightarrow> pkg_satisfies_req (iE e) (iP e) (iD e) q r False)) same,
         c\<lparr>c_ps := ps\<rparr>))) \<and> True"
    by (simp add: quiet_def Let_def)
qed

lemma calm_conflicted: "calm (i3_get_package_conflicted_pkgs e p)"
proof (unfold i3_get_package_conflicted_pkgs_def, rule asks_if, rule asks_ret, simp, rule asks_ask)
  fix c assume c: "ready c"
  obtain r ps where s: "pkgset_get_conflicted_packages (iE e) (iP e) (iR e) (c_ps c) p = (r, ps)" by fastforce
  show "ready (snd (let (r, ps) = pkgset_get_conflicted_packages (iE e) (iP e) (iR e) (c_ps c) p in (r, c\<lparr>c_ps := ps\<rparr>))) \<and>
      quiet c (snd (let (r, ps) = pkgset_get_conflicted_packages (iE e) (iP e) (iR e) (c_ps c) p in (r, c\<lparr>c_ps := ps\<rparr>))) \<and> True"
    using ready_ps [OF c conflicted_ready [OF ready_parts(1) [OF c] s]] by (simp add: s quiet_def)
qed

lemma calm_sigint: "calm sigint_reached"
  unfolding sigint_reached_def by (rule asks_ask) (auto simp: ready_def quiet_def)

lemma calm_stopped: "calm stopped"
  unfolding stopped_def by (intro calm_seq calm_sigint asks_if asks_ret calm_rd) simp

end

section \<open>Choosing asks only\<close>

context i3_world
begin

lemma calm_ret: "calm (ret x)"
  by (rule asks_ret) simp

lemmas calm_rules = calm_seq calm_ret calm_rd asks_die asks_asrt asks_need asks_if asks_split asks_option asks_let
  calm_each calm_tally calm_visit calm_db_search calm_db_search_staying calm_inset_provides calm_unset_provides
  calm_unset_has_kind calm_req_score calm_db_match calm_find_match calm_other_version calm_conflicted calm_sigint calm_stopped

lemma calm_installed: "calm (i3_is_pkg_installed e p)"
  unfolding i3_is_pkg_installed_def Let_def by (intro calm_rules)

lemma calm_installable: "calm (i3_is_pkg_installable e p b)"
  unfolding i3_is_pkg_installable_def Let_def by (intro calm_rules calm_installed)

lemma calm_satisfiable: "calm (req_satisfiable e p req)"
  unfolding req_satisfiable_def by (intro calm_rules)

lemma calm_satisfiability: "calm (satisfiability_score e q p)"
  unfolding satisfiability_score_def Let_def by (intro calm_rules calm_satisfiable)

lemma calm_score_candidate: "calm (score_candidate e q p)"
  unfolding score_candidate_def count_conflicts_def Let_def
  by (intro calm_rules calm_installed calm_satisfiability)

lemma best_at_bound: "i_best < n \<Longrightarrow> i + length xs \<le> n \<Longrightarrow> fst (best_at i i_best best xs) < n"
  by (induction xs arbitrary: i i_best best) auto

lemma position_of_less: "position_of p ps = Some i \<Longrightarrow> i < length ps"
proof -
  assume "position_of p ps = Some i"
  then have "i = last (filter (\<lambda>i. addr (ps ! i) = addr p) [0..<length ps])" "filter (\<lambda>i. addr (ps ! i) = addr p) [0..<length ps] \<noteq> []"
    by (auto simp: position_of_def split: list.splits)
  then have "i \<in> set (filter (\<lambda>i. addr (ps ! i) = addr p) [0..<length ps])" by (metis last_in_set)
  then show ?thesis by simp
qed

text \<open>A position among the candidates that are left, which are some of the candidates.\<close>

definition picks :: "pkg list \<Rightarrow> nat \<times> pkg list \<Rightarrow> bool" where
  "picks cands r \<longleftrightarrow> fst r < length (snd r) \<and> length (snd r) \<le> length cands \<and> set (snd r) \<subseteq> set cands"

lemma trim_picks: "i < length cands \<Longrightarrow> picks cands (trim_candidates scores cands i)"
proof -
  assume i: "i < length cands"
  define keep where "keep = (\<lambda>(sc :: candidate_score, p :: pkg). \<not> ((foldl min INT_MAX (map cs_satscore scores) < 0 \<and>
      0 \<le> foldl max (hd (map cs_satscore scores)) (map cs_satscore scores)) \<and> cs_satscore sc < 0) \<and>
      \<not> ((foldl max 0 (map cs_conflicts scores) > 0 \<and> foldl min INT_MAX (map cs_conflicts scores) = 0) \<and> cs_conflicts sc > 0))"
  let ?copy = "map snd (filter keep (zip scores cands))"
  have "trim_candidates scores cands i = (i, cands) \<or>
     ?copy \<noteq> [] \<and> trim_candidates scores cands i = (case position_of (cands ! i) ?copy of None \<Rightarrow> (0, ?copy) | Some j \<Rightarrow> (j, ?copy))"
    by (simp only: trim_candidates_def Let_def keep_def) auto
  moreover have "length ?copy \<le> length cands"
    using length_filter_le [of keep "zip scores cands"] by simp
  moreover have "set ?copy \<subseteq> set cands" by (auto dest: set_zip_rightD)
  ultimately show ?thesis
    using i by (auto simp del: map_eq_conv length_map set_map simp: picks_def dest: position_of_less split: option.splits)
qed

lemma asks_do_select: "asks (do_select_best_pkg e p cands) (\<lambda>_ r. picks cands r)"
  unfolding do_select_best_pkg_def
proof (rule asks_asrt, rule asks_if)
  assume "cands \<noteq> []" "length cands = 1"
  then show "asks (ret (0, cands)) (\<lambda>_ r. picks cands r)" by (simp add: asks_ret picks_def)
next
  assume c: "cands \<noteq> []"
  show "asks (seq (visit (score_candidate e p) cands) (\<lambda>scores.
          let min_arch = foldl min INT_MAX (map cs_arch scores);
              final = map (\<lambda>sc. cs_score sc + (if cs_arch sc = min_arch then 1 else 0)) scores;
              (i_best, _) = best_at 0 0 (cs_score (hd scores)) final;
              (i_best_sat, _) = best_at 0 0 (cs_satscore (hd scores)) (map cs_satscore scores);
              best = cands ! i_best
          in if count_same (iR e) cands = length cands \<and>
                (pkg_cmp_ver (iE e) best p = 0 \<or> i_best = i_best_sat)
             then ret (0, [best])
             else ret (trim_candidates scores cands i_best))) (\<lambda>_ r. picks cands r)"
  proof (rule asks_bind [OF asks_visit [OF calm_score_candidate]])
    fix scores :: "candidate_score list" assume len: "length scores = length cands"
    let ?final = "map (\<lambda>sc. cs_score sc + (if cs_arch sc = foldl min INT_MAX (map cs_arch scores) then 1 else 0)) scores"
    obtain i b where i: "best_at 0 0 (cs_score (hd scores)) ?final = (i, b)" by fastforce
    have less: "i < length cands"
      using best_at_bound [of 0 "length cands" 0 ?final "cs_score (hd scores)"] i len c by simp
    then have "picks cands (0, [cands ! i])" using nth_mem [OF less] c by (simp add: picks_def Suc_le_eq)
    then show "asks (let min_arch = foldl min INT_MAX (map cs_arch scores);
              final = map (\<lambda>sc. cs_score sc + (if cs_arch sc = min_arch then 1 else 0)) scores;
              (i_best, _) = best_at 0 0 (cs_score (hd scores)) final;
              (i_best_sat, _) = best_at 0 0 (cs_satscore (hd scores)) (map cs_satscore scores);
              best = cands ! i_best
          in if count_same (iR e) cands = length cands \<and>
                (pkg_cmp_ver (iE e) best p = 0 \<or> i_best = i_best_sat)
             then ret (0, [best])
             else ret (trim_candidates scores cands i_best)) (\<lambda>_ r. picks cands r)"
      unfolding Let_def i case_prod_conv
      by (intro asks_split asks_if asks_ret trim_picks [OF less])
  qed
qed

text \<open>
  The package a requirement is to mark is available, not black, and satisfies the requirement if it
  is on a name; when none is to be marked one that satisfies it is marked already, or nothing need
  be.
\<close>

definition found_ok :: "pkg \<Rightarrow> capreq \<Rightarrow> ('s, 'h) i3ctx \<Rightarrow> bool \<times> pkg option \<times> pkg list \<Rightarrow> bool" where
  "found_ok p req c = (\<lambda>(found, tomark, cands).
     (\<forall>q \<in> set cands \<union> set_option tomark. q \<in> U \<and> \<not> is_black c q \<and> (plain_req req \<longrightarrow> fits req q)) \<and>
     (tomark \<noteq> None \<longrightarrow> found) \<and>
     (found \<and> tomark = None \<and> plain_req req \<longrightarrow>
        (\<exists>q \<in> U. fits req q \<and> (i3_is_marked c q \<or> addr q = addr p)) \<or> pm_satisfies (iP e) req))"

lemma found_ok_quiet: "found_ok p req c' r \<Longrightarrow> quiet c c' \<Longrightarrow> found_ok p req c r"
  by (auto simp: found_ok_def quiet_def iset_has_pkg_def iset_ismarkedf_def)

lemma asks_find_req: "asks (i3_find_req e p req) (found_ok p req)"
proof (rule asksI)
  fix c assume c: "ready c"
  show "wp (i3_find_req e p req) (\<lambda>x c'. ready c' \<and> quiet c c' \<and> found_ok p req c x) c"
    unfolding i3_find_req_def wp_seq
  proof (rule asks_wp [OF asks_find_match c], clarify)
    fix c1 found sus
    assume r1: "ready c1" and q1: "quiet c c1" and s: "set sus \<subseteq> U" "plain_req req \<longrightarrow> (\<forall>q \<in> set sus. fits req q) \<and>
      (found \<and> sus = [] \<longrightarrow> (\<exists>q \<in> U. fits req q \<and> addr q = addr p) \<or> pm_satisfies (iP e) req)"
    define sus1 where "sus1 = filter (\<lambda>q. \<not> is_black c1 q) (if ts_reinstall e then sus
       else filter (\<lambda>q. \<not> (i3_is_marked_for_removal c1 q \<and> \<not> i3_is_marked c1 q)) sus)"
    have sus1: "set sus1 \<subseteq> set sus" "\<And>q. q \<in> set sus1 \<Longrightarrow> \<not> is_black c q"
      using q1 by (auto simp: sus1_def quiet_def split: if_splits)
    have ok: "\<forall>q \<in> set qs. q \<in> U \<and> \<not> is_black c q \<and> (plain_req req \<longrightarrow> fits req q)" if "set qs \<subseteq> set sus1" for qs
      using that sus1 s by blast
    have first: "found_ok p req c (found, None, [])" if "\<not> found \<or> sus = []"
      using that s by (auto simp: found_ok_def)
    have marked: "found_ok p req c (True, None, qs)" if "list_ex (i3_is_marked c1) sus1" "set qs \<subseteq> set sus1" for qs
      using ok [OF that(2)] ok [OF subset_refl] that(1) quiet_same(5) [OF q1] s(1)
      by (auto simp: found_ok_def list_ex_iff)
    have best: "found_ok p req c (if om then (False, None, qs) else (True, Some (r ! i), qs))"
      if "picks sus1 (i, r)" "set qs \<subseteq> set r" for om qs r i
    proof -
      have "set r \<subseteq> set sus1" "r ! i \<in> set sus1" using that(1) by (auto simp: picks_def)
      then show ?thesis using ok [of qs] ok [of "[r ! i]"] that(2) by (auto simp: found_ok_def)
    qed
    have no: "found_ok p req c (False, None, [])" by (simp add: found_ok_def)
    have sel: "wp (do_select_best_pkg e p sus1) (\<lambda>(i, sus2). wp (i3_is_other_version_marked e (sus2 ! i) None)
        (\<lambda>om c'. ready c' \<and> quiet c c' \<and> found_ok p req c
          (if om then (False, None, if length sus2 > 1 then sus2 else [])
           else (True, Some (sus2 ! i), if length sus2 > 1 then sus2 else [])))) c1"
    proof (rule asks_wp [OF asks_do_select r1], clarify)
      fix i r c2 assume 2: "ready c2" "quiet c1 c2" "picks sus1 (i, r)"
      show "wp (i3_is_other_version_marked e (r ! i) None) (\<lambda>om c'. ready c' \<and> quiet c c' \<and> found_ok p req c
          (if om then (False, None, if length r > 1 then r else [])
           else (True, Some (r ! i), if length r > 1 then r else []))) c2"
      proof (rule asks_wp [OF calm_other_version 2(1)])
        fix om c3 assume 3: "ready c3" "quiet c2 c3"
        have "set (if length r > 1 then r else []) \<subseteq> set r" by auto
        from best [OF 2(3) this, of om] show "ready c3 \<and> quiet c c3 \<and> found_ok p req c
          (if om then (False, None, if length r > 1 then r else [])
           else (True, Some (r ! i), if length r > 1 then r else []))"
          using 3 quiet_trans [OF quiet_trans [OF q1 2(2)] 3(2)] by blast
      qed
    qed
    show "wp (if \<not> found \<or> sus = [] then ret (found, None, [])
         else seq (rd (\<lambda>c. filter (\<lambda>q. \<not> is_black c q) (if ts_reinstall e then sus
                   else filter (\<lambda>q. \<not> (i3_is_marked_for_removal c q \<and> \<not> i3_is_marked c q)) sus))) (\<lambda>sus1.
           if sus1 = [] then ret (False, None, [])
           else seq (rd (\<lambda>c. list_ex (i3_is_marked c) sus1)) (\<lambda>any_is_marked.
             let several = (\<lambda>qs. if length qs > 1 then qs else []) in
             if any_is_marked then ret (True, None, several sus1)
             else seq (do_select_best_pkg e p sus1) (\<lambda>(i, sus2).
               let best = sus2 ! i in
               seq (i3_is_other_version_marked e best None) (\<lambda>om.
                 ret (if om then (False, None, several sus2) else (True, Some best, several sus2)))))))
        (\<lambda>x c'. ready c' \<and> quiet c c' \<and> found_ok p req c x) c1"
    proof (cases "\<not> found \<or> sus = []")
      case True
      then show ?thesis using r1 q1 first by simp
    next
      case False
      show ?thesis
        unfolding if_not_P [OF False] wp_seq wp_rd sus1_def [symmetric]
      proof (cases "sus1 = []")
        case True
        then show "wp (if sus1 = [] then ret (False, None, [])
             else seq (rd (\<lambda>c. list_ex (i3_is_marked c) sus1)) (\<lambda>any_is_marked.
               let several = (\<lambda>qs. if length qs > 1 then qs else []) in
               if any_is_marked then ret (True, None, several sus1)
               else seq (do_select_best_pkg e p sus1) (\<lambda>(i, sus2).
                 let best = sus2 ! i in
                 seq (i3_is_other_version_marked e best None) (\<lambda>om.
                   ret (if om then (False, None, several sus2) else (True, Some best, several sus2))))))
          (\<lambda>x c'. ready c' \<and> quiet c c' \<and> found_ok p req c x) c1"
          using r1 q1 no by simp
      next
        case ne: False
        show "wp (if sus1 = [] then ret (False, None, [])
             else seq (rd (\<lambda>c. list_ex (i3_is_marked c) sus1)) (\<lambda>any_is_marked.
               let several = (\<lambda>qs. if length qs > 1 then qs else []) in
               if any_is_marked then ret (True, None, several sus1)
               else seq (do_select_best_pkg e p sus1) (\<lambda>(i, sus2).
                 let best = sus2 ! i in
                 seq (i3_is_other_version_marked e best None) (\<lambda>om.
                   ret (if om then (False, None, several sus2) else (True, Some best, several sus2))))))
          (\<lambda>x c'. ready c' \<and> quiet c c' \<and> found_ok p req c x) c1"
        proof (cases "list_ex (i3_is_marked c1) sus1")
          case True
          then show ?thesis using r1 q1 ne marked [of sus1] marked [of "[]"] by simp
        next
          case False
          show ?thesis
            unfolding if_not_P [OF ne] wp_seq wp_rd Let_def if_not_P [OF False]
            by (rule wp_mono [OF sel]) (simp add: case_prod_beta' Let_def wp_ret_fun)
        qed
      qed
    qed
  qed
qed

lemma calm_find_req: "calm (i3_find_req e p req)"
  by (rule asks_calm) (rule asks_find_req)

lemma asks_choose:
  "asks (i3_choose_equiv e op cap pkgs hint) (\<lambda>_ r. set_option r \<subseteq> set pkgs \<union> set_option hint)"
proof -
  have h: "(case hint of None \<Rightarrow> hd pkgs | Some h \<Rightarrow> h) \<in> set pkgs \<union> set_option hint" if "pkgs \<noteq> []"
    using that by (cases hint) auto
  let ?sorted = "pk_sort (iP e) (pkg_cmp_name_evr_rev (iE e) (iR e)) pkgs"
  have s: "set ?sorted = set pkgs" by (rule sorted_arrays.set_nsort [OF pk_arrays])
  have u: "set (if o_multilib e then uniq_from (pkg_cmp_name_evr (iE e)) ?sorted else ?sorted) \<subseteq> set pkgs"
    using uniq_from_sub s by (metis order_refl)
  show ?thesis
    unfolding i3_choose_equiv_def Let_def
  proof (rule asks_asrt, rule asks_if)
    assume "pkgs \<noteq> []"
    then show "asks (ret (Some (case hint of None \<Rightarrow> hd pkgs | Some h \<Rightarrow> h))) (\<lambda>_ r. set_option r \<subseteq> set pkgs \<union> set_option hint)"
      using h by (simp add: asks_ret)
  next
    show "asks (seq (ask (\<lambda>c. (ask_equiv e (asked c) op cap (if o_multilib e then uniq_from (pkg_cmp_name_evr (iE e)) ?sorted else ?sorted)
              (case hint of None \<Rightarrow> hd pkgs | Some h \<Rightarrow> h), c\<lparr>asked := asked c + 1\<rparr>))) (\<lambda>n.
            if n = - 1 then ret None
            else asrt (0 \<le> n \<and> nat n < length (if o_multilib e then uniq_from (pkg_cmp_name_evr (iE e)) ?sorted else ?sorted))
                   (ret (Some ((if o_multilib e then uniq_from (pkg_cmp_name_evr (iE e)) ?sorted else ?sorted) ! nat n)))))
        (\<lambda>_ r. set_option r \<subseteq> set pkgs \<union> set_option hint)"
    proof (rule asks_then)
      show "calm (ask (\<lambda>c. (ask_equiv e (asked c) op cap (if o_multilib e then uniq_from (pkg_cmp_name_evr (iE e)) ?sorted else ?sorted)
              (case hint of None \<Rightarrow> hd pkgs | Some h \<Rightarrow> h), c\<lparr>asked := asked c + 1\<rparr>)))"
        by (rule asks_ask) (simp add: ready_def quiet_def)
    next
      fix n :: int
      show "asks (if n = - 1 then ret None
          else asrt (0 \<le> n \<and> nat n < length (if o_multilib e then uniq_from (pkg_cmp_name_evr (iE e)) ?sorted else ?sorted))
            (ret (Some ((if o_multilib e then uniq_from (pkg_cmp_name_evr (iE e)) ?sorted else ?sorted) ! nat n))))
        (\<lambda>_ r. set_option r \<subseteq> set pkgs \<union> set_option hint)"
        by (intro asks_if asks_asrt asks_ret) (use u nth_mem in \<open>fastforce split: if_splits\<close>)+
    qed
  qed
qed

end

section \<open>The other questions of the engine\<close>

context i3_world
begin

lemma asks_same: "(\<And>c. ready c \<Longrightarrow> ready (snd (h c)) \<and> quiet c (snd (h c))) \<Longrightarrow> calm (ask h)"
  by (rule asks_ask) simp

lemma calm_eval_boolreq: "calm (eval_boolreq e p req)"
proof -
  have a: "calm (ask_opt (\<lambda>c. case booldep_eval (eval_ctx e p c) nd of Inl _ \<Rightarrow> None | Inr rs \<Rightarrow> Some (rs, c)))" for nd
    by (rule asks_ask_opt) (auto split: sum.splits)
  have "calm (case r of Inl Refused \<Rightarrow> ret None | Inl Asserted \<Rightarrow> die
     | Inr (nd, _) \<Rightarrow> ask_opt (\<lambda>c. case booldep_eval (eval_ctx e p c) nd of Inl _ \<Rightarrow> None | Inr rs \<Rightarrow> Some (rs, c)))" for r
    by (simp add: a calm_ret asks_die split: sum.split perr.split prod.split)
  then show ?thesis unfolding eval_boolreq_def Let_def .
qed

text \<open>A requirement that is not a rich dependency is gone through itself.\<close>

lemma asks_req_iter: "asks (i3_req_iter_get e p req) (\<lambda>_ rs. \<not> req_is_boolean e req \<longrightarrow> rs = [req])"
proof (unfold i3_req_iter_get_def, rule asks_if)
  assume b: "req_is_boolean e req"
  have "calm (eval_boolreq e p req)" by (rule calm_eval_boolreq)
  then show "asks (seq (eval_boolreq e p req) (\<lambda>bs. ret (case bs of None \<Rightarrow> [req] | Some rs \<Rightarrow> rs)))
      (\<lambda>_ rs. \<not> req_is_boolean e req \<longrightarrow> rs = [req])"
    by (rule asks_then) (simp add: asks_ret b)
qed (simp add: asks_ret)

lemma calm_pick_suggests: "calm (pick_suggests e p old auto rs)"
  by (induction rs) (simp, rule calm_ret, simp only: pick_suggests.simps, intro calm_rules calm_find_req)

lemma calm_with_suggests: "calm (with_suggests e p)"
  unfolding with_suggests_def Let_def
  by (intro calm_rules calm_pick_suggests asks_same) (simp_all add: ready_def quiet_def)

lemma calm_choose: "calm (i3_choose_equiv e op cap pkgs hint)"
  by (rule asks_calm) (rule asks_choose)

lemma asks_choose_successor: "cands \<noteq> [] \<Longrightarrow> asks (choose_successor e cands) (\<lambda>_ r. set_option r \<subseteq> set cands)"
  unfolding choose_successor_def
  by (rule asks_bind [OF asks_visit [OF calm_req_score]], rule asks_ret)
    (simp add: best_at_bound)

lemma asks_choose_multilib:
  assumes "cands \<noteq> []"
  shows "asks (choose_successor_MULTILIB e p cands) (\<lambda>_ r. set_option r \<subseteq> set cands)"
proof (unfold choose_successor_MULTILIB_def, rule asks_bind [OF asks_visit])
  show "calm (need (multilib_score e p q) (\<lambda>k. seq (req_score e q) (\<lambda>r. ret (k + r))))" for q by (intro calm_rules)
next
  fix scores :: "int list" assume len: "length scores = length cands"
  have at: "cands ! fst (best_at 0 0 b xs) \<in> set cands" if "length xs = length cands" for b xs
    using best_at_bound [of 0 "length cands" 0 xs b] that assms by simp
  obtain i m where i: "best_at 0 0 0 scores = (i, m)" by fastforce
  have "cands ! i \<in> set cands" using at [OF len, of 0] i by simp
  moreover have "cands ! fst (best_at 0 0 (- INT_MAX) (map (\<lambda>q. - pkg_arch_score (iR e) q) cands)) \<in> set cands"
    by (rule at) simp
  ultimately show "asks (let (i, max_score) = best_at 0 0 0 scores;
           selected = (if max_score = 0 then None else Some (cands ! i))
       in if \<exists>q \<in> set cands. color p \<noteq> 0 \<or> color q \<noteq> 0 then ret selected
          else asrt (max_score > 0)
            (if \<exists>v \<in> set scores. v \<noteq> hd scores then ret selected
             else let arch = map (\<lambda>q. - pkg_arch_score (iR e) q) cands
                  in ret (if \<forall>v \<in> set arch. v \<le> - INT_MAX then selected
                          else Some (cands ! fst (best_at 0 0 (- INT_MAX) arch))))) (\<lambda>_ r. set_option r \<subseteq> set cands)"
    unfolding Let_def i case_prod_conv by (intro asks_if asks_asrt asks_ret) (simp_all split: if_splits)
qed

lemma asks_select_successor: "asks (select_successor e p) (\<lambda>_ r. set_option r \<subseteq> U)"
proof (unfold select_successor_def, rule asks_bind [OF asks_ps_search])
  fix r assume r: "set (case r of None \<Rightarrow> [] | Some l \<Rightarrow> l) \<subseteq> U"
  define cands where "cands = filter_out_olders e (case r of None \<Rightarrow> [] | Some qs \<Rightarrow> qs) p"
  have sub: "set cands \<subseteq> U" using r by (auto simp: cands_def filter_out_olders_def)
  have "asks (choose_successor_MULTILIB e p cands) (\<lambda>_ r. set_option r \<subseteq> U)"
    "asks (choose_successor e cands) (\<lambda>_ r. set_option r \<subseteq> U)" if "cands \<noteq> []"
    by (rule asks_weaken [OF asks_choose_multilib [OF that]], use sub in blast)
      (rule asks_weaken [OF asks_choose_successor [OF that]], use sub in blast)
  then show "asks (let cands = filter_out_olders e (case r of None \<Rightarrow> [] | Some qs \<Rightarrow> qs) p
       in if cands = [] then ret None
          else if conf_MULTILIB (iE e) then choose_successor_MULTILIB e p cands
          else choose_successor e cands) (\<lambda>_ r. set_option r \<subseteq> U)"
    by (simp add: cands_def [symmetric] asks_ret)
qed simp

lemma asks_select_best: "asks (i3_select_best_pkg e p cands) (\<lambda>_ i. i = - 1 \<or> nat i < length cands)"
  unfolding i3_select_best_pkg_def
proof (rule asks_bind [OF asks_rd], clarify)
  fix c
  let ?tmp = "filter (\<lambda>q. \<not> is_black c q \<and> pkg_is_colored_like (iE e) q p \<noteq> 0) cands"
  have "length ?tmp \<le> length cands" by (rule length_filter_le)
  then have "asks (seq (do_select_best_pkg e p ?tmp) (\<lambda>(i, _). ret (int i))) (\<lambda>_ i. i = - 1 \<or> nat i < length cands)"
    by (intro asks_bind [OF asks_do_select] asks_split asks_ret) (auto simp: picks_def simp del: length_filter_le)
  then show "asks (if ?tmp = [] then ret (- 1) else seq (do_select_best_pkg e p ?tmp) (\<lambda>(i, _). ret (int i)))
      (\<lambda>_ i. i = - 1 \<or> nat i < length cands)"
    by (intro asks_if asks_ret) simp_all
qed

lemma asks_find_successor_by:
  assumes "tag \<noteq> ST_PROVIDES"
  shows "asks (find_successor_by e p tag) (\<lambda>_ r. set_option r \<subseteq> U)"
proof (unfold find_successor_by_def, rule asks_bind [OF asks_ps_search [OF assms]])
  fix r assume r: "set (case r of None \<Rightarrow> [] | Some l \<Rightarrow> l) \<subseteq> U"
  define cands where "cands = filter (\<lambda>q. pkg_cmp_name p q \<noteq> 0 \<and> \<not> are_equivalents (iE e) p q)
      (case r of None \<Rightarrow> [] | Some qs \<Rightarrow> qs)"
  have sub: "set cands \<subseteq> U" using r by (auto simp: cands_def)
  have "asks (seq (i3_select_best_pkg e p cands) (\<lambda>i. ret (if i = - 1 then None else Some (cands ! nat i))))
      (\<lambda>_ r. set_option r \<subseteq> U)"
  proof (rule asks_bind [OF asks_select_best], rule asks_ret)
    fix i assume "i = - 1 \<or> nat i < length cands"
    then show "set_option (if i = - 1 then None else Some (cands ! nat i)) \<subseteq> U"
      using nth_mem [of "nat i" cands] sub by auto
  qed
  then show "asks (let pkgs = filter (\<lambda>q. pkg_cmp_name p q \<noteq> 0 \<and> \<not> are_equivalents (iE e) p q)
                    (case r of None \<Rightarrow> [] | Some qs \<Rightarrow> qs)
       in if pkgs = [] then ret None
          else seq (i3_select_best_pkg e p pkgs) (\<lambda>i. ret (if i = - 1 then None else Some (pkgs ! nat i))))
      (\<lambda>_ r. set_option r \<subseteq> U)"
    by (simp add: cands_def [symmetric] asks_ret)
qed

lemma asks_find_successor: "asks (find_successor e p) (\<lambda>_ r. fst ` set_option r \<subseteq> U)"
  unfolding find_successor_def
proof (rule asks_bind [OF asks_select_successor], rule asks_option)
  fix q r assume "set_option r \<subseteq> U" "r = Some q"
  then show "asks (ret (Some (q, False))) (\<lambda>_ r. fst ` set_option r \<subseteq> U)" by (simp add: asks_ret)
next
  have 3: "asks (seq (find_successor_by e p ST_OBSL) (\<lambda>s3. ret (map_option (\<lambda>q. (q, True)) s3)))
      (\<lambda>_ r. fst ` set_option r \<subseteq> U)"
    by (rule asks_bind [OF asks_find_successor_by], simp, rule asks_ret) auto
  show "asks (if \<not> o_obsoletes e then ret None
       else seq (find_successor_by e p ST_CAP) (\<lambda>s2. case s2 of Some q \<Rightarrow> ret (Some (q, False))
         | None \<Rightarrow> seq (find_successor_by e p ST_OBSL) (\<lambda>s3. ret (map_option (\<lambda>q. (q, True)) s3))))
      (\<lambda>_ r. fst ` set_option r \<subseteq> U)"
    by (rule asks_if, rule asks_ret, simp, rule asks_bind [OF asks_find_successor_by], simp, rule asks_option, rule 3, rule asks_ret) auto
qed

lemma asks_not_marked_yet: "set_option r \<subseteq> U \<Longrightarrow> asks (not_marked_yet r) (\<lambda>_ (b, q). set_option q \<subseteq> U)"
  unfolding not_marked_yet_def by (rule asks_weaken [OF asks_rd]) (auto split: option.splits if_splits)

lemma find_sub: "set_option (find f xs) \<subseteq> set xs"
  by (induction xs) auto

lemma asks_direct: "asks (find_direct_replacement e p cnfl) (\<lambda>_ (b, q). set_option q \<subseteq> U)"
  unfolding find_direct_replacement_def
  by (rule asks_bind [OF asks_ps_search], simp, rule asks_asrt, rule asks_not_marked_yet, rule subset_trans [OF find_sub])

lemma asks_indirect: "asks (find_indirect_replacement e p cnfl) (\<lambda>_ (b, q). set_option q \<subseteq> U)"
  unfolding find_indirect_replacement_def
  by (rule asks_bind [OF asks_ps_search], simp, rule asks_not_marked_yet, rule subset_trans [OF find_sub])

lemma calm_lost_caps: "calm (lost_caps e p cs)"
  by (induction cs) (auto simp: toin_provides_def intro!: calm_rules calm_find_req asks_die split: sum.split option.split)

lemma calm_orphaned_by: "calm (orphaned_by e d cs)"
proof (induction cs arbitrary: d)
  case (Cons cap cs)
  show ?case
  proof (simp only: orphaned_by.simps, rule calm_seq [OF _ Cons.IH], rule asks_same)
    fix c assume c: "ready c"
    let ?q = "pkgdb_q_what_requires (iE e) (iP e) (iD e) (iM e) (c_db c) d cap (Some (is_by_recno (unset c))) PKG_LDREQS"
    obtain n d' ex db where s: "?q = ((n, d', ex), db)" by (metis prod.exhaust)
    show "ready (snd (let ((n, d, ex), db) = ?q in (d, c\<lparr>c_db := db, unset := (unset c)\<lparr>is_by_recno := the ex\<rparr>\<rparr>))) \<and>
        quiet c (snd (let ((n, d, ex), db) = ?q in (d, c\<lparr>c_db := db, unset := (unset c)\<lparr>is_by_recno := the ex\<rparr>\<rparr>)))"
      using ready_staying [OF c what_requires_kept [OF ready_parts(3) [OF c] s]] by (simp add: s quiet_def)
  qed
qed (simp add: calm_ret)

lemma calm_get_orphaned: "calm (get_orphaned e cs)"
  unfolding get_orphaned_def by (intro calm_rules calm_orphaned_by)

text \<open>What is obsoleted is installed, and its record number is one of an installed package.\<close>

lemma asks_obsoletedby: "asks (get_obsoletedby_pkg e p) (\<lambda>_ ds. recnos_ok (set ds))"
  unfolding get_obsoletedby_pkg_def Let_def
proof (rule asks_ask_opt)
  fix c ds c' assume c: "ready c"
  let ?fl = "PKGDB_GETF_OBSOLETEDBY_NEVR OR (if o_obsoletes e then PKGDB_GETF_OBSOLETEDBY_OBSL else 0) OR
            (if ts_downgrade e then PKGDB_GETF_OBSOLETEDBY_REV else 0)"
  let ?db = "if conf_MULTILIB (iE e) then (c_db c)\<lparr>db_filter := Some (obs_filter e p)\<rparr> else c_db c"
  assume "map_option (\<lambda>((n, d, ex), db'). (d, c\<lparr>c_db := (if conf_MULTILIB (iE e) then db'\<lparr>db_filter := None\<rparr> else db'),
       unset := (unset c)\<lparr>is_by_recno := the ex\<rparr>\<rparr>))
     (pkgdb_q_obsoletedby_pkg (iE e) (iP e) (iM e) ?db [] p ?fl (Some (is_by_recno (unset c))) PKG_LDWHOLE_FLDEPDIRS) = Some (ds, c')"
  then obtain n ex db' where q: "pkgdb_q_obsoletedby_pkg (iE e) (iP e) (iM e) ?db [] p ?fl (Some (is_by_recno (unset c)))
       PKG_LDWHOLE_FLDEPDIRS = Some ((n, ds, ex), db')"
    and c': "c' = c\<lparr>c_db := (if conf_MULTILIB (iE e) then db'\<lparr>db_filter := None\<rparr> else db'),
       unset := (unset c)\<lparr>is_by_recno := the ex\<rparr>\<rparr>" by auto
  have g: "good (dbh ?db)" using ready_parts(3) [OF c] by simp
  note k = obsoletedby_kept [OF g q]
  have "kept (c_db c) (if conf_MULTILIB (iE e) then db'\<lparr>db_filter := None\<rparr> else db')"
    using k(1) ready_parts(5) [OF c] by (auto simp: kept_def db_ok_def)
  then have "ready c'" unfolding c' by (rule ready_staying [OF c _ k(2)])
  moreover have "recnos_ok (set ds)"
    unfolding recnos_ok_def
  proof
    fix q assume "q \<in> set ds"
    then have "recno q \<in> db_recno ` held (dbh ?db)" by (intro subsetD [OF k(3)] imageI)
    then obtain r where "r \<in> held (dbh ?db)" "recno q = db_recno r" ..
    then show "nonneg32 (recno q)" using held_ok [OF g] by (simp add: recs_ok_def)
  qed
  ultimately show "ready c' \<and> quiet c c' \<and> recnos_ok (set ds)" by (simp add: c' quiet_def)
qed

end

end
