(* ===== verification/I3inv.thy ===== *)
theory I3inv
  imports I3quiet
begin

text \<open>
  The installation engine, fifth part: the invariant of its recursion. The packages that have marked
  one another form a tree of which the stack is a branch; the packages on the stack are gray, and
  those that have left it are what was wanted as long as nothing has gone wrong.
\<close>

section \<open>Identities of packages\<close>

lemma hex_digit: "a < 16 \<Longrightarrow> b < 16 \<Longrightarrow> ''0123456789abcdef'' ! a = ''0123456789abcdef'' ! b \<Longrightarrow> a = b"
proof -
  assume a: "a < 16" "b < 16" "''0123456789abcdef'' ! a = ''0123456789abcdef'' ! b"
  have "distinct ''0123456789abcdef''" by simp
  from nth_eq_iff_index_eq [OF this, of a b] show "a = b" using a by simp
qed

lemma hex_not_Nil: "hex_nat n \<noteq> []"
  by (subst hex_nat.simps) simp

lemma hex_inj: "hex_nat n = hex_nat m \<Longrightarrow> n = m"
proof (induction n arbitrary: m rule: hex_nat.induct)
  case (1 n)
  show ?case
  proof (cases "n < 16 \<longleftrightarrow> m < 16")
    case True
    show ?thesis
    proof (cases "n < 16")
      case False
      then have "hex_nat (n div 16) @ [''0123456789abcdef'' ! (n mod 16)] = hex_nat (m div 16) @ [''0123456789abcdef'' ! (m mod 16)]"
        using 1(2) True hex_nat.simps [of n] hex_nat.simps [of m] by simp
      then have "n div 16 = m div 16" "n mod 16 = m mod 16"
        using 1(1) [OF False] hex_digit [of "n mod 16" "m mod 16"] by (simp_all del: nth_Cons_Suc)
      then show ?thesis by (metis div_mult_mod_eq)
    next
      case t: True
      then show ?thesis using 1(2) True hex_nat.simps [of n] hex_nat.simps [of m] hex_digit [of n m] by simp
    qed
  next
    case False
    then show ?thesis
      using 1(2) hex_nat.simps [of n] hex_nat.simps [of m] hex_not_Nil [of "n div 16"] hex_not_Nil [of "m div 16"]
      by (auto simp: append_eq_Cons_conv Cons_eq_append_conv split: if_splits)
  qed
qed

abbreviation pid :: "pkg \<Rightarrow> string" where
  "pid p \<equiv> ''0x'' @ hex_nat (addr p)"

lemma pid_addr: "pid p = pid q \<longleftrightarrow> addr p = addr q"
  by (auto dest: hex_inj)

definition by_ptr :: "pmark_set \<Rightarrow> bool" where
  "by_ptr pms \<longleftrightarrow> pms_flags pms AND PKGMARK_SET_IDNEVR = 0"

lemma by_ptr_id: "by_ptr pms \<Longrightarrow> package_id pms p = pid p"
  by (simp add: by_ptr_def package_id_def)

lemma by_ptr_set [simp]: "by_ptr (pkgmark_set pms p b fl) \<longleftrightarrow> by_ptr pms"
  by (simp add: by_ptr_def)

text \<open>Clearing a mark takes nothing away but that mark of that package.\<close>

lemma isset_clear:
  "pkgmark_isset (pkgmark_set pms p False fl) q fl' \<longleftrightarrow>
     pkgmark_isset pms q (if package_id pms q = package_id pms p then NOT fl AND fl' else fl')"
  by (auto simp: pkgmark_isset_def pkgmark_set_def package_id_def Let_def update_conv' and.assoc split: option.splits)

section \<open>The tree of packages that have marked one another\<close>

definition edges :: "i3pkg list \<Rightarrow> (nat \<times> nat) set" where
  "edges hp = {(i, j). i < length hp \<and> j \<in> set (i3_markedby (hp ! i))}"

text \<open>Each package of a branch has been marked by the one below it and by no other.\<close>

fun branch :: "i3pkg list \<Rightarrow> nat list \<Rightarrow> bool" where
  "branch hp [] \<longleftrightarrow> True"
| "branch hp (a # s) \<longleftrightarrow> (\<forall>i. (i, a) \<in> edges hp \<longleftrightarrow> s \<noteq> [] \<and> i = hd s) \<and> branch hp s"

definition tree :: "i3pkg list \<Rightarrow> nat list \<Rightarrow> bool" where
  "tree hp s \<longleftrightarrow> (\<forall>i j. (i, j) \<in> edges hp \<longrightarrow> i < j \<and> j < length hp) \<and>
     (\<forall>i j. (i, j) \<in> (edges hp)\<^sup>+ \<longrightarrow> addr (i3_pkg (hp ! i)) \<noteq> addr (i3_pkg (hp ! j))) \<and> branch hp s \<and> set s \<subseteq> {..<length hp}"

lemma treeI:
  "(\<And>i j. (i, j) \<in> edges hp \<Longrightarrow> i < j \<and> j < length hp) \<Longrightarrow>
   (\<And>i j. (i, j) \<in> (edges hp)\<^sup>+ \<Longrightarrow> addr (i3_pkg (hp ! i)) \<noteq> addr (i3_pkg (hp ! j))) \<Longrightarrow>
   branch hp s \<Longrightarrow> (\<And>x. x \<in> set s \<Longrightarrow> x < length hp) \<Longrightarrow> tree hp s"
  unfolding tree_def by blast

lemma treeD:
  assumes "tree hp s"
  shows "(i, j) \<in> edges hp \<Longrightarrow> i < j" "(i, j) \<in> edges hp \<Longrightarrow> j < length hp"
    "(i, j) \<in> (edges hp)\<^sup>+ \<Longrightarrow> addr (i3_pkg (hp ! i)) \<noteq> addr (i3_pkg (hp ! j))"
    "branch hp s" "x \<in> set s \<Longrightarrow> x < length hp"
  using assms unfolding tree_def by blast+

lemma branch_above: "branch hp (a # s) \<Longrightarrow> (i, a) \<in> (edges hp)\<^sup>+ \<longleftrightarrow> i \<in> set s"
proof (induction s arbitrary: a)
  case Nil
  then show ?case by (auto dest: tranclD2)
next
  case (Cons b s)
  have e: "(i, a) \<in> edges hp \<longleftrightarrow> i = b" for i using Cons.prems by simp
  have "(i, a) \<in> (edges hp)\<^sup>+ \<longleftrightarrow> i = b \<or> (i, b) \<in> (edges hp)\<^sup>+"
    using e by (metis r_into_trancl tranclE trancl_into_trancl)
  then show ?case using Cons.IH Cons.prems by auto
qed

lemma tree_below:
  assumes "tree hp (a # s)" "x \<in> set s" "(a, j) \<in> (edges hp)\<^sup>*"
  shows "addr (i3_pkg (hp ! x)) \<noteq> addr (i3_pkg (hp ! j))"
proof -
  have "branch hp (a # s)" using assms(1) unfolding tree_def by blast
  then have "(x, a) \<in> (edges hp)\<^sup>+" using assms(2) branch_above by blast
  then have "(x, j) \<in> (edges hp)\<^sup>+" using assms(3) by (rule trancl_rtrancl_trancl)
  then show ?thesis using assms(1) by (auto simp: tree_def)
qed

lemma tree_distinct: "tree hp s \<Longrightarrow> distinct (map (\<lambda>x. addr (i3_pkg (hp ! x))) s)"
proof (induction s)
  case (Cons a s)
  have "tree hp s" using Cons.prems by (simp add: tree_def)
  moreover have "addr (i3_pkg (hp ! x)) \<noteq> addr (i3_pkg (hp ! a))" if "x \<in> set s" for x
    using tree_below [OF Cons.prems that] by simp
  ultimately show ?case using Cons.IH by force
qed simp

lemma tree_pop: "tree hp (a # s) \<Longrightarrow> tree hp s"
  by (simp add: tree_def)

lemma edges_cong:
  assumes "map i3_markedby hp' = map i3_markedby hp"
  shows "edges hp' = edges hp"
proof -
  have l: "length hp' = length hp" using assms by (metis length_map)
  then have "i3_markedby (hp' ! i) = i3_markedby (hp ! i)" if "i < length hp" for i
    using arg_cong [OF assms, of "\<lambda>xs. xs ! i"] that by simp
  then show ?thesis using l by (auto simp: edges_def)
qed

lemma branch_cong: "edges hp' = edges hp \<Longrightarrow> branch hp' s = branch hp s"
  by (induction s) simp_all

lemma tree_lt: "tree hp s \<Longrightarrow> (i, j) \<in> (edges hp)\<^sup>+ \<Longrightarrow> i < length hp \<and> j < length hp"
proof
  assume t: "tree hp s" and e: "(i, j) \<in> (edges hp)\<^sup>+"
  show "i < length hp" using tranclD [OF e] by (auto simp: edges_def)
  show "j < length hp" using tranclD2 [OF e] treeD(2) [OF t] by blast
qed

lemma tree_cong:
  assumes "tree hp s" "map i3_markedby hp' = map i3_markedby hp" "map i3_pkg hp' = map i3_pkg hp"
  shows "tree hp' s"
proof -
  have l: "length hp' = length hp" using assms(2) by (metis length_map)
  have "i3_pkg (hp' ! i) = i3_pkg (hp ! i)" if "i < length hp" for i
    using arg_cong [OF assms(3), of "\<lambda>xs. xs ! i"] that l by simp
  then have n: "addr (i3_pkg (hp' ! i)) \<noteq> addr (i3_pkg (hp' ! j))" if "(i, j) \<in> (edges hp)\<^sup>+" for i j
    using treeD(3) [OF assms(1) that] tree_lt [OF assms(1) that] by simp
  note e = edges_cong [OF assms(2)]
  show ?thesis
    by (rule treeI, unfold e l branch_cong [OF e]) (fact treeD [OF assms(1)] conjI | use treeD(1,2) [OF assms(1)] in blast | rule n, assumption)+
qed

lemma edges_new: "i3_markedby x = [] \<Longrightarrow> edges (hp @ [x]) = edges hp"
  by (auto simp: edges_def nth_append split: if_splits)

lemma tree_new: "tree hp s \<Longrightarrow> i3_markedby x = [] \<Longrightarrow> tree (hp @ [x]) s"
proof -
  assume t: "tree hp s" "i3_markedby x = []"
  note e = edges_new [OF t(2), of hp]
  have "i3_pkg ((hp @ [x]) ! i) = i3_pkg (hp ! i)" if "i < length hp" for i using that by (simp add: nth_append)
  then have n: "addr (i3_pkg ((hp @ [x]) ! i)) \<noteq> addr (i3_pkg ((hp @ [x]) ! j))" if "(i, j) \<in> (edges hp)\<^sup>+" for i j
    using treeD(3) [OF t(1) that] tree_lt [OF t(1) that] by simp
  show ?thesis
  proof (rule treeI, unfold e branch_cong [OF e])
    show "i < j \<and> j < length (hp @ [x])" if "(i, j) \<in> edges hp" for i j using treeD(1,2) [OF t(1) that] by simp
    show "y < length (hp @ [x])" if "y \<in> set s" for y using treeD(5) [OF t(1) that] by simp
  qed (fact n treeD(4) [OF t(1)])+
qed

text \<open>A new package is put on the branch.\<close>

definition pushed :: "i3pkg list \<Rightarrow> nat list \<Rightarrow> nat \<Rightarrow> i3pkg list" where
  "pushed hp s a = (case s of [] \<Rightarrow> hp | m # _ \<Rightarrow> hp[m := (hp ! m)\<lparr>i3_markedby := i3_markedby (hp ! m) @ [a]\<rparr>])"

lemma pushed_pkgs [simp]: "map i3_pkg (pushed hp s a) = map i3_pkg hp" "length (pushed hp s a) = length hp"
  by (auto simp: pushed_def map_update list_update_id [of "map i3_pkg hp", symmetric] simp del: list_update_id split: list.split)
    (metis list_update_beyond list_update_id map_update not_le_imp_less nth_map)

lemma tree_push:
  assumes t: "tree hp s" and a: "Suc a = length hp" "i3_markedby (hp ! a) = []" "a \<notin> set s" "\<forall>i. (i, a) \<notin> edges hp"
    and new: "\<forall>x \<in> set s. addr (i3_pkg (hp ! x)) \<noteq> addr (i3_pkg (hp ! a))"
  shows "tree (pushed hp s a) (a # s)"
proof (cases s)
  case Nil
  then show ?thesis using t a by (auto simp: pushed_def tree_def)
next
  case (Cons m r)
  let ?E = "edges hp" and ?hp = "pushed hp s a"
  have m: "m < length hp" "m < a" using treeD(5) [OF t, of m] a(1,3) Cons by auto
  have E: "edges ?hp = insert (m, a) ?E"
    using m Cons by (auto simp: edges_def pushed_def nth_list_update split: if_splits)
  have "(a, j) \<notin> ?E" for j using a(2) by (simp add: edges_def)
  then have "(a, j) \<in> ?E\<^sup>* \<longleftrightarrow> j = a" for j by (metis converse_rtranclE rtrancl.rtrancl_refl)
  then have plus: "(edges ?hp)\<^sup>+ = ?E\<^sup>+ \<union> {(i, a) | i. (i, m) \<in> ?E\<^sup>*}" by (auto simp: E trancl_insert)
  have pk: "i3_pkg (?hp ! i) = i3_pkg (hp ! i)" if "i < length hp" for i
    using that by (metis nth_map pushed_pkgs)
  have anc: "i \<in> set s" if "(i, m) \<in> ?E\<^sup>*" for i
    using that branch_above [of hp m r i] treeD(4) [OF t] Cons by (auto simp: rtrancl_eq_or_trancl)
  show ?thesis
  proof (rule treeI)
    fix i j assume "(i, j) \<in> edges ?hp"
    then show "i < j \<and> j < length ?hp" using treeD(1,2) [OF t, of i j] a(1) m E by auto
  next
    fix i j assume ij: "(i, j) \<in> (edges ?hp)\<^sup>+"
    show "addr (i3_pkg (?hp ! i)) \<noteq> addr (i3_pkg (?hp ! j))"
    proof (cases "(i, j) \<in> ?E\<^sup>+")
      case True
      then show ?thesis using treeD(3) [OF t True] tree_lt [OF t True] pk by simp
    next
      case False
      then have "j = a" "i \<in> set s" using ij plus anc by auto
      then show ?thesis using new pk [of i] pk [of a] treeD(5) [OF t, of i] a(1) by simp
    qed
  next
    have "branch hp r' \<Longrightarrow> a \<notin> set r' \<Longrightarrow> branch ?hp r'" for r'
    proof (induction r')
      case (Cons x r')
      have "(i, x) \<in> edges ?hp \<longleftrightarrow> (i, x) \<in> ?E" for i using Cons.prems(2) E by simp
      then show ?case using Cons by simp
    qed simp
    then have "branch ?hp s" using treeD(4) [OF t] a(3) by blast
    then show "branch ?hp (a # s)" using a(4) E Cons by simp
  next
    fix x assume "x \<in> set (a # s)"
    then show "x < length ?hp" using treeD(5) [OF t, of x] a(1) by auto
  qed
qed

section \<open>What holds while packages are processed\<close>

context i3_world
begin

abbreviation pk :: "nat \<Rightarrow> ('s, 'h) i3ctx \<Rightarrow> pkg" where
  "pk a c \<equiv> i3_pkg (i3heap c ! a)"

text \<open>Nothing has gone wrong: no package given up, no error, no abort, no signal.\<close>

definition clean :: "('s, 'h) i3ctx \<Rightarrow> bool" where
  "clean c \<longleftrightarrow> (\<forall>p \<in> U. \<not> is_black c p) \<and> i3errors c = [] \<and> \<not> i3abort c \<and> signal_in c \<noteq> Some 0"

definition met :: "('s, 'h) i3ctx \<Rightarrow> pkg \<Rightarrow> capreq \<Rightarrow> bool" where
  "met c p req \<longleftrightarrow> in_db req \<or> pm_satisfies (iP e) req \<or> (\<exists>q \<in> U. fits req q \<and> (i3_is_marked c q \<or> addr q = addr p))"

text \<open>The requirements on names that are gone through for a package.\<close>

definition wanted :: "pkg \<Rightarrow> capreq set" where
  "wanted p = {r \<in> set (map fst (pkg_req_iter (iD e) p [] PKG_ITER_REQIN)). plain_req r \<and> \<not> req_is_boolean e r}"

definition served :: "('s, 'h) i3ctx \<Rightarrow> pkg \<Rightarrow> bool" where
  "served c p \<longleftrightarrow> (\<forall>r \<in> wanted p. met c p r)"

definition base :: "('s, 'h) i3ctx \<Rightarrow> bool" where
  "base c \<longleftrightarrow> ready c \<and> tree (i3heap c) (i3stack c) \<and> by_ptr (processed c) \<and>
     (\<forall>x \<in> set (i3stack c). is_gray c (pk x c) \<and> pk x c \<in> U)"

definition closed :: "('s, 'h) i3ctx \<Rightarrow> bool" where
  "closed c \<longleftrightarrow> (clean c \<longrightarrow> (\<forall>p \<in> U. is_gray c p \<longrightarrow>
     i3_is_marked c p \<and> (p \<notin> (\<lambda>x. pk x c) ` set (i3stack c) \<longrightarrow> served c p)))"

definition inv :: "('s, 'h) i3ctx \<Rightarrow> bool" where
  "inv c \<longleftrightarrow> base c \<and> closed c"

text \<open>How the state after an operation relates to the one before it.\<close>

definition adv :: "('s, 'h) i3ctx \<Rightarrow> ('s, 'h) i3ctx \<Rightarrow> bool" where
  "adv c c' \<longleftrightarrow> i3stack c' = i3stack c \<and> (\<exists>ps. map i3_pkg (i3heap c') = map i3_pkg (i3heap c) @ ps) \<and>
     (\<forall>p. is_black c p \<longrightarrow> is_black c' p) \<and>
     (clean c' \<longrightarrow> clean c \<and> (\<forall>p. i3_is_marked c p \<longrightarrow> i3_is_marked c' p) \<and> (\<forall>p. is_gray c p \<longrightarrow> is_gray c' p) \<and>
       (\<forall>p \<in> set (is_pkgs (inset c')). p \<in> set (is_pkgs (inset c)) \<or> p \<in> U \<and> is_gray c' p))"

lemma adv_refl [simp]: "adv c c"
  by (simp add: adv_def)

lemma adv_trans: "adv c c' \<Longrightarrow> adv c' c'' \<Longrightarrow> adv c c''"
  unfolding adv_def by fastforce

lemma advD:
  assumes "adv c c'"
  shows "i3stack c' = i3stack c" "is_black c p \<Longrightarrow> is_black c' p" "clean c' \<Longrightarrow> clean c"
    "clean c' \<Longrightarrow> i3_is_marked c p \<Longrightarrow> i3_is_marked c' p" "clean c' \<Longrightarrow> is_gray c p \<Longrightarrow> is_gray c' p"
  using assms by (simp_all add: adv_def)

lemma adv_pk: "adv c c' \<Longrightarrow> a < length (i3heap c) \<Longrightarrow> a < length (i3heap c') \<and> pk a c' = pk a c"
proof -
  assume a: "adv c c'" "a < length (i3heap c)"
  then obtain ps where ps: "map i3_pkg (i3heap c') = map i3_pkg (i3heap c) @ ps" unfolding adv_def by blast
  have l: "length (i3heap c') = length (i3heap c) + length ps" using arg_cong [OF ps, of length] by simp
  then have "map i3_pkg (i3heap c') ! a = pk a c'" "(map i3_pkg (i3heap c) @ ps) ! a = pk a c" "a < length (i3heap c')"
    using a(2) by (simp_all add: nth_append)
  then show ?thesis using ps by simp
qed

lemma met_adv: "met c p r \<Longrightarrow> adv c c' \<Longrightarrow> clean c' \<Longrightarrow> met c' p r"
  unfolding met_def using advD(4) by blast

lemma served_adv: "served c p \<Longrightarrow> adv c c' \<Longrightarrow> clean c' \<Longrightarrow> served c' p"
  unfolding served_def using met_adv by blast

lemma invD: "inv c \<Longrightarrow> ready c" "inv c \<Longrightarrow> tree (i3heap c) (i3stack c)" "inv c \<Longrightarrow> by_ptr (processed c)"
  "inv c \<Longrightarrow> x \<in> set (i3stack c) \<Longrightarrow> is_gray c (pk x c)" "inv c \<Longrightarrow> x \<in> set (i3stack c) \<Longrightarrow> pk x c \<in> U"
  "inv c \<Longrightarrow> x \<in> set (i3stack c) \<Longrightarrow> x < length (i3heap c)"
  unfolding inv_def base_def using treeD(5) by blast+

lemma finite_U: "ready c \<Longrightarrow> finite U"
  using finite_set [of "ps_pkgs (c_ps c)"] by (simp add: ready_def)

lemma addr_U: "ready c \<Longrightarrow> p \<in> U \<Longrightarrow> q \<in> U \<Longrightarrow> addr p = addr q \<Longrightarrow> p = q"
  unfolding ready_def ps_ready_def ps_good_def pkgs_ok_def distinct_map inj_on_def by blast

text \<open>An operation that takes nothing from an unclean state, or changes nothing that counts.\<close>

lemma inv_unclean: "base c \<Longrightarrow> \<not> clean c \<Longrightarrow> inv c"
  by (simp add: inv_def closed_def)

lemma quiet_clean: "quiet c c' \<Longrightarrow> clean c' \<Longrightarrow> clean c"
  by (auto simp: quiet_def clean_def)

lemma same_adv:
  assumes "i3stack c' = i3stack c" "map i3_pkg (i3heap c') = map i3_pkg (i3heap c) @ ps" "processed c' = processed c"
    "clean c' \<Longrightarrow> clean c" "\<And>p. clean c' \<Longrightarrow> i3_is_marked c' p = i3_is_marked c p"
    "clean c' \<Longrightarrow> set (is_pkgs (inset c')) = set (is_pkgs (inset c))"
  shows "adv c c'"
  using assms unfolding adv_def by auto

lemma same_inv:
  assumes "inv c" "ready c'" "i3stack c' = i3stack c" "tree (i3heap c') (i3stack c')" "map i3_pkg (i3heap c') = map i3_pkg (i3heap c) @ ps"
    "processed c' = processed c" "clean c' \<Longrightarrow> clean c" "\<And>p. clean c' \<Longrightarrow> i3_is_marked c' p = i3_is_marked c p"
    "clean c' \<Longrightarrow> set (is_pkgs (inset c')) = set (is_pkgs (inset c))"
  shows "inv c'" "adv c c'"
proof -
  show a: "adv c c'" by (rule same_adv [OF assms(3,5,6,7,8,9)])
  have pk: "pk x c' = pk x c" if "x \<in> set (i3stack c)" for x using adv_pk [OF a] invD(6) [OF assms(1) that] by simp
  have "base c'" using assms(1-4) invD(3-5) [OF assms(1)] pk unfolding base_def assms(3,6) by simp
  moreover have "served c' p" if "clean c'" "served c p" for p using served_adv [OF that(2) a that(1)] .
  then have "closed c'" using assms(1,7,8) pk unfolding closed_def inv_def assms(3,6) by (auto cong: image_cong_simp)
  ultimately show "inv c'" by (simp add: inv_def)
qed

lemma quiet_inv:
  assumes "inv c" "ready c'" "quiet c c'"
  shows "inv c'" "adv c c'"
proof -
  have h: "i3heap c' = i3heap c" "i3stack c' = i3stack c" "processed c' = processed c" "i3_is_marked c' p = i3_is_marked c p"
    "set (is_pkgs (inset c')) = set (is_pkgs (inset c))" for p
    using quiet_same [OF assms(3)] by simp_all
  show "inv c'" "adv c c'"
    using same_inv [OF assms(1,2) h(2), of "[]"] invD(2) [OF assms(1)] h quiet_clean [OF assms(3)] by simp_all
qed

lemma asks_go:
  assumes "asks m R" "inv c" "\<And>x c'. inv c' \<Longrightarrow> adv c c' \<Longrightarrow> quiet c c' \<Longrightarrow> R c x \<Longrightarrow> Q x c'"
  shows "wp m Q c"
  by (rule asks_wp [OF assms(1) invD(1) [OF assms(2)]]) (use assms(3) quiet_inv [OF assms(2)] in blast)

section \<open>Operations that keep the invariant\<close>

text \<open>The room left on the stack is a matter of its length.\<close>

definition room :: "nat \<Rightarrow> ('s, 'h) i3ctx \<Rightarrow> bool" where
  "room n c \<longleftrightarrow> card U < n + length (i3stack c)"

definition runs :: "nat \<Rightarrow> (('s, 'h) i3ctx, 'a) op \<Rightarrow> ('a \<Rightarrow> bool) \<Rightarrow> bool" where
  "runs n m R \<longleftrightarrow> (\<forall>c. inv c \<longrightarrow> room n c \<longrightarrow> wp m (\<lambda>x c'. inv c' \<and> adv c c' \<and> R x) c)"

abbreviation goes :: "nat \<Rightarrow> (('s, 'h) i3ctx, 'a) op \<Rightarrow> bool" where
  "goes n m \<equiv> runs n m (\<lambda>_. True)"

lemma room_adv: "adv c c' \<Longrightarrow> room n c' \<longleftrightarrow> room n c"
  by (simp add: room_def advD(1))

lemma runsI: "(\<And>c. inv c \<Longrightarrow> room n c \<Longrightarrow> wp m (\<lambda>x c'. inv c' \<and> adv c c' \<and> R x) c) \<Longrightarrow> runs n m R"
  by (simp add: runs_def)

lemma runs_wp:
  assumes "runs n m R" "inv c" "room n c" "\<And>x c'. inv c' \<Longrightarrow> adv c c' \<Longrightarrow> room n c' \<Longrightarrow> R x \<Longrightarrow> Q x c'"
  shows "wp m Q c"
proof -
  have "wp m (\<lambda>x c'. inv c' \<and> adv c c' \<and> R x) c" using assms(1-3) by (simp add: runs_def)
  then show ?thesis by (rule wp_mono) (use assms(3,4) room_adv in blast)
qed

lemma runs_seq: "runs n m R \<Longrightarrow> (\<And>x. R x \<Longrightarrow> runs n (f x) S) \<Longrightarrow> runs n (seq m f) S"
proof (rule runsI)
  fix c assume a: "runs n m R" "\<And>x. R x \<Longrightarrow> runs n (f x) S" "inv c" "room n c"
  show "wp (seq m f) (\<lambda>x c'. inv c' \<and> adv c c' \<and> S x) c"
    unfolding wp_seq
  proof (rule runs_wp [OF a(1,3,4)])
    fix x c' assume 1: "inv c'" "adv c c'" "room n c'" "R x"
    show "wp (f x) (\<lambda>x c'. inv c' \<and> adv c c' \<and> S x) c'"
      by (rule runs_wp [OF a(2) [OF 1(4)] 1(1,3)]) (use 1(2) adv_trans in blast)
  qed
qed

lemma runs_asks: "asks m R \<Longrightarrow> (\<And>c x. R c x \<Longrightarrow> S x) \<Longrightarrow> runs n m S"
  by (rule runsI, erule asks_go) simp_all

lemma runs_bind:
  assumes "asks m R" "\<And>c x. R c x \<Longrightarrow> runs n (f x) S"
  shows "runs n (seq m f) S"
  by (rule runs_seq [where R = "\<lambda>x. \<exists>c. R c x"], rule runs_asks [OF assms(1)]) (use assms(2) in blast)+

lemma goes_asks: "asks m R \<Longrightarrow> goes n m"
  by (erule runs_asks) simp

lemma goes_weak: "runs n m R \<Longrightarrow> goes n m"
  by (rule runsI, erule runs_wp) simp_all

lemma runs_then: "calm m \<Longrightarrow> (\<And>x. runs n (f x) S) \<Longrightarrow> runs n (seq m f) S"
  by (erule runs_bind)

lemma goes_seq: "goes n m \<Longrightarrow> (\<And>x. runs n (f x) S) \<Longrightarrow> runs n (seq m f) S"
  by (erule runs_seq)

lemma runs_ret: "R x \<Longrightarrow> runs n (ret x) R"
  by (simp add: runs_def)

lemma goes_ret: "goes n (ret x)"
  by (simp add: runs_def)

lemma runs_die: "runs n die R"
  by (simp add: runs_def)

lemma runs_asrt: "runs n m R \<Longrightarrow> runs n (asrt b m) R"
  by (simp add: runs_def)

lemma runs_need: "(\<And>x. v = Some x \<Longrightarrow> runs n (f x) R) \<Longrightarrow> runs n (need v f) R"
  by (simp add: runs_def)

lemma runs_if: "(b \<Longrightarrow> runs n m R) \<Longrightarrow> (\<not> b \<Longrightarrow> runs n m' R) \<Longrightarrow> runs n (if b then m else m') R"
  by simp

lemma runs_option:
  "(v = None \<Longrightarrow> runs n m R) \<Longrightarrow> (\<And>x. v = Some x \<Longrightarrow> runs n (f x) R) \<Longrightarrow> runs n (case v of None \<Rightarrow> m | Some x \<Rightarrow> f x) R"
  by (cases v) simp_all

lemma runs_split: "(\<And>a b. p = (a, b) \<Longrightarrow> runs n (f a b) R) \<Longrightarrow> runs n (case p of (a, b) \<Rightarrow> f a b) R"
  by (cases p) simp

lemma goes_each: "(\<And>x. x \<in> set xs \<Longrightarrow> goes n (f x)) \<Longrightarrow> goes n (each f xs)"
  by (induction xs) (auto intro: goes_seq goes_ret)

lemma goes_tally: "(\<And>x. goes n (f x)) \<Longrightarrow> goes n (tally f k xs)"
  by (induction xs arbitrary: k) (auto intro: goes_seq goes_ret)

lemmas goes_rules = goes_ret runs_die runs_asrt runs_need runs_if runs_option runs_split goes_each goes_tally

lemma update_not_Nil: "AList.update k v xs \<noteq> []"
  by (cases xs) auto

text \<open>An error, a stop: the state is not clean after it.\<close>

lemma error_wp:
  assumes "inv c" "\<And>c'. inv c' \<Longrightarrow> adv c c' \<Longrightarrow> \<not> clean c' \<Longrightarrow> Q () c'"
  shows "wp (i3_error p code) Q c"
proof -
  let ?f = "\<lambda>c. c\<lparr>i3errors := AList.update (nvr p)
     ((case map_of (i3errors c) (nvr p) of None \<Rightarrow> [] | Some es \<Rightarrow> es) @ [\<lparr>err_pkg = p, err_code = code\<rparr>]) (i3errors c)\<rparr>"
  have n: "\<not> clean (?f c)" using update_not_Nil by (simp add: clean_def)
  have "ready (?f c)" using invD(1) [OF assms(1)] by (simp add: ready_def)
  then have "inv (?f c)" "adv c (?f c)"
    using same_inv [OF assms(1), of "?f c" "[]"] invD(2) [OF assms(1)] n by simp_all
  then show ?thesis using assms(2) n by (simp add: i3_error_def)
qed

lemma stop_wp:
  assumes "inv c" "\<And>c'. inv c' \<Longrightarrow> adv c c' \<Longrightarrow> \<not> clean c' \<Longrightarrow> Q () c'"
  shows "wp (i3_stop_processing True) Q c"
proof -
  have n: "\<not> clean (c\<lparr>i3abort := True\<rparr>)" by (simp add: clean_def)
  have "ready (c\<lparr>i3abort := True\<rparr>)" using invD(1) [OF assms(1)] by (simp add: ready_def)
  then have "inv (c\<lparr>i3abort := True\<rparr>)" "adv c (c\<lparr>i3abort := True\<rparr>)"
    using same_inv [OF assms(1), of "c\<lparr>i3abort := True\<rparr>" "[]"] invD(2) [OF assms(1)] n by simp_all
  then show ?thesis using assms(2) n by (simp add: i3_stop_processing_def)
qed

lemma goes_error: "goes n (i3_error p code)"
  by (rule runsI) (erule error_wp, simp)

lemma goes_stop: "goes n (i3_stop_processing True)"
  by (rule runsI) (erule stop_wp, simp)

text \<open>Changes of an entry that are none to its package and what it has marked.\<close>

lemma i3upd_wp:
  assumes "inv c" "i3_pkg (f (i3heap c ! a)) = pk a c" "i3_markedby (f (i3heap c ! a)) = i3_markedby (i3heap c ! a)"
    "inv (c\<lparr>i3heap := (i3heap c)[a := f (i3heap c ! a)]\<rparr>) \<Longrightarrow> adv c (c\<lparr>i3heap := (i3heap c)[a := f (i3heap c ! a)]\<rparr>) \<Longrightarrow>
       Q () (c\<lparr>i3heap := (i3heap c)[a := f (i3heap c ! a)]\<rparr>)"
  shows "wp (i3upd a f) Q c"
proof -
  let ?c = "c\<lparr>i3heap := (i3heap c)[a := f (i3heap c ! a)]\<rparr>"
  have upd: "map g ((i3heap c)[a := x]) = map g (i3heap c)" if "g x = g (i3heap c ! a)" for g :: "i3pkg \<Rightarrow> 'z" and x
    using that by (metis list_update_beyond list_update_id map_update not_le_imp_less nth_map)
  have m: "map i3_pkg (i3heap ?c) = map i3_pkg (i3heap c) @ []" "map i3_markedby (i3heap ?c) = map i3_markedby (i3heap c)"
    using upd assms(2,3) by simp_all
  have "ready ?c" using invD(1) [OF assms(1)] by (simp add: ready_def)
  moreover have "tree (i3heap ?c) (i3stack ?c)"
    using tree_cong [OF invD(2) [OF assms(1)] m(2)] m(1) by simp
  moreover have "clean ?c \<longleftrightarrow> clean c" by (simp add: clean_def)
  ultimately have "inv ?c" "adv c ?c" using same_inv [OF assms(1), of ?c "[]"] m(1) by simp_all
  then show ?thesis using assms(4) by (simp add: i3upd_def)
qed

end

end
