(* ===== verification/I3run.thy ===== *)
theory I3run
  imports I3inv
begin

text \<open>
  The installation engine, sixth part: its operations keep the invariant, its recursion ends, and
  what it has chosen is closed under requirements when nothing has gone wrong.
\<close>

lemma wp_if: "(b \<Longrightarrow> wp m Q c) \<Longrightarrow> (\<not> b \<Longrightarrow> wp m' Q c) \<Longrightarrow> wp (if b then m else m') Q c"
  by simp

lemma wp_option:
  "(v = None \<Longrightarrow> wp m Q c) \<Longrightarrow> (\<And>x. v = Some x \<Longrightarrow> wp (f x) Q c) \<Longrightarrow> wp (case v of None \<Rightarrow> m | Some x \<Rightarrow> f x) Q c"
  by (cases v) simp_all

section \<open>The contract of the recursive call\<close>

context i3_world
begin

definition proc_ok :: "nat \<Rightarrow> ('s, 'h) proc \<Rightarrow> bool" where
  "proc_ok n proc \<longleftrightarrow> (\<forall>c q fl by. inv c \<longrightarrow> room n c \<longrightarrow> q \<in> U \<longrightarrow>
     wp (seq (i3pkg_new q fl by) proc)
       (\<lambda>rc c'. inv c' \<and> adv c c' \<and> (rc < 0 \<longrightarrow> is_black c' q) \<and> (clean c' \<longrightarrow> 0 < rc \<and> i3_is_marked c' q)) c)"

lemma proc_wp:
  assumes "proc_ok n proc" "inv c" "room n c" "q \<in> U"
    "\<And>rc c'. inv c' \<Longrightarrow> adv c c' \<Longrightarrow> (rc < 0 \<Longrightarrow> is_black c' q) \<Longrightarrow> (clean c' \<Longrightarrow> 0 < rc \<and> i3_is_marked c' q) \<Longrightarrow> Q rc c'"
  shows "wp (seq (i3pkg_new q fl by) proc) Q c"
proof -
  have "wp (seq (i3pkg_new q fl by) proc)
       (\<lambda>rc c'. inv c' \<and> adv c c' \<and> (rc < 0 \<longrightarrow> is_black c' q) \<and> (clean c' \<longrightarrow> 0 < rc \<and> i3_is_marked c' q)) c"
    using assms(1-4) by (simp add: proc_ok_def)
  then show ?thesis by (rule wp_mono) (use assms(5) in blast)
qed

lemma goes_proc: "proc_ok n proc \<Longrightarrow> q \<in> U \<Longrightarrow> goes n (seq (i3pkg_new q fl by) (\<lambda>a. seq (proc a) (\<lambda>_. ret x)))"
proof (rule runsI)
  fix c assume a: "proc_ok n proc" "q \<in> U" "inv c" "room n c"
  have "wp (seq (i3pkg_new q fl by) proc) (\<lambda>_ c'. inv c' \<and> adv c c' \<and> True) c"
    by (rule proc_wp [OF a(1,3,4,2)]) simp
  then show "wp (seq (i3pkg_new q fl by) (\<lambda>a. seq (proc a) (\<lambda>_. ret x))) (\<lambda>_ c'. inv c' \<and> adv c c' \<and> True) c"
    by (simp add: wp_seq_fun wp_ret_fun)
qed

lemma runs_weaken: "runs n m R \<Longrightarrow> (\<And>x. R x \<Longrightarrow> S x) \<Longrightarrow> runs n m S"
  by (rule runsI, erule runs_wp) simp_all

section \<open>Orphans\<close>

lemma asks_choice:
  assumes "t \<in> U" "set cands \<subseteq> U"
  shows "asks (if b then i3_choose_equiv e op cap cands (Some t) else ret (Some t)) (\<lambda>_ r. set_option r \<subseteq> U)"
  by (rule asks_if, rule asks_weaken [OF asks_choose]) (use assms in \<open>auto intro: asks_ret\<close>)

lemma goes_upgrade_orphan: "proc_ok n proc \<Longrightarrow> goes n (try_to_upgrade_orphan proc e p req)"
  unfolding try_to_upgrade_orphan_def
  by (rule runs_bind [OF asks_find_successor], rule runs_option, rule goes_ret, rule runs_split, rule runs_then [OF calm_rd],
    rule runs_if, rule goes_ret, rule goes_proc) auto

lemma found_U: "found_ok p req c (found, tomark, cands) \<Longrightarrow> set cands \<subseteq> U \<and> set_option tomark \<subseteq> U"
  by (auto simp: found_ok_def)

lemma goes_orphan_req:
  assumes "proc_ok n proc"
  shows "goes n (process_orphan_req proc e p req)"
  unfolding process_orphan_req_def
proof (rule runs_then [OF calm_unset_provides], rule runs_if, rule goes_ret, rule runs_bind [OF asks_find_req], rule runs_split,
    rule runs_split, rule runs_if, rule goes_ret, rule runs_then [OF calm_db_match], rule runs_if, rule goes_ret, rule goes_seq)
  fix c r found y tomark cands assume f: "found_ok p req c r" and r: "r = (found, y)" "y = (tomark, cands)"
  note u = found_U [OF f [unfolded r]]
  fix own b
  show "goes n (if tomark = None \<or> o_greedy e then try_to_upgrade_orphan proc e p req else ret False)"
    by (intro goes_rules goes_upgrade_orphan assms)
  fix up
  have err: "goes n (i3_error p I3ERR_REQUIREDBY)" by (rule goes_error)
  have t: "goes n (case tomark of None \<Rightarrow> i3_error p I3ERR_REQUIREDBY
       | Some t \<Rightarrow>
           if toremove \<noteq> None then seq (i3_stop_processing True) (\<lambda>_. i3_error p I3ERR_REQUIREDBY)
           else if \<not> o_follow e then i3_error p I3ERR_REQUIREDBY
           else seq (if o_askuser e \<and> cands \<noteq> [] then i3_choose_equiv e (Some p) (capreq_stra e req) cands (Some t)
                     else ret (Some t)) (\<lambda>choice.
             case choice of
               None \<Rightarrow> i3_stop_processing True
             | Some q \<Rightarrow> seq (i3pkg_new q 0 (Some (p, req, I3PKGBY_ORPHAN))) (\<lambda>a. seq (proc a) (\<lambda>_. ret ()))))" for toremove
  proof (intro runs_option runs_if err goes_seq [OF goes_stop])
    fix t assume "tomark = Some t"
    then have "t \<in> U" "set cands \<subseteq> U" using u by auto
    then show "goes n (seq (if o_askuser e \<and> cands \<noteq> [] then i3_choose_equiv e (Some p) (capreq_stra e req) cands (Some t)
                     else ret (Some t)) (\<lambda>choice.
             case choice of
               None \<Rightarrow> i3_stop_processing True
             | Some q \<Rightarrow> seq (i3pkg_new q 0 (Some (p, req, I3PKGBY_ORPHAN))) (\<lambda>a. seq (proc a) (\<lambda>_. ret ()))))"
      by (intro runs_bind [OF asks_choice] runs_option goes_stop goes_proc [OF assms]) auto
  qed
  show "goes n (if up then ret () else seq (case tomark of None \<Rightarrow> ret None | Some t \<Rightarrow> unset_has_kind e t) (\<lambda>toremove.
       case tomark of None \<Rightarrow> i3_error p I3ERR_REQUIREDBY
       | Some t \<Rightarrow>
           if toremove \<noteq> None then seq (i3_stop_processing True) (\<lambda>_. i3_error p I3ERR_REQUIREDBY)
           else if \<not> o_follow e then i3_error p I3ERR_REQUIREDBY
           else seq (if o_askuser e \<and> cands \<noteq> [] then i3_choose_equiv e (Some p) (capreq_stra e req) cands (Some t)
                     else ret (Some t)) (\<lambda>choice.
             case choice of
               None \<Rightarrow> i3_stop_processing True
             | Some q \<Rightarrow> seq (i3pkg_new q 0 (Some (p, req, I3PKGBY_ORPHAN))) (\<lambda>a. seq (proc a) (\<lambda>_. ret ())))))"
    by (rule runs_if, rule goes_ret, rule runs_then [OF _ t], intro calm_rules)
qed

lemma goes_orphan:
  assumes "proc_ok n proc"
  shows "goes n (i3_process_orphan proc e orph)"
proof -
  have "goes n (orphan_reqs proc e p rs)" for p rs
    by (induction rs) (simp_all add: goes_ret runs_then [OF calm_rd] runs_if goes_seq [OF goes_orphan_req [OF assms]] runs_then [OF calm_stopped])
  then show ?thesis
    unfolding i3_process_orphan_def i3_process_orphan_requirements_def
    by (intro runs_then [OF calm_stopped] runs_if goes_ret runs_asrt)
qed

section \<open>Obsoleted packages\<close>

lemma asks_upd: "(\<And>c. ready c \<Longrightarrow> ready (f c) \<and> quiet c (f c)) \<Longrightarrow> calm (upd f)"
  by (simp add: asks_def)

lemma asks_multiinsts: "asks (process_multiinsts e p obs) (\<lambda>_ r. set r \<subseteq> set obs)"
proof -
  have "asks (handle_multiinsts e p obs) (\<lambda>_ r. set r \<subseteq> set obs)"
    unfolding handle_multiinsts_def Let_def
  proof (intro asks_asrt asks_if asks_ret asks_then asks_upd)
    assume "length obs > 1"
    then show "set [obs ! fst (best_at 0 0 (- INT_MAX) (map (\<lambda>d. - ver_distance e p d) obs))] \<subseteq> set obs"
      using nth_mem [OF best_at_bound [of 0 "length obs" 0 "map (\<lambda>d. - ver_distance e p d) obs" "- INT_MAX"]]
      by (cases obs) simp_all
  qed (simp_all add: ready_def quiet_def)
  then show ?thesis unfolding process_multiinsts_def Let_def by (intro asks_if asks_ret) simp_all
qed

lemma iset_has_add: "by_nvr (is_pms is) \<Longrightarrow> iset_has_pkg (iset_add is d fl) q \<longleftrightarrow> nvr q = nvr d \<or> iset_has_pkg is q"
  by (auto simp: iset_has_pkg_def iset_ismarkedf_def iset_add_def iset_markf_def isset_set bit.conj_disj_distrib2 or_eq_0_iff)

lemma goes_remove_obsoleted:
  assumes "recnos_ok (set ds)"
  shows "goes n (remove_obsoleted e a p ds)"
  using assms
proof (induction ds)
  case (Cons d ds)
  have d: "nonneg32 (recno d)" and ds: "recnos_ok (set ds)" using Cons.prems by (auto simp: recnos_ok_def)
  have add: "goes n (upd (\<lambda>c. c\<lparr>unset := iset_add (unset c) d PKGMARK_DEP\<rparr>))"
  proof (rule runsI)
    fix c assume c: "inv c"
    let ?c = "c\<lparr>unset := iset_add (unset c) d PKGMARK_DEP\<rparr>"
    have "ready ?c" using invD(1) [OF c] d by (simp add: ready_def iset_add_def iset_markf_def recnos_ok_def)
    moreover have "clean ?c \<longleftrightarrow> clean c" by (simp add: clean_def)
    ultimately have "inv ?c" "adv c ?c" using same_inv [OF c, of ?c "[]"] invD(2) [OF c] by simp_all
    then show "wp (upd (\<lambda>c. c\<lparr>unset := iset_add (unset c) d PKGMARK_DEP\<rparr>)) (\<lambda>x c'. inv c' \<and> adv c c' \<and> True) c" by simp
  qed
  have obs: "goes n (i3upd a (\<lambda>x. x\<lparr>i3_obsoletedby := i3_obsoletedby x @ [d]\<rparr>))"
    by (rule runsI, rule i3upd_wp) simp_all
  show ?case
    unfolding remove_obsoleted.simps
    by (intro runs_then [OF calm_rd] runs_asrt goes_seq [OF obs] goes_seq [OF add] runs_then [OF calm_lost_caps]
        goes_seq [OF Cons.IH [OF ds]] goes_ret)
qed (simp add: goes_ret)

lemma goes_obsoletes:
  assumes "proc_ok n proc"
  shows "goes n (i3_process_pkg_obsoletes proc e a)"
  unfolding i3_process_pkg_obsoletes_def
proof (intro runs_if goes_ret runs_then [OF calm_sigint] runs_then [OF calm_rd] runs_bind [OF asks_obsoletedby])
  fix p obs0 assume r: "recnos_ok (set obs0)"
  have "asks (if length obs0 > 1 then process_multiinsts e p obs0 else ret obs0) (\<lambda>_ r. set r \<subseteq> set obs0)"
    by (intro asks_if asks_multiinsts asks_ret) simp
  then show "goes n (seq (if length obs0 > 1 then process_multiinsts e p obs0 else ret obs0) (\<lambda>obs.
      seq (remove_obsoleted e a p obs) (\<lambda>lost.
        if lost = [] then ret ()
        else let caps = cr_uniq (iE e) (capreq_cmp_name_evr (iE e)) (cr_sort (iE e) (capreq_cmp_name_evr (iE e)) lost)
             in seq (get_orphaned e caps) (\<lambda>orphaned.
                each (i3_process_orphan proc e) (List.map_filter (\<lambda>p. orphan_new (iE e) p caps) orphaned)))))"
  proof (rule runs_bind)
    fix obs assume "set obs \<subseteq> set obs0"
    then have "recnos_ok (set obs)" using r by (auto simp: recnos_ok_def)
    then show "goes n (seq (remove_obsoleted e a p obs) (\<lambda>lost.
        if lost = [] then ret ()
        else let caps = cr_uniq (iE e) (capreq_cmp_name_evr (iE e)) (cr_sort (iE e) (capreq_cmp_name_evr (iE e)) lost)
             in seq (get_orphaned e caps) (\<lambda>orphaned.
                each (i3_process_orphan proc e) (List.map_filter (\<lambda>p. orphan_new (iE e) p caps) orphaned))))"
      unfolding Let_def
      by (intro goes_seq [OF goes_remove_obsoleted] runs_if goes_ret runs_then [OF calm_get_orphaned] goes_each goes_orphan assms)
  qed
qed

section \<open>Conflicts\<close>

lemma goes_clone: "(\<And>x. goes n (F x)) \<Longrightarrow> goes n (case v of Inr (Some x) \<Rightarrow> F x | _ \<Rightarrow> die)"
  by (cases v) (simp_all add: runs_die split: option.split)

lemma goes_resolve:
  assumes "proc_ok n proc"
  shows "goes n (resolve_conflict proc e p cnfl d)"
proof -
  have pick: "runs n (if direct then ret (True, t1, True, req)
               else seq (i3_find_req e p req) (\<lambda>(found, t2, cands).
                 let req2 = capreq_revrel cnfl req in
                 if \<not> found then seq (find_indirect_replacement e d cnfl) (\<lambda>(f3, t3). ret (f3, t3, True, req2))
                 else if t2 \<noteq> None \<and> o_askuser e \<and> length cands > 1
                 then seq (i3_choose_equiv e (Some p) (capreq_stra e req2) cands t2) (\<lambda>choice.
                   case choice of None \<Rightarrow> seq (i3_stop_processing True) (\<lambda>_. ret (False, None, False, req2))
                   | Some q \<Rightarrow> ret (True, Some q, False, req2))
                 else ret (True, t2, False, req2))) (\<lambda>(found, t, by, req). set_option t \<subseteq> U)"
    if "set_option t1 \<subseteq> U" for direct t1 req
  proof (rule runs_if)
    show "runs n (ret (True, t1, True, req)) (\<lambda>(found, t, by, req). set_option t \<subseteq> U)" using that by (simp add: runs_ret)
  next
    show "runs n (seq (i3_find_req e p req) (\<lambda>(found, t2, cands).
                 let req2 = capreq_revrel cnfl req in
                 if \<not> found then seq (find_indirect_replacement e d cnfl) (\<lambda>(f3, t3). ret (f3, t3, True, req2))
                 else if t2 \<noteq> None \<and> o_askuser e \<and> length cands > 1
                 then seq (i3_choose_equiv e (Some p) (capreq_stra e req2) cands t2) (\<lambda>choice.
                   case choice of None \<Rightarrow> seq (i3_stop_processing True) (\<lambda>_. ret (False, None, False, req2))
                   | Some q \<Rightarrow> ret (True, Some q, False, req2))
                 else ret (True, t2, False, req2))) (\<lambda>(found, t, by, req). set_option t \<subseteq> U)"
      unfolding Let_def
    proof (rule runs_bind [OF asks_find_req], rule runs_split, rule runs_split, rule runs_if)
      show "runs n (seq (find_indirect_replacement e d cnfl) (\<lambda>(f3, t3). ret (f3, t3, True, capreq_revrel cnfl req)))
          (\<lambda>(found, t, by, req). set_option t \<subseteq> U)"
        by (rule runs_bind [OF asks_indirect], rule runs_split, rule runs_ret) auto
    next
      fix c r found y t2 cands assume f: "found_ok p req c r" and r: "r = (found, y)" "y = (t2, cands)"
      note u = found_U [OF f [unfolded r]]
      have ch: "asks (i3_choose_equiv e (Some p) (capreq_stra e (capreq_revrel cnfl req)) cands t2) (\<lambda>_ r. set_option r \<subseteq> U)"
        by (rule asks_weaken [OF asks_choose]) (use u in blast)
      show "runs n (if t2 \<noteq> None \<and> o_askuser e \<and> length cands > 1
                 then seq (i3_choose_equiv e (Some p) (capreq_stra e (capreq_revrel cnfl req)) cands t2) (\<lambda>choice.
                   case choice of None \<Rightarrow> seq (i3_stop_processing True) (\<lambda>_. ret (False, None, False, capreq_revrel cnfl req))
                   | Some q \<Rightarrow> ret (True, Some q, False, capreq_revrel cnfl req))
                 else ret (True, t2, False, capreq_revrel cnfl req)) (\<lambda>(found, t, by, req). set_option t \<subseteq> U)"
        by (intro runs_if runs_bind [OF ch] runs_option goes_seq [OF goes_stop] runs_ret) (use u in auto)
    qed
  qed
  have rest: "goes n (seq (find_direct_replacement e d cnfl) (\<lambda>(direct, t1).
          seq (if direct then ret (True, t1, True, req)
               else seq (i3_find_req e p req) (\<lambda>(found, t2, cands).
                 let req2 = capreq_revrel cnfl req in
                 if \<not> found then seq (find_indirect_replacement e d cnfl) (\<lambda>(f3, t3). ret (f3, t3, True, req2))
                 else if t2 \<noteq> None \<and> o_askuser e \<and> length cands > 1
                 then seq (i3_choose_equiv e (Some p) (capreq_stra e req2) cands t2) (\<lambda>choice.
                   case choice of None \<Rightarrow> seq (i3_stop_processing True) (\<lambda>_. ret (False, None, False, req2))
                   | Some q \<Rightarrow> ret (True, Some q, False, req2))
                 else ret (True, t2, False, req2))) (\<lambda>(found, tomark, by_replacement, req').
            case (found, tomark) of
              (False, _) \<Rightarrow> ret False
            | (True, None) \<Rightarrow> ret True
            | (True, Some q) \<Rightarrow>
                if by_replacement \<or> pkg_obsoletes_pkg (iE e) q d
                then seq (i3pkg_new q 0 (Some (p, req', I3PKGBY_REQ))) (\<lambda>a. seq (proc a) (\<lambda>_. ret True))
                else ret False)))" for req
  proof (rule runs_bind [OF asks_direct], rule runs_split)
    fix r :: "bool \<times> pkg option" and direct t1 assume "case r of (b, q) \<Rightarrow> set_option q \<subseteq> U" "r = (direct, t1)"
    then have t1: "set_option t1 \<subseteq> U" by simp
    show "goes n (seq (if direct then ret (True, t1, True, req)
               else seq (i3_find_req e p req) (\<lambda>(found, t2, cands).
                 let req2 = capreq_revrel cnfl req in
                 if \<not> found then seq (find_indirect_replacement e d cnfl) (\<lambda>(f3, t3). ret (f3, t3, True, req2))
                 else if t2 \<noteq> None \<and> o_askuser e \<and> length cands > 1
                 then seq (i3_choose_equiv e (Some p) (capreq_stra e req2) cands t2) (\<lambda>choice.
                   case choice of None \<Rightarrow> seq (i3_stop_processing True) (\<lambda>_. ret (False, None, False, req2))
                   | Some q \<Rightarrow> ret (True, Some q, False, req2))
                 else ret (True, t2, False, req2))) (\<lambda>(found, tomark, by_replacement, req').
            case (found, tomark) of
              (False, _) \<Rightarrow> ret False
            | (True, None) \<Rightarrow> ret True
            | (True, Some q) \<Rightarrow>
                if by_replacement \<or> pkg_obsoletes_pkg (iE e) q d
                then seq (i3pkg_new q 0 (Some (p, req', I3PKGBY_REQ))) (\<lambda>a. seq (proc a) (\<lambda>_. ret True))
                else ret False))"
    proof (rule runs_seq [OF pick [OF t1]])
      fix x :: "bool \<times> pkg option \<times> bool \<times> capreq"
      assume x: "case x of (found, t, by, req) \<Rightarrow> set_option t \<subseteq> U"
      obtain found t by_replacement req' where "x = (found, t, by_replacement, req')" by (metis prod.exhaust)
      then show "goes n (case x of (found, tomark, by_replacement, req') \<Rightarrow>
            case (found, tomark) of
              (False, _) \<Rightarrow> ret False
            | (True, None) \<Rightarrow> ret True
            | (True, Some q) \<Rightarrow>
                if by_replacement \<or> pkg_obsoletes_pkg (iE e) q d
                then seq (i3pkg_new q 0 (Some (p, req', I3PKGBY_REQ))) (\<lambda>a. seq (proc a) (\<lambda>_. ret True))
                else ret False)"
        using x goes_proc [OF assms] by (cases found; cases t) (auto intro: goes_ret)
    qed
  qed
  show ?thesis
    unfolding resolve_conflict_def Let_def
    by (rule runs_if, rule goes_ret, rule goes_clone, rule rest [unfolded Let_def])
qed

lemma goes_settle: "proc_ok n proc \<Longrightarrow> goes n (settle_conflict proc e p cnfl d)"
  unfolding settle_conflict_def
  by (intro goes_seq [OF goes_resolve] runs_if goes_ret goes_seq [OF goes_error])

lemma goes_conflicts:
  assumes "proc_ok n proc"
  shows "goes n (i3_process_pkg_conflicts proc e a)"
proof -
  have 1: "goes n (find_db_conflicts_dbcnfl_with_cap proc e p cap)" for p cap
    unfolding find_db_conflicts_dbcnfl_with_cap_def
    by (intro runs_then [OF calm_db_search_staying] goes_tally runs_need runs_if goes_settle [OF assms] goes_ret)
  have 2: "goes n (find_db_conflicts_cnfl_with_db proc e p cap)" for p cap
    unfolding find_db_conflicts_cnfl_with_db_def Let_def
    by (intro runs_then [OF calm_db_search_staying] goes_tally runs_need runs_if goes_settle [OF assms] goes_ret)
  show ?thesis
    unfolding i3_process_pkg_conflicts_def
    by (intro runs_if goes_ret runs_then [OF calm_rd] runs_then [OF calm_conflicted] goes_seq goes_each runs_asrt goes_error 1 2)
qed

end

section \<open>Requirements\<close>

context i3_world
begin

text \<open>A package has been given up in between.\<close>

definition newly :: "('s, 'h) i3ctx \<Rightarrow> ('s, 'h) i3ctx \<Rightarrow> bool" where
  "newly c c' \<longleftrightarrow> (\<exists>q \<in> U. \<not> is_black c q \<and> is_black c' q)"

lemma newly_trans: "newly c c' \<Longrightarrow> adv c' c'' \<Longrightarrow> newly c c''" "adv c c' \<Longrightarrow> newly c' c'' \<Longrightarrow> newly c c''"
  unfolding newly_def using advD(2) by blast+

lemma newly_unclean: "newly c c' \<Longrightarrow> \<not> clean c'"
  by (auto simp: newly_def clean_def)

lemma crossroad_wp:
  assumes "inv c" "\<And>c'. inv c' \<Longrightarrow> adv c c' \<Longrightarrow> processed c' = processed c \<Longrightarrow> Q () c'"
  shows "wp (set_crossroad a cands) Q c"
proof -
  define fl where "fl = (let fl = i3_flags (i3at a c) AND NOT I3PKG_CROSSROAD in
      if length (filter (\<lambda>q. \<not> is_black c q) cands) > 1 then fl OR I3PKG_CROSSROAD else fl)"
  have "wp (i3upd a (\<lambda>x. x\<lparr>i3_flags := fl\<rparr>)) Q c"
    by (rule i3upd_wp [OF assms(1)]) (simp_all add: assms(2))
  then show ?thesis by (simp add: i3upd_def set_crossroad_def fl_def i3at_def)
qed

definition req_post :: "('s, 'h) i3ctx \<Rightarrow> pkg \<Rightarrow> capreq set \<Rightarrow> bool \<Rightarrow> bool \<Rightarrow> ('s, 'h) i3ctx \<Rightarrow> bool" where
  "req_post c p rs lost ok c' \<longleftrightarrow> inv c' \<and> adv c c' \<and> (lost \<longrightarrow> newly c c') \<and>
     (clean c' \<longrightarrow> ok \<and> (\<forall>r \<in> rs. plain_req r \<longrightarrow> met c' p r))"

lemma process_req_wp:
  assumes P: "proc_ok n proc" and c: "inv c" "room n c"
  shows "wp (i3_process_req proc e a req) (\<lambda>rc c'. req_post c (pk a c) {req} (rc < 0) (0 < rc) c') c"
    (is "wp _ ?Q c")
  unfolding i3_process_req_def wp_seq wp_rd i3at_def
proof (rule wp_if)
  let ?p = "pk a c"
  assume "capreq_is_rpmlib req \<and> pm_satisfies (iP e) req"
  then show "wp (ret 1) ?Q c" using c by (simp add: req_post_def met_def)
next
  let ?p = "pk a c"
  have bad: "?Q rc c'" if "inv c'" "adv c c'" "\<not> clean c'" "0 \<le> rc" for rc c' using that by (simp add: req_post_def)
  show "wp (seq (i3_pkgdb_match_req e req) (\<lambda>b. if b then ret 1 else seq (i3_find_req e ?p req) (\<lambda>(found, tomark, cands).
       case tomark of
         None \<Rightarrow> if found then ret 1 else seq (i3_error ?p I3ERR_NOTFOUND) (\<lambda>_. ret 0)
       | Some t \<Rightarrow>
           if \<not> o_follow e then seq (i3_error ?p I3ERR_NOTFOUND) (\<lambda>_. ret 0)
           else seq (if o_askuser e \<and> cands \<noteq> [] then i3_choose_equiv e (Some ?p) (capreq_stra e req) cands (Some t)
                     else ret (Some t)) (\<lambda>choice.
             case choice of
               None \<Rightarrow> seq (i3_stop_processing True) (\<lambda>_. ret 0)
             | Some q \<Rightarrow>
                 seq (set_crossroad a cands) (\<lambda>_.
                 seq (rd (\<lambda>c. i3_flags (i3heap c ! a))) (\<lambda>fl.
                 seq (i3pkg_new q (if fl AND I3PKG_BACKTRACKABLE \<noteq> 0 then I3PKG_CROSSROAD_INDIR else 0)
                        (Some (?p, req, I3PKGBY_REQ))) proc)))))) ?Q c"
    unfolding wp_seq [of "i3_pkgdb_match_req e req"]
  proof (rule asks_go [OF asks_db_match c(1)], rule wp_if)
    fix b c1 assume 1: "inv c1" "adv c c1" "b \<and> plain_req req \<longrightarrow> in_db req" "b"
    then show "wp (ret 1) ?Q c1" by (simp add: req_post_def met_def)
  next
    fix b c1 assume 1: "inv c1" "adv c c1"
    have r1: "room n c1" using c(2) room_adv [OF 1(2)] by simp
    show "wp (seq (i3_find_req e ?p req) (\<lambda>(found, tomark, cands).
       case tomark of
         None \<Rightarrow> if found then ret 1 else seq (i3_error ?p I3ERR_NOTFOUND) (\<lambda>_. ret 0)
       | Some t \<Rightarrow>
           if \<not> o_follow e then seq (i3_error ?p I3ERR_NOTFOUND) (\<lambda>_. ret 0)
           else seq (if o_askuser e \<and> cands \<noteq> [] then i3_choose_equiv e (Some ?p) (capreq_stra e req) cands (Some t)
                     else ret (Some t)) (\<lambda>choice.
             case choice of
               None \<Rightarrow> seq (i3_stop_processing True) (\<lambda>_. ret 0)
             | Some q \<Rightarrow>
                 seq (set_crossroad a cands) (\<lambda>_.
                 seq (rd (\<lambda>c. i3_flags (i3heap c ! a))) (\<lambda>fl.
                 seq (i3pkg_new q (if fl AND I3PKG_BACKTRACKABLE \<noteq> 0 then I3PKG_CROSSROAD_INDIR else 0)
                        (Some (?p, req, I3PKGBY_REQ))) proc))))) ?Q c1"
      unfolding wp_seq [of "i3_find_req e ?p req"]
    proof (rule asks_go [OF asks_find_req 1(1)], clarify, rule wp_option)
      fix found tomark cands c2 assume 2: "inv c2" "adv c1 c2" "quiet c1 c2"
        and f: "found_ok ?p req c1 (found, tomark, cands)"
      have a2: "adv c c2" using 1(2) 2(2) by (rule adv_trans)
      have r2: "room n c2" using r1 room_adv [OF 2(2)] by simp
      have err: "wp (seq (i3_error ?p I3ERR_NOTFOUND) (\<lambda>_. ret 0)) ?Q c2"
        unfolding wp_seq
        by (rule error_wp [OF 2(1)], unfold wp_ret, intro bad adv_trans [OF a2]) simp_all
      show "wp (if found then ret 1 else seq (i3_error ?p I3ERR_NOTFOUND) (\<lambda>_. ret 0)) ?Q c2" if "tomark = None"
      proof (rule wp_if [OF _ err])
        assume "found"
        then have "met c2 ?p req" if "plain_req req"
          using f that \<open>tomark = None\<close> quiet_same(5) [OF 2(3)] unfolding found_ok_def met_def by auto
        then show "wp (ret 1) ?Q c2" using 2(1) a2 by (simp add: req_post_def)
      qed
      fix t assume t: "tomark = Some t"
      have ch: "asks (if o_askuser e \<and> cands \<noteq> [] then i3_choose_equiv e (Some ?p) (capreq_stra e req) cands (Some t)
          else ret (Some t)) (\<lambda>_ r. set_option r \<subseteq> set cands \<union> {t})"
        by (rule asks_if, rule asks_weaken [OF asks_choose]) (auto intro: asks_ret)
      show "wp (if \<not> o_follow e then seq (i3_error ?p I3ERR_NOTFOUND) (\<lambda>_. ret 0)
           else seq (if o_askuser e \<and> cands \<noteq> [] then i3_choose_equiv e (Some ?p) (capreq_stra e req) cands (Some t)
                     else ret (Some t)) (\<lambda>choice.
             case choice of
               None \<Rightarrow> seq (i3_stop_processing True) (\<lambda>_. ret 0)
             | Some q \<Rightarrow>
                 seq (set_crossroad a cands) (\<lambda>_.
                 seq (rd (\<lambda>c. i3_flags (i3heap c ! a))) (\<lambda>fl.
                 seq (i3pkg_new q (if fl AND I3PKG_BACKTRACKABLE \<noteq> 0 then I3PKG_CROSSROAD_INDIR else 0)
                        (Some (?p, req, I3PKGBY_REQ))) proc)))) ?Q c2"
      proof (rule wp_if [OF err], unfold wp_seq [of "if b then _ else _" for b], rule asks_go [OF ch 2(1)], rule wp_option)
        fix choice c3 assume 3: "inv c3" "adv c2 c3"
        show "wp (seq (i3_stop_processing True) (\<lambda>_. ret 0)) ?Q c3"
          unfolding wp_seq
          by (rule stop_wp [OF 3(1)], unfold wp_ret, intro bad adv_trans [OF adv_trans [OF a2 3(2)]]) simp_all
      next
        fix choice c3 q assume 3: "inv c3" "adv c2 c3" "quiet c2 c3" and q: "set_option choice \<subseteq> set cands \<union> {t}" "choice = Some q"
        have qc: "q \<in> U" "\<not> is_black c1 q" "plain_req req \<longrightarrow> fits req q" using f t q by (auto simp: found_ok_def)
        have nb: "\<not> is_black c3 q" using qc(2) quiet_same(3) [OF 2(3)] quiet_same(3) [OF 3(3)] by simp
        have a3: "adv c c3" using a2 3(2) by (rule adv_trans)
        show "wp (seq (set_crossroad a cands) (\<lambda>_.
                 seq (rd (\<lambda>c. i3_flags (i3heap c ! a))) (\<lambda>fl.
                 seq (i3pkg_new q (if fl AND I3PKG_BACKTRACKABLE \<noteq> 0 then I3PKG_CROSSROAD_INDIR else 0)
                        (Some (?p, req, I3PKGBY_REQ))) proc))) ?Q c3"
          unfolding wp_seq [of "set_crossroad a cands"] wp_seq [of "rd f" for f] wp_rd
        proof (rule crossroad_wp [OF 3(1)], rule proc_wp [OF P])
          fix c4 assume 4: "inv c4" "adv c3 c4" "processed c4 = processed c3"
          show "inv c4" by (rule 4)
          have a4: "adv c c4" using a3 4(2) by (rule adv_trans)
          then show "room n c4" using c(2) room_adv by blast
          show "q \<in> U" by (rule qc)
          fix rc :: int and c5 assume 5: "inv c5" "adv c4 c5" "rc < 0 \<Longrightarrow> is_black c5 q" "clean c5 \<Longrightarrow> 0 < rc \<and> i3_is_marked c5 q"
          have a5: "adv c c5" using a4 5(2) by (rule adv_trans)
          have "newly c c5" if "rc < 0"
          proof -
            have "newly c4 c5" using qc(1) nb 4(3) 5(3) [OF that] by (auto simp: newly_def)
            then show ?thesis by (rule newly_trans(2) [OF a4])
          qed
          moreover have "met c5 ?p req" if "clean c5" "plain_req req"
            using qc 5(4) [OF that(1)] that(2) by (auto simp: met_def)
          ultimately show "?Q rc c5" using 5(1,4) a5 by (simp add: req_post_def)
        qed
      qed
    qed
  qed
qed

end

section \<open>All requirements of a package\<close>

context i3_world
begin

lemma req_post_trans:
  assumes "req_post c p rs lost ok c'" "req_post c' p rs' lost' ok' c''"
  shows "req_post c p (rs \<union> rs') (lost \<or> lost') (ok \<and> ok') c''"
  using assms adv_trans newly_trans advD(3) met_adv unfolding req_post_def by (smt (verit, best) Un_iff)

lemma req_post_mono:
  "req_post c p rs lost ok c' \<Longrightarrow> {r \<in> rs'. plain_req r} \<subseteq> rs \<Longrightarrow> (lost' \<Longrightarrow> lost) \<Longrightarrow> (ok \<Longrightarrow> clean c' \<Longrightarrow> ok') \<Longrightarrow>
    req_post c p rs' lost' ok' c'"
  unfolding req_post_def by blast

lemma req_postD: "req_post c p rs lost ok c' \<Longrightarrow> inv c'" "req_post c p rs lost ok c' \<Longrightarrow> adv c c'"
  by (simp_all add: req_post_def)

lemma try_reqs_wp:
  assumes P: "proc_ok n proc"
  shows "inv c \<Longrightarrow> room n c \<Longrightarrow> a < length (i3heap c) \<Longrightarrow> wp (try_reqs proc e a (nerr, bt) rs)
    (\<lambda>((nerr', bt'), left) c'. req_post c (pk a c) (set rs) (bt' \<and> \<not> bt) (nerr' = nerr \<and> \<not> left) c') c"
proof (induction rs arbitrary: c nerr bt)
  case Nil
  then show ?case by (simp add: req_post_def)
next
  case (Cons r rs)
  show ?case
    unfolding try_reqs.simps wp_seq [of "i3_process_req proc e a r"]
  proof (rule wp_mono [OF process_req_wp [OF P Cons.prems(1,2)]])
    fix rc :: int and c1 assume 1: "req_post c (pk a c) {r} (rc < 0) (0 < rc) c1"
    note i = req_postD [OF 1]
    have h: "room n c1" "a < length (i3heap c1)" "pk a c1 = pk a c"
      using adv_pk [OF i(2) Cons.prems(3)] Cons.prems(2) room_adv [OF i(2)] by auto
    have rest: "wp (try_reqs proc e a (nerr1, bt1) rs)
        (\<lambda>((nerr', bt'), left) c'. req_post c (pk a c) (set (r # rs)) (bt' \<and> \<not> bt) (nerr' = nerr \<and> \<not> left) c') c1"
      if k: "0 < rc \<longrightarrow> nerr1 = nerr" "bt1 \<longrightarrow> bt \<or> rc < 0" for nerr1 bt1
    proof (rule wp_mono [OF Cons.IH [OF i(1) h(1,2)]], clarify)
      fix nerr' bt' left c2 assume 2: "req_post c1 (pk a c1) (set rs) (bt' \<and> \<not> bt1) (nerr' = nerr1 \<and> \<not> left) c2"
      show "req_post c (pk a c) (set (r # rs)) (bt' \<and> \<not> bt) (nerr' = nerr \<and> \<not> left) c2"
        by (rule req_post_mono [OF req_post_trans [OF 1 2 [unfolded h(3)]]]) (use k in auto)
    qed
    have left: "req_post c (pk a c) (set (r # rs)) (True \<and> \<not> bt) (nerr + 1 = nerr \<and> \<not> True) c1" if "rc < 0"
      using 1 that newly_unclean unfolding req_post_def by blast
    show "wp (if rc > 0 then try_reqs proc e a (nerr, bt) rs
       else if rc = 0 then try_reqs proc e a (nerr + 1, bt) rs
       else seq (rd (\<lambda>c. i3_flags (i3at a c))) (\<lambda>fl.
         if fl AND I3PKG_BACKTRACKABLE \<noteq> 0 then ret ((nerr + 1, True), True)
         else try_reqs proc e a (nerr + 1, True) rs))
       (\<lambda>((nerr', bt'), left) c'. req_post c (pk a c) (set (r # rs)) (bt' \<and> \<not> bt) (nerr' = nerr \<and> \<not> left) c') c1"
    proof (rule wp_if, rule rest, simp, simp, rule wp_if, rule rest, simp, simp, unfold wp_seq wp_rd, rule wp_if)
      assume "\<not> 0 < rc" "rc \<noteq> 0"
      then have rc: "rc < 0" by simp
      show "wp (ret ((nerr + 1, True), True)) (\<lambda>((nerr', bt'), left) c'.
          req_post c (pk a c) (set (r # rs)) (bt' \<and> \<not> bt) (nerr' = nerr \<and> \<not> left) c') c1"
        unfolding wp_ret case_prod_conv by (rule left [OF rc])
      show "wp (try_reqs proc e a (nerr + 1, True) rs) (\<lambda>((nerr', bt'), left) c'.
          req_post c (pk a c) (set (r # rs)) (bt' \<and> \<not> bt) (nerr' = nerr \<and> \<not> left) c') c1"
        by (rule rest) (use rc in auto)
    qed
  qed
qed

lemma iter_reqs_wp:
  assumes P: "proc_ok n proc"
  shows "inv c \<Longrightarrow> room n c \<Longrightarrow> a < length (i3heap c) \<Longrightarrow> wp (iter_reqs proc e a p (nerr, bt) rs)
    (\<lambda>(nerr', bt') c'. req_post c (pk a c) {r \<in> set rs. \<not> req_is_boolean e r} (bt' \<and> \<not> bt) (nerr' = nerr) c') c"
proof (induction rs arbitrary: c nerr bt)
  case Nil
  then show ?case by (simp add: req_post_def)
next
  case (Cons r rs)
  show ?case
    unfolding iter_reqs.simps wp_seq
  proof (rule asks_go [OF asks_req_iter Cons.prems(1)])
    fix bs c1 assume 1: "inv c1" "adv c c1" "\<not> req_is_boolean e r \<longrightarrow> bs = [r]"
    have h1: "room n c1" "a < length (i3heap c1)" "pk a c1 = pk a c"
      using adv_pk [OF 1(2) Cons.prems(3)] Cons.prems(2) room_adv [OF 1(2)] by auto
    have p1: "req_post c (pk a c) {} False True c1" using 1 by (simp add: req_post_def)
    show "wp (try_reqs proc e a (nerr, bt) bs) (\<lambda>x. wp (case x of (st', left) \<Rightarrow> if left then ret st' else iter_reqs proc e a p st' rs)
        (\<lambda>(nerr', bt') c'. req_post c (pk a c) {r' \<in> set (r # rs). \<not> req_is_boolean e r'} (bt' \<and> \<not> bt) (nerr' = nerr) c')) c1"
    proof (rule wp_mono [OF try_reqs_wp [OF P 1(1) h1(1,2)]], clarify)
      fix nerr1 bt1 left c2
      assume "req_post c1 (pk a c1) (set bs) (bt1 \<and> \<not> bt) (nerr1 = nerr \<and> \<not> left) c2"
      then have 2: "req_post c (pk a c) (set bs) (bt1 \<and> \<not> bt) (nerr1 = nerr \<and> \<not> left) c2"
        using req_post_trans [OF p1] h1(3) by fastforce
      note i = req_postD [OF 2]
      have h: "room n c2" "a < length (i3heap c2)" "pk a c2 = pk a c"
        using adv_pk [OF i(2) Cons.prems(3)] Cons.prems(2) room_adv [OF i(2)] by auto
      have "req_post c (pk a c) {r' \<in> set (r # rs). \<not> req_is_boolean e r'} (bt1 \<and> \<not> bt) (nerr1 = nerr) c2" if left
        using 2 that unfolding req_post_def by blast
      moreover have "wp (iter_reqs proc e a p (nerr1, bt1) rs)
        (\<lambda>(nerr', bt') c'. req_post c (pk a c) {r' \<in> set (r # rs). \<not> req_is_boolean e r'} (bt' \<and> \<not> bt) (nerr' = nerr) c') c2"
        if "\<not> left"
      proof (rule wp_mono [OF Cons.IH [OF i(1) h(1,2)]], clarify)
        fix nerr2 bt2 c3
        assume 3: "req_post c2 (pk a c2) {r \<in> set rs. \<not> req_is_boolean e r} (bt2 \<and> \<not> bt1) (nerr2 = nerr1) c3"
        show "req_post c (pk a c) {r' \<in> set (r # rs). \<not> req_is_boolean e r'} (bt2 \<and> \<not> bt) (nerr2 = nerr) c3"
          by (rule req_post_mono [OF req_post_trans [OF 2 3 [unfolded h(3)]]]) (use 1(3) in auto)
      qed
      ultimately show "wp (if left then ret (nerr1, bt1) else iter_reqs proc e a p (nerr1, bt1) rs)
        (\<lambda>(nerr', bt') c'. req_post c (pk a c) {r' \<in> set (r # rs). \<not> req_is_boolean e r'} (bt' \<and> \<not> bt) (nerr' = nerr) c') c2"
        by (intro wp_if) simp_all
    qed
  qed
qed

lemma stopped_wp:
  assumes "inv c" "\<And>b c'. inv c' \<Longrightarrow> adv c c' \<Longrightarrow> quiet c c' \<Longrightarrow> (b \<Longrightarrow> \<not> clean c') \<Longrightarrow> Q b c'"
  shows "wp stopped Q c"
proof -
  define c1 where "c1 = c\<lparr>signal_in := map_option (\<lambda>n. n - 1) (signal_in c)\<rparr>"
  have r: "ready c1" "quiet c c1" using invD(1) [OF assms(1)] by (auto simp: c1_def ready_def quiet_def)
  note i = quiet_inv [OF assms(1) r]
  have "Q True c1" if "signal_in c = Some 0 \<or> i3abort c"
    by (rule assms(2) [OF i r(2)]) (use that in \<open>auto simp: c1_def clean_def\<close>)
  moreover have "Q False c1" by (rule assms(2) [OF i r(2)]) simp
  ultimately show ?thesis
    by (cases "i3abort c") (auto simp: stopped_def sigint_reached_def c1_def)
qed

lemma newly_card:
  assumes "ready c" "adv c c'" "newly c c'"
  shows "card {p \<in> U. \<not> is_black c' p} < card {p \<in> U. \<not> is_black c p}"
proof (rule psubset_card_mono)
  show "finite {p \<in> U. \<not> is_black c p}" using finite_U [OF assms(1)] by simp
  show "{p \<in> U. \<not> is_black c' p} \<subset> {p \<in> U. \<not> is_black c p}"
    using assms(3) advD(2) [OF assms(2)] unfolding newly_def by blast
qed

lemma requirements_wp:
  assumes P: "proc_ok n proc"
  shows "inv c \<Longrightarrow> room n c \<Longrightarrow> a < length (i3heap c) \<Longrightarrow> card {p \<in> U. \<not> is_black c p} < k \<Longrightarrow>
    wp (i3_process_pkg_requirements proc e k a)
      (\<lambda>b c'. inv c' \<and> adv c c' \<and> (clean c' \<longrightarrow> b \<and> served c' (pk a c))) c"
proof (induction k arbitrary: c)
  case (Suc k)
  let ?p = "pk a c" and ?rs = "map fst (pkg_req_iter (iD e) (pk a c) [] PKG_ITER_REQIN)"
  let ?Q = "\<lambda>b c'. inv c' \<and> adv c c' \<and> (clean c' \<longrightarrow> b \<and> served c' ?p)"
  let ?W = "{r \<in> set ?rs. \<not> req_is_boolean e r}"
  have carry: "room n c' \<and> a < length (i3heap c') \<and> pk a c' = ?p" if "adv c c'" for c'
    using adv_pk [OF that Suc.prems(3)] Suc.prems(2) room_adv [OF that] by auto
  have fin: "wp (seq (rd (\<lambda>c. i3_flags (i3at a c))) (\<lambda>fl.
         if bt' \<and> fl AND I3PKG_CROSSROAD \<noteq> 0 then i3_process_pkg_requirements proc e k a
         else ret (nerr' = 0))) ?Q c'"
    if r: "req_post c ?p ?W bt' (nerr' = 0) c'" for nerr' :: nat and bt' c'
    unfolding wp_seq wp_rd
  proof (rule wp_if)
    note i = req_postD [OF r]
    assume "bt' \<and> i3_flags (i3at a c') AND I3PKG_CROSSROAD \<noteq> 0"
    then have "newly c c'" using r by (simp add: req_post_def)
    then have "card {p \<in> U. \<not> is_black c' p} < k" using newly_card [OF invD(1) [OF Suc.prems(1)] i(2)] Suc.prems(4) by simp
    then have "wp (i3_process_pkg_requirements proc e k a)
      (\<lambda>b c''. inv c'' \<and> adv c' c'' \<and> (clean c'' \<longrightarrow> b \<and> served c'' (pk a c'))) c'"
      using Suc.IH [OF i(1)] carry [OF i(2)] by blast
    then show "wp (i3_process_pkg_requirements proc e k a) ?Q c'"
      by (rule wp_mono) (use carry [OF i(2)] adv_trans [OF i(2)] in force)
  next
    show "wp (ret (nerr' = 0)) ?Q c'" using r by (auto simp: req_post_def served_def wanted_def)
  qed
  show ?case
    unfolding i3_process_pkg_requirements.simps wp_seq [of "rd f" for f] wp_rd wp_asrt i3at_def
  proof (intro impI, unfold wp_seq [of stopped], rule stopped_wp [OF Suc.prems(1)], rule wp_if)
    fix b c1 assume "inv c1" "adv c c1" "b \<Longrightarrow> \<not> clean c1" "b"
    then show "wp (ret False) ?Q c1" by simp
  next
    fix b c1 assume 1: "inv c1" "adv c c1"
    have p1: "req_post c ?p {} False True c1" using 1 by (simp add: req_post_def)
    show "wp (seq (iter_reqs proc e a ?p (0, False) ?rs) (\<lambda>(nerr, bt).
       seq (if o_suggests e \<and> o_follow e \<and> nerr = 0
            then seq (with_suggests e ?p) (\<lambda>ss. seq (try_reqs proc e a (nerr, bt) ss) (\<lambda>(st, _). ret st))
            else ret (nerr, bt)) (\<lambda>(nerr', bt').
       seq (rd (\<lambda>c. i3_flags (i3heap c ! a))) (\<lambda>fl.
         if bt' \<and> fl AND I3PKG_CROSSROAD \<noteq> 0 then i3_process_pkg_requirements proc e k a
         else ret (nerr' = 0))))) ?Q c1"
      unfolding wp_seq [of "iter_reqs proc e a ?p (0, False) ?rs"]
    proof (rule wp_mono [OF iter_reqs_wp [OF P 1(1)]], use carry [OF 1(2)] in blast, use carry [OF 1(2)] in blast, clarify)
      fix nerr :: nat and bt c2
      assume "req_post c1 (pk a c1) ?W (bt \<and> \<not> False) (nerr = 0) c2"
      then have 2: "req_post c ?p ?W bt (nerr = 0) c2"
        using req_post_trans [OF p1] carry [OF 1(2)] by fastforce
      note i = req_postD [OF 2]
      note fin' = fin [unfolded i3at_def]
      show "wp (seq (if o_suggests e \<and> o_follow e \<and> nerr = 0
            then seq (with_suggests e ?p) (\<lambda>ss. seq (try_reqs proc e a (nerr, bt) ss) (\<lambda>(st, _). ret st))
            else ret (nerr, bt)) (\<lambda>(nerr', bt').
       seq (rd (\<lambda>c. i3_flags (i3heap c ! a))) (\<lambda>fl.
         if bt' \<and> fl AND I3PKG_CROSSROAD \<noteq> 0 then i3_process_pkg_requirements proc e k a
         else ret (nerr' = 0)))) ?Q c2"
        unfolding wp_seq [of "if b then _ else _" for b]
      proof (rule wp_if)
        show "wp (ret (nerr, bt)) (\<lambda>x. wp (case x of (nerr', bt') \<Rightarrow> seq (rd (\<lambda>c. i3_flags (i3heap c ! a))) (\<lambda>fl.
           if bt' \<and> fl AND I3PKG_CROSSROAD \<noteq> 0 then i3_process_pkg_requirements proc e k a
           else ret (nerr' = 0))) ?Q) c2"
          unfolding wp_ret case_prod_conv by (rule fin' [OF 2])
      next
        show "wp (seq (with_suggests e ?p) (\<lambda>ss. seq (try_reqs proc e a (nerr, bt) ss) (\<lambda>(st, _). ret st)))
          (\<lambda>x. wp (case x of (nerr', bt') \<Rightarrow> seq (rd (\<lambda>c. i3_flags (i3heap c ! a))) (\<lambda>fl.
           if bt' \<and> fl AND I3PKG_CROSSROAD \<noteq> 0 then i3_process_pkg_requirements proc e k a
           else ret (nerr' = 0))) ?Q) c2"
          unfolding wp_seq [of "with_suggests e ?p"]
        proof (rule asks_go [OF calm_with_suggests i(1)])
          fix ss c3 assume 3: "inv c3" "adv c2 c3"
          have a3: "adv c c3" using i(2) 3(2) by (rule adv_trans)
          have p3: "req_post c2 ?p {} False True c3" using 3 by (simp add: req_post_def)
          show "wp (seq (try_reqs proc e a (nerr, bt) ss) (\<lambda>(st, _). ret st))
            (\<lambda>x. wp (case x of (nerr', bt') \<Rightarrow> seq (rd (\<lambda>c. i3_flags (i3heap c ! a))) (\<lambda>fl.
             if bt' \<and> fl AND I3PKG_CROSSROAD \<noteq> 0 then i3_process_pkg_requirements proc e k a
             else ret (nerr' = 0))) ?Q) c3"
            unfolding wp_seq [of "try_reqs proc e a (nerr, bt) ss"]
          proof (rule wp_mono [OF try_reqs_wp [OF P 3(1)]], use carry [OF a3] in blast, use carry [OF a3] in blast, clarify)
            fix nerr' bt' left c4
            assume "req_post c3 (pk a c3) (set ss) (bt' \<and> \<not> bt) (nerr' = nerr \<and> \<not> left) c4"
            then have 4: "req_post c3 ?p (set ss) (bt' \<and> \<not> bt) (nerr' = nerr \<and> \<not> left) c4" using carry [OF a3] by simp
            have "req_post c ?p ?W bt' (nerr' = 0) c4"
              by (rule req_post_mono [OF req_post_trans [OF req_post_trans [OF 2 p3] 4]]) auto
            then show "wp (ret (nerr', bt')) (\<lambda>x. wp (case x of (nerr', bt') \<Rightarrow> seq (rd (\<lambda>c. i3_flags (i3heap c ! a))) (\<lambda>fl.
             if bt' \<and> fl AND I3PKG_CROSSROAD \<noteq> 0 then i3_process_pkg_requirements proc e k a
             else ret (nerr' = 0))) ?Q) c4"
              unfolding wp_ret case_prod_conv by (rule fin')
          qed
        qed
      qed
    qed
  qed
qed simp

end

section \<open>Giving a package up\<close>

lemma iset_remove_sub:
  assumes "sorted_arrays (pk_sort P) (pk_bsearch P)" "iset_remove E P R is p = Some (b, is')"
  shows "set (is_pkgs is') \<subseteq> set (is_pkgs is)" "set (is_by_recno is') \<subseteq> set (is_pkgs is) \<union> set (is_by_recno is)"
proof -
  obtain i pkgs where d: "dir_find E P R (is_pkgs is) p = (i, pkgs)" by fastforce
  have s: "set pkgs = set (is_pkgs is)"
    using d sorted_arrays.set_nsort [OF assms(1)] by (auto simp: dir_find_def ps_find_def Let_def split: if_splits)
  have "set (take (nat i) pkgs @ drop (nat i + 1) pkgs) \<subseteq> set pkgs"
    by (auto dest: in_set_takeD in_set_dropD)
  then show "set (is_pkgs is') \<subseteq> set (is_pkgs is)" "set (is_by_recno is') \<subseteq> set (is_pkgs is) \<union> set (is_by_recno is)"
    using assms(2) d s by (auto simp: iset_remove_def Let_def n_assert_def split: if_splits)
qed

lemma wp_each:
  "(\<And>x c. x \<in> set xs \<Longrightarrow> I c \<Longrightarrow> wp (f x) (\<lambda>_. I) c) \<Longrightarrow> I c \<Longrightarrow> wp (each f xs) (\<lambda>_. I) c"
proof (induction xs arbitrary: c)
  case (Cons x xs)
  have "wp (f x) (\<lambda>_. I) c" using Cons.prems by simp
  then show ?case unfolding each.simps wp_seq by (rule wp_mono) (use Cons in auto)
qed simp

context i3_world
begin

text \<open>What giving up packages leaves: all but gray marks of the packages at addresses \<open>D\<close>.\<close>

definition undo :: "nat set \<Rightarrow> ('s, 'h) i3ctx \<Rightarrow> ('s, 'h) i3ctx \<Rightarrow> bool" where
  "undo D c c' \<longleftrightarrow> ready c' \<and> i3heap c' = i3heap c \<and> i3stack c' = i3stack c \<and> by_ptr (processed c') \<and>
     (\<forall>p. is_black c' p = is_black c p) \<and> (\<forall>p. is_gray c p \<and> addr p \<notin> D \<longrightarrow> is_gray c' p)"

lemma undo_trans: "undo D c c' \<Longrightarrow> undo D' c' c'' \<Longrightarrow> D' \<subseteq> D \<Longrightarrow> undo D c c''"
  unfolding undo_def by (metis subsetD)

definition below :: "i3pkg list \<Rightarrow> nat \<Rightarrow> nat set" where
  "below hp a = (\<lambda>j. addr (i3_pkg (hp ! j))) ` {j. (a, j) \<in> (edges hp)\<^sup>*}"

lemma undo_inset:
  assumes "undo D c0 c"
  shows "wp (iset_remove_op e inset (\<lambda>is c. c\<lparr>inset := is\<rparr>) p) (\<lambda>_. undo D c0) c"
  using assms by (auto simp: iset_remove_op_def undo_def ready_def)

lemma undo_unset:
  assumes "undo D c0 c"
  shows "wp (iset_remove_op e unset (\<lambda>is c. c\<lparr>unset := is\<rparr>) p) (\<lambda>_. undo D c0) c"
proof -
  have "ready (c\<lparr>unset := is'\<rparr>)" if "iset_remove (iE e) (iP e) (iR e) (unset c) p = Some (b, is')" for b is'
    using assms iset_remove_sub [OF pk_arrays that] unfolding undo_def ready_def recnos_ok_def by auto
  then show ?thesis using assms by (auto simp: iset_remove_op_def undo_def)
qed

lemma undo_forget: "undo D c0 c \<Longrightarrow> wp (i3_forget_error p) (\<lambda>_. undo D c0) c"
  by (simp add: i3_forget_error_def undo_def ready_def)

lemma undo_gray:
  assumes "undo D c0 c" "addr p \<in> D"
  shows "wp (upd (\<lambda>c. c\<lparr>processed := pkgmark_set (processed c) p False PKGMARK_GRAY\<rparr>)) (\<lambda>_. undo D c0) c"
proof -
  have "package_id (processed c) q \<noteq> package_id (processed c) p" if "addr q \<notin> D" for q
    using assms that by (auto simp: undo_def by_ptr_id dest: hex_inj)
  then show ?thesis using assms by (auto simp: undo_def ready_def isset_clear)
qed

lemma rollback_wp:
  "tree (i3heap c) s \<Longrightarrow> ready c \<Longrightarrow> by_ptr (processed c) \<Longrightarrow> a < length (i3heap c) \<Longrightarrow> length (i3heap c) < n + a \<Longrightarrow>
   wp (rollback_package e n a) (\<lambda>_. undo (below (i3heap c) a) c) c"
proof (induction n arbitrary: a c)
  case (Suc n)
  let ?hp = "i3heap c" and ?x = "i3heap c ! a"
  let ?I = "undo (below (i3heap c) a) c"
  have start: "?I c" using Suc.prems(2,3) by (simp add: undo_def)
  have pa: "addr (i3_pkg ?x) \<in> below ?hp a" by (auto simp: below_def)
  have each: "wp (each (rollback_package e n) (i3_markedby ?x)) (\<lambda>_. ?I) c'" if "?I c'" for c'
  proof (rule wp_each [where I = ?I])
    show "?I c'" by (rule that)
    fix j c1 assume j: "j \<in> set (i3_markedby ?x)" and u: "?I c1"
    have ed: "(a, j) \<in> edges ?hp" using j Suc.prems(4) by (simp add: edges_def)
    have sub: "below ?hp j \<subseteq> below ?hp a" using ed by (auto simp: below_def intro: converse_rtrancl_into_rtrancl)
    have h: "i3heap c1 = ?hp" "ready c1" "by_ptr (processed c1)" using u by (simp_all add: undo_def)
    have "wp (rollback_package e n j) (\<lambda>_. undo (below (i3heap c1) j) c1) c1"
      by (rule Suc.IH) (use h Suc.prems treeD(1,2) [OF Suc.prems(1) ed] in auto)
    then show "wp (rollback_package e n j) (\<lambda>_. ?I) c1"
      by (rule wp_mono) (use undo_trans [OF u _ sub] h(1) in auto)
  qed
  have obs: "wp (each (\<lambda>d. seq (iset_remove_op e unset (\<lambda>is c. c\<lparr>unset := is\<rparr>) d) (\<lambda>_. i3_forget_error d)) ds) (\<lambda>_. ?I) c'"
    if "?I c'" for ds c'
  proof (rule wp_each [where I = ?I])
    show "?I c'" by (rule that)
    fix d c1 assume "?I c1"
    then show "wp (seq (iset_remove_op e unset (\<lambda>is c. c\<lparr>unset := is\<rparr>) d) (\<lambda>_. i3_forget_error d)) (\<lambda>_. ?I) c1"
      unfolding wp_seq by (intro wp_mono [OF undo_unset] undo_forget)
  qed
  show ?case
    unfolding rollback_package.simps wp_seq_fun wp_rd i3at_def Let_def
  proof (rule wp_if, simp add: start, unfold wp_seq_fun)
    show "wp (iset_remove_op e inset (\<lambda>is c. c\<lparr>inset := is\<rparr>) (i3_pkg ?x)) (\<lambda>_. wp (i3_forget_error (i3_pkg ?x))
      (\<lambda>_. wp (each (\<lambda>d. seq (iset_remove_op e unset (\<lambda>is c. c\<lparr>unset := is\<rparr>) d) (\<lambda>_. i3_forget_error d)) (i3_obsoletedby ?x))
      (\<lambda>_. wp (upd (\<lambda>c. c\<lparr>processed := pkgmark_set (processed c) (i3_pkg ?x) False PKGMARK_GRAY\<rparr>))
      (\<lambda>_. wp (each (rollback_package e n) (i3_markedby ?x)) (\<lambda>_. ?I))))) c"
      by (rule wp_mono [OF undo_inset [OF start]], rule wp_mono [OF undo_forget], assumption,
        rule wp_mono [OF obs], assumption, rule wp_mono [OF undo_gray [OF _ pa]], assumption, erule each)
  qed
qed simp

section \<open>Processing a package\<close>

definition fresh :: "nat \<Rightarrow> ('s, 'h) i3ctx \<Rightarrow> bool" where
  "fresh a c \<longleftrightarrow> Suc a = length (i3heap c) \<and> i3_markedby (i3heap c ! a) = [] \<and> a \<notin> set (i3stack c) \<and>
     (\<forall>i. (i, a) \<notin> edges (i3heap c))"

definition proc_post :: "('s, 'h) i3ctx \<Rightarrow> pkg \<Rightarrow> int \<Rightarrow> ('s, 'h) i3ctx \<Rightarrow> bool" where
  "proc_post c p rc c' \<longleftrightarrow> inv c' \<and> adv c c' \<and> (rc < 0 \<longrightarrow> is_black c' p) \<and>
     (clean c' \<longrightarrow> rc = 1 \<and> i3_is_marked c' p \<and> is_gray c' p)"

text \<open>Marking for installation, or not when the package is in the set already.\<close>

definition mark_post :: "('s, 'h) i3ctx \<Rightarrow> pkg \<Rightarrow> bool \<Rightarrow> ('s, 'h) i3ctx \<Rightarrow> bool" where
  "mark_post c p ok c' \<longleftrightarrow> ready c' \<and> i3heap c' = i3heap c \<and> i3stack c' = i3stack c \<and> processed c' = processed c \<and>
     (clean c' \<longrightarrow> clean c \<and> ok \<and> i3_is_marked c' p \<and> (\<forall>q. i3_is_marked c q \<longrightarrow> i3_is_marked c' q) \<and>
     set (is_pkgs (inset c')) \<subseteq> insert p (set (is_pkgs (inset c))))"

lemma mark_wp:
  assumes "ready c"
  shows "wp (i3_mark_package e p fl) (mark_post c p) c"
  unfolding i3_mark_package_def wp_seq [of "rd f" for f] wp_rd wp_asrt
proof (intro impI)
  let ?mi = "marked_i c p"
  show "wp (seq (i3_is_pkg_installable e p ?mi) (\<lambda>rc.
          if rc \<le> 0 then seq (i3_stop_processing True) (\<lambda>_. ret False)
          else seq (upd (\<lambda>c. if ?mi
                 then c\<lparr>ts_marks := pkgmark_set (ts_marks c) p False PKGMARK_INTERNAL,
                        inset := iset_add (inset c) p (fl OR PKGMARK_INTERNAL)\<rparr>
                 else c\<lparr>inset := iset_add (inset c) p fl\<rparr>)) (\<lambda>_. ret True))) (mark_post c p) c"
    unfolding wp_seq [of "i3_is_pkg_installable e p ?mi"]
  proof (rule asks_wp [OF calm_installable assms], rule wp_if)
    fix rc :: int and c1 assume 1: "ready c1" "quiet c c1"
    note q = quiet_same [OF 1(2)]
    show "wp (seq (i3_stop_processing True) (\<lambda>_. ret False)) (mark_post c p) c1"
      using 1(1) q by (simp add: i3_stop_processing_def mark_post_def clean_def ready_def)
    have b: "(f OR PKGMARK_ISET) AND PKGMARK_ISET \<noteq> 0" for f :: u32
      by (simp add: bit.conj_disj_distrib2 or_eq_0_iff)
    have c1: "clean c1 \<Longrightarrow> clean c" using quiet_clean [OF 1(2)] .
    show "wp (seq (upd (\<lambda>c. if ?mi
                 then c\<lparr>ts_marks := pkgmark_set (ts_marks c) p False PKGMARK_INTERNAL,
                        inset := iset_add (inset c) p (fl OR PKGMARK_INTERNAL)\<rparr>
                 else c\<lparr>inset := iset_add (inset c) p fl\<rparr>)) (\<lambda>_. ret True)) (mark_post c p) c1"
      using 1(1) q b c1 unfolding wp_seq wp_upd wp_ret mark_post_def
      by (simp add: ready_def clean_def iset_has_pkg_def iset_ismarkedf_def iset_add_def iset_markf_def isset_set)
  qed
qed

end

end
