(* ===== verification/I3proc.thy ===== *)
theory I3proc
  imports I3run
begin

text \<open>
  The installation engine, seventh part: processing one package keeps the invariant, and so does the
  recursion, whose fuel the number of available packages bounds.
\<close>

lemma somes_set: "x \<in> set (somes xs) \<Longrightarrow> Some x \<in> set xs"
  by (induction xs rule: somes.induct) auto

lemma dirreq_is_file:
  assumes "capreq_new False (if d \<noteq> [] \<and> hd d = CHR ''/'' then d else CHR ''/'' # d) 0 None None 0 fl = Some r"
  shows "capreq_is_file r"
proof -
  let ?n = "if d \<noteq> [] \<and> hd d = CHR ''/'' then d else CHR ''/'' # d"
  have "\<exists>t. ?n = CHR ''/'' # t" by (cases d) auto
  then obtain t where "?n = CHR ''/'' # t" by blast
  moreover have "strncmp (CHR ''/'' # t) ''rpmlib('' 7 \<noteq> 0" for t by (simp add: numeral_eq_Suc)
  ultimately show ?thesis using capreq_new_fields(1) [OF assms] by (auto simp: capreq_is_file_def rpmlib_name_def)
qed

context i3_world
begin

lemma wanted_None: "reqs p = None \<Longrightarrow> wanted p = {}"
  unfolding wanted_def pkg_req_iter_def plain_req_def
  by (auto simp: Let_def split: if_splits option.splits dest!: somes_set dirreq_is_file)

lemma met_stays: "met c p r \<Longrightarrow> (\<And>q. i3_is_marked c q \<Longrightarrow> i3_is_marked c' q) \<Longrightarrow> met c' p r"
  unfolding met_def by blast

lemma served_mono: "served c p \<Longrightarrow> (\<And>q. i3_is_marked c q \<Longrightarrow> i3_is_marked c' q) \<Longrightarrow> served c' p"
  unfolding served_def using met_stays by blast

text \<open>The stack has one package more than before.\<close>

definition into :: "nat \<Rightarrow> ('s, 'h) i3ctx \<Rightarrow> ('s, 'h) i3ctx \<Rightarrow> bool" where
  "into a c c' \<longleftrightarrow> i3stack c' = a # i3stack c \<and> adv c (c'\<lparr>i3stack := i3stack c\<rparr>)"

lemma clean_fields [simp]: "clean (c\<lparr>i3stack := s\<rparr>) \<longleftrightarrow> clean c" "clean (c\<lparr>i3heap := hp\<rparr>) \<longleftrightarrow> clean c"
  by (simp_all add: clean_def)

lemma into_adv: "into a c c' \<Longrightarrow> adv c' c'' \<Longrightarrow> into a c c''"
  unfolding into_def adv_def by fastforce

lemma into_pop: "into a c c' \<Longrightarrow> adv c (c'\<lparr>i3stack := tl (i3stack c')\<rparr>)"
  by (simp add: into_def)

lemma ready_fields [simp]: "ready (c\<lparr>i3stack := s\<rparr>) \<longleftrightarrow> ready c" "ready (c\<lparr>i3heap := hp\<rparr>) \<longleftrightarrow> ready c"
  "ready (c\<lparr>processed := pms\<rparr>) \<longleftrightarrow> ready c"
  by (simp_all add: ready_def)

lemma pk_ext: "map i3_pkg (i3heap c') = map i3_pkg (i3heap c) \<Longrightarrow> x < length (i3heap c) \<Longrightarrow> pk x c' = pk x c"
  by (metis length_map nth_map)

text \<open>Gray is not black.\<close>

lemma black_gray: "pkgmark_isset (pkgmark_set pms p True PKGMARK_GRAY) q PKGMARK_BLACK \<longleftrightarrow> pkgmark_isset pms q PKGMARK_BLACK"
  "pkgmark_isset (pkgmark_set pms p True PKGMARK_BLACK) q PKGMARK_GRAY \<longleftrightarrow> pkgmark_isset pms q PKGMARK_GRAY"
  by (simp_all add: isset_set)

text \<open>Entering a package: it is gray, marked, and on top of the stack.\<close>

lemma enter:
  assumes i: "inv c" and f: "fresh a c" and U: "pk a c \<in> U" and ng: "\<not> is_gray c (pk a c)"
    and m: "mark_post (c\<lparr>processed := pkgmark_set (processed c) (pk a c) True PKGMARK_GRAY\<rparr>) (pk a c) True c1"
  defines "c2 \<equiv> c1\<lparr>i3stack := a # i3stack c1, i3heap := pushed (i3heap c1) (i3stack c1) a\<rparr>"
  shows "inv c2" "into a c c2"
proof -
  let ?p = "pk a c"
  note i' = invD [OF i]
  have h: "i3heap c1 = i3heap c" "i3stack c1 = i3stack c" "processed c1 = pkgmark_set (processed c) ?p True PKGMARK_GRAY" "ready c1"
    using m by (simp_all add: mark_post_def)
  have black: "is_black c2 q = is_black c q" for q by (simp add: c2_def h black_gray)
  have gray: "is_gray c2 q \<longleftrightarrow> addr q = addr ?p \<or> is_gray c q" for q
    using i'(3) by (auto simp: c2_def h isset_set by_ptr_id hex_inj)
  have cl: "clean c1 \<Longrightarrow> clean c" using m by (simp add: mark_post_def clean_def black_gray)
  have cl2: "clean c2 \<longleftrightarrow> clean c1" by (simp add: c2_def clean_def)
  have mk: "i3_is_marked c2 q \<longleftrightarrow> i3_is_marked c1 q" for q by (simp add: c2_def)
  have mm: "clean c2 \<Longrightarrow> i3_is_marked c2 ?p \<and> (i3_is_marked c q \<longrightarrow> i3_is_marked c2 q)" for q
    using m by (auto simp: mark_post_def cl2 mk)
  have ip: "clean c2 \<Longrightarrow> set (is_pkgs (inset c2)) \<subseteq> insert ?p (set (is_pkgs (inset c)))"
    using m by (simp add: mark_post_def cl2) (simp add: c2_def)
  have al: "a < length (i3heap c)" using f by (auto simp: fresh_def)
  have pm: "map i3_pkg (i3heap c2) = map i3_pkg (i3heap c)" by (simp add: c2_def h)
  note pk = pk_ext [OF pm]
  have ra: "ready c2" using h(4) by (simp add: c2_def ready_def)
  have new: "\<forall>x \<in> set (i3stack c). addr (pk x c) \<noteq> addr ?p"
  proof
    fix x assume x: "x \<in> set (i3stack c)"
    show "addr (pk x c) \<noteq> addr ?p"
      using addr_U [OF i'(1) i'(5) [OF x] U] i'(4) [OF x] ng by metis
  qed
  have "tree (i3heap c2) (i3stack c2)"
    using tree_push [OF i'(2) _ _ _ _ new] f by (simp add: c2_def h fresh_def)
  moreover have "is_gray c2 (pk x c2) \<and> pk x c2 \<in> U" if "x \<in> set (i3stack c2)" for x
  proof (cases "x = a")
    case True
    then show ?thesis using pk [OF al] U by (simp add: gray)
  next
    case False
    then have x: "x \<in> set (i3stack c)" using that by (simp add: c2_def h)
    then show ?thesis using pk [OF i'(6) [OF x]] i'(4,5) [OF x] by (simp add: gray)
  qed
  ultimately have b: "base c2" using ra i'(3) by (simp add: base_def c2_def h)
  show "into a c c2"
    unfolding into_def adv_def using pm black gray cl cl2 mm ip U by (auto simp: c2_def h)
  have "i3_is_marked c2 q \<and> (q \<notin> (\<lambda>x. pk x c2) ` set (i3stack c2) \<longrightarrow> served c2 q)" if "clean c2" "q \<in> U" "is_gray c2 q" for q
  proof (cases "addr q = addr ?p")
    case True
    then have "q = ?p" using addr_U [OF i'(1) that(2) U] by blast
    then show ?thesis using mm [OF that(1)] pk [OF al] by (auto simp: c2_def h image_iff)
  next
    case False
    then have g: "is_gray c q" using that(3) gray by blast
    have st: "(\<lambda>x. pk x c) ` set (i3stack c) \<subseteq> (\<lambda>x. pk x c2) ` set (i3stack c2)"
      using pk i'(6) by (force simp: c2_def h)
    have "i3_is_marked c q \<and> (q \<notin> (\<lambda>x. pk x c) ` set (i3stack c) \<longrightarrow> served c q)"
      using i g that(1,2) cl cl2 by (simp add: inv_def closed_def)
    then show ?thesis using mm [OF that(1)] served_mono [of c q c2] st by blast
  qed
  then show "inv c2" using b by (simp add: inv_def closed_def)
qed

end

context i3_world
begin

text \<open>Leaving a package that has what it requires.\<close>

lemma leave:
  assumes i: "inv c'" and n: "into a c c'" and a: "a < length (i3heap c)" and U: "pk a c \<in> U" and s: "clean c' \<Longrightarrow> served c' (pk a c)"
  shows "proc_post c (pk a c) 1 (c'\<lparr>i3stack := tl (i3stack c')\<rparr>)"
proof -
  let ?c = "c'\<lparr>i3stack := tl (i3stack c')\<rparr>"
  have adv: "adv c ?c" by (rule into_pop [OF n])
  have st: "i3stack c' = a # i3stack c" using n by (simp add: into_def)
  have pa: "pk a c' = pk a c" using adv_pk [OF adv a] by simp
  note i' = invD [OF i]
  have "tree (i3heap c') (i3stack c)" using tree_pop i'(2) st by metis
  then have b: "base ?c" using i'(1,3-5) st by (simp add: base_def)
  have srv: "served ?c q \<longleftrightarrow> served c' q" for q by (simp add: served_def met_def)
  have "i3_is_marked c' q \<and> (q \<notin> (\<lambda>x. pk x c') ` set (i3stack c) \<longrightarrow> served c' q)"
    if "clean c'" "q \<in> U" "is_gray c' q" for q
  proof -
    have "i3_is_marked c' q \<and> (q \<notin> (\<lambda>x. pk x c') ` set (a # i3stack c) \<longrightarrow> served c' q)"
      using i that st by (simp add: inv_def closed_def)
    then show ?thesis using s [OF that(1)] pa by auto
  qed
  then have "inv ?c" using b srv st by (simp add: inv_def closed_def)
  moreover have "is_gray c' (pk a c)" using i'(4) [of a] pa st by simp
  moreover have "clean c' \<Longrightarrow> i3_is_marked c' (pk a c)"
    using i calculation(2) U by (simp add: inv_def closed_def)
  ultimately show ?thesis using adv by (simp add: proc_post_def)
qed

text \<open>Leaving a package that is given up.\<close>

lemma give_up:
  assumes i: "inv c'" and n: "into a c c'" and a: "a < length (i3heap c)" and U: "pk a c \<in> U" and bl: "is_black c' (pk a c)"
    and u: "undo (below (i3heap c') a) c' c''"
  shows "proc_post c (pk a c) (- 1) (c''\<lparr>i3stack := tl (i3stack c'')\<rparr>)"
proof -
  let ?c = "c''\<lparr>i3stack := tl (i3stack c'')\<rparr>"
  have st: "i3stack c' = a # i3stack c" using n by (simp add: into_def)
  have h: "ready c''" "i3heap c'' = i3heap c'" "i3stack c'' = a # i3stack c" "by_ptr (processed c'')" "is_black c'' q = is_black c' q"
    for q using u st by (simp_all add: undo_def)
  note i' = invD [OF i]
  have t: "tree (i3heap c') (a # i3stack c)" using i'(2) st by simp
  have "is_gray c'' (pk x c')" if x: "x \<in> set (i3stack c)" for x
  proof -
    have "addr (pk x c') \<notin> below (i3heap c') a" using tree_below [OF t x] by (auto simp: below_def)
    moreover have "is_gray c' (pk x c')" using i'(4) [of x] x st by simp
    ultimately show ?thesis using u by (auto simp: undo_def)
  qed
  then have b: "base ?c" using h i'(5) st tree_pop [OF t] by (simp add: base_def)
  have bc: "is_black ?c (pk a c)" using bl h(5) by simp
  then have nc: "\<not> clean ?c" using U by (auto simp: clean_def)
  have "adv c ?c" using into_pop [OF n] h st nc by (auto simp: adv_def)
  then show ?thesis using inv_unclean [OF b nc] bc nc by (simp add: proc_post_def)
qed

lemma do_process_wp:
  assumes P: "proc_ok n proc" and i: "inv c" and r: "room (Suc n) c" and f: "fresh a c" and U: "pk a c \<in> U"
    and m0: "mf = 0 \<Longrightarrow> clean c \<Longrightarrow> i3_is_marked c (pk a c)" and k: "card U < k"
  shows "wp (do_process_package proc e k a mf) (proc_post c (pk a c)) c"
proof -
  let ?p = "pk a c"
  let ?c0 = "c\<lparr>processed := pkgmark_set (processed c) ?p True PKGMARK_GRAY\<rparr>"
  have al: "a < length (i3heap c)" using f by (auto simp: fresh_def)
  have r0: "ready ?c0" using invD(1) [OF i] by simp
  have cl0: "clean ?c0 \<longleftrightarrow> clean c" by (simp add: clean_def black_gray)
  have mark: "wp (if mf \<noteq> 0 then i3_mark_package e ?p mf else ret True) (mark_post ?c0 ?p) ?c0"
    by (rule wp_if, rule mark_wp [OF r0]) (use r0 m0 cl0 in \<open>auto simp: mark_post_def\<close>)
  have stop: "proc_post c ?p 0 c1" if m: "mark_post ?c0 ?p False c1" for c1
  proof -
    have nc: "\<not> clean c1" using m by (auto simp: mark_post_def)
    have "base c1" using m invD(2-5) [OF i] by (simp add: mark_post_def base_def isset_set)
    moreover have "adv c c1" using m nc by (simp add: mark_post_def adv_def black_gray exI [of _ "[]"])
    ultimately show ?thesis using inv_unclean nc by (simp add: proc_post_def)
  qed
  have tail: "wp (if giveup then seq (rd (\<lambda>c. length (i3heap c))) (\<lambda>n. seq (rollback_package e (Suc n) a) (\<lambda>_. seq pop_i3pkg (\<lambda>_. ret (- 1))))
      else seq (i3_process_pkg_conflicts proc e a) (\<lambda>_. seq pop_i3pkg (\<lambda>_. ret 1))) (proc_post c ?p) c'"
    if q: "inv c'" "into a c c'" "giveup \<Longrightarrow> is_black c' ?p" "clean c' \<Longrightarrow> served c' ?p" for giveup c'
  proof -
    have al': "a < length (i3heap c')" using adv_pk [OF into_pop [OF q(2)] al] by simp
    have rm: "room n c'" using r q(2) by (simp add: room_def into_def)
    have "wp (rollback_package e (Suc (length (i3heap c'))) a) (\<lambda>_ c''. proc_post c ?p (- 1) (c''\<lparr>i3stack := tl (i3stack c'')\<rparr>)) c'" if giveup
      by (rule wp_mono [OF rollback_wp [OF invD(2,1,3) [OF q(1)] al']], simp)
        (use give_up [OF q(1,2) al U q(3) [OF that]] in blast)
    moreover have "wp (i3_process_pkg_conflicts proc e a) (\<lambda>_ c''. proc_post c ?p 1 (c''\<lparr>i3stack := tl (i3stack c'')\<rparr>)) c'"
    proof (rule runs_wp [OF goes_conflicts [OF P] q(1) rm])
      fix c'' assume 2: "inv c''" "adv c' c''"
      show "proc_post c ?p 1 (c''\<lparr>i3stack := tl (i3stack c'')\<rparr>)"
        by (rule leave [OF 2(1) into_adv [OF q(2) 2(2)] al U]) (use q(4) served_adv 2(2) advD(3) in blast)
    qed
    ultimately show ?thesis
      by (intro wp_if) (simp_all add: pop_i3pkg_def wp_seq_fun wp_ret_fun wp_upd_fun del: rollback_package.simps)
  qed
  have body: "wp (seq (i3_process_pkg_obsoletes proc e a) (\<lambda>_.
      seq (if reqs ?p \<noteq> None then i3_process_pkg_requirements proc e k a else ret True) (\<lambda>met.
      seq (if met then ret False
           else seq (upd (\<lambda>c. c\<lparr>processed := pkgmark_set (processed c) ?p True PKGMARK_BLACK\<rparr>)) (\<lambda>_.
             rd (\<lambda>c. i3_flags (i3at a c) AND I3PKG_BACKTRACKABLE \<noteq> 0))) (\<lambda>giveup.
      if giveup then seq (rd (\<lambda>c. length (i3heap c))) (\<lambda>n. seq (rollback_package e (Suc n) a) (\<lambda>_. seq pop_i3pkg (\<lambda>_. ret (- 1))))
      else seq (i3_process_pkg_conflicts proc e a) (\<lambda>_. seq pop_i3pkg (\<lambda>_. ret 1)))))) (proc_post c ?p) c2"
    if 2: "inv c2" "into a c c2" for c2
    unfolding wp_seq [of "i3_process_pkg_obsoletes proc e a"]
  proof (rule runs_wp [OF goes_obsoletes [OF P] 2(1)])
    show "room n c2" using r 2(2) by (simp add: room_def into_def)
    fix c3 assume 3: "inv c3" "adv c2 c3" "room n c3"
    have n3: "into a c c3" by (rule into_adv [OF 2(2) 3(2)])
    have p3: "a < length (i3heap c3)" "pk a c3 = ?p" using adv_pk [OF into_pop [OF n3] al] by simp_all
    have "card {p \<in> U. \<not> is_black c3 p} \<le> card U"
      using finite_U [OF invD(1) [OF i]] by (intro card_mono) auto
    then have c3: "card {p \<in> U. \<not> is_black c3 p} < k" using k by simp
    have "wp (if reqs ?p \<noteq> None then i3_process_pkg_requirements proc e k a else ret True)
        (\<lambda>b c'. inv c' \<and> adv c3 c' \<and> (clean c' \<longrightarrow> b \<and> served c' ?p)) c3"
      by (rule wp_if, rule wp_mono [OF requirements_wp [OF P 3(1,3) p3(1) c3]])
        (use 3(1) p3(2) wanted_None in \<open>auto simp: served_def\<close>)
    then show "wp (seq (if reqs ?p \<noteq> None then i3_process_pkg_requirements proc e k a else ret True) (\<lambda>met.
      seq (if met then ret False
           else seq (upd (\<lambda>c. c\<lparr>processed := pkgmark_set (processed c) ?p True PKGMARK_BLACK\<rparr>)) (\<lambda>_.
             rd (\<lambda>c. i3_flags (i3at a c) AND I3PKG_BACKTRACKABLE \<noteq> 0))) (\<lambda>giveup.
      if giveup then seq (rd (\<lambda>c. length (i3heap c))) (\<lambda>n. seq (rollback_package e (Suc n) a) (\<lambda>_. seq pop_i3pkg (\<lambda>_. ret (- 1))))
      else seq (i3_process_pkg_conflicts proc e a) (\<lambda>_. seq pop_i3pkg (\<lambda>_. ret 1))))) (proc_post c ?p) c3"
      unfolding wp_seq [of "if reqs ?p \<noteq> None then i3_process_pkg_requirements proc e k a else ret True"]
    proof (rule wp_mono, elim conjE)
      fix b c4 assume 4: "inv c4" "adv c3 c4" "clean c4 \<longrightarrow> b \<and> served c4 ?p"
      have n4: "into a c c4" by (rule into_adv [OF n3 4(2)])
      let ?c5 = "c4\<lparr>processed := pkgmark_set (processed c4) ?p True PKGMARK_BLACK\<rparr>"
      have b5: "is_black ?c5 ?p" by (simp add: isset_set)
      then have nc: "\<not> clean ?c5" using U by (auto simp: clean_def)
      have "base ?c5" using invD(1-5) [OF 4(1)] by (simp add: base_def isset_set)
      then have i5: "inv ?c5" by (rule inv_unclean) (rule nc)
      have "adv c4 ?c5" using nc by (simp add: adv_def isset_set exI [of _ "[]"])
      then have n5: "into a c ?c5" by (rule into_adv [OF n4])
      show "wp (seq (if b then ret False
           else seq (upd (\<lambda>c. c\<lparr>processed := pkgmark_set (processed c) ?p True PKGMARK_BLACK\<rparr>)) (\<lambda>_.
             rd (\<lambda>c. i3_flags (i3at a c) AND I3PKG_BACKTRACKABLE \<noteq> 0))) (\<lambda>giveup.
      if giveup then seq (rd (\<lambda>c. length (i3heap c))) (\<lambda>n. seq (rollback_package e (Suc n) a) (\<lambda>_. seq pop_i3pkg (\<lambda>_. ret (- 1))))
      else seq (i3_process_pkg_conflicts proc e a) (\<lambda>_. seq pop_i3pkg (\<lambda>_. ret 1)))) (proc_post c ?p) c4"
        unfolding wp_seq [of "if b then _ else _"]
        by (rule wp_if, unfold wp_seq [of "upd f" for f] wp_upd wp_ret wp_rd, rule tail [OF 4(1) n4], simp,
          use 4(3) in blast, rule tail [OF i5 n5 b5], use nc in blast)
    qed
  qed
  show ?thesis
    unfolding do_process_package_def wp_seq [of "rd f" for f] wp_rd wp_asrt wp_seq [of "upd f" for f] wp_upd i3at_def
    unfolding wp_seq [of "if b then _ else _" for b]
  proof (intro impI, rule wp_mono [OF mark], rule wp_if)
    fix ok c1 assume "mark_post ?c0 ?p ok c1" "\<not> ok"
    then show "wp (ret 0) (proc_post c ?p) c1" using stop by simp
  next
    fix ok c1 assume g: "\<not> is_gray c ?p" and "mark_post ?c0 ?p ok c1" "\<not> \<not> ok"
    then have m: "mark_post ?c0 ?p True c1" by simp
    note e = enter [OF i f U g m]
    have hp: "(case i3stack c1 of [] \<Rightarrow> i3heap c1 | m # _ \<Rightarrow> (i3heap c1)[m := (i3heap c1 ! m)\<lparr>i3_markedby := i3_markedby (i3heap c1 ! m) @ [a]\<rparr>])
      = pushed (i3heap c1) (i3stack c1) a" by (simp add: pushed_def)
    show "wp (seq (push_i3pkg a) (\<lambda>_.
      seq (i3_process_pkg_obsoletes proc e a) (\<lambda>_.
      seq (if reqs ?p \<noteq> None then i3_process_pkg_requirements proc e k a else ret True) (\<lambda>met.
      seq (if met then ret False
           else seq (upd (\<lambda>c. c\<lparr>processed := pkgmark_set (processed c) ?p True PKGMARK_BLACK\<rparr>)) (\<lambda>_.
             rd (\<lambda>c. i3_flags (i3heap c ! a) AND I3PKG_BACKTRACKABLE \<noteq> 0))) (\<lambda>giveup.
      if giveup then seq (rd (\<lambda>c. length (i3heap c))) (\<lambda>n. seq (rollback_package e (Suc n) a) (\<lambda>_. seq pop_i3pkg (\<lambda>_. ret (- 1))))
      else seq (i3_process_pkg_conflicts proc e a) (\<lambda>_. seq pop_i3pkg (\<lambda>_. ret 1))))))) (proc_post c ?p) c1"
      unfolding push_i3pkg_def wp_seq [of "upd f" for f] wp_upd hp by (rule body [OF e, unfolded i3at_def])
  qed
qed

end

context i3_world
begin

lemma stack_room: "inv c \<Longrightarrow> length (i3stack c) \<le> card U"
proof -
  assume i: "inv c"
  have d: "distinct (map (\<lambda>x. pk x c) (i3stack c))"
    using distinct_map [of addr "map (\<lambda>x. pk x c) (i3stack c)"] tree_distinct [OF invD(2) [OF i]] by (simp add: comp_def)
  have "card (set (map (\<lambda>x. pk x c) (i3stack c))) \<le> card U"
    using finite_U [OF invD(1) [OF i]] invD(5) [OF i] by (intro card_mono) auto
  then show ?thesis using distinct_card [OF d] by simp
qed

text \<open>A package to be processed is a new entry.\<close>

lemma new_entry:
  fixes c :: "('s, 'h) i3ctx" and fl :: u32 and q :: pkg and w :: "(pkg \<times> capreq \<times> i3_byflag) option"
  assumes i: "inv c"
  defines "c1 \<equiv> c\<lparr>i3heap := i3heap c @ [\<lparr>i3_flags = fl, i3_pkg = q, i3_by = w, i3_obsoletedby = [], i3_markedby = []\<rparr>]\<rparr>"
  shows "inv c1" "adv c c1" "fresh (length (i3heap c)) c1" "pk (length (i3heap c)) c1 = q"
proof -
  note t = invD(2) [OF i]
  have t1: "tree (i3heap c1) (i3stack c1)" using tree_new [OF t] by (simp add: c1_def)
  have "ready c1" "clean c1 = clean c" using invD(1) [OF i] by (simp_all add: c1_def)
  then show "inv c1" "adv c c1" using same_inv [OF i, of c1 "[q]"] t1 by (simp_all add: c1_def)
  show "pk (length (i3heap c)) c1 = q" by (simp add: c1_def)
  have "(j, length (i3heap c)) \<notin> edges (i3heap c1)" for j
    using treeD(2) [OF t, of j "length (i3heap c)"] edges_new by (auto simp: c1_def)
  then show "fresh (length (i3heap c)) c1"
    using treeD(5) [OF t, of "length (i3heap c)"] by (auto simp: fresh_def c1_def)
qed

lemma process_wp:
  assumes "card U < k"
  shows "proc_ok n (i3_process_package e k n)"
proof (induction n)
  case 0
  have "\<not> room 0 c" if "inv c" for c using stack_room [OF that] by (simp add: room_def)
  then show ?case by (simp add: proc_ok_def)
next
  case (Suc n)
  show ?case
    unfolding proc_ok_def
  proof (intro allI impI)
    fix c q fl w assume i: "inv c" and r: "room (Suc n) c" and q: "q \<in> U"
    let ?c1 = "c\<lparr>i3heap := i3heap c @ [\<lparr>i3_flags = fl, i3_pkg = q, i3_by = w, i3_obsoletedby = [], i3_markedby = []\<rparr>]\<rparr>"
    let ?a = "length (i3heap c)"
    note n = new_entry [OF i, of fl q w]
    let ?Q = "\<lambda>(rc :: int) c'. inv c' \<and> adv c c' \<and> (rc < 0 \<longrightarrow> is_black c' q) \<and> (clean c' \<longrightarrow> 0 < rc \<and> i3_is_marked c' q)"
    have "wp (i3_process_package e k (Suc n) ?a) ?Q ?c1"
      unfolding i3_process_package.simps wp_seq [of stopped]
    proof (rule stopped_wp [OF n(1)], rule wp_if)
      fix b c2 assume "inv c2" "adv ?c1 c2" "b \<Longrightarrow> \<not> clean c2" "b"
      then show "wp (ret 0) ?Q c2" using adv_trans [OF n(2)] by simp
    next
      fix b c2 assume 2: "inv c2" "adv ?c1 c2" "quiet ?c1 c2"
      have h: "i3heap c2 = i3heap ?c1" "i3stack c2 = i3stack ?c1" using quiet_same [OF 2(3)] by simp_all
      have f: "fresh ?a c2" "pk ?a c2 = q" using n(3,4) unfolding fresh_def h by simp_all
      have a2: "adv c c2" by (rule adv_trans [OF n(2) 2(2)])
      have r2: "room (Suc n) c2" using r room_adv [OF a2] by simp
      have g: "?Q 1 c2" if "is_gray c2 q" using 2(1) a2 that q by (simp add: inv_def closed_def)
      have d: "wp (do_process_package (i3_process_package e k n) e k ?a mf) ?Q c2" if "mf = 0 \<Longrightarrow> i3_is_marked c2 q" for mf
      proof (rule wp_mono [OF do_process_wp [OF Suc 2(1) r2 f(1)]], unfold f(2))
        show "q \<in> U" "card U < k" by (fact q assms)+
        show "mf = 0 \<Longrightarrow> clean c2 \<Longrightarrow> i3_is_marked c2 q" by (rule that)
        show "?Q rc c'" if "proc_post c2 q rc c'" for rc c'
          using that adv_trans [OF a2] by (simp add: proc_post_def)
      qed
      show "wp (seq (rd (\<lambda>c. i3_pkg (i3at ?a c))) (\<lambda>p.
     seq (rd (\<lambda>c. is_gray c p)) (\<lambda>gray. if gray then ret 1
     else seq (rd (\<lambda>c. if i3_is_marked c p then 0 else if marked_i c p then PKGMARK_MARK else PKGMARK_DEP)) (\<lambda>markflag.
     seq (do_process_package (i3_process_package e k n) e k ?a markflag) (\<lambda>rc.
     seq (rd (\<lambda>c. i3_is_marked c p)) (\<lambda>still. asrt (rc = - 1 \<longrightarrow> \<not> still) (ret rc))))))) ?Q c2"
        unfolding wp_seq [of "rd f" for f] wp_rd i3at_def f(2)
        by (rule wp_if, use g in simp,
          unfold wp_seq [of "rd f" for f] wp_rd wp_seq [of "do_process_package x y z u v" for x y z u v])
          (rule wp_mono [OF d]; auto split: if_splits)
    qed
    then show "wp (seq (i3pkg_new q fl w) (i3_process_package e k (Suc n))) ?Q c"
      unfolding wp_seq i3pkg_new_def wp_ask by simp
  qed
qed

text \<open>Installing a package marked by hand.\<close>

lemma install_package_wp:
  assumes i: "inv c" and n: "room (Suc n) c" and k: "card U < k" and q: "q \<in> U"
    and hand: "clean c \<Longrightarrow> i3_is_hand_marked c q \<Longrightarrow> i3_is_marked c q"
  shows "wp (i3_install_package e k n q) (\<lambda>b c'. inv c' \<and> adv c c' \<and> (clean c' \<longrightarrow> b \<and> is_gray c' q)) c"
proof -
  let ?Q = "\<lambda>b c'. inv c' \<and> adv c c' \<and> (clean c' \<longrightarrow> b \<and> is_gray c' q)"
  show ?thesis
    unfolding i3_install_package_def wp_seq [of stopped]
  proof (rule stopped_wp [OF i], rule wp_if)
    fix b c2 assume "inv c2" "adv c c2" "b \<Longrightarrow> \<not> clean c2" "b"
    then show "wp (ret False) ?Q c2" by simp
  next
    fix b c2 assume 2: "inv c2" "adv c c2" "quiet c c2"
    let ?a = "length (i3heap c2)"
    note e = new_entry [OF 2(1), of 0 q None]
    let ?c3 = "c2\<lparr>i3heap := i3heap c2 @ [\<lparr>i3_flags = 0, i3_pkg = q, i3_by = None, i3_obsoletedby = [], i3_markedby = []\<rparr>]\<rparr>"
    have a3: "adv c ?c3" by (rule adv_trans [OF 2(2) e(2)])
    have r3: "room (Suc n) ?c3" using n room_adv [OF a3] by blast
    have m: "clean ?c3 \<Longrightarrow> i3_is_marked ?c3 q" if h: "i3_is_hand_marked c2 q"
    proof -
      assume "clean ?c3"
      then have "clean c" using quiet_clean [OF 2(3)] by simp
      then show ?thesis using hand h 2(3) by (simp add: quiet_def iset_has_pkg_def iset_ismarkedf_def)
    qed
    have "wp (do_process_package (i3_process_package e k n) e k ?a 0) (\<lambda>rc. ?Q (rc = 1)) ?c3" if "i3_is_hand_marked c2 q"
      by (rule wp_mono [OF do_process_wp [OF process_wp [OF k] e(1) r3 e(3), unfolded e(4), OF q m [OF that] k]])
        (auto simp: proc_post_def intro: adv_trans [OF a3])
    then show "wp (seq (rd (\<lambda>c. is_gray c q)) (\<lambda>gray. if gray then ret True
     else seq (rd (\<lambda>c. i3_is_hand_marked c q)) (\<lambda>hand. asrt hand
       (seq (i3pkg_new q 0 None) (\<lambda>a.
        seq (do_process_package (i3_process_package e k n) e k a 0) (\<lambda>rc. ret (rc = 1))))))) ?Q c2"
      unfolding wp_seq [of "rd f" for f] wp_rd wp_asrt wp_seq [of "i3pkg_new q 0 None"] i3pkg_new_def wp_ask
      using 2(1,2) by (simp add: wp_seq_fun wp_ret_fun)
  qed
qed

end

end
