(* ===== verification/I3inst.thy ===== *)
theory I3inst
  imports I3
begin

text \<open>
  The runs of the installation engine: install3/preinstall.c, which turns the user's choice into the
  packages to mark, and install3/install.c, which marks and processes them, alone or all together, and
  hands the result over, to be listed, fetched or installed. What is handed over is recorded.
\<close>

section \<open>The surroundings\<close>

text \<open>The transaction's flags and the switch that the package manager looks at.\<close>

record pm_mode =
  m_upgrade :: bool
  m_downgrade :: bool
  m_reinstall :: bool
  m_force :: bool

text \<open>What leaves the engine: listing, fetching, asking for confirmation, the package manager.\<close>

datatype handover =
    PackagesDump "pkg list" bool
  | PackagesFetch "pkg list" string bool
  | Confirm
  | PmInstall pm_mode "pkg list" "pkg list"
  | PmUninstall pm_mode "pkg list"
  | FetchRemove "pkg list" string

datatype machine_tag = PMMSTAG_ARCH | PMMSTAG_OS

text \<open>
  Besides the environment of the engine: the registry of operating systems, the package manager's
  opinion of architectures and systems, the C library's \<open>fnmatch\<close>, names of repositories, the patterns
  of held packages, the packages that the capabilities among the arguments were resolved to, the flags
  of packages when their order is computed, the switches. The answers to what is handed over and the
  database opened anew depend on what has been handed over before.
\<close>

record ('s, 'h) ienv =
  ie :: "('s, 'h) i3env"
  os_reg :: os_registry
  machine_score :: "machine_tag \<Rightarrow> string option \<Rightarrow> int"
  fn_match :: "string \<Rightarrow> string \<Rightarrow> bool"
  repo_of :: "pkg \<Rightarrow> string option"
  hold_patterns :: "string list option"
  resolved_caps :: "(string \<times> pkg list) list"
  order_flags :: pkg_flags
  answer :: "handover list \<Rightarrow> handover \<Rightarrow> int"
  reopened :: "handover list \<Rightarrow> ('s, 'h) pkgdb \<Rightarrow> ('s, 'h) pkgdb"
  o_nodeps :: bool
  o_rpmtest :: bool
  o_test :: bool
  o_justprint :: bool
  o_justprint_n :: bool
  o_justfetch :: bool
  o_nofetch :: bool
  o_keep_downloads :: bool
  o_ignorearch :: bool
  o_ignoreos :: bool
  o_particle :: bool
  ts_track :: bool
  fetchdir :: "string option"
  cachedir :: string

text \<open>The state of a run: the engine's, what has been handed over, what is known to be done.\<close>

record ('s, 'h) irun =
  r_ctx :: "('s, 'h) i3ctx"
  handed :: "handover list"
  pkgs_installed :: "pkg list"
  pkgs_removed :: "pkg list"

definition within :: "(('s, 'h) i3ctx, 'a) op \<Rightarrow> (('s, 'h) irun, 'a) op" where
  "within m = (\<lambda>r. case m (r_ctx r) of Inl f \<Rightarrow> Inl f | Inr (x, c) \<Rightarrow> Inr (x, r\<lparr>r_ctx := c\<rparr>))"

definition hand_over :: "('s, 'h) ienv \<Rightarrow> handover \<Rightarrow> (('s, 'h) irun, int) op" where
  "hand_over v h = ask (\<lambda>r. (answer v (handed r) h, r\<lparr>handed := handed r @ [h]\<rparr>))"

text \<open>
  The engine closes the database (\<open>pkgdb_close\<close>) when it has processed the packages and never asks it
  before it has opened it again; closing and opening are one step of the model, which shows what is
  installed by then.
\<close>

definition db_reopen :: "('s, 'h) ienv \<Rightarrow> (('s, 'h) irun, unit) op" where
  "db_reopen v = upd (\<lambda>r. r\<lparr>r_ctx := (r_ctx r)\<lparr>c_db := reopened v (handed r) (c_db (r_ctx r))\<rparr>\<rparr>)"

section \<open>What the user's choice comes to\<close>

definition package_is_duplicate :: "('s, 'h) i3env \<Rightarrow> pkg \<Rightarrow> pkg \<Rightarrow> bool" where
  "package_is_duplicate e p q \<longleftrightarrow> pkg_cmp_name p q = 0 \<and> (conf_MULTILIB (iE e) \<longrightarrow> pkg_cmp_arch (iR e) p q = 0)"

definition pkg_unmark :: "pmark_set \<Rightarrow> pkg \<Rightarrow> pmark_set" where
  "pkg_unmark pms p = pkgmark_set pms p False PKGMARK_ANY"

text \<open>The duplicates that follow a marked package lose their marks.\<close>

function unmark_loop :: "('s, 'h) i3env \<Rightarrow> pmark_set \<Rightarrow> pkg list \<Rightarrow> nat \<Rightarrow> nat \<times> pmark_set" where
  "unmark_loop e pms [] n = (n, pms)"
| "unmark_loop e pms (p # ps) n =
     (if \<not> pkg_is_marked pms p then unmark_loop e pms ps n
      else unmark_loop e (foldl pkg_unmark pms (takeWhile (package_is_duplicate e p) ps))
             (dropWhile (package_is_duplicate e p) ps) (n + 1))"
  by pat_completeness auto

termination
  by (relation "measure (\<lambda>(e, pms, ps, n). length ps)") (auto simp: less_Suc_eq_le length_dropWhile_le)

definition unmark_name_duplicates :: "('s, 'h) i3env \<Rightarrow> (('s, 'h) i3ctx, nat) op" where
  "unmark_name_duplicates e = ask (\<lambda>c.
     if length (ps_pkgs (c_ps c)) < 2 then (length (ps_pkgs (c_ps c)), c)
     else let ps = ps_sorted (iE e) (iP e) (iR e) (c_ps c);
              (n, pms) = unmark_loop e (ts_marks c) (ps_pkgs ps) 0
          in (n, c\<lparr>c_ps := ps, ts_marks := pms\<rparr>))"

text \<open>Of the packages of an installed package's name, the first that may be installed over it.\<close>

fun icap_scan :: "('s, 'h) i3env \<Rightarrow> pkg \<Rightarrow> pkg list \<Rightarrow> pkg option" where
  "icap_scan e d [] = None"
| "icap_scan e d (q # qs) =
     (if pkg_cmp_name q d \<noteq> 0 then None
      else let cmprc = pkg_cmp_name_evr (iE e) q d
           in if cmprc > 0 \<or> cmprc = 0 \<and> ts_reinstall e \<or> cmprc < 0 \<and> ts_downgrade e then Some q
              else icap_scan e d qs)"

fun icap_first :: "('s, 'h) i3env \<Rightarrow> pkg list \<Rightarrow> pkg list \<Rightarrow> pkg option" where
  "icap_first e pkgs [] = None"
| "icap_first e pkgs (d # ds) =
     (let n = pk_bsearch (iP e) (\<lambda>q. pkg_cmp_name q d) pkgs in
      if n < 0 then icap_first e pkgs ds
      else case icap_scan e d (drop (nat n) pkgs) of Some q \<Rightarrow> Some q | None \<Rightarrow> icap_first e pkgs ds)"

definition mark_hand :: "pkg \<Rightarrow> (('s, 'h) i3ctx, unit) op" where
  "mark_hand p = upd (\<lambda>c. c\<lparr>ts_marks := pkg_hand_mark (ts_marks c) p\<rparr>)"

text \<open>- 1 the user gives up, otherwise how many packages were marked.\<close>

definition prepare_icap :: "('s, 'h) i3env \<Rightarrow> string \<Rightarrow> pkg list \<Rightarrow> (('s, 'h) i3ctx, int) op" where
  "prepare_icap e capname pkgs =
     seq (db_search e PMTAG_CAP capname 0) (\<lambda>(n, dbpkgs).
       case dbpkgs of
         None \<Rightarrow>
           if o_freshen e then ret 0
           else seq (if o_askuser e \<and> length pkgs > 1
                     then i3_choose_equiv e None (capreq_stra e (capreq_new_name_a capname)) pkgs None
                     else asrt (pkgs \<noteq> []) (ret (Some (hd pkgs)))) (\<lambda>choice.
             case choice of None \<Rightarrow> ret (- 1) | Some p \<Rightarrow> seq (mark_hand p) (\<lambda>_. ret 1))
       | Some ds \<Rightarrow>
           case icap_first e (pk_sort (iP e) (pkg_cmp_name_evr_rev (iE e) (iR e)) pkgs) ds of
             None \<Rightarrow> ret 0 | Some p \<Rightarrow> seq (mark_hand p) (\<lambda>_. ret 1))"

fun prepare_icaps_loop :: "('s, 'h) i3env \<Rightarrow> (string \<times> pkg list) list \<Rightarrow> (('s, 'h) i3ctx, int) op" where
  "prepare_icaps_loop e [] = ret 1"
| "prepare_icaps_loop e ((cap, pkgs) # icaps) =
     seq (prepare_icap e cap pkgs) (\<lambda>rc. if rc = - 1 then ret (- 1) else prepare_icaps_loop e icaps)"

definition i3_prepare_icaps :: "('s, 'h) ienv \<Rightarrow> (('s, 'h) i3ctx, int) op" where
  "i3_prepare_icaps v = prepare_icaps_loop (ie v) (resolved_caps v)"

text \<open>The marks of the installable packages become internal ones; the others lose theirs. \<open>None\<close> is a signal.\<close>

fun mark_i_loop :: "('s, 'h) i3env \<Rightarrow> pkg list \<Rightarrow> pkg list \<Rightarrow> (('s, 'h) i3ctx, pkg list option) op" where
  "mark_i_loop e [] acc = ret (Some acc)"
| "mark_i_loop e (p # ps) acc =
     seq (rd (\<lambda>c. pkg_is_marked (ts_marks c) p)) (\<lambda>m. if \<not> m then mark_i_loop e ps acc
     else seq sigint_reached (\<lambda>b. if b then ret None
     else seq (i3_is_pkg_installable e p True) (\<lambda>installable.
          seq (upd (\<lambda>c. c\<lparr>ts_marks := pkg_unmark (ts_marks c) p\<rparr>)) (\<lambda>_.
            if installable > 0
            then seq (upd (\<lambda>c. c\<lparr>ts_marks := pkgmark_set (ts_marks c) p True PKGMARK_INTERNAL\<rparr>)) (\<lambda>_.
                 mark_i_loop e ps (acc @ [p]))
            else mark_i_loop e ps acc))))"

text \<open>- 1 a signal, 0 nothing to do, 1 with the packages to go on with.\<close>

definition i3_pre_ts_install :: "('s, 'h) ienv \<Rightarrow> (('s, 'h) i3ctx, int \<times> pkg list) op" where
  "i3_pre_ts_install v =
     seq (i3_prepare_icaps v) (\<lambda>rc. if rc < 0 then ret (0, [])
     else seq (unmark_name_duplicates (ie v)) (\<lambda>n. if n = 0 then ret (0, [])
     else seq (rd (\<lambda>c. ps_pkgs (c_ps c))) (\<lambda>all.
     seq (mark_i_loop (ie v) all []) (\<lambda>r.
       case r of None \<Rightarrow> ret (- 1, []) | Some pkgs \<Rightarrow> if pkgs = [] then ret (0, []) else ret (1, pkgs)))))"

section \<open>Handing over\<close>

text \<open>The texts a mask is compared with: the name, name-version-release.arch, the same with the repository's name.\<close>

definition pkgscore_match :: "('s, 'h) ienv \<Rightarrow> pkg \<Rightarrow> string \<Rightarrow> bool" where
  "pkgscore_match v p pat =
     (let dir = (case repo_of v p of None \<Rightarrow> [] | Some nm \<Rightarrow> nsnprintf (iP (ie v)) 512 (nm @ '':''));
          buf = dir @ nsnprintf (iP (ie v)) (512 - length dir)
            (name p @ ''-'' @ ver p @ ''-'' @ rel p @ ''.'' @ (case pkg_arch (iR (ie v)) p of None \<Rightarrow> ''(null)'' | Some a \<Rightarrow> a))
      in fn_match v pat (name p) \<or> dir \<noteq> [] \<and> fn_match v pat (drop (length dir) buf) \<or> fn_match v pat buf)"

definition verify_held_packages :: "('s, 'h) ienv \<Rightarrow> pkg list \<Rightarrow> bool" where
  "verify_held_packages v outpkgs \<longleftrightarrow>
     (if \<not> ts_upgrade (ie v) \<or> hold_patterns v = None \<or> \<not> o_hold (ie v) then True
      else \<not> list_ex (\<lambda>d. list_ex (pkgscore_match v d) (the (hold_patterns v))) outpkgs)"

definition valid_arch_os :: "('s, 'h) ienv \<Rightarrow> pkg list \<Rightarrow> bool" where
  "valid_arch_os v pkgs \<longleftrightarrow>
     \<not> list_ex (\<lambda>p. \<not> conf_MULTILIB (iE (ie v)) \<and> \<not> o_ignorearch v \<and> arch_ix p \<noteq> 0 \<and>
                     machine_score v PMMSTAG_ARCH (pkg_arch (iR (ie v)) p) = 0 \<or>
                   \<not> o_ignoreos v \<and> os_ix p \<noteq> 0 \<and> machine_score v PMMSTAG_OS (pkg_os (os_reg v) p) = 0) pkgs"

fun still_there :: "('s, 'h) ienv \<Rightarrow> bool \<Rightarrow> pkg list \<Rightarrow> (('s, 'h) irun, pkg list) op" where
  "still_there v there [] = ret []"
| "still_there v there (p # ps) =
     seq (within (i3_is_pkg_installed (ie v) p)) (\<lambda>(n, cmprc).
     seq (still_there v there ps) (\<lambda>qs. ret (if (n \<noteq> 0 \<and> cmprc = 0) = there then p # qs else qs)))"

definition update_iinf :: "('s, 'h) ienv \<Rightarrow> bool \<Rightarrow> (('s, 'h) irun, unit) op" where
  "update_iinf v vrfy =
     seq (rd (\<lambda>r. (is_pkgs (unset (r_ctx r)), is_pkgs (inset (r_ctx r))))) (\<lambda>(outpkgs, inpkgs).
     seq (if vrfy then db_reopen v else ret ()) (\<lambda>_.
     seq (if vrfy then still_there v True inpkgs else ret inpkgs) (\<lambda>ins.
     seq (if vrfy then still_there v False outpkgs else ret outpkgs) (\<lambda>gone.
     upd (\<lambda>r. r\<lparr>pkgs_installed := pkgs_installed r @ ins, pkgs_removed := pkgs_removed r @ gone\<rparr>)))))"

text \<open>
  One instance of several that are installed is replaced in two steps, the new version first, with
  the transaction's flags changed meanwhile.
\<close>

definition do_install :: "('s, 'h) ienv \<Rightarrow> pkg list \<Rightarrow> (('s, 'h) irun, int) op" where
  "do_install v pkgs =
     (let e = ie v;
          mode = \<lparr>m_upgrade = ts_upgrade e, m_downgrade = ts_downgrade e, m_reinstall = ts_reinstall e, m_force = o_force e\<rparr>
      in seq (rd (\<lambda>r. (is_pkgs (unset (r_ctx r)),
            case pkgs of [p] \<Rightarrow> map_option hd (multi_obsoleted (r_ctx r) (nvr p)) | _ \<Rightarrow> None))) (\<lambda>(outpkgs, multi).
          case multi of
            None \<Rightarrow> hand_over v (PmInstall mode pkgs outpkgs)
          | Some d \<Rightarrow>
              let same = (pkg_cmp_name_evr (iE e) (hd pkgs) d = 0);
                  plain = (\<lambda>force. \<lparr>m_upgrade = False, m_downgrade = False, m_reinstall = False, m_force = force\<rparr>)
              in seq (hand_over v (PmInstall (plain (if ts_reinstall e \<and> same then True else o_force e)) pkgs outpkgs)) (\<lambda>rc.
                 seq (if rc \<noteq> 0 \<and> \<not> same
                      then asrt (length outpkgs = 1 \<and> pkg_cmp_name_evr (iE e) (hd outpkgs) d = 0)
                             (seq (hand_over v (PmUninstall (plain False) outpkgs)) (\<lambda>_. ret ()))
                      else ret ()) (\<lambda>_. ret rc))))"

section \<open>A run\<close>

fun install_each :: "('s, 'h) i3env \<Rightarrow> nat \<Rightarrow> nat \<Rightarrow> pkg list \<Rightarrow> (('s, 'h) i3ctx, unit) op" where
  "install_each e k n [] = ret ()"
| "install_each e k n (p # ps) =
     seq (i3_install_package e k n p) (\<lambda>_. seq sigint_reached (\<lambda>b. if b then ret () else install_each e k n ps))"

text \<open>The errors that end a run, unless the user has chosen to ignore them.\<close>

definition refused :: "('s, 'h) ienv \<Rightarrow> ('s, 'h) i3ctx \<Rightarrow> bool" where
  "refused v c \<longleftrightarrow> i3_get_nerrors c (I3ERR_CLASS_DEP OR I3ERR_CLASS_CNFL) \<noteq> 0 \<and>
     (i3_get_nerrors c I3ERR_CLASS_DEP \<noteq> 0 \<and> \<not> (o_nodeps v \<or> o_rpmtest v) \<or>
      i3_get_nerrors c I3ERR_CLASS_CNFL \<noteq> 0 \<and> \<not> (o_force (ie v) \<or> o_rpmtest v))"

definition error_rc :: "('s, 'h) i3ctx \<Rightarrow> int" where
  "error_rc c = (if i3_get_nerrors c (I3ERR_CLASS_DEP OR I3ERR_CLASS_CNFL) \<noteq> 0 \<and>
      (i3_get_nerrors c I3ERR_CLASS_DEP \<noteq> 0 \<or> i3_get_nerrors c I3ERR_CLASS_CNFL \<noteq> 0) then 0 else 1)"

definition iset_packages_in_install_order :: "('s, 'h) ienv \<Rightarrow> (('s, 'h) i3ctx, pkg list) op" where
  "iset_packages_in_install_order v =
     seq (ask_opt (\<lambda>c. map_option (\<lambda>st. ((ordered st, length (is_pkgs (inset c))), c\<lparr>c_ps := vs_ps st\<rparr>))
         (pkgset_order (iE (ie v)) (iP (ie v)) (iR (ie v)) (c_ps c) (order_flags v) (is_pkgs (inset c)) PKGORDER_INSTALL)))
       (\<lambda>(pkgs, n). asrt (length pkgs = n) (ret pkgs))"

text \<open>From the ordered packages on.\<close>

definition commit_packages :: "('s, 'h) ienv \<Rightarrow> pkg list \<Rightarrow> (('s, 'h) irun, int) op" where
  "commit_packages v pkgs =
     seq (if o_rpmtest v then ret 1 else hand_over v Confirm) (\<lambda>yes. if yes = 0 then ret 1
     else seq (if o_nofetch v then ret 1 else hand_over v (PackagesFetch pkgs (cachedir v) False)) (\<lambda>fetched. if fetched = 0 then ret 0
     else seq (do_install v pkgs) (\<lambda>rc.
     seq (if \<not> o_rpmtest v \<and> ts_track v then update_iinf v (rc \<le> 0) else ret ()) (\<lambda>_.
     seq (if rc \<noteq> 0 \<and> \<not> (o_rpmtest v \<or> o_keep_downloads v \<or> o_nofetch v)
          then seq (hand_over v (FetchRemove pkgs (cachedir v))) (\<lambda>_. ret ()) else ret ()) (\<lambda>_. ret rc)))))"

definition install_packages :: "('s, 'h) ienv \<Rightarrow> nat \<Rightarrow> nat \<Rightarrow> (('s, 'h) irun, int) op" where
  "install_packages v k n =
     seq (rd (\<lambda>r. is_pkgs (inset (r_ctx r)))) (\<lambda>toinstall.
     seq (within (install_each (ie v) k n toinstall)) (\<lambda>_.
     seq (within stopped) (\<lambda>stop. if stop then ret 0
     else seq (rd r_ctx) (\<lambda>c. if refused v c then ret (error_rc c)
     else seq (within (iset_packages_in_install_order v)) (\<lambda>pkgs.
       if o_justprint v \<or> o_justprint_n v then hand_over v (PackagesDump pkgs (\<not> o_justprint_n v))
       else seq (rd (\<lambda>r. (is_pkgs (inset (r_ctx r)), is_pkgs (unset (r_ctx r))))) (\<lambda>(inpkgs, outpkgs).
         if \<not> o_justfetch v \<and> \<not> valid_arch_os v inpkgs then ret 0
         else if o_test v \<and> \<not> o_rpmtest v then ret (error_rc c)
         else if o_justfetch v
         then hand_over v (PackagesFetch pkgs (case fetchdir v of None \<Rightarrow> cachedir v | Some d \<Rightarrow> d) (fetchdir v \<noteq> None))
         else if o_hold (ie v) \<and> \<not> verify_held_packages v outpkgs then ret 0
         else commit_packages v pkgs))))))"

text \<open>
  Each package with its group alone, or all of them; the number of runs that failed and whether a
  signal has ended the loop.
\<close>

fun ts_install_loop ::
  "('s, 'h) ienv \<Rightarrow> nat \<Rightarrow> nat \<Rightarrow> bool \<Rightarrow> pkg list \<Rightarrow> nat \<Rightarrow> (('s, 'h) irun, nat \<times> bool) op" where
  "ts_install_loop v k n particle [] nerr = ret (nerr, False)"
| "ts_install_loop v k n particle (p # ps) nerr =
     seq (rd (\<lambda>r. marked_i (r_ctx r) p)) (\<lambda>m. if \<not> m then ts_install_loop v k n particle ps nerr
     else seq (within sigint_reached) (\<lambda>b. if b then ret (nerr, True)
     else seq (if particle then db_reopen v else ret ()) (\<lambda>_.
     seq (within (i3_mark_package (ie v) p PKGMARK_MARK)) (\<lambda>_.
       if \<not> particle then ts_install_loop v k n particle ps nerr
       else seq (within (i3_mark_namegroup (ie v) p)) (\<lambda>_.
            seq (install_packages v k n) (\<lambda>rc.
            seq (within (upd i3ctx_reset)) (\<lambda>_.
            ts_install_loop v k n particle ps (if rc = 0 then nerr + 1 else nerr))))))))"

definition i3_do_poldek_ts_install :: "('s, 'h) ienv \<Rightarrow> nat \<Rightarrow> nat \<Rightarrow> (('s, 'h) irun, bool) op" where
  "i3_do_poldek_ts_install v k n =
     seq (within (i3_pre_ts_install v)) (\<lambda>(rc, pkgs). if rc \<le> 0 then ret (rc = 0)
     else let alone = (length pkgs = 1 \<or> o_test v \<or> o_rpmtest v \<or> o_justprint v \<or> o_justprint_n v);
              particle = (if testing_mode (ie v) then True else if alone then False else o_particle v)
          in seq (ts_install_loop v k n particle pkgs 0) (\<lambda>(nerr, left).
             if left \<or> particle then ret (nerr = 0)
             else seq (install_packages v k n) (\<lambda>rc. ret (rc \<noteq> 0))))"

end
