(* ===== verification/I3done.thy ===== *)
theory I3done
  imports I3proc I3inst
begin

text \<open>
  The installation engine, eighth part: what happens around the recursion. The package set stays
  ready while packages are ordered; until packages are processed the state is idle; processing all
  of the installation set leaves it closed under requirements when nothing has gone wrong.
\<close>

lemma wp_within [simp]: "wp (within m) Q r = wp m (\<lambda>x c. Q x (r\<lparr>r_ctx := c\<rparr>)) (r_ctx r)"
  by (simp add: wp_def within_def split: sum.split prod.split)

section \<open>The order leaves the package set ready\<close>

lemma visit_keeps:
  assumes keep: "\<And>s p r s'. I s \<Longrightarrow> getreq s p = (r, s') \<Longrightarrow> I s'"
  shows "I (vs_ps v) \<Longrightarrow> visit_install_order getreq fl n v p = Some v' \<Longrightarrow> I (vs_ps v')"
proof (induction n arbitrary: v p v')
  case (Suc n)
  have ih: "visit_install_order getreq fl n v1 q = Some v2 \<Longrightarrow> I (vs_ps v1) \<Longrightarrow> I (vs_ps v2)" for v1 q v2
    by (rule Suc.IH)
  have rp: "visit_rp (visit_install_order getreq fl n) fl x v1 = Some v2 \<Longrightarrow> I (vs_ps v1) \<Longrightarrow> I (vs_ps v2)" for x v1 v2
    using ih by (cases "fl = 0") (fastforce simp: visit_rp_def Let_def split: if_splits prod.splits)+
  have rps: "visit_rps (visit_install_order getreq fl n) fl es v1 = Some v2 \<Longrightarrow> I (vs_ps v1) \<Longrightarrow> I (vs_ps v2)" for es v1 v2
    by (induction es arbitrary: v1) (auto simp: bind_eq_Some_conv dest: rp)
  obtain r s where g: "getreq (vs_ps v) p = (r, s)" by fastforce
  have s: "I s" by (rule keep [OF Suc.prems(1) g])
  show ?case using Suc.prems(2) g s
    by (auto simp: Let_def visit_end_def case_prod_beta split: if_splits dest!: rps)
qed simp

lemma do_order_keeps:
  assumes keep: "\<And>s p r s'. I s \<Longrightarrow> getreq s p = (r, s') \<Longrightarrow> I s'" and "I s" "do_order getreq rf s fl pkgs = Some v"
  shows "I (vs_ps v)"
proof -
  have "I (vs_ps v1) \<Longrightarrow> order_loop getreq rf n ps v1 = Some v2 \<Longrightarrow> I (vs_ps v2)" for n ps v1 v2
  proof (induction ps arbitrary: v1)
    case (Cons p ps)
    show ?case
    proof (cases "pkg_is_color (pflags v1) p PKG_COLOR_WHITE")
      case True
      then obtain v3 where v3: "visit_install_order getreq rf n v1 p = Some v3" "order_loop getreq rf n ps (v3\<lparr>stack := []\<rparr>) = Some v2"
        using Cons.prems(2) by (auto simp: bind_eq_Some_conv)
      have "I (vs_ps v3)" by (rule visit_keeps [of I getreq, OF _ Cons.prems(1) v3(1)]) (rule keep)
      then show ?thesis using Cons.IH [OF _ v3(2)] by simp
    next
      case False
      then show ?thesis using Cons.IH [OF Cons.prems(1)] Cons.prems(2) by simp
    qed
  qed simp
  from this [of "\<lparr>vs_ps = s, pflags = fold mapfn_clean_pkg_color pkgs fl, ordered = [], stack = [], nerrors = 0\<rparr>"]
  show ?thesis using assms(2,3) by (auto simp: do_order_def bind_eq_Some_conv split: if_splits)
qed

context ps_env
begin

lemma resolve_ready:
  assumes r: "ps_ready E P ps" and q: "resolve_req E P R p strict req ps = (ms, ps')"
  shows "ps_ready E P ps'" "set (ps_pkgs ps') = set (ps_pkgs ps)"
proof -
  obtain f qs ps1 where m: "pkgset_find_match_packages E P R ps (Some p) req strict = ((f, qs), ps1)" by (metis prod.exhaust)
  note m1 = find_match_ready [OF r m]
  have h: "pkgs_held P (set (ps_pkgs ps)) ps" "ps_good E ps" using r by (simp_all add: ps_ready_def)
  have "ps' = ps \<or> (\<exists>c. ps' = ps1\<lparr>req_cache := c\<rparr>)"
    using q m by (auto simp: resolve_req_def Let_def split: option.splits)
  then show "set (ps_pkgs ps') = set (ps_pkgs ps)" "ps_ready E P ps'"
    using resolve_held [OF h(1) q] resolve_req_good [OF h(2) q] m1 r by (auto simp: ps_ready_def)
qed

lemma required_ready:
  assumes r: "ps_ready E P ps" and g: "pkgset_get_required_packages E P R ps p = (x, ps')"
  shows "ps_ready E P ps'" "set (ps_pkgs ps') = set (ps_pkgs ps)"
proof -
  have all: "ps_ready E P ps2 \<and> set (ps_pkgs ps2) = set (ps_pkgs ps1)"
    if "ps_ready E P ps1" "resolve_all E P R p True rs ps1 = (res, ps2)" for rs ps1 res ps2
    using that
  proof (induction rs arbitrary: ps1 res)
    case (Cons req rs)
    show ?case
    proof (cases "capreq_is_rpmlib req")
      case False
      then obtain ms ps3 rest where q: "resolve_req E P R p True req ps1 = (ms, ps3)" "resolve_all E P R p True rs ps3 = (rest, ps2)"
        using Cons.prems(2) by (auto split: prod.splits)
      then show ?thesis using Cons.IH resolve_ready [OF Cons.prems(1) q(1)] by metis
    qed (use Cons in simp)
  qed simp
  let ?ok = "\<lambda>ps'. ps_ready E P ps' \<and> set (ps_pkgs ps') = set (ps_pkgs ps)"
  have c: "?ok (ps1\<lparr>reqpkgs_cache := c\<rparr>) = ?ok ps1" for ps1 c
    by (simp add: ps_ready_def pkgs_held_def)
  have x: "?ok ps2" if "?ok ps1" "pkgset_get_required_packages_x E P R ps1 p None = (r2, ps2, un2)" for ps1 r2 ps2 un2
  proof (cases "reqs p")
    case (Some rs)
    let ?ps = "case req_cache ps1 of None \<Rightarrow> ps1\<lparr>req_cache := Some (\<lambda>_. None)\<rparr> | Some _ \<Rightarrow> ps1"
    obtain res ps3 where res: "resolve_all E P R p True rs ?ps = (res, ps3)" by fastforce
    have "pkgs_held P A (ps1\<lparr>req_cache := Some (\<lambda>_. None)\<rparr>)" if "pkgs_held P A ps1" for A
      using that by (auto simp: pkgs_held_def)
    then have o: "?ok ?ps" using that(1) by (auto simp: ps_ready_def split: option.split)
    then have "?ok ps3" using all res by blast
    moreover have "fst (snd (process_reqs E P R p True rs [] ?ps None 0)) = ps3"
      using arg_cong [OF process_reqs_resolve [of E P R p True rs "[]" ?ps None 0], of "\<lambda>x. fst (snd x)"]
      unfolding res by simp
    moreover have "pkgset_index_caps E ?ps = ?ps" using o ready_ids(1) by blast
    ultimately show ?thesis using that(2) Some
      by (auto simp: pkgset_get_required_packages_x_def Let_def split: prod.splits)
  qed (use that in \<open>simp add: pkgset_get_required_packages_x_def\<close>)
  have "?ok (ps\<lparr>reqpkgs_cache := k\<rparr>)" for k unfolding c using r by simp
  moreover let ?c = "case reqpkgs_cache ps of None \<Rightarrow> (\<lambda>_. None) | Some c \<Rightarrow> c"
  obtain r1 ps1 un1 where x1: "pkgset_get_required_packages_x E P R (ps\<lparr>reqpkgs_cache := Some ?c\<rparr>) p None = (r1, ps1, un1)"
    by (metis prod.exhaust)
  ultimately have "?ok ps1" using x by blast
  moreover have "ps' = ps \<or> ps' = ps1 \<or> (\<exists>c. ps' = ps1\<lparr>reqpkgs_cache := c\<rparr>)"
    using g x1 by (auto simp: pkgset_get_required_packages_def Let_def split: option.splits)
  ultimately have "?ok ps'" using r c by metis
  then show "ps_ready E P ps'" "set (ps_pkgs ps') = set (ps_pkgs ps)" by blast+
qed

lemma order_ready:
  assumes r: "ps_ready E P ps" and o: "pkgset_order E P R ps fl pkgs ot = Some v"
  shows "ps_ready E P (vs_ps v) \<and> set (ps_pkgs (vs_ps v)) = set (ps_pkgs ps)"
proof -
  let ?I = "\<lambda>ps'. ps_ready E P ps' \<and> set (ps_pkgs ps') = set (ps_pkgs ps)"
  have keep: "?I s \<Longrightarrow> pkgset_get_required_packages E P R s p = (x, s') \<Longrightarrow> ?I s'" for s p x s'
    using required_ready by metis
  obtain u fl' pkgs' rf where p: "do_order (pkgset_get_required_packages E P R) 0 ps fl pkgs' = Some u"
    "do_order (pkgset_get_required_packages E P R) rf (vs_ps u) (pflags u) (ordered u) = Some v"
    using o by (auto simp: pkgset_order_def do_packages_order_def bind_eq_Some_conv Let_def split: if_splits)
  have "?I (vs_ps u)" by (rule do_order_keeps [where I = ?I, OF _ _ p(1)], rule keep) (use r in auto)
  then show ?thesis by (intro do_order_keeps [where I = ?I, OF _ _ p(2)]) (rule keep)
qed

end

section \<open>Before packages are processed\<close>

context i3_world
begin

definition idle :: "('s, 'h) i3ctx \<Rightarrow> bool" where
  "idle c \<longleftrightarrow> ready c \<and> i3stack c = [] \<and> tree (i3heap c) [] \<and> by_ptr (processed c) \<and> (\<forall>p. \<not> is_gray c p) \<and>
     by_nvr (is_pms (inset c)) \<and> set (is_pkgs (inset c)) \<subseteq> U \<and> (\<forall>p \<in> set (is_pkgs (inset c)). i3_is_marked c p)"

lemma idle_inv: "idle c \<Longrightarrow> inv c"
  by (simp add: idle_def inv_def base_def closed_def)

lemma idle_quiet: "idle c \<Longrightarrow> ready c' \<Longrightarrow> quiet c c' \<Longrightarrow> idle c'"
proof -
  assume a: "idle c" "ready c'" "quiet c c'"
  have "is_pms (inset c') = is_pms (inset c)" using a(3) by (simp add: quiet_def)
  then show ?thesis using a(1,2) quiet_same(1-3,5,8) [OF a(3)] by (simp add: idle_def)
qed

lemma idle_asks: "calm m \<Longrightarrow> idle c \<Longrightarrow> (\<And>x c'. idle c' \<Longrightarrow> Q x c') \<Longrightarrow> wp m Q c"
  by (erule asks_wp) (simp add: idle_def, blast intro: idle_quiet)

lemma mark_idle: "idle c \<Longrightarrow> p \<in> U \<Longrightarrow> wp (i3_mark_package e p fl) (\<lambda>_. idle) c"
  unfolding i3_mark_package_def wp_seq [of "rd f" for f] wp_rd wp_asrt wp_seq [of "i3_is_pkg_installable x y z" for x y z]
proof (intro impI, rule idle_asks [OF calm_installable], assumption, rule wp_if)
  fix rc :: int and c' assume p: "p \<in> U" and i: "idle c'"
  show "wp (seq (i3_stop_processing True) (\<lambda>_. ret False)) (\<lambda>_. idle) c'"
    using i by (simp add: i3_stop_processing_def idle_def ready_def)
  have b: "(f OR PKGMARK_ISET) AND PKGMARK_ISET \<noteq> 0" for f :: u32
    by (simp add: bit.conj_disj_distrib2 or_eq_0_iff)
  show "wp (seq (upd (\<lambda>c. if marked_i c0 p
                 then c\<lparr>ts_marks := pkgmark_set (ts_marks c) p False PKGMARK_INTERNAL,
                        inset := iset_add (inset c) p (fl OR PKGMARK_INTERNAL)\<rparr>
                 else c\<lparr>inset := iset_add (inset c) p fl\<rparr>)) (\<lambda>_. ret True)) (\<lambda>_. idle) c'" for c0 :: "('s, 'h) i3ctx"
    using i p b unfolding wp_seq wp_upd wp_ret idle_def
    by (auto simp: ready_def iset_has_pkg_def iset_ismarkedf_def iset_add_def iset_markf_def isset_set)
qed

lemma idle_ps: "idle c \<Longrightarrow> idle (c\<lparr>c_ps := ps_sorted (iE e) (iP e) (iR e) (c_ps c)\<rparr>)"
proof (rule idle_quiet [of c])
  assume "idle c"
  then have r: "ready c" by (simp add: idle_def)
  then show "ready (c\<lparr>c_ps := ps_sorted (iE e) (iP e) (iR e) (c_ps c)\<rparr>)"
    using ready_sorted by (simp add: ready_def)
qed (simp_all add: quiet_def)

lemma namegroup_idle: "idle c \<Longrightarrow> wp (i3_mark_namegroup e p) (\<lambda>_. idle) c"
proof -
  have loop: "set qs \<subseteq> U \<Longrightarrow> idle c \<Longrightarrow> wp (namegroup_loop e p prefix qs m) (\<lambda>_. idle) c" for prefix qs m c
  proof (induction qs arbitrary: m c)
    case (Cons q qs)
    have q: "q \<in> U" "set qs \<subseteq> U" using Cons.prems(1) by simp_all
    show ?case
      unfolding namegroup_loop.simps
    proof (rule wp_if, simp add: Cons.prems(2), unfold wp_seq [of "rd f" for f] wp_rd, rule wp_if)
      show "wp (seq (i3_mark_package e q PKGMARK_MARK) (\<lambda>_. namegroup_loop e p prefix qs (m + 1))) (\<lambda>_. idle) c"
        unfolding wp_seq by (rule wp_mono [OF mark_idle [OF Cons.prems(2) q(1)]]) (rule Cons.IH [OF q(2)])
    qed (rule Cons.IH [OF q(2) Cons.prems(2)])
  qed simp
  assume i: "idle c"
  let ?ps = "ps_sorted (iE e) (iP e) (iR e) (c_ps c)"
  have r: "ready c" using i by (simp add: idle_def)
  have s: "ps_ready (iE e) (iP e) ?ps" "set (ps_pkgs ?ps) = U"
    using ready_sorted r by (simp_all add: ready_def)
  have "ready (c\<lparr>c_ps := ?ps\<rparr>)" "quiet c (c\<lparr>c_ps := ?ps\<rparr>)" using r s by (simp_all add: ready_def quiet_def)
  then have "idle (c\<lparr>c_ps := ?ps\<rparr>)" using idle_quiet [OF i] by blast
  then show ?thesis
    unfolding i3_mark_namegroup_def Let_def wp_seq wp_ask fst_conv snd_conv using s(2)
    by (intro wp_if loop) (auto dest: in_set_dropD)
qed

text \<open>The marks of the transaction do not matter.\<close>

lemma idle_marks [simp]: "idle (c\<lparr>ts_marks := pms\<rparr>) \<longleftrightarrow> idle c"
  by (simp add: idle_def ready_def)

text \<open>Until a run starts the state is idle and no fuel is used.\<close>

definition stays :: "(('s, 'h) i3ctx, 'a) op \<Rightarrow> ('a \<Rightarrow> bool) \<Rightarrow> bool" where
  "stays m R \<longleftrightarrow> (\<forall>c. idle c \<longrightarrow> wp m (\<lambda>x c'. idle c' \<and> R x) c)"

lemma staysD: "stays m R \<Longrightarrow> idle c \<Longrightarrow> wp m (\<lambda>x c'. idle c' \<and> R x) c"
  by (simp add: stays_def)

lemma stays_seq: "stays m R \<Longrightarrow> (\<And>x. R x \<Longrightarrow> stays (f x) S) \<Longrightarrow> stays (seq m f) S"
  unfolding stays_def wp_seq
proof (intro allI impI)
  fix c assume a: "\<forall>c. idle c \<longrightarrow> wp m (\<lambda>x c'. idle c' \<and> R x) c" "idle c"
    "\<And>x. R x \<Longrightarrow> \<forall>c. idle c \<longrightarrow> wp (f x) (\<lambda>x c'. idle c' \<and> S x) c"
  have "wp m (\<lambda>x c'. idle c' \<and> R x) c" using a(1,2) by blast
  then show "wp m (\<lambda>x. wp (f x) (\<lambda>x c'. idle c' \<and> S x)) c" by (rule wp_mono) (use a(3) in blast)
qed

lemma stays_asks: "calm m \<Longrightarrow> stays m (\<lambda>_. True)"
  unfolding stays_def by (auto elim: idle_asks)

lemma stays_ret: "R x \<Longrightarrow> stays (ret x) R"
  by (simp add: stays_def)

lemma stays_if: "(b \<Longrightarrow> stays m R) \<Longrightarrow> (\<not> b \<Longrightarrow> stays m' R) \<Longrightarrow> stays (if b then m else m') R"
  by simp

lemma stays_option: "(v = None \<Longrightarrow> stays m R) \<Longrightarrow> (\<And>x. v = Some x \<Longrightarrow> stays (f x) R) \<Longrightarrow>
    stays (case v of None \<Rightarrow> m | Some x \<Rightarrow> f x) R"
  by (cases v) simp_all

lemma stays_split: "(\<And>a b. p = (a, b) \<Longrightarrow> stays (f a b) R) \<Longrightarrow> stays (case p of (a, b) \<Rightarrow> f a b) R"
  by (cases p) simp

lemma stays_then: "stays m (\<lambda>_. True) \<Longrightarrow> (\<And>x. stays (f x) S) \<Longrightarrow> stays (seq m f) S"
  by (rule stays_seq)

lemma stays_icap: "stays (prepare_icap e cap pkgs) (\<lambda>_. True)"
proof -
  have hand: "stays (mark_hand p) (\<lambda>_. True)" for p by (simp add: stays_def mark_hand_def)
  have choose: "stays (i3_choose_equiv e op cap' pkgs hint) (\<lambda>_. True)" for op cap' hint
    unfolding i3_choose_equiv_def Let_def stays_def by (auto simp: idle_def ready_def)
  have die: "stays (asrt b (ret x)) (\<lambda>_. True)" for b and x :: "pkg option" by (simp add: stays_def)
  show ?thesis
    unfolding prepare_icap_def
    by (intro stays_then [OF stays_asks [OF calm_db_search]] stays_split stays_option stays_if stays_then
        choose die hand stays_ret TrueI)
qed

lemma stays_dups: "stays (unmark_name_duplicates e) (\<lambda>_. True)"
  by (auto simp: stays_def unmark_name_duplicates_def Let_def idle_ps split: prod.split)

lemma stays_mark_i: "set ps \<subseteq> U \<Longrightarrow> set acc \<subseteq> U \<Longrightarrow> stays (mark_i_loop e ps acc) (\<lambda>r. \<forall>qs. r = Some qs \<longrightarrow> set qs \<subseteq> U)"
proof (induction ps arbitrary: acc)
  case (Cons p ps)
  have u: "stays (upd (\<lambda>c. c\<lparr>ts_marks := f (ts_marks c)\<rparr>)) (\<lambda>_. True)" for f by (simp add: stays_def)
  show ?case
    unfolding mark_i_loop.simps
    by (intro stays_then [OF stays_asks [OF calm_rd]] stays_if Cons.IH stays_then [OF stays_asks [OF calm_sigint]]
        stays_then [OF stays_asks [OF calm_installable]] stays_then [OF u] stays_ret) (use Cons.prems in auto)
qed (simp add: stays_ret)

lemma stays_pre:
  assumes "ie v = e"
  shows "stays (i3_pre_ts_install v) (\<lambda>(rc, pkgs). set pkgs \<subseteq> U)"
proof -
  have icaps: "stays (prepare_icaps_loop e icaps) (\<lambda>_. True)" for icaps
    by (induction icaps) (auto intro!: stays_ret stays_then [OF stays_icap] stays_if)
  have rd: "stays (rd (\<lambda>c. ps_pkgs (c_ps c))) (\<lambda>all. set all \<subseteq> U)" by (simp add: stays_def idle_def ready_def)
  show ?thesis
    unfolding i3_pre_ts_install_def i3_prepare_icaps_def assms
    by (intro stays_then [OF icaps] stays_if stays_ret stays_then [OF stays_dups] stays_seq [OF rd] stays_seq [OF stays_mark_i] stays_option)
      auto
qed

end

section \<open>Processing all packages\<close>

context i3_world
begin

lemma sigint_wp:
  assumes "inv c" "\<And>b c'. inv c' \<Longrightarrow> adv c c' \<Longrightarrow> (b \<Longrightarrow> \<not> clean c') \<Longrightarrow> Q b c'"
  shows "wp sigint_reached Q c"
proof -
  define c1 where "c1 = c\<lparr>signal_in := map_option (\<lambda>n. n - 1) (signal_in c)\<rparr>"
  have "ready c1" "quiet c c1" using invD(1) [OF assms(1)] by (auto simp: c1_def ready_def quiet_def)
  note i = quiet_inv [OF assms(1) this]
  have "Q (signal_in c = Some 0) c1" by (rule assms(2) [OF i]) (auto simp: c1_def clean_def)
  then show ?thesis by (simp add: sigint_reached_def c1_def)
qed

lemma install_each_wp:
  assumes k: "card U < k"
  shows "inv c \<Longrightarrow> room (Suc n) c \<Longrightarrow> set ps \<subseteq> U \<Longrightarrow> (\<And>p. clean c \<Longrightarrow> p \<in> set ps \<Longrightarrow> i3_is_marked c p) \<Longrightarrow>
    wp (install_each e k n ps) (\<lambda>_ c'. inv c' \<and> adv c c' \<and> (clean c' \<longrightarrow> (\<forall>p \<in> set ps. is_gray c' p))) c"
proof (induction ps arbitrary: c)
  case (Cons p ps)
  let ?Q = "\<lambda>_ c'. inv c' \<and> adv c c' \<and> (clean c' \<longrightarrow> (\<forall>q \<in> set (p # ps). is_gray c' q))"
  have p: "p \<in> U" "set ps \<subseteq> U" using Cons.prems(3) by simp_all
  show ?case
    unfolding install_each.simps wp_seq
  proof (rule wp_mono [OF install_package_wp [OF Cons.prems(1,2) k p(1)]], simp add: Cons.prems(4), elim conjE)
    fix b c1 assume 1: "inv c1" "adv c c1" "clean c1 \<longrightarrow> b \<and> is_gray c1 p"
    show "wp sigint_reached (\<lambda>b. wp (if b then ret () else install_each e k n ps) ?Q) c1"
    proof (rule sigint_wp [OF 1(1)], rule wp_if)
      fix b c2 assume "inv c2" "adv c1 c2" "b \<Longrightarrow> \<not> clean c2" "b"
      then show "wp (ret ()) ?Q c2" using adv_trans [OF 1(2)] by simp
    next
      fix b c2 assume 2: "inv c2" "adv c1 c2"
      have a2: "adv c c2" using 1(2) 2(2) by (rule adv_trans)
      have m: "i3_is_marked c2 q" if "clean c2" "q \<in> set ps" for q
        using advD(3,4) [OF a2 that(1)] Cons.prems(4) that(2) by simp
      have "room (Suc n) c2" using Cons.prems(2) room_adv [OF a2] by blast
      then show "wp (install_each e k n ps) ?Q c2"
        by (rule wp_mono [OF Cons.IH [OF 2(1) _ p(2) m]])
          (use 1(3) adv_trans [OF a2] advD(3,5) [OF 2(2)] advD(3,5) in auto)
    qed
  qed
qed simp

text \<open>What a run's processing leaves, from an idle state on.\<close>

definition processed_set :: "('s, 'h) i3ctx \<Rightarrow> bool" where
  "processed_set c \<longleftrightarrow> inv c \<and> i3stack c = [] \<and> (clean c \<longrightarrow> (\<forall>p \<in> set (is_pkgs (inset c)). p \<in> U \<and> is_gray c p))"

lemma install_each_all:
  assumes k: "card U < k" and n: "card U \<le> n" and c: "idle c" and ps: "ps = is_pkgs (inset c)"
  shows "wp (install_each e k n ps) (\<lambda>_. processed_set) c"
proof -
  have "room (Suc n) c" using n by (simp add: room_def)
  moreover have "set ps \<subseteq> U" "\<And>p. p \<in> set ps \<Longrightarrow> i3_is_marked c p" "i3stack c = []" using c by (auto simp: ps idle_def)
  ultimately have w: "wp (install_each e k n ps) (\<lambda>_ c'. inv c' \<and> adv c c' \<and> (clean c' \<longrightarrow> (\<forall>p \<in> set ps. is_gray c' p))) c"
    using install_each_wp [OF k idle_inv [OF c]] by blast
  show ?thesis
  proof (rule wp_mono [OF w], elim conjE)
    fix c' assume a: "inv c'" "adv c c'" "clean c' \<longrightarrow> (\<forall>p \<in> set ps. is_gray c' p)"
    have "p \<in> U \<and> is_gray c' p" if "clean c'" "p \<in> set (is_pkgs (inset c'))" for p
    proof -
      have "p \<in> set ps \<or> p \<in> U \<and> is_gray c' p" using a(2) that unfolding adv_def ps by blast
      then show ?thesis using a(3) that(1) \<open>set ps \<subseteq> U\<close> by blast
    qed
    then show "processed_set c'" using a(1) advD(1) [OF a(2)] \<open>i3stack c = []\<close> by (simp add: processed_set_def)
  qed
qed

lemma processed_quiet: "processed_set c \<Longrightarrow> ready c' \<Longrightarrow> quiet c c' \<Longrightarrow> processed_set c'"
proof -
  assume a: "processed_set c" "ready c'" "quiet c c'"
  then have i: "inv c" by (simp add: processed_set_def)
  show "processed_set c'"
    using a(1) quiet_inv [OF i a(2,3)] quiet_same(2,3,8) [OF a(3)] quiet_clean [OF a(3)] by (auto simp: processed_set_def)
qed

text \<open>The packages to be installed have what they require.\<close>

lemma processed_served:
  assumes "processed_set c" "clean c" "p \<in> set (is_pkgs (inset c))" "req \<in> wanted p"
  shows "in_db req \<or> pm_satisfies (iP e) req \<or> (\<exists>q \<in> U. fits req q \<and> i3_is_marked c q)"
proof -
  have p: "p \<in> U" "is_gray c p" and i: "inv c" and st: "i3stack c = []" using assms(1-3) by (auto simp: processed_set_def)
  have "i3_is_marked c p" "served c p" using i assms(2) p st by (simp_all add: inv_def closed_def)
  moreover have "q = p" if "q \<in> U" "addr q = addr p" for q using addr_U [OF invD(1) [OF i] that(1) p(1)] that(2) by blast
  ultimately show ?thesis using assms(4) unfolding served_def met_def by blast
qed

end

end
