(* ===== verification/I3runs.thy ===== *)
theory I3runs
  imports I3done
begin

text \<open>
  The installation engine, last part: whole runs of it. They end, whatever is asked and answered, and
  when nothing has gone wrong the packages handed to the package manager are closed under requirements.
\<close>

section \<open>Runs\<close>

text \<open>Opened anew, the database is in order again, whatever is installed by then.\<close>

locale i3_runs = pm_db "iE (ie v)" "iP (ie v)" "iM (ie v)" good held plain
  for v :: "('s, 'h) ienv" and good held plain +
  fixes U :: "pkg set"
  assumes reopened_ok: "db_ok good db \<Longrightarrow> db_ok good (reopened v hs db)"

context i3_runs
begin

lemma world: "i3_world (ie v) good held plain"
  by (rule i3_world.intro) (rule pm_db_axioms)

definition run_ready :: "('s, 'h) i3ctx \<Rightarrow> bool" where
  "run_ready c \<longleftrightarrow> i3_world.ready (ie v) good held U (held (dbh (c_db c))) c"

lemma ready_run: "i3_world.ready (ie v) good held U H c \<Longrightarrow> run_ready c"
  by (simp add: run_ready_def i3_world.ready_def [OF world])

lemma reopen_ready: "run_ready c \<Longrightarrow> run_ready (c\<lparr>c_db := reopened v hs (c_db c)\<rparr>)"
  using reopened_ok by (simp add: run_ready_def i3_world.ready_def [OF world])

text \<open>What hands over nothing but \<open>S\<close> to the package manager and settles nothing anew.\<close>

definition carried :: "pkg list \<Rightarrow> ('s, 'h) irun \<Rightarrow> ('s, 'h) irun \<Rightarrow> bool" where
  "carried S r r' \<longleftrightarrow> run_ready (r_ctx r') \<and> i3_world.quiet (r_ctx r) (r_ctx r') \<and>
     (\<exists>hs. handed r' = handed r @ hs \<and> (\<forall>mode ps outs. PmInstall mode ps outs \<in> set hs \<longrightarrow> ps = S))"

lemma carried_trans: "carried S r r1 \<Longrightarrow> carried S r1 r2 \<Longrightarrow> carried S r r2"
  unfolding carried_def using i3_world.quiet_trans [OF world] by fastforce

lemma carried_refl: "run_ready (r_ctx r) \<Longrightarrow> carried S r r"
  by (simp add: carried_def i3_world.quiet_refl [OF world])

definition tidy :: "pkg list \<Rightarrow> (('s, 'h) irun, 'a) op \<Rightarrow> bool" where
  "tidy S m \<longleftrightarrow> (\<forall>r. run_ready (r_ctx r) \<longrightarrow> wp m (\<lambda>_. carried S r) r)"

lemma tidyI: "(\<And>r. run_ready (r_ctx r) \<Longrightarrow> wp m (\<lambda>_. carried S r) r) \<Longrightarrow> tidy S m"
  by (simp add: tidy_def)

lemma tidy_wp: "tidy S m \<Longrightarrow> run_ready (r_ctx r) \<Longrightarrow> (\<And>x r'. carried S r r' \<Longrightarrow> Q x r') \<Longrightarrow> wp m Q r"
  unfolding tidy_def by (auto elim!: wp_mono)

lemma tidy_ret: "tidy S (ret x)"
  by (rule tidyI) (simp add: carried_refl)

lemma tidy_asrt: "tidy S m \<Longrightarrow> tidy S (asrt b m)"
  by (simp add: tidy_def)

lemma tidy_seq: "tidy S m \<Longrightarrow> (\<And>x. tidy S (f x)) \<Longrightarrow> tidy S (seq m f)"
proof (rule tidyI)
  fix r :: "('s, 'h) irun" assume a: "tidy S m" "\<And>x. tidy S (f x)" "run_ready (r_ctx r)"
  show "wp (seq m f) (\<lambda>_. carried S r) r"
    unfolding wp_seq
  proof (rule tidy_wp [OF a(1,3)], rule tidy_wp [OF a(2)])
    fix x y r1 r2 assume 1: "carried S r r1"
    show "run_ready (r_ctx r1)" using 1 by (simp add: carried_def)
    show "carried S r r2" if "carried S r1 r2" using 1 that by (rule carried_trans)
  qed
qed

lemma tidy_if: "(b \<Longrightarrow> tidy S m) \<Longrightarrow> (\<not> b \<Longrightarrow> tidy S m') \<Longrightarrow> tidy S (if b then m else m')"
  by simp

lemma tidy_split: "(\<And>a b. p = (a, b) \<Longrightarrow> tidy S (f a b)) \<Longrightarrow> tidy S (case p of (a, b) \<Rightarrow> f a b)"
  by (cases p) simp

lemma tidy_option: "(x = None \<Longrightarrow> tidy S m) \<Longrightarrow> (\<And>y. x = Some y \<Longrightarrow> tidy S (f y)) \<Longrightarrow>
    tidy S (case x of None \<Rightarrow> m | Some y \<Rightarrow> f y)"
  by (cases x) simp_all

lemma tidy_rd: "tidy S (rd f)"
  by (rule tidyI) (simp add: carried_refl)

lemma tidy_hand_over: "(\<And>mode ps outs. h = PmInstall mode ps outs \<Longrightarrow> ps = S) \<Longrightarrow> tidy S (hand_over v h)"
  by (rule tidyI) (force simp: hand_over_def carried_def i3_world.quiet_refl [OF world])

lemma tidy_within:
  assumes "\<And>H. i3_world.asks (ie v) good held U H m (\<lambda>_ _. True)"
  shows "tidy S (within m)"
proof (rule tidyI)
  fix r :: "('s, 'h) irun" assume "run_ready (r_ctx r)"
  then have "i3_world.ready (ie v) good held U (held (dbh (c_db (r_ctx r)))) (r_ctx r)" by (simp add: run_ready_def)
  then have "wp m (\<lambda>_ c. run_ready c \<and> i3_world.quiet (r_ctx r) c) (r_ctx r)"
    by (rule i3_world.asks_wp [OF world assms]) (simp add: ready_run)
  then show "wp (within m) (\<lambda>_. carried S r) r" by (simp add: carried_def)
qed

lemma tidy_installed: "tidy S (within (i3_is_pkg_installed (ie v) p))"
  by (rule tidy_within) (rule i3_world.calm_installed [OF world])

lemma tidy_reopen: "tidy S (db_reopen v)"
  by (rule tidyI) (simp add: db_reopen_def carried_def reopen_ready i3_world.quiet_def [OF world])

lemma tidy_iinf: "tidy S (update_iinf v vrfy)"
proof -
  have there: "tidy S (still_there v b ps)" for b ps
    by (induction ps) (auto intro!: tidy_ret tidy_seq tidy_installed tidy_split)
  have u: "tidy S (upd (\<lambda>r. r\<lparr>pkgs_installed := f r, pkgs_removed := g r\<rparr>))" for f g
    by (rule tidyI) (simp add: carried_def i3_world.quiet_refl [OF world])
  show ?thesis
    unfolding update_iinf_def by (intro tidy_seq tidy_rd tidy_split tidy_if tidy_reopen tidy_ret there u)
qed

lemma tidy_commit: "tidy pkgs (commit_packages v pkgs)"
  unfolding commit_packages_def do_install_def Let_def
  by (intro tidy_seq tidy_if tidy_ret tidy_hand_over tidy_rd tidy_split tidy_option tidy_asrt tidy_iinf) simp_all

end

section \<open>A run from an idle state\<close>

text \<open>What is known when packages are handed to the package manager.\<close>

definition install_order_of :: "('s, 'h) ienv \<Rightarrow> ('s, 'h) i3ctx \<Rightarrow> pkg list \<Rightarrow> bool" where
  "install_order_of v c ps \<longleftrightarrow> (\<exists>av pkgs st. set pkgs = set (is_pkgs (inset c)) \<and>
     pkgset_order (iE (ie v)) (iP (ie v)) (iR (ie v)) av (order_flags v) pkgs PKGORDER_INSTALL = Some st \<and> ps = ordered st)"

definition may_install :: "('s, 'h) ienv \<Rightarrow> ('s, 'h) i3ctx \<Rightarrow> bool" where
  "may_install v c \<longleftrightarrow> \<not> refused v c \<and> valid_arch_os v (is_pkgs (inset c)) \<and>
     \<not> o_justprint v \<and> \<not> o_justprint_n v \<and> \<not> o_justfetch v \<and> (o_test v \<longrightarrow> o_rpmtest v)"

context i3_world
begin

lemma asks_order:
  assumes "ie v = e"
  shows "asks (iset_packages_in_install_order v) (\<lambda>c ps. install_order_of v c ps)"
  unfolding iset_packages_in_install_order_def assms
proof (rule asks_seq [where S = "\<lambda>x _ y. y = fst x" and R = "\<lambda>c x. install_order_of v c (fst x)"], rule asks_ask_opt)
  fix c x c' assume c: "ready c" and o: "map_option (\<lambda>st. ((ordered st, length (is_pkgs (inset c))), c\<lparr>c_ps := vs_ps st\<rparr>))
         (pkgset_order (iE e) (iP e) (iR e) (c_ps c) (order_flags v) (is_pkgs (inset c)) PKGORDER_INSTALL) = Some (x, c')"
  then obtain st where st: "pkgset_order (iE e) (iP e) (iR e) (c_ps c) (order_flags v) (is_pkgs (inset c)) PKGORDER_INSTALL = Some st"
    "x = (ordered st, length (is_pkgs (inset c)))" "c' = c\<lparr>c_ps := vs_ps st\<rparr>" by auto
  have "ps_ready (iE e) (iP e) (c_ps c)" using c by (simp add: ready_def)
  from order_ready [OF this st(1)] show "ready c' \<and> quiet c c' \<and> install_order_of v c (fst x)"
    using c st assms by (auto simp: ready_def quiet_def install_order_of_def)
next
  show "asks (case x of (pkgs, n) \<Rightarrow> asrt (length pkgs = n) (ret pkgs)) (\<lambda>_ y. y = fst x)" for x :: "pkg list \<times> nat"
    by (intro asks_split asks_asrt asks_ret) simp
qed simp

lemma quiet_refused: "quiet c c' \<Longrightarrow> refused v c' \<longleftrightarrow> refused v c"
  by (simp add: refused_def i3_get_nerrors_def quiet_def)

lemma quiet_order: "quiet c c' \<Longrightarrow> install_order_of v c' ps \<longleftrightarrow> install_order_of v c ps"
  by (simp add: install_order_of_def quiet_def)

lemma quiet_may: "quiet c c' \<Longrightarrow> may_install v c' \<longleftrightarrow> may_install v c"
  using quiet_refused [of c c' v] by (simp add: may_install_def valid_arch_os_def list_ex_iff quiet_def)

end

context i3_runs
begin

text \<open>What a run leaves: a state a run can start from after a reset, and what has been handed over.\<close>

definition run_done :: "'h pm_dbrec set \<Rightarrow> ('s, 'h) irun \<Rightarrow> ('s, 'h) irun \<Rightarrow> bool" where
  "run_done H r r' \<longleftrightarrow> run_ready (r_ctx r') \<and>
     (\<exists>c. i3_world.processed_set (ie v) good held plain U H c \<and> i3_world.quiet c (r_ctx r')) \<and>
     (\<exists>hs. handed r' = handed r @ hs \<and>
       (\<forall>mode ps outs. PmInstall mode ps outs \<in> set hs \<longrightarrow> may_install v (r_ctx r') \<and> install_order_of v (r_ctx r') ps))"

lemma run_doneI:
  assumes "i3_world.processed_set (ie v) good held plain U H (r_ctx r1)" "handed r1 = handed r" "carried pkgs r1 r'"
    "may_install v (r_ctx r1)" "install_order_of v (r_ctx r1) pkgs"
  shows "run_done H r r'"
proof -
  have q: "i3_world.quiet (r_ctx r1) (r_ctx r')" using assms(3) by (simp add: carried_def)
  show ?thesis
    using assms i3_world.quiet_may [OF world q, of v] i3_world.quiet_order [OF world q, of v]
    unfolding run_done_def carried_def by metis
qed

lemma run_done_none:
  assumes "i3_world.processed_set (ie v) good held plain U H (r_ctx r1)" "handed r' = handed r1 @ hs" "handed r1 = handed r"
    "r_ctx r' = r_ctx r1" "\<And>mode ps outs. PmInstall mode ps outs \<notin> set hs"
  shows "run_done H r r'"
proof -
  have "i3_world.inv (ie v) good held plain U H (r_ctx r1)" using assms(1) by (simp add: i3_world.processed_set_def [OF world])
  then have "run_ready (r_ctx r1)" by (intro ready_run i3_world.invD(1) [OF world])
  then show ?thesis using assms i3_world.quiet_refl [OF world] unfolding run_done_def by metis
qed

lemma run_done_same:
  assumes "i3_world.processed_set (ie v) good held plain U H (r_ctx r1)" "handed r1 = handed r"
  shows "run_done H r r1"
  by (rule run_done_none [OF assms(1) _ assms(2) refl, of "[]"]) simp_all

lemma run_done_other:
  assumes "i3_world.processed_set (ie v) good held plain U H (r_ctx r1)" "handed r1 = handed r"
    "\<And>mode ps outs. h \<noteq> PmInstall mode ps outs"
  shows "wp (hand_over v h) (\<lambda>_. run_done H r) r1"
  unfolding hand_over_def wp_ask
  by (rule run_done_none [OF assms(1) _ assms(2)], simp, simp, simp, metis assms(3))

text \<open>From the end of the processing on.\<close>

lemma install_rest_wp:
  assumes p: "i3_world.processed_set (ie v) good held plain U H (r_ctx r1)" and h: "handed r1 = handed r"
  shows "wp (seq (within stopped) (\<lambda>stop. if stop then ret 0
     else seq (rd r_ctx) (\<lambda>c. if refused v c then ret (error_rc c)
     else seq (within (iset_packages_in_install_order v)) (\<lambda>pkgs.
       if o_justprint v \<or> o_justprint_n v then hand_over v (PackagesDump pkgs (\<not> o_justprint_n v))
       else seq (rd (\<lambda>r. (is_pkgs (inset (r_ctx r)), is_pkgs (unset (r_ctx r))))) (\<lambda>(inpkgs, outpkgs).
         if \<not> o_justfetch v \<and> \<not> valid_arch_os v inpkgs then ret 0
         else if o_test v \<and> \<not> o_rpmtest v then ret (error_rc c)
         else if o_justfetch v
         then hand_over v (PackagesFetch pkgs (case fetchdir v of None \<Rightarrow> cachedir v | Some d \<Rightarrow> d) (fetchdir v \<noteq> None))
         else if o_hold (ie v) \<and> \<not> verify_held_packages v outpkgs then ret 0
         else commit_packages v pkgs))))) (\<lambda>_. run_done H r) r1"
proof -
  have ready: "i3_world.ready (ie v) good held U H (r_ctx r2)" if "i3_world.processed_set (ie v) good held plain U H (r_ctx r2)"
    for r2 :: "('s, 'h) irun"
    using that i3_world.invD(1) [OF world, of U H "r_ctx r2"] by (simp add: i3_world.processed_set_def [OF world])
  show ?thesis
    unfolding wp_seq [of "within m" for m] wp_within
  proof (rule i3_world.asks_wp [OF world i3_world.calm_stopped [OF world] ready [OF p]], rule wp_if)
    fix stop c2 assume c2: "i3_world.ready (ie v) good held U H c2" "i3_world.quiet (r_ctx r1) c2"
    let ?r2 = "r1\<lparr>r_ctx := c2\<rparr>"
    have p2: "i3_world.processed_set (ie v) good held plain U H (r_ctx ?r2)"
      using i3_world.processed_quiet [OF world p c2] by simp
    have h2: "handed ?r2 = handed r" using h by simp
    note same = run_done_same [OF p2 h2]
    show "wp (ret 0) (\<lambda>_. run_done H r) ?r2" unfolding wp_ret by (rule same)
    show "wp (seq (rd r_ctx) (\<lambda>c. if refused v c then ret (error_rc c)
     else seq (within (iset_packages_in_install_order v)) (\<lambda>pkgs.
       if o_justprint v \<or> o_justprint_n v then hand_over v (PackagesDump pkgs (\<not> o_justprint_n v))
       else seq (rd (\<lambda>r. (is_pkgs (inset (r_ctx r)), is_pkgs (unset (r_ctx r))))) (\<lambda>(inpkgs, outpkgs).
         if \<not> o_justfetch v \<and> \<not> valid_arch_os v inpkgs then ret 0
         else if o_test v \<and> \<not> o_rpmtest v then ret (error_rc c)
         else if o_justfetch v
         then hand_over v (PackagesFetch pkgs (case fetchdir v of None \<Rightarrow> cachedir v | Some d \<Rightarrow> d) (fetchdir v \<noteq> None))
         else if o_hold (ie v) \<and> \<not> verify_held_packages v outpkgs then ret 0
         else commit_packages v pkgs)))) (\<lambda>_. run_done H r) ?r2"
      unfolding wp_seq [of "rd f" for f] wp_rd
    proof (rule wp_if, unfold wp_ret, rule same, unfold wp_seq [of "within m" for m] wp_within,
        rule i3_world.asks_wp [OF world i3_world.asks_order [OF world refl] ready [OF p2]])
      fix pkgs c3 assume nr: "\<not> refused v (r_ctx ?r2)" and c3: "i3_world.ready (ie v) good held U H c3" "i3_world.quiet (r_ctx ?r2) c3"
        and o: "install_order_of v (r_ctx ?r2) pkgs"
      let ?r3 = "?r2\<lparr>r_ctx := c3\<rparr>"
      have p3: "i3_world.processed_set (ie v) good held plain U H (r_ctx ?r3)"
        using i3_world.processed_quiet [OF world p2 c3] by simp
      have h3: "handed ?r3 = handed r" using h by simp
      note same3 = run_done_same [OF p3 h3] and other3 = run_done_other [OF p3 h3]
      have o3: "install_order_of v (r_ctx ?r3) pkgs" and nr3: "\<not> refused v (r_ctx ?r3)"
        using o nr i3_world.quiet_order [OF world c3(2)] i3_world.quiet_refused [OF world c3(2), of v] by simp_all
      have last: "wp (commit_packages v pkgs) (\<lambda>_. run_done H r) ?r3" if "may_install v (r_ctx ?r3)"
        by (rule tidy_wp [OF tidy_commit]) (use ready_run [OF ready [OF p3]] run_doneI [OF p3 h3 _ that o3] in auto)
      show "wp (if o_justprint v \<or> o_justprint_n v then hand_over v (PackagesDump pkgs (\<not> o_justprint_n v))
       else seq (rd (\<lambda>r. (is_pkgs (inset (r_ctx r)), is_pkgs (unset (r_ctx r))))) (\<lambda>(inpkgs, outpkgs).
         if \<not> o_justfetch v \<and> \<not> valid_arch_os v inpkgs then ret 0
         else if o_test v \<and> \<not> o_rpmtest v then ret (error_rc (r_ctx ?r2))
         else if o_justfetch v
         then hand_over v (PackagesFetch pkgs (case fetchdir v of None \<Rightarrow> cachedir v | Some d \<Rightarrow> d) (fetchdir v \<noteq> None))
         else if o_hold (ie v) \<and> \<not> verify_held_packages v outpkgs then ret 0
         else commit_packages v pkgs)) (\<lambda>_. run_done H r) ?r3"
        unfolding wp_seq [of "rd f" for f] wp_rd case_prod_conv wp_ret
        by (rule wp_if, rule other3, simp, unfold wp_seq [of "rd f" for f] wp_rd case_prod_conv, intro wp_if last other3,
          unfold wp_ret) (use nr3 same3 in \<open>auto simp: may_install_def\<close>)
    qed
  qed
qed

lemma install_packages_wp:
  assumes k: "card U < k" and n: "card U \<le> n" and i: "i3_world.idle (ie v) good held U H (r_ctx r)"
  shows "wp (install_packages v k n) (\<lambda>_. run_done H r) r"
  unfolding install_packages_def wp_seq [of "rd f" for f] wp_rd wp_seq [of "within (install_each x y z w)" for x y z w] wp_within
  by (rule wp_mono [OF i3_world.install_each_all [OF world k n i refl]], rule install_rest_wp) simp_all

end

section \<open>All of it\<close>

definition irun_init :: "('s, 'h) pkgdb \<Rightarrow> pkgset \<Rightarrow> pmark_set \<Rightarrow> nat option \<Rightarrow> ('s, 'h) irun" where
  "irun_init db ps pms sig = \<lparr>r_ctx = i3ctx_init db ps pms sig, handed = [], pkgs_installed = [], pkgs_removed = []\<rparr>"

text \<open>Nothing has gone wrong: no error, no abort, no signal, no package given up.\<close>

definition nothing_wrong :: "pkg set \<Rightarrow> ('s, 'h) i3ctx \<Rightarrow> bool" where
  "nothing_wrong U c \<longleftrightarrow> i3errors c = [] \<and> \<not> i3abort c \<and> signal_in c \<noteq> Some 0 \<and> (\<forall>p \<in> U. \<not> is_black c p)"

text \<open>A requirement on a name, less those the engine evaluates or leaves to the package manager.\<close>

definition name_req :: "('s, 'h) i3env \<Rightarrow> (string \<Rightarrow> bool) \<Rightarrow> capreq \<Rightarrow> bool" where
  "name_req e plain req \<longleftrightarrow> \<not> capreq_is_file req \<and> \<not> capreq_is_rpmlib req \<and> cr_name req \<noteq> ''elf(buildid)'' \<and>
     plain (cr_name req) \<and> \<not> req_is_boolean e req"

context i3_world
begin

lemma clean_nothing: "clean c \<longleftrightarrow> nothing_wrong U c"
  by (auto simp: clean_def nothing_wrong_def)

lemma idle_init:
  assumes "ps_ready (iE e) (iP e) ps" "set (ps_pkgs ps) = U" "db_ok good db" "held (dbh db) = H"
  shows "idle (i3ctx_init db ps pms sig)"
  using assms
  by (auto simp: idle_def ready_def i3ctx_init_def iset_new_def recnos_ok_def tree_def edges_def by_ptr_def by_nvr_def
      pkgmark_set_new_def pkgmark_isset_def)

lemma asks_sigint: "asks sigint_reached (\<lambda>c b. b \<longrightarrow> signal_in c = Some 0)"
  unfolding sigint_reached_def by (rule asks_ask) (auto simp: ready_def quiet_def)

lemma sigint_idle:
  assumes "idle c" "\<And>b c'. idle c' \<Longrightarrow> (b \<Longrightarrow> \<not> clean c') \<Longrightarrow> Q b c'"
  shows "wp sigint_reached Q c"
proof (rule asks_wp [OF asks_sigint])
  show "ready c" using assms(1) by (simp add: idle_def)
  fix b c' assume a: "ready c'" "quiet c c'" "b \<longrightarrow> signal_in c = Some 0"
  have "b \<Longrightarrow> \<not> clean c'" using a(2,3) by (auto simp: clean_def quiet_def)
  then show "Q b c'" using assms(2) idle_quiet [OF assms(1) a(1,2)] by blast
qed

end

context i3_runs
begin

definition run_idle :: "('s, 'h) i3ctx \<Rightarrow> bool" where
  "run_idle c \<longleftrightarrow> (\<exists>H. i3_world.idle (ie v) good held U H c)"

lemma idle_reopen: "run_idle c \<Longrightarrow> run_idle (c\<lparr>c_db := reopened v hs (c_db c)\<rparr>)"
proof -
  assume "run_idle c"
  then obtain H where i: "i3_world.idle (ie v) good held U H c" by (auto simp: run_idle_def)
  then have "i3_world.idle (ie v) good held U (held (dbh (reopened v hs (c_db c)))) (c\<lparr>c_db := reopened v hs (c_db c)\<rparr>)"
    using reopened_ok by (simp add: i3_world.idle_def [OF world] i3_world.ready_def [OF world])
  then show ?thesis by (auto simp: run_idle_def)
qed

lemma reset_idle:
  assumes "run_done H r r'"
  shows "run_idle (i3ctx_reset (r_ctx r'))"
proof -
  obtain c where p: "i3_world.processed_set (ie v) good held plain U H c" "i3_world.quiet c (r_ctx r')" and r: "run_ready (r_ctx r')"
    using assms by (auto simp: run_done_def)
  have "i3_world.inv (ie v) good held plain U H c" "i3stack c = []" using p(1) by (simp_all add: i3_world.processed_set_def [OF world])
  then have "tree (i3heap (r_ctx r')) []" using i3_world.invD(2) [OF world] p(2) by (metis i3_world.quiet_same(1) [OF world])
  then have "i3_world.idle (ie v) good held U (held (dbh (c_db (r_ctx r')))) (i3ctx_reset (r_ctx r'))"
    using r by (simp add: run_ready_def i3_world.idle_def [OF world] i3_world.ready_def [OF world] i3ctx_reset_def iset_new_def
      recnos_ok_def by_ptr_def by_nvr_def pkgmark_set_new_def pkgmark_isset_def)
  then show ?thesis by (auto simp: run_idle_def)
qed

lemma ts_install_loop_wp:
  assumes k: "card U < k" and n: "card U \<le> n"
  shows "run_idle (r_ctx r) \<Longrightarrow> set ps \<subseteq> U \<Longrightarrow> wp (ts_install_loop v k n particle ps nerr) (\<lambda>_ r'. run_idle (r_ctx r')) r"
proof (induction ps arbitrary: nerr r)
  case (Cons p ps)
  let ?Q = "\<lambda>_ r'. run_idle (r_ctx r')"
  have p: "p \<in> U" "set ps \<subseteq> U" using Cons.prems(2) by simp_all
  show ?case
    unfolding ts_install_loop.simps wp_seq [of "rd f" for f] wp_rd
  proof (rule wp_if, rule Cons.IH [OF Cons.prems(1) p(2)], unfold wp_seq [of "within sigint_reached"] wp_within)
    obtain H where i: "i3_world.idle (ie v) good held U H (r_ctx r)" using Cons.prems(1) by (auto simp: run_idle_def)
    show "wp sigint_reached (\<lambda>b c. wp (if b then ret (nerr, True)
     else seq (if particle then db_reopen v else ret ()) (\<lambda>_.
     seq (within (i3_mark_package (ie v) p PKGMARK_MARK)) (\<lambda>_.
       if \<not> particle then ts_install_loop v k n particle ps nerr
       else seq (within (i3_mark_namegroup (ie v) p)) (\<lambda>_.
            seq (install_packages v k n) (\<lambda>rc.
            seq (within (upd i3ctx_reset)) (\<lambda>_.
            ts_install_loop v k n particle ps (if rc = 0 then nerr + 1 else nerr))))))) ?Q (r\<lparr>r_ctx := c\<rparr>)) (r_ctx r)"
    proof (rule i3_world.sigint_idle [OF world i], rule wp_if)
      fix b c assume c: "i3_world.idle (ie v) good held U H c"
      then have c1: "run_idle c" by (auto simp: run_idle_def)
      then show "wp (ret (nerr, True)) ?Q (r\<lparr>r_ctx := c\<rparr>)" by simp
      have re: "wp (if particle then db_reopen v else ret ()) ?Q (r\<lparr>r_ctx := c\<rparr>)"
        using c1 idle_reopen [OF c1, of "handed r"] by (simp add: db_reopen_def)
      show "wp (seq (if particle then db_reopen v else ret ()) (\<lambda>_.
     seq (within (i3_mark_package (ie v) p PKGMARK_MARK)) (\<lambda>_.
       if \<not> particle then ts_install_loop v k n particle ps nerr
       else seq (within (i3_mark_namegroup (ie v) p)) (\<lambda>_.
            seq (install_packages v k n) (\<lambda>rc.
            seq (within (upd i3ctx_reset)) (\<lambda>_.
            ts_install_loop v k n particle ps (if rc = 0 then nerr + 1 else nerr))))))) ?Q (r\<lparr>r_ctx := c\<rparr>)"
        unfolding wp_seq [of "if particle then db_reopen v else ret ()"]
      proof (rule wp_mono [OF re])
        fix x :: unit and r1 :: "('s, 'h) irun" assume "run_idle (r_ctx r1)"
        then obtain H1 where i1: "i3_world.idle (ie v) good held U H1 (r_ctx r1)" by (auto simp: run_idle_def)
        show "wp (seq (within (i3_mark_package (ie v) p PKGMARK_MARK)) (\<lambda>_.
       if \<not> particle then ts_install_loop v k n particle ps nerr
       else seq (within (i3_mark_namegroup (ie v) p)) (\<lambda>_.
            seq (install_packages v k n) (\<lambda>rc.
            seq (within (upd i3ctx_reset)) (\<lambda>_.
            ts_install_loop v k n particle ps (if rc = 0 then nerr + 1 else nerr)))))) ?Q r1"
          unfolding wp_seq [of "within m" for m] wp_within
        proof (rule wp_mono [OF i3_world.mark_idle [OF world i1 p(1)]], rule wp_if)
          fix b2 :: bool and c2 assume c2: "i3_world.idle (ie v) good held U H1 c2"
          show "wp (ts_install_loop v k n particle ps nerr) ?Q (r1\<lparr>r_ctx := c2\<rparr>)"
            by (rule Cons.IH [OF _ p(2)]) (use c2 in \<open>auto simp: run_idle_def\<close>)
          show "wp (seq (within (i3_mark_namegroup (ie v) p)) (\<lambda>_.
            seq (install_packages v k n) (\<lambda>rc.
            seq (within (upd i3ctx_reset)) (\<lambda>_.
            ts_install_loop v k n particle ps (if rc = 0 then nerr + 1 else nerr))))) ?Q (r1\<lparr>r_ctx := c2\<rparr>)"
            unfolding wp_seq [of "within m" for m] wp_within
          proof (rule wp_mono, simp, rule i3_world.namegroup_idle [OF world c2], unfold wp_seq [of "install_packages v k n"])
            fix y :: nat and c3 assume c3: "i3_world.idle (ie v) good held U H1 c3"
            let ?r3 = "r1\<lparr>r_ctx := c2, r_ctx := c3\<rparr>"
            have "i3_world.idle (ie v) good held U H1 (r_ctx ?r3)" using c3 by simp
            from install_packages_wp [OF k n this]
            show "wp (install_packages v k n) (\<lambda>rc. wp (seq (within (upd i3ctx_reset)) (\<lambda>_.
               ts_install_loop v k n particle ps (if rc = 0 then nerr + 1 else nerr))) ?Q) ?r3"
            proof (rule wp_mono)
              fix rc :: int and r4 :: "('s, 'h) irun" assume "run_done H1 ?r3 r4"
              from reset_idle [OF this]
              show "wp (seq (within (upd i3ctx_reset)) (\<lambda>_.
               ts_install_loop v k n particle ps (if rc = 0 then nerr + 1 else nerr))) ?Q r4"
                unfolding wp_seq wp_within wp_upd by (intro Cons.IH [OF _ p(2)]) simp
            qed
          qed
        qed
      qed
    qed
  qed
qed simp

lemma run_ends:
  assumes k: "card U < k" and n: "card U \<le> n" and i: "run_idle (r_ctx r)"
  shows "wp (i3_do_poldek_ts_install v k n) (\<lambda>_ _. True) r"
proof -
  obtain H where i: "i3_world.idle (ie v) good held U H (r_ctx r)" using i by (auto simp: run_idle_def)
  show ?thesis
    unfolding i3_do_poldek_ts_install_def wp_seq [of "within m" for m] wp_within
  proof (rule wp_mono [OF i3_world.staysD [OF world i3_world.stays_pre [OF world refl] i]], elim conjE)
    fix x :: "int \<times> pkg list" and c assume c: "i3_world.idle (ie v) good held U H c" and x: "case x of (rc, pkgs) \<Rightarrow> set pkgs \<subseteq> U"
    obtain rc pkgs where xs: "x = (rc, pkgs)" by fastforce
    have pk: "set pkgs \<subseteq> U" using x xs by simp
    have c1: "run_idle (r_ctx (r\<lparr>r_ctx := c\<rparr>))" using c by (auto simp: run_idle_def)
    note l = wp_mono [OF ts_install_loop_wp [OF k n c1 pk]]
    have f: "wp (install_packages v k n) (\<lambda>_ _. True) r'" if h: "run_idle (r_ctx r')" for r' :: "('s, 'h) irun"
    proof -
      obtain H' where "i3_world.idle (ie v) good held U H' (r_ctx r')" using h by (auto simp: run_idle_def)
      from install_packages_wp [OF k n this] show ?thesis by (rule wp_mono) simp
    qed
    show "wp (case x of (rc, pkgs) \<Rightarrow> if rc \<le> 0 then ret (rc = 0)
     else let alone = (length pkgs = 1 \<or> o_test v \<or> o_rpmtest v \<or> o_justprint v \<or> o_justprint_n v);
              particle = (if testing_mode (ie v) then True else if alone then False else o_particle v)
          in seq (ts_install_loop v k n particle pkgs 0) (\<lambda>(nerr, left).
             if left \<or> particle then ret (nerr = 0)
             else seq (install_packages v k n) (\<lambda>rc. ret (rc \<noteq> 0)))) (\<lambda>_ _. True) (r\<lparr>r_ctx := c\<rparr>)"
      unfolding xs case_prod_conv Let_def
      by (rule wp_if, simp, unfold wp_seq [of "ts_install_loop a b c d e f" for a b c d e f], rule l)
        (auto simp: wp_seq_fun wp_ret_fun intro!: wp_if f split: prod.split)
  qed
qed

end

section \<open>All packages together\<close>

context i3_runs
begin

definition handed_well :: "'h pm_dbrec set \<Rightarrow> ('s, 'h) irun \<Rightarrow> ('s, 'h) irun \<Rightarrow> bool" where
  "handed_well H r r' \<longleftrightarrow> (\<exists>hs. handed r' = handed r @ hs \<and>
     (\<forall>mode ps outs. PmInstall mode ps outs \<in> set hs \<longrightarrow> may_install v (r_ctx r') \<and> install_order_of v (r_ctx r') ps \<and>
       (\<exists>c. i3_world.processed_set (ie v) good held plain U H c \<and> i3_world.quiet c (r_ctx r'))))"

lemma done_well: "run_done H r1 r' \<Longrightarrow> handed r1 = handed r \<Longrightarrow> handed_well H r r'"
  unfolding run_done_def handed_well_def by auto

lemma same_well: "handed r' = handed r \<Longrightarrow> handed_well H r r'"
  by (simp add: handed_well_def)

lemma loop_together_wp:
  "i3_world.idle (ie v) good held U H (r_ctx r) \<Longrightarrow> set ps \<subseteq> U \<Longrightarrow> wp (ts_install_loop v k n False ps nerr)
     (\<lambda>_ r'. i3_world.idle (ie v) good held U H (r_ctx r') \<and> handed r' = handed r) r"
proof (induction ps arbitrary: nerr r)
  case (Cons p ps)
  let ?Q = "\<lambda>_ r'. i3_world.idle (ie v) good held U H (r_ctx r') \<and> handed r' = handed r"
  have p: "p \<in> U" "set ps \<subseteq> U" using Cons.prems(2) by simp_all
  show ?case
    unfolding ts_install_loop.simps if_False not_False_eq_True if_True wp_seq [of "rd f" for f] wp_rd
  proof (rule wp_if, rule Cons.IH [OF Cons.prems(1) p(2)], unfold wp_seq [of "within sigint_reached"] wp_within)
    show "wp sigint_reached (\<lambda>b c. wp (if b then ret (nerr, True)
     else seq (ret ()) (\<lambda>_. seq (within (i3_mark_package (ie v) p PKGMARK_MARK)) (\<lambda>_.
       ts_install_loop v k n False ps nerr))) ?Q (r\<lparr>r_ctx := c\<rparr>)) (r_ctx r)"
    proof (rule i3_world.sigint_idle [OF world Cons.prems(1)], rule wp_if)
      fix b c assume c: "i3_world.idle (ie v) good held U H c"
      then show "wp (ret (nerr, True)) ?Q (r\<lparr>r_ctx := c\<rparr>)" by simp
      have "wp (within (i3_mark_package (ie v) p PKGMARK_MARK)) ?Q (r\<lparr>r_ctx := c\<rparr>)"
        using i3_world.mark_idle [OF world c p(1)] by simp
      then show "wp (seq (ret ()) (\<lambda>_. seq (within (i3_mark_package (ie v) p PKGMARK_MARK)) (\<lambda>_.
       ts_install_loop v k n False ps nerr))) ?Q (r\<lparr>r_ctx := c\<rparr>)"
        unfolding wp_seq wp_ret by (rule wp_mono) (use Cons.IH [OF _ p(2)] in fastforce)
    qed
  qed
qed simp

lemma run_well:
  assumes k: "card U < k" and n: "card U \<le> n" and i: "i3_world.idle (ie v) good held U H (r_ctx r)"
    and t: "\<not> testing_mode (ie v)" "\<not> o_particle v"
  shows "wp (i3_do_poldek_ts_install v k n) (\<lambda>_. handed_well H r) r"
  unfolding i3_do_poldek_ts_install_def wp_seq [of "within m" for m] wp_within
proof (rule wp_mono [OF i3_world.staysD [OF world i3_world.stays_pre [OF world refl] i]], elim conjE)
  fix x :: "int \<times> pkg list" and c assume c: "i3_world.idle (ie v) good held U H c" and x: "case x of (rc, pkgs) \<Rightarrow> set pkgs \<subseteq> U"
  obtain rc pkgs where xs: "x = (rc, pkgs)" by fastforce
  have pk: "set pkgs \<subseteq> U" using x xs by simp
  have c1: "i3_world.idle (ie v) good held U H (r_ctx (r\<lparr>r_ctx := c\<rparr>))" using c by simp
  have f: "wp (install_packages v k n) (\<lambda>_. handed_well H r) r'"
    if h: "i3_world.idle (ie v) good held U H (r_ctx r')" "handed r' = handed r" for r' :: "('s, 'h) irun"
    by (rule wp_mono [OF install_packages_wp [OF k n h(1)]]) (rule done_well [OF _ h(2)])
  have al: "(if testing_mode (ie v) then True else if alone then False else o_particle v) = False" for alone
    using t by simp
  show "wp (case x of (rc, pkgs) \<Rightarrow> if rc \<le> 0 then ret (rc = 0)
     else let alone = (length pkgs = 1 \<or> o_test v \<or> o_rpmtest v \<or> o_justprint v \<or> o_justprint_n v);
              particle = (if testing_mode (ie v) then True else if alone then False else o_particle v)
          in seq (ts_install_loop v k n particle pkgs 0) (\<lambda>(nerr, left).
             if left \<or> particle then ret (nerr = 0)
             else seq (install_packages v k n) (\<lambda>rc. ret (rc \<noteq> 0)))) (\<lambda>_. handed_well H r) (r\<lparr>r_ctx := c\<rparr>)"
    unfolding xs case_prod_conv Let_def al
    by (rule wp_if, simp add: same_well, unfold wp_seq [of "ts_install_loop a b c d e f" for a b c d e f],
        rule wp_mono [OF loop_together_wp [OF c1 pk]])
      (auto simp: wp_seq_fun wp_ret_fun same_well intro!: wp_if f split: prod.split)
qed

end

section \<open>The user's choice\<close>

text \<open>Of several packages of a name the first.\<close>

function first_of_name :: "pkg list \<Rightarrow> pkg list" where
  "first_of_name [] = []"
| "first_of_name (p # ps) = p # first_of_name (filter (\<lambda>q. name q \<noteq> name p) ps)"
  by pat_completeness auto

termination
  by (relation "measure length") (auto simp: less_Suc_eq_le)

lemma isset_zero: "\<not> pkgmark_isset pms p 0"
  by (simp add: pkgmark_isset_def split: option.split)

lemma unmark_all:
  assumes "by_nvr pms" "inj_on nvr A" "set ds \<subseteq> A" "q \<in> A"
  shows "by_nvr (foldl pkg_unmark pms ds) \<and> (pkg_is_marked (foldl pkg_unmark pms ds) q \<longleftrightarrow> pkg_is_marked pms q \<and> q \<notin> set ds)"
  using assms(1,3)
proof (induction ds arbitrary: pms)
  case (Cons d ds)
  have "nvr q = nvr d \<longleftrightarrow> q = d" using assms(2,4) Cons.prems(2) by (auto dest: inj_onD)
  then have "pkg_is_marked (pkg_unmark pms d) q \<longleftrightarrow> pkg_is_marked pms q \<and> q \<noteq> d"
    using Cons.prems(1) by (auto simp: pkg_unmark_def isset_clear isset_zero)
  then show ?case using Cons by (simp add: pkg_unmark_def)
qed simp

text \<open>Sorted by name, the packages of one name stand together.\<close>

lemma names_together:
  assumes "sorted_cmp pkg_cmp_name (p # ps)" "q \<in> set (dropWhile (\<lambda>q. name q = name p) ps)"
  shows "name q \<noteq> name p"
proof
  assume n: "name q = name p"
  obtain h rest where d: "dropWhile (\<lambda>q. name q = name p) ps = h # rest"
    using assms(2) by (cases "dropWhile (\<lambda>q. name q = name p) ps") auto
  have h: "name h \<noteq> name p" using hd_dropWhile [of "\<lambda>q. name q = name p" ps] d by simp
  have ps: "ps = takeWhile (\<lambda>q. name q = name p) ps @ h # rest" using d takeWhile_dropWhile_id by metis
  have "sorted_cmp pkg_cmp_name (h # rest)" "h \<in> set ps"
    using assms(1) by (subst (asm) ps, simp add: sorted_cmp_append) (subst ps, simp)
  then have "strcmp (name h) (name p) \<le> 0" "strcmp (name p) (name h) \<le> 0"
    using assms d n by (auto simp: pkg_cmp_name_def)
  then have "strcmp (name p) (name h) = 0" using strcmp.anti [of "name h" "name p"] by (auto simp: sgn_if split: if_splits)
  then show False using h by simp
qed

lemma unmark_loop_firsts:
  assumes "\<not> conf_MULTILIB (iE e)" and inj: "inj_on nvr A"
  shows "by_nvr pms \<Longrightarrow> set ps \<subseteq> A \<Longrightarrow> sorted_cmp pkg_cmp_name ps \<Longrightarrow> distinct ps \<Longrightarrow>
     unmark_loop e pms ps n = (m, pms') \<Longrightarrow>
     filter (pkg_is_marked pms') ps = first_of_name (filter (pkg_is_marked pms) ps) \<and>
     m = n + length (filter (pkg_is_marked pms') ps) \<and> (\<forall>q \<in> A - set ps. pkg_is_marked pms' q \<longleftrightarrow> pkg_is_marked pms q)"
proof (induction "length ps" arbitrary: pms ps n rule: less_induct)
  case less
  show ?case
  proof (cases ps)
    case (Cons p qs)
    have A: "p \<in> A" "set qs \<subseteq> A" "p \<notin> set qs" "distinct qs" using less.prems Cons by auto
    show ?thesis
    proof (cases "pkg_is_marked pms p")
      case False
      have "sorted_cmp pkg_cmp_name qs" "unmark_loop e pms qs n = (m, pms')" using less.prems(3,5) False Cons by simp_all
      from less.hyps [OF _ less.prems(1) A(2) this(1) A(4) this(2)] Cons A False show ?thesis by auto
    next
      case True
      let ?same = "\<lambda>q. name q = name p"
      let ?ds = "takeWhile ?same qs" and ?rest = "dropWhile ?same qs"
      let ?pms = "foldl pkg_unmark pms ?ds"
      have same: "package_is_duplicate e p = ?same"
        using assms(1) by (auto simp: package_is_duplicate_def pkg_cmp_name_def fun_eq_iff)
      have split: "qs = ?ds @ ?rest" by simp
      have fs: "filter P qs = filter P ?ds @ filter P ?rest" for P
        using filter_append [of P ?ds ?rest] by simp
      have sub: "set ?ds \<subseteq> A" "set ?rest \<subseteq> A" "set ?ds \<inter> set ?rest = {}" "distinct ?rest"
        using A(2,4) split by (metis set_append Un_subset_iff distinct_append)+
      note mk = unmark_all [OF less.prems(1) inj sub(1)]
      have so: "sorted_cmp pkg_cmp_name ?rest" using less.prems(3) Cons split by (metis sorted_cmp.simps(2) sorted_cmp_append)
      have lp: "unmark_loop e ?pms ?rest (n + 1) = (m, pms')" using less.prems(5) True Cons same by simp
      have "length ?rest < length ps" using Cons length_dropWhile_le [of ?same qs] by simp
      from less.hyps [OF this _ sub(2) so sub(4) lp] mk [OF A(1)]
      have ih: "filter (pkg_is_marked pms') ?rest = first_of_name (filter (pkg_is_marked ?pms) ?rest)"
        "m = n + 1 + length (filter (pkg_is_marked pms') ?rest)" "\<forall>q \<in> A - set ?rest. pkg_is_marked pms' q \<longleftrightarrow> pkg_is_marked ?pms q"
        by simp_all
      have pr: "p \<notin> set ?rest" "p \<notin> set ?ds" using A(3) by (auto dest: set_dropWhileD set_takeWhileD)
      have p': "pkg_is_marked pms' p" using ih(3) mk [OF A(1)] A(1) pr True by simp
      have ds': "\<not> pkg_is_marked pms' d" if "d \<in> set ?ds" for d
        using ih(3) mk [of d] sub(1,3) that by blast
      have rest: "pkg_is_marked ?pms q \<longleftrightarrow> pkg_is_marked pms q" if "q \<in> set ?rest" for q
        using mk [of q] sub(2,3) that by blast
      have "filter (\<lambda>q. name q \<noteq> name p) (filter (pkg_is_marked pms) qs) = filter (pkg_is_marked ?pms) ?rest"
      proof -
        have "filter (\<lambda>q. name q \<noteq> name p) (filter (pkg_is_marked pms) ?ds) = []"
          by (auto simp: filter_empty_conv dest: set_takeWhileD)
        moreover have "filter (\<lambda>q. name q \<noteq> name p) (filter (pkg_is_marked pms) ?rest) = filter (pkg_is_marked ?pms) ?rest"
          unfolding filter_filter
        proof (rule filter_cong [OF refl])
          fix q assume q: "q \<in> set ?rest"
          then show "(pkg_is_marked pms q \<and> name q \<noteq> name p) = pkg_is_marked ?pms q"
            using names_together [OF less.prems(3) [unfolded Cons] q] rest [OF q] by blast
        qed
        ultimately show ?thesis by (simp only: fs filter_append append_Nil)
      qed
      moreover have "filter (pkg_is_marked pms') qs = filter (pkg_is_marked pms') ?rest"
        using ds' by (simp add: fs filter_empty_conv)
      moreover have "pkg_is_marked pms' q \<longleftrightarrow> pkg_is_marked pms q" if "q \<in> A - set ps" for q
        using ih(3) mk [of q] that Cons by (auto dest: set_dropWhileD set_takeWhileD)
      ultimately show ?thesis using Cons True p' ih(1,2) by simp
    qed
  qed (use less.prems in simp)
qed

section \<open>A small world\<close>

definition ref_i3env :: "(pm_psetdb, pkg) i3env" where
  "ref_i3env = \<lparr>iE = ref_env, iP = ref_psenv, iR = arch_registry_init, iD = no_dirix, iM = ref_module,
     ts_upgrade = True, ts_downgrade = False, ts_reinstall = False, ts_upgradedist = False,
     o_freshen = False, o_force = False, o_multiinst = False, o_hold = False, o_follow = True, o_greedy = False,
     o_obsoletes = True, o_conflicts = True, o_mercy = False, o_allowdups = False, o_suggests = False, o_askuser = False,
     o_multilib = False, sugs_of = (\<lambda>_. None), pkg_held = (\<lambda>_. False), hdr_arch_color = (\<lambda>_. (None, 0)),
     ask_equiv = (\<lambda>_ _ _ _ _. 0), ask_suggests = (\<lambda>_ _ ss. (1, ss)), str_tokl = (\<lambda>s. [s]), null_free_ok = True,
     testing_mode = False, test_multilib_crash = None, test_with_suggests = None\<rparr>"

text \<open>Whatever is handed over succeeds, the database opened anew is the same.\<close>

definition ref_ienv :: "(pm_psetdb, pkg) ienv" where
  "ref_ienv = \<lparr>ie = ref_i3env, os_reg = \<lparr>os_a = [], os_h = (\<lambda>_. None), last_os = None\<rparr>,
     machine_score = (\<lambda>_ _. 1), fn_match = (=), repo_of = (\<lambda>_. None), hold_patterns = None, resolved_caps = [],
     order_flags = (\<lambda>_. 0), answer = (\<lambda>_ _. 1), reopened = (\<lambda>_ db. db), o_nodeps = False, o_rpmtest = False,
     o_test = False, o_justprint = False, o_justprint_n = False, o_justfetch = False, o_nofetch = False,
     o_keep_downloads = False, o_ignorearch = False, o_ignoreos = False, o_particle = False, ts_track = False,
     fetchdir = None, cachedir = ''cache''\<rparr>"

interpretation ref_world: i3_world ref_i3env "pset_good ref_env ref_psenv" pset_held pset_plain U H
  for U H
  by (rule i3_world.intro) (simp add: ref_i3env_def ref_ps.pset_pm_db)

interpretation ref_runs: i3_runs ref_ienv "pset_good ref_env ref_psenv" pset_held pset_plain U
  for U
  by (intro i3_runs.intro i3_runs_axioms.intro) (simp_all add: ref_ienv_def ref_i3env_def ref_ps.pset_pm_db)

lemma ref_avail_ready:
  assumes "distinct (map addr pkgs)" "list_all (\<lambda>p. small_addr p \<and> nonneg32 (epoch p)) pkgs"
    "list_all (\<lambda>p. list_all (\<lambda>q. pkg_cmp_name_evr ref_env p q = 0 \<longrightarrow> addr p = addr q) pkgs) pkgs"
  shows "ps_ready ref_env ref_psenv (pkgset_index_reqs (ref_set pkgs))"
proof -
  have "p = q" if "p \<in> set pkgs" "q \<in> set pkgs" "pkg_cmp_name_evr ref_env p q = 0" for p q
    using assms that unfolding list_all_iff distinct_map inj_on_def by blast
  then have "pkgs_ok ref_env pkgs" using assms(1,2) by (simp add: pkgs_ok_def list_all_iff)
  then show ?thesis
    unfolding ref_set_def by (intro indexes_ready) (simp_all add: pkgset_new_def ref_psenv_def)
qed

definition app_lib :: "pkg list" where
  "app_lib = [ref_pkg 3 ''app'' [] [ref_cap ''lib''], ref_pkg 4 ''lib'' [] []]"

definition app_marked :: pmark_set where
  "app_marked = pkg_hand_mark (pkgmark_set_new None 0) (hd app_lib)"

abbreviation app_start :: "(pm_psetdb, pkg) irun" where
  "app_start \<equiv> irun_init (ref_db []) (pkgset_index_reqs (ref_set app_lib)) app_marked None"

lemma app_lib_ready:
  "ps_ready (iE (ie ref_ienv)) (iP (ie ref_ienv)) (pkgset_index_reqs (ref_set app_lib))"
  "db_ok (pset_good ref_env ref_psenv) (ref_db [])"
  "pm_db (iE (ie ref_ienv)) (iP (ie ref_ienv)) (iM (ie ref_ienv)) (pset_good ref_env ref_psenv) pset_held pset_plain"
  "card (set (ps_pkgs (pkgset_index_reqs (ref_set app_lib)))) < 3" "card (set (ps_pkgs (pkgset_index_reqs (ref_set app_lib)))) \<le> 2"
proof -
  have "distinct (map addr app_lib) \<and>
    list_all (\<lambda>p. list_all (\<lambda>q. pkg_cmp_name_evr ref_env p q = 0 \<longrightarrow> addr p = addr q) app_lib) app_lib"
    by code_simp
  moreover have "list_all (\<lambda>p. small_addr p \<and> nonneg32 (epoch p)) app_lib"
    by (simp add: app_lib_def small_addr_def nonneg32_def)
  ultimately show "ps_ready (iE (ie ref_ienv)) (iP (ie ref_ienv)) (pkgset_index_reqs (ref_set app_lib))"
    using ref_avail_ready by (simp add: ref_ienv_def ref_i3env_def)
  have "ref_installed_ok []" by code_simp
  from ref_installed_good [OF this] show "db_ok (pset_good ref_env ref_psenv) (ref_db [])" by (simp add: db_ok_def)
  show "pm_db (iE (ie ref_ienv)) (iP (ie ref_ienv)) (iM (ie ref_ienv)) (pset_good ref_env ref_psenv) pset_held pset_plain"
    by (simp add: ref_ienv_def ref_i3env_def ref_ps.pset_pm_db)
  have "length (ps_pkgs (pkgset_index_reqs (ref_set app_lib))) = 2" by code_simp
  then show "card (set (ps_pkgs (pkgset_index_reqs (ref_set app_lib)))) < 3" "card (set (ps_pkgs (pkgset_index_reqs (ref_set app_lib)))) \<le> 2"
    using card_length [of "ps_pkgs (pkgset_index_reqs (ref_set app_lib))"] by linarith+
qed

text \<open>Installing \<open>app\<close> brings \<open>lib\<close>, which it requires, along; the two go to the package manager.\<close>

lemma app_run:
  "case i3_do_poldek_ts_install ref_ienv 3 2 app_start of
     Inl _ \<Rightarrow> False
   | Inr (ok, r) \<Rightarrow> ok \<and> nothing_wrong (set (ps_pkgs (pkgset_index_reqs (ref_set app_lib)))) (r_ctx r) \<and>
       map (\<lambda>h. case h of PmInstall mode ps outs \<Rightarrow> map name ps | _ \<Rightarrow> []) (handed r) = [[], [], [''lib'', ''app''], []]"
  by code_simp

lemma app_run_handed:
  obtains r mode pkgs outs where "i3_do_poldek_ts_install ref_ienv 3 2 app_start = Inr (True, r)"
    "nothing_wrong (set (ps_pkgs (pkgset_index_reqs (ref_set app_lib)))) (r_ctx r)"
    "PmInstall mode pkgs outs \<in> set (handed r)" "map name pkgs = [''lib'', ''app'']"
proof -
  obtain ok r where r: "i3_do_poldek_ts_install ref_ienv 3 2 app_start = Inr (ok, r)" "ok"
    "nothing_wrong (set (ps_pkgs (pkgset_index_reqs (ref_set app_lib)))) (r_ctx r)"
    "map (\<lambda>h. case h of PmInstall mode ps outs \<Rightarrow> map name ps | _ \<Rightarrow> []) (handed r) = [[], [], [''lib'', ''app''], []]"
    using app_run by (auto split: sum.splits)
  have "[''lib'', ''app''] \<in> set (map (\<lambda>h. case h of PmInstall mode ps outs \<Rightarrow> map name ps | _ \<Rightarrow> []) (handed r))"
    unfolding r(4) by simp
  then obtain h where h: "h \<in> set (handed r)" "[''lib'', ''app''] = (case h of PmInstall mode ps outs \<Rightarrow> map name ps | _ \<Rightarrow> [])"
    by auto
  from h(2) have "\<exists>mode pkgs outs. h = PmInstall mode pkgs outs \<and> map name pkgs = [''lib'', ''app'']" by (cases h) simp_all
  then show thesis using that r h(1) by auto
qed

section \<open>Properties\<close>

text \<open>C2: An installation run ends: with fuel for as many retries as there are available packages and one
  more, and a depth of as many, no recursion, loop or rollback of it runs out of fuel, whatever is
  required, obsoleted or in conflict, whatever the user and the package manager answer, and whatever
  is installed by the time the database is opened anew. What remains besides returning is a failed assertion.\<close>

theorem install_run_ends:
  assumes "pm_db (iE (ie v)) (iP (ie v)) (iM (ie v)) good held plain"
    and "\<And>hs db. db_ok good db \<Longrightarrow> db_ok good (reopened v hs db)"
    and "ps_ready (iE (ie v)) (iP (ie v)) ps" and "db_ok good db"
    and "card (set (ps_pkgs ps)) < k" and "card (set (ps_pkgs ps)) \<le> n"
  shows "i3_do_poldek_ts_install v k n (irun_init db ps pms sig) \<noteq> Inl OutOfFuel"
proof -
  have w: "i3_runs v good held plain" by (intro i3_runs.intro i3_runs_axioms.intro assms(1,2))
  have "i3_world.idle (ie v) good held (set (ps_pkgs ps)) (held (dbh db)) (r_ctx (irun_init db ps pms sig))"
    unfolding irun_init_def irun.simps
    by (rule i3_world.idle_init [OF i3_runs.world [OF w] assms(3) refl assms(4) refl])
  then have "i3_runs.run_idle v good held (set (ps_pkgs ps)) (r_ctx (irun_init db ps pms sig))"
    unfolding i3_runs.run_idle_def [OF w] by blast
  from wp_fuel [OF i3_runs.run_ends [OF w assms(5,6) this]] show ?thesis .
qed

theorem install_run_ends_witness:
  "i3_do_poldek_ts_install ref_ienv 3 2 app_start \<noteq> Inl OutOfFuel"
  by (rule install_run_ends [OF app_lib_ready(3) _ app_lib_ready(1,2,4,5)]) (simp add: ref_ienv_def)

text \<open>C1: When an installation of all packages together hands packages to the package manager and nothing
  has gone wrong - no error, no abort, no signal, no package given up - then they are the installation
  set in an order of installation, and every package of the set has what it requires by name: an
  installed package provides it, the package manager itself does, or an available package of the set
  that fits.\<close>

theorem installed_set_closed:
  assumes "pm_db (iE (ie v)) (iP (ie v)) (iM (ie v)) good held plain"
    and "\<And>hs db. db_ok good db \<Longrightarrow> db_ok good (reopened v hs db)"
    and "ps_ready (iE (ie v)) (iP (ie v)) ps" and "db_ok good db"
    and "card (set (ps_pkgs ps)) < k" and "card (set (ps_pkgs ps)) \<le> n"
    and "\<not> testing_mode (ie v)" and "\<not> o_particle v"
    and "i3_do_poldek_ts_install v k n (irun_init db ps pms sig) = Inr (ok, r)"
    and "PmInstall mode pkgs outs \<in> set (handed r)" and "nothing_wrong (set (ps_pkgs ps)) (r_ctx r)"
  shows "install_order_of v (r_ctx r) pkgs \<and>
    (\<forall>p \<in> set (is_pkgs (inset (r_ctx r))). \<forall>req \<in> set (map fst (pkg_req_iter (iD (ie v)) p [] PKG_ITER_REQIN)).
       name_req (ie v) plain req \<longrightarrow>
         (\<exists>d \<in> held (dbh db). header_cap_match_req (iE (ie v)) (iM (ie v)) (db_hdr d) req (ma_flags_of (ie v) OR MA_PROMOTE_CAPEPOCH) \<noteq> 0) \<or>
         pm_satisfies (iP (ie v)) req \<or>
         (\<exists>q \<in> set (ps_pkgs ps). provides_name (cr_name req) q \<and> fits_req (iE (ie v)) req True q \<and> i3_is_marked (r_ctx r) q))"
proof -
  let ?U = "set (ps_pkgs ps)" and ?H = "held (dbh db)"
  have w: "i3_runs v good held plain" by (intro i3_runs.intro i3_runs_axioms.intro assms(1,2))
  note world = i3_runs.world [OF w]
  have i: "i3_world.idle (ie v) good held ?U ?H (r_ctx (irun_init db ps pms sig))"
    unfolding irun_init_def irun.simps
    by (rule i3_world.idle_init [OF world assms(3) refl assms(4) refl])
  have "i3_runs.handed_well v good held plain ?U ?H (irun_init db ps pms sig) r"
    by (rule wp_result [OF i3_runs.run_well [OF w assms(5,6) i assms(7,8)] assms(9)])
  then obtain c where c: "install_order_of v (r_ctx r) pkgs" "i3_world.processed_set (ie v) good held plain ?U ?H c" "i3_world.quiet c (r_ctx r)"
    using assms(10) unfolding i3_runs.handed_well_def [OF w] by (auto simp: irun_init_def)
  note q = i3_world.quiet_same [OF world c(3)]
  have clean: "i3_world.clean ?U c"
    using i3_world.quiet_clean [OF world c(3)] assms(11) i3_world.clean_nothing [OF world] by blast
  have "(\<exists>d \<in> ?H. header_cap_match_req (iE (ie v)) (iM (ie v)) (db_hdr d) req (ma_flags_of (ie v) OR MA_PROMOTE_CAPEPOCH) \<noteq> 0) \<or>
         pm_satisfies (iP (ie v)) req \<or>
         (\<exists>q \<in> ?U. provides_name (cr_name req) q \<and> fits_req (iE (ie v)) req True q \<and> i3_is_marked (r_ctx r) q)"
    if "p \<in> set (is_pkgs (inset (r_ctx r)))" "req \<in> set (map fst (pkg_req_iter (iD (ie v)) p [] PKG_ITER_REQIN))" "name_req (ie v) plain req"
    for p req
  proof -
    have "req \<in> i3_world.wanted (ie v) plain p"
      using that(2,3) by (auto simp: i3_world.wanted_def [OF world] i3_world.plain_req_def [OF world] name_req_def)
    from i3_world.processed_served [OF world c(2) clean _ this] show ?thesis
      using that(1) q(5,8) by (auto simp: i3_world.in_db_def [OF world] i3_world.fits_def [OF world])
  qed
  then show ?thesis using c(1) by blast
qed

theorem installed_set_closed_witness:
  "\<exists>r mode pkgs outs. i3_do_poldek_ts_install ref_ienv 3 2 app_start = Inr (True, r) \<and>
     PmInstall mode pkgs outs \<in> set (handed r) \<and> map name pkgs = [''lib'', ''app''] \<and> install_order_of ref_ienv (r_ctx r) pkgs"
proof -
  obtain r mode pkgs outs where r: "i3_do_poldek_ts_install ref_ienv 3 2 app_start = Inr (True, r)"
    "nothing_wrong (set (ps_pkgs (pkgset_index_reqs (ref_set app_lib)))) (r_ctx r)"
    "PmInstall mode pkgs outs \<in> set (handed r)" "map name pkgs = [''lib'', ''app'']"
    by (rule app_run_handed)
  have o: "\<not> testing_mode (ie ref_ienv)" "\<not> o_particle ref_ienv" by (simp_all add: ref_ienv_def ref_i3env_def)
  have "install_order_of ref_ienv (r_ctx r) pkgs"
    by (rule conjunct1 [OF installed_set_closed [OF app_lib_ready(3) _ app_lib_ready(1,2,4,5) o r(1,3,2)]]) (simp add: ref_ienv_def)
  from r(1) r(3) r(4) this show ?thesis by (intro exI conjI)
qed






end
