(* ===== verification/Spec2Isabelle.thy ===== *)
theory Spec2Isabelle
  imports Booldep Capreq_Store Pkgset_State Uninstall I3runs
begin

text \<open>
  A verification library for poldek, a package manager on top of RPM.

  \<^bold>\<open>The program and what is modelled.\<close> poldek reads package indexes into a set of packages,
  resolves the requirements of the packages against it, works out what to install in which
  order, and removes packages from the database of what is installed. The library models that
  core, file by file:

  \<^item> \<open>Prelude\<close>: machine integers, C strings, and the contracts of comparison, sorting and search.
  \<^item> \<open>Pkgmisc\<close>: the parsers of version texts (pkgmisc.c).
  \<^item> \<open>Capreq\<close>, \<open>Capreq_Order\<close>, \<open>Capreq_Store\<close>: capabilities and requirements (capreq.c, capreq.h).
    A \<open>struct capreq\<close> is a record with the same one-byte offsets into a byte buffer;
    construction, cloning, printing, comparison, sorted arrays, and the byte image in package
    indexes with the splitting of records over 255 bytes.
  \<^item> \<open>Pkg\<close>, \<open>Pkgcmp\<close>, \<open>Match\<close>: packages (pkg.c, pkg.h), their comparison functions (pkgcmp.c) and
    the matching of capabilities and packages against requirements (the other half of pkg.c).
    A package is a value whose field \<open>addr\<close> stands for its pointer.
  \<^item> \<open>Pkgfl\<close>: file lists and their byte image (pkgfl.c), the iterators over the capabilities,
    requirements and files of a package (pkgiter.c), and whether a package has a path.
  \<^item> \<open>Booldep\<close>: the parser and the evaluation of rich dependencies (booldep_parse.c,
    booldep_eval.c).
  \<^item> \<open>Capreq_Idx\<close>: the index from names to packages (capreqidx.c).
  \<^item> \<open>Pkgset\<close>, \<open>Pkgset_Req\<close>, \<open>Pkgset_Dep\<close>, \<open>Pkgset_Order\<close>, \<open>Pkgset_State\<close>: the package set with its
    lazily built indexes (pkgset.c, fileindex.c), the resolution of a requirement (pkgset-req.c),
    the required, conflicting and requiring packages with their caches (pkgset-dep.c), the
    installation order (pkgset-order.c), and the set as a state machine whose steps are those
    operations.
  \<^item> \<open>Pkgmark\<close>: marks on packages and the marking of what a selection requires (pkgmark.c).
  \<^item> \<open>Pkgdb\<close>, \<open>Pset\<close>: the database of installed packages over a module of the package manager
    (pkgdb.c, pm/mod.h), and the module that serves a package set as such a database
    (pm/pset/pset.c).
  \<^item> \<open>Uninstall\<close>: what is removed when packages are uninstalled (uninstall.c).
  \<^item> \<open>Iset\<close>, \<open>I3ctx\<close>, \<open>I3\<close>, \<open>I3inst\<close>: the installation engine, install3/. \<open>Iset\<close> has the sets of
    packages to install and to remove (iset.c), \<open>I3ctx\<close> the engine's state, errors, questions,
    scoring of candidates and marking (ictx.c, misc.c, mark.c), \<open>I3\<close> the processing of a package with
    its requirements, the packages it obsoletes, the orphans these leave and its conflicts, and the
    giving up of a choice (process.c, requirements.c, obsoletes.c, conflicts.c), \<open>I3inst\<close> the runs,
    from what the user has marked to what the package manager is handed (preinstall.c, install.c).
  \<^item> \<open>I3wp\<close>, \<open>I3quiet\<close>, \<open>I3inv\<close>, \<open>I3run\<close>, \<open>I3proc\<close>, \<open>I3done\<close>, \<open>I3runs\<close>: the verification of the engine:
    a weakest precondition of its operations, what mere questions leave alone, the invariant, the
    steps with giving up, the recursion, what holds when all packages are processed, and whole runs.

  State is passed explicitly: an operation that sorts an array, builds an index or fills a cache
  returns the changed value; the engine's operations are functions from a state to a fault or an
  answer and a state, put together by \<open>seq\<close>. Flag words and offsets are words of their C width and wrap; lengths
  are natural numbers. Errors are values: \<open>None\<close>, or a sum with a data type of faults.

  \<^bold>\<open>Parameters.\<close> librpm's version comparison, the arrays, hashes and buffers of the trurlib
  submodule, the directory indexes kept by tndb and the configuration are the fields of \<open>penv\<close>,
  \<open>psenv\<close>, \<open>nbio\<close>, \<open>flio\<close> and \<open>dirix\<close>; their documented behaviour is stated by the locales
  \<open>cmp_order\<close>, \<open>sorted_arrays\<close>, \<open>pm_env\<close>, \<open>ps_env\<close>, \<open>nbuf_io\<close>, \<open>pkgfl_io\<close>. \<open>ref_env\<close>, \<open>ref_psenv\<close>,
  \<open>ref_io\<close>, \<open>ref_flio\<close> and \<open>no_dirix\<close> satisfy them and serve as concrete inputs. The engine's
  surroundings are \<open>i3env\<close> and \<open>ienv\<close>: the switches, the user's answers, the package manager's
  opinion of architectures, \<open>fnmatch\<close>, what becomes of what is handed over (\<open>answer\<close>) and what is
  installed when the database is opened again (\<open>reopened\<close>), of which the theorems assume only that
  it is a database in order; \<open>ref_i3env\<close> and \<open>ref_ienv\<close> are concrete ones.

  \<^bold>\<open>Interfaces between components.\<close> Five locales are contracts of one part of the program with
  another, and the code's own operations are their interpretations:

  \<^item> \<open>req_source\<close>: what the ordering needs of the operation that lists the packages a package
    requires; \<open>pkgset_get_required_packages\<close> provides it.
  \<^item> \<open>mark_source\<close>: what the marking needs of that operation and of the one that lists the
    requirements nothing meets; the package set provides both (\<open>ps_env\<close> is a sublocale).
  \<^item> \<open>pm_db\<close>: what pkgdb.c needs of a package manager's module, that a search by a capability
    finds the records that have it, that a header read gives the package, that an iterator ends;
    \<open>pset_module\<close> provides it (again for every \<open>ps_env\<close>). \<open>pkgdb_match_req\<close> and the uninstallation
    are verified against the contract, and \<open>ref_db\<close>, \<open>ref_loaded\<close> are databases in which the
    theorems are applied.
  \<^item> \<open>i3_world\<close>: what the engine needs around it, a database under the contract \<open>pm_db\<close> and a set of
    available packages; \<open>i3_runs\<close> extends it to runs, in which the database is opened again. Both are
    interpreted, as \<open>ref_world\<close> and \<open>ref_runs\<close>, on the module \<open>pset\<close>.

  \<^bold>\<open>What the theorems show.\<close> That comparators are orders and searches exact; that texts, byte
  images, file lists and rich dependencies survive printing and parsing; that the evaluation of
  rich dependencies implements an abstract plan and picks a cheapest one; that matching means what
  the relation of a requirement says; that the capability index is complete, in every reachable
  set, and resolution exact; that the groups of required packages are those the requirements ask
  for; that the order is a permutation in which packages follow what they pre-require; that a
  marking ends with a selection closed under requirements or with the unmet ones counted; that the
  database answers a requirement exactly when an installed package satisfies it; that what stays
  installed after an uninstallation has all it had, and that nothing needed keeps what was asked
  to be removed; that an installation always ends, that the set it hands over is closed under
  requirements when nothing has gone wrong, and that errors, a foreign architecture and the modes for
  testing and listing keep it from the package manager. That closure counts as provided what an
  installed package provides, also one the same run replaces: what such a package leaves without a
  provider is looked for by the processing of orphans, and the theorem does not speak of it. Several theorems document faults of the code at concrete inputs.

  \<^bold>\<open>Bounds and fuel.\<close> \<open>capreq_store\<close> recurses to depth 2 (lemma \<open>store_depth\<close>); \<open>visit_install_order\<close>
  gets the number of packages as fuel, and \<open>do_order_ok\<close> shows that it never runs out; the visits
  of \<open>packages_mark\<close> get one more than the packages there are, since a visit marks its package
  first; \<open>process_package\<close> of the uninstallation gets one more than the packages installed, since
  every call adds one of them to the ones to remove. The engine gets \<open>k\<close>, how often
  the requirements of a package may be gone through again, each time because a package has been given
  up and blackened, and \<open>n\<close>, how deep packages may ask for packages, each level of which marks one
  gray; the theorems ask for more than, and as many as, there are available packages. A package is given up with one more than the packages
  under processing ever made as fuel, which \<open>install_run_ends\<close> shows to be enough as well. \<open>split_from\<close> is a partial function because the
  loop of the code need not end.

  \<^bold>\<open>Not modelled.\<close> Memory management and reference counts, logging, the configuration files, the
  command line client, downloads, the package directories on disk and the calls into librpm. Of the
  installation runs the summary shown to the user and the numbering of sets are left out, and closing
  the database is part of opening it again.
\<close>

end
